(* ===== verification/Prelude.thy ===== *)
theory Prelude
  imports
    Complex_Main
    "HOL-Library.List_Lexorder"
    "HOL-Library.Char_ord"
    "HOL-Library.Product_Lexorder"
    "HOL-Library.AList"
    "HOL-Library.Multiset"
begin

text \<open>
  Shared vocabulary of the development: the errors the Python code raises as values
  (\<open>pyerr\<close>, \<open>'a res\<close>), insertion-ordered dictionaries as association lists, decimal digits
  and the few string operations the code uses, and the numeric contract that several
  modules implement on their own: half-even rounding of a quotient (locale \<open>half_even\<close>). Every generic lemma the component
  theories share is here, collected in \<open>res_simps\<close> and \<open>dict_simps\<close> where it is a rewrite rule.
\<close>

named_theorems res_simps \<open>rewrite rules for the error monad\<close>
named_theorems dict_simps \<open>rewrite rules for insertion-ordered dictionaries\<close>

section \<open>Errors as values\<close>

text \<open>
  The exception classes the modelled code raises. Messages are content-free by design of the
  program and are left out; the class is what callers dispatch on.
\<close>

datatype pyerr =
    TypeError | ValueError | AssertionError | KeyError | IndexError
  | DecInexact | DecInvalid | DecOverflow | DecDivisionByZero
  | ContractViolation | UsageError | PricingError | PrivacyError | AttributeError

type_synonym 'a res = "pyerr + 'a"

definition rbind :: "'a res \<Rightarrow> ('a \<Rightarrow> 'b res) \<Rightarrow> 'b res" where
  "rbind m f = (case m of Inl e \<Rightarrow> Inl e | Inr x \<Rightarrow> f x)"

definition guard :: "bool \<Rightarrow> pyerr \<Rightarrow> unit res" where
  "guard b e = (if b then Inr () else Inl e)"

definition rsat :: "('a \<Rightarrow> bool) \<Rightarrow> 'a res \<Rightarrow> bool" where
  "rsat P r = (case r of Inl _ \<Rightarrow> True | Inr x \<Rightarrow> P x)"

definition returns :: "'a res \<Rightarrow> bool" where
  "returns r = (case r of Inl _ \<Rightarrow> False | Inr _ \<Rightarrow> True)"

fun rmap :: "('a \<Rightarrow> 'b res) \<Rightarrow> 'a list \<Rightarrow> 'b list res" where
  "rmap f [] = Inr []"
| "rmap f (x # xs) = rbind (f x) (\<lambda>y. rbind (rmap f xs) (\<lambda>ys. Inr (y # ys)))"

fun rfold :: "('b \<Rightarrow> 'a \<Rightarrow> 'b res) \<Rightarrow> 'b \<Rightarrow> 'a list \<Rightarrow> 'b res" where
  "rfold f b [] = Inr b"
| "rfold f b (x # xs) = rbind (f b x) (\<lambda>b'. rfold f b' xs)"

section \<open>Decimal digits and strings\<close>

definition dig :: "nat \<Rightarrow> char" where
  "dig d = ''0123456789'' ! d"

fun index_of :: "'a list \<Rightarrow> 'a \<Rightarrow> nat option" where
  "index_of [] x = None"
| "index_of (y # ys) x = (if x = y then Some 0 else map_option Suc (index_of ys x))"

definition undig :: "char \<Rightarrow> nat option" where
  "undig c = index_of ''0123456789'' c"

definition is_digit :: "char \<Rightarrow> bool" where
  "is_digit c = (undig c \<noteq> None)"

fun show_nat :: "nat \<Rightarrow> string" where
  "show_nat n = (if n < 10 then [dig n] else show_nat (n div 10) @ [dig (n mod 10)])"

fun read_digits :: "nat \<Rightarrow> string \<Rightarrow> nat" where
  "read_digits a [] = a"
| "read_digits a (c # cs) = read_digits (10 * a + (case undig c of Some d \<Rightarrow> d | None \<Rightarrow> 0)) cs"

definition read_nat :: "string \<Rightarrow> nat" where
  "read_nat = read_digits 0"

definition show_int :: "int \<Rightarrow> string" where
  "show_int i = (if i < 0 then ''-'' else '''') @ show_nat (nat \<bar>i\<bar>)"

text \<open>The number of decimal digits of a coefficient; Python writes zero as one digit.\<close>

fun ndig :: "nat \<Rightarrow> nat" where
  "ndig n = (if n < 10 then 1 else Suc (ndig (n div 10)))"

declare show_nat.simps [simp del] ndig.simps [simp del]

definition rjust :: "nat \<Rightarrow> char \<Rightarrow> string \<Rightarrow> string" where
  "rjust w c s = replicate (w - length s) c @ s"

definition rstrip_char :: "char \<Rightarrow> string \<Rightarrow> string" where
  "rstrip_char c s = rev (dropWhile (\<lambda>x. x = c) (rev s))"

definition is_space :: "char \<Rightarrow> bool" where
  "is_space c = (let n = (of_char c :: nat) in n = 32 \<or> (9 \<le> n \<and> n \<le> 13) \<or> (28 \<le> n \<and> n \<le> 31) \<or>
     n = 133 \<or> n = 160)"

text \<open>Strings are lists of Latin-1 characters; lower case is that of Python on them.\<close>

definition lower :: "char \<Rightarrow> char" where
  "lower c = (let n = (of_char c :: nat)
     in if (65 \<le> n \<and> n \<le> 90) \<or> (192 \<le> n \<and> n \<le> 222 \<and> n \<noteq> 215) then char_of (n + 32) else c)"

fun split_on :: "char \<Rightarrow> string \<Rightarrow> string list" where
  "split_on sep [] = [[]]"
| "split_on sep (c # cs) =
     (if c = sep then [] # split_on sep cs
      else case split_on sep cs of [] \<Rightarrow> [[c]] | p # ps \<Rightarrow> (c # p) # ps)"

fun contains :: "string \<Rightarrow> string \<Rightarrow> bool" where
  "contains [] t = (t = [])"
| "contains (c # cs) t = (take (length t) (c # cs) = t \<or> contains cs t)"

definition endswith :: "string \<Rightarrow> string \<Rightarrow> bool" where
  "endswith s t = (length t \<le> length s \<and> drop (length s - length t) s = t)"

text \<open>\<open>s.split()\<close>: the maximal runs of non-blank characters.\<close>

function words :: "string \<Rightarrow> string list" where
  "words s = (let t = dropWhile is_space s
     in if t = [] then [] else takeWhile (\<lambda>c. \<not> is_space c) t # words (dropWhile (\<lambda>c. \<not> is_space c) t))"
  by pat_completeness auto
termination
proof (relation "measure length", simp)
  fix s t :: string
  assume t: "t = dropWhile is_space s" "t \<noteq> []"
  then have "\<not> is_space (hd t)" using hd_dropWhile by blast
  then have "length (dropWhile (\<lambda>c. \<not> is_space c) t) < length t"
    using t(2) by (cases t) (auto simp: le_imp_less_Suc length_dropWhile_le)
  also have "length t \<le> length s" using t(1) length_dropWhile_le by blast
  finally show "(dropWhile (\<lambda>c. \<not> is_space c) t, s) \<in> measure length" by simp
qed

declare words.simps [simp del]

definition strip :: "string \<Rightarrow> string" where
  "strip s = rev (dropWhile is_space (rev (dropWhile is_space s)))"

definition startswith :: "string \<Rightarrow> string \<Rightarrow> bool" where
  "startswith s p = (take (length p) s = p)"

fun join :: "string \<Rightarrow> string list \<Rightarrow> string" where
  "join sep [] = ''''"
| "join sep [s] = s"
| "join sep (s # t # ts) = s @ sep @ join sep (t # ts)"

section \<open>Insertion-ordered dictionaries\<close>

text \<open>
  A Python \<open>dict\<close> keeps the position of a key's first insertion: \<open>dset\<close> overwrites in place or
  appends, \<open>dsetdefault\<close> only appends. Lookup is the library's \<open>map_of\<close>.
\<close>

type_synonym ('k, 'v) dict = "('k \<times> 'v) list"

definition dset :: "'k \<Rightarrow> 'v \<Rightarrow> ('k, 'v) dict \<Rightarrow> ('k, 'v) dict" where
  "dset k v d = AList.update k v d"

definition dsetdefault :: "'k \<Rightarrow> 'v \<Rightarrow> ('k, 'v) dict \<Rightarrow> ('k, 'v) dict" where
  "dsetdefault k v d = (case map_of d k of None \<Rightarrow> d @ [(k, v)] | Some _ \<Rightarrow> d)"

definition dget :: "('k, 'v) dict \<Rightarrow> 'k \<Rightarrow> 'v \<Rightarrow> 'v" where
  "dget d k dflt = (case map_of d k of None \<Rightarrow> dflt | Some v \<Rightarrow> v)"

text \<open>\<open>d.setdefault(k, []).append(x)\<close>: the grouping idiom of the code.\<close>

definition dappend :: "'k \<Rightarrow> 'v \<Rightarrow> ('k, 'v list) dict \<Rightarrow> ('k, 'v list) dict" where
  "dappend k x d = dset k (dget d k [] @ [x]) d"

definition group_by_key :: "('a \<Rightarrow> 'k) \<Rightarrow> 'a list \<Rightarrow> ('k, 'a list) dict" where
  "group_by_key f xs = fold (\<lambda>x d. dappend (f x) x d) xs []"

definition or0 :: "int option \<Rightarrow> int" where
  "or0 o' = (case o' of None \<Rightarrow> 0 | Some v \<Rightarrow> v)"

section \<open>Lemmas\<close>

lemma rbind_simps [simp, res_simps]:
  "rbind (Inl e) f = Inl e"
  "rbind (Inr x) f = f x"
  by (simp_all add: rbind_def)

lemma rbind_eq_Inr [res_simps]: "rbind m f = Inr y \<longleftrightarrow> (\<exists>x. m = Inr x \<and> f x = Inr y)"
  by (cases m) (auto simp: rbind_def)

lemma rbind_eq_Inl [res_simps]:
  "rbind m f = Inl e \<longleftrightarrow> m = Inl e \<or> (\<exists>x. m = Inr x \<and> f x = Inl e)"
  by (cases m) (auto simp: rbind_def)

lemma guard_simps [simp, res_simps]:
  "guard True e = Inr ()"
  "guard False e = Inl e"
  "guard b e = Inr u \<longleftrightarrow> b"
  "guard b e = Inl e' \<longleftrightarrow> \<not> b \<and> e' = e"
  by (auto simp: guard_def)

lemma rmap_length: "rmap f xs = Inr ys \<Longrightarrow> length ys = length xs"
  by (induction xs arbitrary: ys) (auto simp: res_simps)

lemma rmap_cong [fundef_cong]:
  "xs = ys \<Longrightarrow> (\<And>x. x \<in> set ys \<Longrightarrow> f x = g x) \<Longrightarrow> rmap f xs = rmap g ys"
  by (induction ys arbitrary: xs) auto


subsection \<open>Partial correctness of error-monad programs\<close>

text \<open>\<open>rsat P r\<close>: a returned value satisfies \<open>P\<close>; one rule per monadic construct.\<close>

lemma rsat_simps [simp]: "rsat P (Inl e)" "rsat P (Inr x) \<longleftrightarrow> P x"
  by (simp_all add: rsat_def)

lemma rsatD: "rsat P r \<Longrightarrow> r = Inr x \<Longrightarrow> P x"
  by simp

lemma rsatI: "(\<And>x. r = Inr x \<Longrightarrow> P x) \<Longrightarrow> rsat P r"
  by (cases r) auto

lemma rsat_bind: "rsat P m \<Longrightarrow> (\<And>x. P x \<Longrightarrow> rsat Q (f x)) \<Longrightarrow> rsat Q (rbind m f)"
  by (cases m) auto

lemma rsat_any: "rsat (\<lambda>_. True) m"
  by (rule rsatI) simp

lemma rsat_mono: "rsat P m \<Longrightarrow> (\<And>x. P x \<Longrightarrow> Q x) \<Longrightarrow> rsat Q m"
  by (cases m) auto

lemma rsat_rmap: "(\<And>x. x \<in> set xs \<Longrightarrow> rsat P (f x)) \<Longrightarrow> rsat (list_all P) (rmap f xs)"
  by (induction xs) (auto intro!: rsat_bind)

lemma rsat_rfold: "I b \<Longrightarrow> (\<And>b x. I b \<Longrightarrow> x \<in> set xs \<Longrightarrow> rsat I (f b x)) \<Longrightarrow> rsat I (rfold f b xs)"
  by (induction xs arbitrary: b) (auto intro!: rsat_bind)

lemma returns_Inr [simp]: "returns (Inr x)"
  by (simp add: returns_def)

lemma returns_iff: "returns r \<longleftrightarrow> (\<exists>x. r = Inr x)"
  by (cases r) (auto simp: returns_def)

lemma returns_bind: "returns m \<Longrightarrow> (\<And>x. m = Inr x \<Longrightarrow> returns (f x)) \<Longrightarrow> returns (rbind m f)"
  by (auto simp: returns_iff)

lemma returns_rmap: "(\<And>x. x \<in> set xs \<Longrightarrow> returns (f x)) \<Longrightarrow> returns (rmap f xs)"
  by (induction xs) (auto intro!: returns_bind)

lemma rfold_append: "rfold f b (xs @ ys) = rbind (rfold f b xs) (\<lambda>b'. rfold f b' ys)"
  by (induction xs arbitrary: b) (auto simp: rbind_def split: sum.splits)

subsection \<open>Partial and total correctness of returned values\<close>

text \<open>\<open>psat strict P r\<close>: a returned value satisfies \<open>P\<close>, and with \<open>strict\<close> a value is returned.\<close>

definition psat :: "bool \<Rightarrow> ('a \<Rightarrow> bool) \<Rightarrow> 'a res \<Rightarrow> bool" where
  "psat strict P r = (case r of Inl _ \<Rightarrow> \<not> strict | Inr x \<Rightarrow> P x)"

lemma psat_simps [simp]: "psat strict P (Inr x) \<longleftrightarrow> P x" "psat strict P (Inl e) \<longleftrightarrow> \<not> strict"
  by (simp_all add: psat_def)

lemma psat_bind: "psat s P m \<Longrightarrow> (\<And>x. P x \<Longrightarrow> m = Inr x \<Longrightarrow> psat s Q (f x)) \<Longrightarrow> psat s Q (rbind m f)"
  by (cases m) auto

lemma psat_mono: "psat s P m \<Longrightarrow> (\<And>x. P x \<Longrightarrow> Q x) \<Longrightarrow> psat s Q m"
  by (cases m) auto

lemma psat_rfold: "I b \<Longrightarrow> (\<And>b x. I b \<Longrightarrow> x \<in> set xs \<Longrightarrow> psat s I (f b x)) \<Longrightarrow> psat s I (rfold f b xs)"
  by (induction xs arbitrary: b) (auto intro!: psat_bind)

lemma psat_partial: "psat False P m \<longleftrightarrow> (\<forall>x. m = Inr x \<longrightarrow> P x)"
  by (cases m) auto

lemma psat_total: "psat True P m \<longleftrightarrow> (\<exists>x. m = Inr x \<and> P x)"
  by (cases m) auto

subsection \<open>Digits\<close>

lemma undig_dig [simp]: "d < 10 \<Longrightarrow> undig (dig d) = Some d"
proof -
  assume "d < 10"
  then have "d \<in> {0, 1, 2, 3, 4, 5, 6, 7, 8, 9}" by auto
  then show ?thesis by (auto simp: undig_def dig_def)
qed

lemma is_digit_dig [simp]: "d < 10 \<Longrightarrow> is_digit (dig d)"
  by (simp add: is_digit_def)

lemma show_nat_digits: "\<forall>c \<in> set (show_nat n). is_digit c"
proof (induction n rule: show_nat.induct)
  case (1 n)
  then show ?case by (cases "n < 10") (simp_all add: show_nat.simps [of n])
qed

lemma show_nat_nonempty [simp]: "show_nat n \<noteq> []"
  by (subst show_nat.simps) simp

lemma read_digits_append:
  "read_digits a (cs @ ds) = read_digits (read_digits a cs) ds"
  by (induction cs arbitrary: a) simp_all

lemma read_nat_show_nat [simp]: "read_nat (show_nat n) = n"
proof (induction n rule: show_nat.induct)
  case (1 n)
  then show ?case
    by (cases "n < 10")
      (simp_all add: show_nat.simps [of n] read_nat_def read_digits_append)
qed

lemma length_show_nat: "length (show_nat n) = ndig n"
proof (induction n rule: ndig.induct)
  case (1 n)
  then show ?case
    by (cases "n < 10") (simp_all add: show_nat.simps [of n] ndig.simps [of n])
qed

lemma read_digits_linear: "read_digits a cs = a * 10 ^ length cs + read_digits 0 cs"
proof (induction cs arbitrary: a)
  case Nil
  then show ?case by simp
next
  case (Cons c cs)
  let ?d = "case undig c of Some d \<Rightarrow> d | None \<Rightarrow> 0"
  have "read_digits a (c # cs) = (10 * a + ?d) * 10 ^ length cs + read_digits 0 cs"
    using Cons.IH [of "10 * a + ?d"] by simp
  moreover have "read_digits 0 (c # cs) = ?d * 10 ^ length cs + read_digits 0 cs"
    using Cons.IH [of ?d] by simp
  ultimately show ?case by (simp add: algebra_simps)
qed

lemma read_nat_append: "read_nat (cs @ ds) = read_nat cs * 10 ^ length ds + read_nat ds"
  unfolding read_nat_def by (subst read_digits_append, subst read_digits_linear) simp

lemma read_nat_zeros [simp]: "read_nat (replicate k (CHR ''0'')) = 0"
  by (induction k) (simp_all add: read_nat_def undig_def)

lemma ndig_pos [simp]: "0 < ndig n"
  by (subst ndig.simps) simp

lemma ndig_upper: "n < 10 ^ ndig n"
proof (induction n rule: ndig.induct)
  case (1 n)
  show ?case
  proof (cases "n < 10")
    case True
    then show ?thesis by (simp add: ndig.simps [of n])
  next
    case False
    with 1 have "n div 10 < 10 ^ ndig (n div 10)" by simp
    then have "n < 10 * 10 ^ ndig (n div 10)" by (simp add: div_less_iff_less_mult)
    with False show ?thesis by (simp add: ndig.simps [of n])
  qed
qed

lemma ndig_lower: "0 < n \<Longrightarrow> 10 ^ (ndig n - 1) \<le> n"
proof (induction n rule: ndig.induct)
  case (1 n)
  show ?case
  proof (cases "n < 10")
    case True
    with 1 show ?thesis by (simp add: ndig.simps [of n])
  next
    case False
    with 1 have "10 ^ (ndig (n div 10) - 1) \<le> n div 10" by simp
    then have "10 * 10 ^ (ndig (n div 10) - 1) \<le> n" by linarith
    moreover have "(10::nat) * 10 ^ (ndig (n div 10) - 1) = 10 ^ ndig (n div 10)"
      by (simp flip: power_Suc)
    ultimately show ?thesis using False by (simp add: ndig.simps [of n])
  qed
qed

lemma ndig_le_iff: "0 < k \<Longrightarrow> ndig n \<le> k \<longleftrightarrow> n < 10 ^ k"
proof
  assume "0 < k" "ndig n \<le> k"
  have "n < 10 ^ ndig n" by (rule ndig_upper)
  also have "\<dots> \<le> 10 ^ k" using \<open>ndig n \<le> k\<close> by (simp add: power_increasing)
  finally show "n < 10 ^ k" .
next
  assume k: "0 < k" and n: "n < 10 ^ k"
  show "ndig n \<le> k"
  proof (rule ccontr)
    assume "\<not> ndig n \<le> k"
    then have "k \<le> ndig n - 1" by simp
    moreover have "0 < n" using \<open>\<not> ndig n \<le> k\<close> k by (cases "n = 0") (auto simp: ndig.simps)
    ultimately have "10 ^ k \<le> n"
      using ndig_lower [of n] power_increasing [of k "ndig n - 1" "10::nat"] by linarith
    with n show False by simp
  qed
qed

subsection \<open>Dictionaries\<close>

lemma map_of_dset [simp, dict_simps]: "map_of (dset k v d) = (map_of d)(k \<mapsto> v)"
  by (simp add: dset_def update_conv')

lemma keys_dset [dict_simps]: "fst ` set (dset k v d) = insert k (fst ` set d)"
  by (simp add: dset_def dom_update)

lemma distinct_dset [simp]: "distinct (map fst d) \<Longrightarrow> distinct (map fst (dset k v d))"
  by (simp add: dset_def distinct_update)

lemma dget_dset [simp, dict_simps]:
  "dget (dset k v d) k' z = (if k' = k then v else dget d k' z)"
  by (simp add: dget_def)

lemma dset_fresh: "map_of d k = None \<Longrightarrow> dset k v d = d @ [(k, v)]"
  unfolding dset_def by (induction d) (auto split: if_splits)

lemma map_of_fold_dset:
  assumes "distinct (map f rs)" "r \<in> set rs"
  shows "map_of (fold (\<lambda>r d. dset (f r) r d) rs d0) (f r) = Some r"
  using assms
proof (induction rs rule: rev_induct)
  case (snoc x xs)
  show ?case
  proof (cases "r = x")
    case False
    with snoc.prems have r: "r \<in> set xs" and d: "distinct (map f xs)" and n: "f x \<notin> f ` set xs" by auto
    from r n have "f r \<noteq> f x" by (metis imageI)
    with snoc.IH [OF d r] show ?thesis by simp
  qed simp
qed simp

lemma map_of_dsetdefault [dict_simps]:
  "map_of (dsetdefault k v d) =
     (case map_of d k of None \<Rightarrow> (map_of d)(k \<mapsto> v) | Some _ \<Rightarrow> map_of d)"
proof (cases "map_of d k")
  case None
  then have "map_of (d @ [(k, v)]) = (map_of d)(k \<mapsto> v)"
    by (auto simp: fun_eq_iff map_add_def split: option.splits)
  with None show ?thesis by (simp add: dsetdefault_def)
qed (simp add: dsetdefault_def)

lemma distinct_dsetdefault:
  "distinct (map fst d) \<Longrightarrow> distinct (map fst (dsetdefault k v d))"
  by (auto simp: dsetdefault_def map_of_eq_None_iff split: option.splits)

lemma sum_list_dset:
  fixes g :: "'v \<Rightarrow> int"
  assumes "distinct (map fst d)"
  shows "sum_list (map (g \<circ> snd) (dset k v d)) =
           sum_list (map (g \<circ> snd) d) + g v - (case map_of d k of None \<Rightarrow> 0 | Some w \<Rightarrow> g w)"
  using assms unfolding dset_def by (induction d) (auto simp: weak_map_of_SomeI split: option.splits)

lemma list_all_dset: "list_all P d \<Longrightarrow> P (k, v) \<Longrightarrow> list_all P (dset k v d)"
  unfolding dset_def by (induction d) auto

lemma sum_kv_dset:
  fixes h :: "'k \<Rightarrow> 'v \<Rightarrow> int"
  assumes "distinct (map fst d)"
  shows "sum_list (map (\<lambda>(k, v). h k v) (dset k v d)) =
    sum_list (map (\<lambda>(k, v). h k v) d) + h k v - (case map_of d k of None \<Rightarrow> 0 | Some w \<Rightarrow> h k w)"
  using assms unfolding dset_def by (induction d) (auto simp: weak_map_of_SomeI split: option.splits)

lemma sum_kv_keys:
  fixes h :: "'k \<Rightarrow> 'v \<Rightarrow> int"
  assumes "distinct (map fst d)" "finite K" "fst ` set d \<subseteq> K" "\<And>k. h k z = 0"
  shows "(\<Sum>k\<in>K. h k (dget d k z)) = sum_list (map (\<lambda>(k, v). h k v) d)"
proof -
  have "(\<Sum>k\<in>K. h k (dget d k z)) = (\<Sum>k\<in>fst ` set d. h k (dget d k z))"
    using assms by (intro sum.mono_neutral_right) (auto simp: dget_def split: option.splits dest!: map_of_SomeD intro: rev_image_eqI)
  also have "\<dots> = sum_list (map (\<lambda>k. h k (dget d k z)) (map fst d))"
    by (simp only: sum_list_distinct_conv_sum_set [OF assms(1)] set_map)
  also have "map (\<lambda>k. h k (dget d k z)) (map fst d) = map (\<lambda>(k, v). h k v) d"
    using assms(1) by (auto simp: dget_def)
  finally show ?thesis .
qed

lemma group_by_key_snoc:
  "group_by_key f (xs @ [x]) = dappend (f x) x (group_by_key f xs)"
  by (simp add: group_by_key_def)

lemma group_by_key_Nil [simp]: "group_by_key f [] = []"
  by (simp add: group_by_key_def)

lemma distinct_group_by_key: "distinct (map fst (group_by_key f xs))"
  by (induction xs rule: rev_induct) (simp_all add: group_by_key_snoc dappend_def)

lemma map_of_group_by_key:
  "map_of (group_by_key f xs) k =
     (if k \<in> f ` set xs then Some (filter (\<lambda>x. f x = k) xs) else None)"
proof (induction xs rule: rev_induct)
  case Nil
  then show ?case by simp
next
  case (snoc x xs)
  have "f x \<notin> f ` set xs \<Longrightarrow> filter (\<lambda>y. f y = f x) xs = []"
    by (metis (mono_tags, lifting) filter_False image_eqI)
  with snoc show ?case
    by (cases "k = f x") (auto simp: group_by_key_snoc dappend_def dget_def)
qed

lemma group_by_key_member:
  assumes "(k, g) \<in> set (group_by_key f xs)"
  shows "g = filter (\<lambda>x. f x = k) xs" and "g \<noteq> []"
proof -
  from assms have "map_of (group_by_key f xs) k = Some g"
    by (simp add: map_of_is_SomeI [OF distinct_group_by_key])
  then show "g = filter (\<lambda>x. f x = k) xs" and "g \<noteq> []"
    by (auto simp: map_of_group_by_key filter_empty_conv split: if_splits)
qed

lemma sum_group_by_key:
  fixes g :: "'a \<Rightarrow> int"
  shows "sum_list (map (\<lambda>(k, ms). sum_list (map g ms)) (group_by_key f xs)) = sum_list (map g xs)"
proof (induction xs rule: rev_induct)
  case Nil
  then show ?case by simp
next
  case (snoc x xs)
  let ?G = "group_by_key f xs"
  let ?h = "\<lambda>ms. sum_list (map g ms)"
  show ?case
    using snoc sum_list_dset [OF distinct_group_by_key, of ?h "f x" "dget ?G (f x) [] @ [x]" f xs]
    by (simp add: group_by_key_snoc dappend_def comp_def case_prod_beta dget_def
        split: option.splits)
qed

lemma sum_list_mset_eq: "mset xs = mset ys \<Longrightarrow> sum_list (map f xs) = sum_list (map f ys)"
  for f :: "'a \<Rightarrow> 'b::comm_monoid_add"
  by (metis mset_map sum_mset_sum_list)

lemma mset_dappend: "mset (concat (map snd (dappend k x d))) = add_mset x (mset (concat (map snd d)))"
  by (induction d) (auto simp: dappend_def dset_def dget_def)

lemma mset_group_by_key: "mset (concat (map snd (group_by_key f xs))) = mset xs"
  by (induction xs rule: rev_induct) (simp_all add: group_by_key_snoc mset_dappend)

lemma group_by_key_const:
  assumes "\<forall>x \<in> set xs. f x = c" "xs \<noteq> []"
  shows "group_by_key f xs = [(c, xs)]"
  using assms
proof (induction xs rule: rev_induct)
  case (snoc x xs)
  then show ?case
    by (cases "xs = []") (auto simp: group_by_key_def dappend_def dset_def dget_def)
qed simp

lemma enumerate_upt: "enumerate 0 xs = map (\<lambda>i. (i, xs ! i)) [0..<length xs]"
  by (rule nth_equalityI) (simp_all add: nth_enumerate_eq)

lemma mset_concat_snd: "mset (concat (map snd xs)) = \<Sum>\<^sub># (image_mset (mset \<circ> snd) (mset xs))"
  by (induction xs) auto

section \<open>Half-even rounding\<close>

text \<open>
  \<open>rounds_half_even x q\<close>: \<open>q\<close> is the integer nearest to \<open>x\<close>, the even one of two equally near.
  The program rounds quotients this way in several modules, each with its own few lines; the
  locale states what they all promise and proves once what their callers use.
\<close>

definition rounds_half_even :: "rat \<Rightarrow> int \<Rightarrow> bool" where
  "rounds_half_even x q \<longleftrightarrow>
     \<bar>x - of_int q\<bar> \<le> 1 / 2 \<and> (\<bar>x - of_int q\<bar> = 1 / 2 \<longrightarrow> even q)"

lemma rounds_half_even_mono:
  assumes "rounds_half_even x p" "rounds_half_even y q" "x \<le> y"
  shows "p \<le> q"
proof (rule ccontr)
  assume "\<not> p \<le> q"
  then have pq: "q + 1 \<le> p" by simp
  have "\<bar>x - of_int p\<bar> \<le> 1 / 2" and "\<bar>y - of_int q\<bar> \<le> 1 / 2"
    using assms(1,2) unfolding rounds_half_even_def by blast+
  then have "of_int p - 1 / 2 \<le> x" and "y \<le> of_int q + 1 / 2"
    by linarith+
  moreover have "(of_int q :: rat) + 1 \<le> of_int p"
    using pq by (metis of_int_1 of_int_add of_int_le_iff)
  ultimately have eq: "x = of_int p - 1 / 2" "y = of_int q + 1 / 2" "(of_int p :: rat) = of_int q + 1"
    using assms(3) by linarith+
  from eq(3) have "p = q + 1" by (metis of_int_1 of_int_add of_int_eq_iff)
  moreover have "even p" "even q" using assms(1,2) eq by (auto simp: rounds_half_even_def)
  ultimately show False by simp
qed

lemma rounds_half_even_unique:
  "rounds_half_even x p \<Longrightarrow> rounds_half_even x q \<Longrightarrow> p = q"
  by (meson antisym order_refl rounds_half_even_mono)

lemma rounds_half_even_of_int [simp]: "rounds_half_even (of_int q) q"
  by (simp add: rounds_half_even_def)

lemma rounds_half_even_uminus: "rounds_half_even x q \<Longrightarrow> rounds_half_even (- x) (- q)"
proof -
  have "\<bar>- x - of_int (- q)\<bar> = \<bar>x - of_int q\<bar>" by simp
  then show "rounds_half_even x q \<Longrightarrow> rounds_half_even (- x) (- q)"
    by (simp add: rounds_half_even_def)
qed

lemma divmod_rounds_half_even:
  assumes "0 < d"
  shows "rounds_half_even (of_int n / of_int d)
     (if 2 * (n mod d) > d \<or> (2 * (n mod d) = d \<and> n div d mod 2 = 1) then n div d + 1 else n div d)"
proof -
  define q r where "q = n div d" and "r = n mod d"
  have n: "n = q * d + r" and r: "0 \<le> r" "r < d"
    using assms by (simp_all add: q_def r_def)
  have x: "of_int n / of_int d = (of_int q :: rat) + of_int r / of_int d"
    using assms by (simp add: n field_simps)
  define t where "t = (of_int r / of_int d :: rat)"
  have dr: "(0::rat) < of_int d" using assms by simp
  have "t \<le> 1 / 2 \<longleftrightarrow> (of_int (2 * r) :: rat) \<le> of_int d"
    using dr by (simp add: t_def divide_le_eq mult.commute)
  then have le: "t \<le> 1 / 2 \<longleftrightarrow> 2 * r \<le> d" by (simp only: of_int_le_iff)
  have "1 / 2 \<le> t \<longleftrightarrow> (of_int d :: rat) \<le> of_int (2 * r)"
    using dr by (simp add: t_def le_divide_eq mult.commute)
  then have ge: "1 / 2 \<le> t \<longleftrightarrow> d \<le> 2 * r" by (simp only: of_int_le_iff)
  have bnd: "0 \<le> t" "t < 1"
    using dr r by (simp_all add: t_def)
  show ?thesis
  proof (cases "2 * r > d \<or> (2 * r = d \<and> q mod 2 = 1)")
    case True
    then have "\<bar>t - 1\<bar> \<le> 1 / 2" "\<bar>t - 1\<bar> = 1 / 2 \<longrightarrow> even (q + 1)"
      using le ge bnd by (auto simp: abs_if odd_iff_mod_2_eq_one)
    with True show ?thesis
      by (simp add: q_def [symmetric] r_def [symmetric] x rounds_half_even_def t_def [symmetric])
  next
    case False
    then have "\<bar>t\<bar> \<le> 1 / 2" "\<bar>t\<bar> = 1 / 2 \<longrightarrow> even q"
      using le ge bnd by (auto simp: abs_if odd_iff_mod_2_eq_one even_iff_mod_2_eq_zero)
    with False show ?thesis
      by (auto simp: q_def [symmetric] r_def [symmetric] x rounds_half_even_def t_def [symmetric])
  qed
qed

locale half_even =
  fixes rnd :: "int \<Rightarrow> int \<Rightarrow> int"
  assumes rounds: "0 < d \<Longrightarrow> rounds_half_even (of_int n / of_int d) (rnd n d)"
begin

lemma eqI: "0 < d \<Longrightarrow> rounds_half_even (of_int n / of_int d) q \<Longrightarrow> rnd n d = q"
  using rounds rounds_half_even_unique by blast

lemma exact: "0 < d \<Longrightarrow> rnd (q * d) d = q"
  by (rule eqI) simp_all

lemma mono: "0 < d \<Longrightarrow> n \<le> m \<Longrightarrow> rnd n d \<le> rnd m d"
  by (rule rounds_half_even_mono [OF rounds rounds]) (simp_all add: divide_right_mono)

lemma uminus: "0 < d \<Longrightarrow> rnd (- n) d = - rnd n d"
  using rounds_half_even_uminus [OF rounds, of d n] by (intro eqI) simp_all

lemma cancel: "0 < d \<Longrightarrow> 0 < k \<Longrightarrow> rnd (n * k) (d * k) = rnd n d"
  by (rule eqI) (simp_all add: rounds)

lemma error_bound: "0 < d \<Longrightarrow> 2 * \<bar>n - rnd n d * d\<bar> \<le> d"
proof -
  assume d: "0 < d"
  then have "\<bar>of_int n / of_int d - (of_int (rnd n d) :: rat)\<bar> \<le> 1 / 2"
    using rounds by (simp add: rounds_half_even_def)
  moreover have "of_int n / of_int d - of_int (rnd n d) = (of_int (n - rnd n d * d) :: rat) / of_int d"
    using d by (simp add: field_simps)
  ultimately have "\<bar>of_int (n - rnd n d * d) :: rat\<bar> * 2 \<le> of_int d"
    using d by (simp add: abs_divide field_simps)
  then have "(of_int (2 * \<bar>n - rnd n d * d\<bar>) :: rat) \<le> of_int d" by simp
  then show "2 * \<bar>n - rnd n d * d\<bar> \<le> d" by (simp only: of_int_le_iff)
qed

lemma within: "0 < d \<Longrightarrow> a * d \<le> n \<Longrightarrow> n \<le> b * d \<Longrightarrow> a \<le> rnd n d \<and> rnd n d \<le> b"
  using mono [of d "a * d" n] mono [of d n "b * d"] exact by simp

end

section \<open>Memo tables\<close>

text \<open>
  A dictionary in front of a computation is sound when every stored value is what the computation returns for
  its key. The memo tables of the rate card, the cache rules and the transition classifier are instances.
\<close>

locale memo_table =
  fixes compute :: "'k \<Rightarrow> 'v res"
begin

definition sound :: "('k, 'v) dict \<Rightarrow> bool" where
  "sound d = (\<forall>k v. map_of d k = Some v \<longrightarrow> compute k = Inr v)"

lemma sound_empty: "sound []"
  by (simp add: sound_def)

lemma sound_hit: "sound d \<Longrightarrow> map_of d k = Some v \<Longrightarrow> compute k = Inr v"
  by (simp add: sound_def)

lemma sound_dset: "sound d \<Longrightarrow> compute k = Inr v \<Longrightarrow> sound (dset k v d)"
  by (auto simp: sound_def)

end

end
