(* ===== verification/Money.thy ===== *)
theory Money
  imports Prelude
begin

text \<open>
  \<open>tokenbill/core/money.py\<close>: exact money arithmetic. A finite \<open>decimal.Decimal\<close> is the record
  \<open>dec\<close> (sign, coefficient, exponent); NaN and infinities exist only before the finiteness checks
  (\<open>decimal\<close>). The part of the \<open>decimal\<close> module the program uses (contexts, rounding to a
  context, multiplication, division, addition, \<open>quantize\<close>, the string constructor) is modelled
  after the General Decimal Arithmetic algorithms, with the traps as error values. Money is
  \<open>int\<close> nano-USD. The lemmas show that every line is rounded exactly once (half-even), that the
  string and cent conversions lose nothing (amount and remainder add up to the source value), and
  that printing and reading an amount is a round trip.
\<close>

section \<open>Decimals\<close>

record dec =
  sign :: bool
  coef :: nat
  expo :: int

datatype decimal = Finite dec | Infinity bool | NaN

text \<open>What a caller may pass where the code checks types at run time.\<close>

datatype pyval = PStr string | PInt int | PDec decimal | PBool bool | PFloat | PNone

record dctx =
  prec :: nat
  emin :: int
  emax :: int
  trap_inexact :: bool

definition mkdec :: "bool \<Rightarrow> nat \<Rightarrow> int \<Rightarrow> dec" where
  "mkdec s c e = \<lparr>sign = s, coef = c, expo = e\<rparr>"

definition EXACT_CTX :: dctx where
  "EXACT_CTX = \<lparr>prec = 60, emin = -999999, emax = 999999, trap_inexact = True\<rparr>"

definition RATIO_CTX :: dctx where
  "RATIO_CTX = \<lparr>prec = 28, emin = -999999, emax = 999999, trap_inexact = False\<rparr>"

definition MAX_EMAX :: int where "MAX_EMAX = 999999999999999999"
definition MIN_EMIN :: int where "MIN_EMIN = -999999999999999999"
definition MIN_ETINY :: int where "MIN_ETINY = -1999999999999999997"

definition sint_of :: "dec \<Rightarrow> int" where
  "sint_of d = (if sign d then - int (coef d) else int (coef d))"

definition adjusted :: "dec \<Rightarrow> int" where
  "adjusted d = expo d + int (ndig (coef d)) - 1"

definition dec_of_int :: "int \<Rightarrow> dec" where
  "dec_of_int i = mkdec (i < 0) (nat \<bar>i\<bar>) 0"

text \<open>The tuple and string constructors are exact or refuse (\<open>InvalidOperation\<close>).\<close>

definition dec_make :: "bool \<Rightarrow> nat \<Rightarrow> int \<Rightarrow> dec res" where
  "dec_make s c e =
     (if MIN_ETINY \<le> e \<and> e + int (ndig c) - 1 \<le> MAX_EMAX then Inr (mkdec s c e)
      else Inl DecInvalid)"

section \<open>Integer rounding\<close>

text \<open>\<open>_div_half_even(n, d)\<close> for \<open>d > 0\<close>.\<close>

definition div_half_even :: "int \<Rightarrow> int \<Rightarrow> int" where
  "div_half_even n d =
     (let q = n div d; r = n mod d; twice = 2 * r
      in if twice > d \<or> (twice = d \<and> q mod 2 = 1) then q + 1 else q)"

section \<open>Context arithmetic\<close>

text \<open>Rounding a result to a context, with the context's traps.\<close>

definition dec_fix :: "dctx \<Rightarrow> bool \<Rightarrow> nat \<Rightarrow> int \<Rightarrow> dec res" where
  "dec_fix ctx s c e =
     (let etiny = emin ctx - int (prec ctx) + 1; etop = emax ctx - int (prec ctx) + 1
      in if c = 0 then Inr (mkdec s 0 (min (max e etiny) (emax ctx)))
         else let exp_min = int (ndig c) + e - int (prec ctx)
          in if exp_min > etop then Inl DecOverflow
             else let em = max exp_min etiny
              in if e < em then
                   let m = 10 ^ nat (em - e); q = nat (div_half_even (int c) m);
                       carry = ndig q > prec ctx;
                       c' = (if carry then q div 10 else q); e' = (if carry then em + 1 else em)
                   in if e' > etop then Inl DecOverflow
                      else if int c mod m \<noteq> 0 \<and> trap_inexact ctx then Inl DecInexact
                      else Inr (mkdec s c' e')
                 else Inr (mkdec s c e))"

definition dec_mul :: "dctx \<Rightarrow> dec \<Rightarrow> dec \<Rightarrow> dec res" where
  "dec_mul ctx a b = dec_fix ctx (sign a \<noteq> sign b) (coef a * coef b) (expo a + expo b)"

definition dec_add :: "dctx \<Rightarrow> dec \<Rightarrow> dec \<Rightarrow> dec res" where
  "dec_add ctx a b =
     (let e = min (expo a) (expo b)
      in if coef a = 0 \<and> coef b = 0 then dec_fix ctx (sign a \<and> sign b) 0 e
         else if coef a = 0 then
           let e' = max e (expo b - int (prec ctx) - 1)
           in dec_fix ctx (sign b) (coef b * 10 ^ nat (expo b - e')) e'
         else if coef b = 0 then
           let e' = max e (expo a - int (prec ctx) - 1)
           in dec_fix ctx (sign a) (coef a * 10 ^ nat (expo a - e')) e'
         else
           let n = sint_of a * 10 ^ nat (expo a - e) + sint_of b * 10 ^ nat (expo b - e)
           in dec_fix ctx (n < 0) (nat \<bar>n\<bar>) e)"

definition dec_neg :: "dec \<Rightarrow> dec" where
  "dec_neg d = d\<lparr>sign := \<not> sign d\<rparr>"

definition dec_sub :: "dctx \<Rightarrow> dec \<Rightarrow> dec \<Rightarrow> dec res" where
  "dec_sub ctx a b = dec_add ctx a (dec_neg b)"

text \<open>The loop of the division that moves an exact quotient towards the ideal exponent.\<close>

function strip_zeros :: "nat \<Rightarrow> int \<Rightarrow> int \<Rightarrow> nat \<times> int" where
  "strip_zeros c e ideal =
     (if e < ideal \<and> c mod 10 = 0 then strip_zeros (c div 10) (e + 1) ideal else (c, e))"
  by pat_completeness auto
termination
  by (relation "measure (\<lambda>(c, e, ideal). nat (ideal - e))") auto

declare strip_zeros.simps [simp del]

definition dec_div :: "dctx \<Rightarrow> dec \<Rightarrow> dec \<Rightarrow> dec res" where
  "dec_div ctx a b =
     (let s = (sign a \<noteq> sign b); ideal = expo a - expo b
      in if coef b = 0 then (if coef a = 0 then Inl DecInvalid else Inl DecDivisionByZero)
         else if coef a = 0 then dec_fix ctx s 0 ideal
         else
           let shift = int (ndig (coef b)) - int (ndig (coef a)) + int (prec ctx) + 1;
               e = ideal - shift;
               num = (if 0 \<le> shift then coef a * 10 ^ nat shift else coef a);
               den = (if 0 \<le> shift then coef b else coef b * 10 ^ nat (- shift));
               q = num div den; r = num mod den
           in if r \<noteq> 0 then dec_fix ctx s (if q mod 5 = 0 then q + 1 else q) e
              else (case strip_zeros q e ideal of (q', e') \<Rightarrow> dec_fix ctx s q' e'))"

text \<open>\<open>d.quantize(Decimal(1))\<close> under a half-even context of precision \<open>p\<close>, read as an int.\<close>

definition quantize_int :: "nat \<Rightarrow> dec \<Rightarrow> int res" where
  "quantize_int p d =
     (let n = (if 0 \<le> expo d then int (coef d) * 10 ^ nat (expo d)
               else div_half_even (int (coef d)) (10 ^ nat (- expo d)))
      in if ndig (nat n) > p then Inl DecInvalid else Inr (if sign d then - n else n))"

section \<open>Reading decimal strings\<close>

definition take_sign :: "string \<Rightarrow> bool \<times> string" where
  "take_sign s = (case s of
      [] \<Rightarrow> (False, [])
    | c # cs \<Rightarrow> if c = CHR ''-'' then (True, cs) else if c = CHR ''+'' then (False, cs) else (False, s))"

definition is_nan_text :: "string \<Rightarrow> bool" where
  "is_nan_text t =
     ((startswith t ''nan'' \<and> list_all is_digit (drop 3 t)) \<or>
      (startswith t ''snan'' \<and> list_all is_digit (drop 4 t)))"

definition parse_exponent :: "string \<Rightarrow> int option" where
  "parse_exponent s = (case s of
      [] \<Rightarrow> Some 0
    | c # cs \<Rightarrow>
        if c = CHR ''e'' \<or> c = CHR ''E'' then
          (case take_sign cs of (neg, ds) \<Rightarrow>
             if ds \<noteq> [] \<and> list_all is_digit ds
             then Some (if neg then - int (read_nat ds) else int (read_nat ds)) else None)
        else None)"

definition parse_number :: "bool \<Rightarrow> string \<Rightarrow> dec res" where
  "parse_number neg t =
     (let whole = takeWhile is_digit t; rest = dropWhile is_digit t;
          has_point = (rest \<noteq> [] \<and> hd rest = CHR ''.'');
          after = (if has_point then tl rest else rest);
          frac = (if has_point then takeWhile is_digit after else []);
          tail = (if has_point then dropWhile is_digit after else rest)
      in if whole = [] \<and> frac = [] then Inl DecInvalid
         else case parse_exponent tail of
             None \<Rightarrow> Inl DecInvalid
           | Some e \<Rightarrow> dec_make neg (read_nat (whole @ frac)) (e - int (length frac)))"

text \<open>\<open>Decimal(text)\<close>: whitespace is stripped and underscores are ignored.\<close>

definition decimal_of_string :: "string \<Rightarrow> decimal res" where
  "decimal_of_string text =
     (case take_sign (filter (\<lambda>c. c \<noteq> CHR ''_'') (strip text)) of (neg, t) \<Rightarrow>
        let low = map lower t
        in if low = ''inf'' \<or> low = ''infinity'' then Inr (Infinity neg)
           else if is_nan_text low then Inr NaN
           else rbind (parse_number neg t) (\<lambda>d. Inr (Finite d)))"

section \<open>money.py\<close>

definition NANO_PER_USD :: int where "NANO_PER_USD = 10 ^ 9"
definition MICRO_PER_USD :: int where "MICRO_PER_USD = 10 ^ 6"
definition MTOK :: int where "MTOK = 10 ^ 6"
definition NANO_USD_PER_CREDIT :: int where "NANO_USD_PER_CREDIT = 10000000"
definition NANO_AIU_PER_CREDIT :: int where "NANO_AIU_PER_CREDIT = 10 ^ 9"
definition MAX_NANO_EXP :: int where "MAX_NANO_EXP = 4000"

fun is_str :: "pyval \<Rightarrow> bool" where
  "is_str (PStr _) = True" | "is_str _ = False"

fun is_int :: "pyval \<Rightarrow> bool" where
  "is_int (PInt _) = True" | "is_int _ = False"

fun is_dec :: "pyval \<Rightarrow> bool" where
  "is_dec (PDec _) = True" | "is_dec _ = False"

definition check_type :: "pyval \<Rightarrow> (pyval \<Rightarrow> bool) list \<Rightarrow> unit res" where
  "check_type v allowed = guard (\<exists>k \<in> set allowed. k v) TypeError"

definition finite_or :: "pyerr \<Rightarrow> decimal \<Rightarrow> dec res" where
  "finite_or e d = (case d of Finite x \<Rightarrow> Inr x | _ \<Rightarrow> Inl e)"

text \<open>\<open>_parse\<close>: an \<open>InvalidOperation\<close> of the string constructor becomes a \<open>ValueError\<close>.\<close>

definition parse_money :: "pyval \<Rightarrow> dec res" where
  "parse_money v = rbind (check_type v [is_str, is_int, is_dec]) (\<lambda>_.
     (case v of
        PDec d \<Rightarrow> finite_or ValueError d
      | PInt i \<Rightarrow> Inr (dec_of_int i)
      | PStr s \<Rightarrow> (case decimal_of_string s of
            Inl e \<Rightarrow> Inl (if e = DecInvalid then ValueError else e)
          | Inr d \<Rightarrow> finite_or ValueError d)
      | _ \<Rightarrow> Inl TypeError))"

definition shift_dec :: "dec \<Rightarrow> int \<Rightarrow> dec res" where
  "shift_dec d places = dec_make (sign d) (coef d) (expo d + places)"

definition decimal_to_int_half_even :: "dec \<Rightarrow> int \<Rightarrow> int res" where
  "decimal_to_int_half_even d shift =
     (if coef d = 0 then Inr 0
      else rbind (shift_dec d shift) (\<lambda>x.
        let adj = adjusted x
        in if adj \<ge> MAX_NANO_EXP then Inl ValueError
           else if adj < -1 then Inr 0
           else quantize_int (nat (adj + 2)) x))"

definition usd :: "pyval \<Rightarrow> dec res" where
  "usd v = parse_money v"

definition from_cents :: "pyval \<Rightarrow> dec res" where
  "from_cents v = rbind (check_type v [is_str, is_int]) (\<lambda>_.
     rbind (parse_money v) (\<lambda>d. shift_dec d (-2)))"

definition to_nano_with_remainder :: "dec \<Rightarrow> (int \<times> dec) res" where
  "to_nano_with_remainder amount = rbind (decimal_to_int_half_even amount 9) (\<lambda>nano.
     if nano = 0 then Inr (0, amount)
     else rbind (shift_dec amount 9) (\<lambda>scaled.
       let p = int (ndig (coef scaled)) + \<bar>expo scaled\<bar> + adjusted (dec_of_int nano) + 3;
           ctx = \<lparr>prec = nat p, emin = MIN_EMIN, emax = MAX_EMAX, trap_inexact = True\<rparr>
       in rbind (dec_sub ctx scaled (dec_of_int nano)) (\<lambda>rs.
            rbind (shift_dec rs (-9)) (\<lambda>r. Inr (nano, r)))))"

definition cents_to_nano :: "pyval \<Rightarrow> (int \<times> dec) res" where
  "cents_to_nano v = rbind (from_cents v) to_nano_with_remainder"

definition usd_str_to_nano :: "pyval \<Rightarrow> (int \<times> dec) res" where
  "usd_str_to_nano v = rbind (usd v) to_nano_with_remainder"

definition credits_str_to_nano :: "pyval \<Rightarrow> (int \<times> dec) res" where
  "credits_str_to_nano v = rbind (check_type v [is_str]) (\<lambda>_.
     rbind (parse_money v) (\<lambda>d. rbind (shift_dec d (-2)) to_nano_with_remainder))"

definition nano_aiu_to_nano :: "int \<Rightarrow> (int \<times> dec) res" where
  "nano_aiu_to_nano n =
     (let per_nano = NANO_AIU_PER_CREDIT div NANO_USD_PER_CREDIT; nano = div_half_even n per_nano
      in rbind (shift_dec (dec_of_int (n - nano * per_nano)) (-11)) (\<lambda>r. Inr (nano, r)))"

text \<open>The common body of \<open>nano_to_credits_str\<close> and \<open>nano_to_usd_str\<close> is written out twice there.\<close>

definition nano_to_credits_str :: "int \<Rightarrow> string" where
  "nano_to_credits_str nano =
     (let sg = (if nano < 0 then ''-'' else ''''); whole = \<bar>nano\<bar> div NANO_USD_PER_CREDIT;
          frac = \<bar>nano\<bar> mod NANO_USD_PER_CREDIT
      in if frac = 0 then sg @ show_nat (nat whole)
         else sg @ show_nat (nat whole) @ ''.'' @
                rstrip_char (CHR ''0'') (rjust 7 (CHR ''0'') (show_nat (nat frac))))"

definition decimal_to_nano :: "decimal \<Rightarrow> int res" where
  "decimal_to_nano d = rbind (finite_or ValueError d) (\<lambda>x. decimal_to_int_half_even x 9)"

definition token_amount :: "int \<Rightarrow> decimal \<Rightarrow> decimal list \<Rightarrow> dec res" where
  "token_amount tokens rate factors =
     rbind (finite_or ValueError rate) (\<lambda>r.
     rbind (dec_mul EXACT_CTX (dec_of_int tokens) r) (\<lambda>amount.
     rbind (rfold (\<lambda>amount factor. rbind (finite_or ValueError factor) (\<lambda>f.
                      dec_mul EXACT_CTX amount f)) amount factors) (\<lambda>total.
     dec_div EXACT_CTX total (dec_of_int MTOK))))"

definition token_nano :: "int \<Rightarrow> decimal \<Rightarrow> decimal list \<Rightarrow> int res" where
  "token_nano tokens rate factors =
     rbind (token_amount tokens rate factors) (\<lambda>a. decimal_to_nano (Finite a))"

definition scaled_to_nano :: "int \<Rightarrow> int \<Rightarrow> int" where
  "scaled_to_nano amount_scaled scale_exp =
     (let shift = 9 - scale_exp
      in if shift \<ge> 0 then amount_scaled * 10 ^ nat shift
         else div_half_even amount_scaled (10 ^ nat (- shift)))"

definition nano_to_usd_str :: "int \<Rightarrow> string" where
  "nano_to_usd_str nano =
     (let sg = (if nano < 0 then ''-'' else ''''); whole = \<bar>nano\<bar> div NANO_PER_USD;
          frac = \<bar>nano\<bar> mod NANO_PER_USD
      in if frac = 0 then sg @ show_nat (nat whole)
         else sg @ show_nat (nat whole) @ ''.'' @
                rstrip_char (CHR ''0'') (rjust 9 (CHR ''0'') (show_nat (nat frac))))"

definition nano_to_micro :: "int \<Rightarrow> int" where
  "nano_to_micro nano = div_half_even nano (NANO_PER_USD div MICRO_PER_USD)"

definition ratio :: "int \<Rightarrow> int \<Rightarrow> dec option res" where
  "ratio num den =
     (if den = 0 then Inr None
      else rbind (dec_div RATIO_CTX (dec_of_int num) (dec_of_int den)) (\<lambda>d. Inr (Some d)))"

text \<open>\<open>Decimal.normalize\<close> of a value that fits the precision, and its \<open>"f"\<close> format.\<close>

function drop_zeros :: "nat \<Rightarrow> int \<Rightarrow> nat \<times> int" where
  "drop_zeros c e = (if c \<noteq> 0 \<and> c mod 10 = 0 then drop_zeros (c div 10) (e + 1) else (c, e))"
  by pat_completeness auto
termination
  by (relation "measure fst") auto

declare drop_zeros.simps [simp del]

definition dec_normalize :: "dec \<Rightarrow> dec" where
  "dec_normalize d = (if coef d = 0 then mkdec (sign d) 0 0
     else case drop_zeros (coef d) (expo d) of (c, e) \<Rightarrow> mkdec (sign d) c e)"

definition format_f :: "dec \<Rightarrow> string" where
  "format_f d =
     (let sg = (if sign d then ''-'' else ''''); ds = show_nat (coef d)
      in if 0 \<le> expo d then sg @ ds @ (if coef d = 0 then '''' else replicate (nat (expo d)) (CHR ''0''))
         else let k = nat (- expo d); padded = rjust (k + 1) (CHR ''0'') ds
              in sg @ take (length padded - k) padded @ ''.'' @ drop (length padded - k) padded)"

text \<open>Thousands separators of the format specification \<open>","\<close>.\<close>

fun commas_rev :: "string \<Rightarrow> string" where
  "commas_rev (a # b # c # d # s) = a # b # c # CHR '','' # commas_rev (d # s)"
| "commas_rev s = s"

definition with_commas :: "string \<Rightarrow> string" where
  "with_commas s = rev (commas_rev (rev s))"

definition fmt_usd :: "int option \<Rightarrow> int \<Rightarrow> string res" where
  "fmt_usd nano places = (case nano of
      None \<Rightarrow> Inr ''unpriced''
    | Some n \<Rightarrow>
        if places < 0 then Inl ValueError
        else let shift = 9 - places;
                 units = (if shift < 0 then n * 10 ^ nat (- shift) else div_half_even n (10 ^ nat shift));
                 sg = (if units < 0 then ''-'' else '''');
                 whole = \<bar>units\<bar> div 10 ^ nat places; frac = \<bar>units\<bar> mod 10 ^ nat places;
                 txt = with_commas (show_nat (nat whole)) @
                         (if places \<noteq> 0 then ''.'' @ rjust (nat places) (CHR ''0'') (show_nat (nat frac))
                          else '''')
             in Inr (sg @ ''$'' @ txt))"

section \<open>Values\<close>

text \<open>The value of a finite decimal.\<close>

definition dval :: "dec \<Rightarrow> rat" where
  "dval d = of_int (sint_of d) * 10 powi expo d"

text \<open>The exact product of a list of factors; only finite factors reach it.\<close>

fun fvals :: "decimal list \<Rightarrow> rat" where
  "fvals [] = 1"
| "fvals (Finite f # fs) = dval f * fvals fs"
| "fvals (_ # fs) = 0"

section \<open>The decimal contexts are exact\<close>

interpretation he: half_even div_half_even
proof
  fix n d :: int
  assume "0 < d"
  then show "rounds_half_even (of_int n / of_int d) (div_half_even n d)"
    using divmod_rounds_half_even [of d n] by (simp add: div_half_even_def Let_def)
qed

lemma powi10_pos [simp]: "(0::rat) < 10 powi k"
  by (simp add: zero_less_power_int)

lemma powi10_add: "(10::rat) powi (a + b) = 10 powi a * 10 powi b"
  by (simp add: power_int_add)

lemma powi10_nat: "0 \<le> k \<Longrightarrow> (10::rat) powi k = of_int (10 ^ nat k)"
  by (simp add: power_int_def)

lemma powi10_neg: "k \<le> 0 \<Longrightarrow> (10::rat) powi k * of_int (10 ^ nat (- k)) = 1"
  by (simp add: power_int_def field_simps)

lemma mkdec_simps [simp]: "sign (mkdec s c e) = s" "coef (mkdec s c e) = c" "expo (mkdec s c e) = e"
  by (simp_all add: mkdec_def)

lemma dval_mkdec: "dval (mkdec s c e) = (if s then - of_nat c else of_nat c) * 10 powi e"
  by (simp add: dval_def mkdec_def sint_of_def)

lemma dval_of_int [simp]: "dval (dec_of_int i) = of_int i"
  by (auto simp: dec_of_int_def dval_mkdec)

lemma dval_zero_iff: "dval d = 0 \<longleftrightarrow> coef d = 0"
  by (auto simp: dval_def sint_of_def)

lemma dval_abs: "\<bar>dval d\<bar> = of_nat (coef d) * 10 powi expo d"
  by (simp add: dval_def sint_of_def abs_mult)

lemma dval_neg [simp]: "dval (dec_neg d) = - dval d"
  by (simp add: dval_def dec_neg_def sint_of_def)

lemma nat_div_half_even_exact:
  assumes "0 < m" "int c mod m = 0"
  shows "div_half_even (int c) m = int c div m"
proof -
  have "int c = (int c div m) * m" using assms by (simp add: minus_mod_eq_div_mult [symmetric])
  then show ?thesis using he.exact [OF assms(1), of "int c div m"] by metis
qed

text \<open>A trapping context returns the exact value or an error.\<close>

lemma dec_fix_exact:
  assumes fx: "dec_fix ctx s c e = Inr d" and tr: "trap_inexact ctx" and p: "0 < prec ctx"
  shows "dval d = (if s then - of_nat c else of_nat c) * 10 powi e"
proof -
  define etiny where "etiny = emin ctx - int (prec ctx) + 1"
  define em where "em = max (int (ndig c) + e - int (prec ctx)) etiny"
  show ?thesis
  proof (cases "c = 0 \<or> \<not> e < em")
    case True
    then show ?thesis using fx
      by (auto simp: dec_fix_def Let_def etiny_def em_def dval_mkdec split: if_splits)
  next
    case False
    define k where "k = nat (em - e)"
    define q where "q = nat (div_half_even (int c) (10 ^ k))"
    from False have c: "c \<noteq> 0" and e: "e < em" by auto
    have md: "int c mod 10 ^ k = 0"
      using fx tr c e by (auto simp: dec_fix_def Let_def etiny_def em_def k_def split: if_splits)
    then have q: "int q = int c div 10 ^ k"
      using nat_div_half_even_exact [of "10 ^ k" c] by (simp add: q_def pos_imp_zdiv_nonneg_iff)
    then have qc: "int q * 10 ^ k = int c" using md by (simp add: minus_mod_eq_div_mult [symmetric])
    then have qcn: "q * 10 ^ k = c" by (metis of_nat_eq_iff of_nat_mult of_nat_numeral of_nat_power)
    have "ndig c \<le> prec ctx + k" using e by (auto simp: k_def em_def)
    then have "c < 10 ^ prec ctx * 10 ^ k"
      using ndig_upper [of c] power_increasing [of "ndig c" "prec ctx + k" "10::nat"]
      by (simp add: power_add)
    then have "q < 10 ^ prec ctx" using qcn by (metis mult_less_cancel2)
    then have nc: "\<not> prec ctx < ndig q" using ndig_le_iff [OF p, of q] by simp
    have d: "d = mkdec s q em"
      using fx tr c e md nc
      by (auto simp: dec_fix_def Let_def etiny_def em_def k_def q_def split: if_splits)
    have "(of_nat c :: rat) = of_nat q * 10 ^ k" using qcn by (metis of_nat_mult of_nat_numeral of_nat_power)
    moreover have "(10::rat) powi em = 10 powi e * 10 ^ k"
      using e powi10_add [of e "em - e"] powi10_nat [of "em - e"] by (simp add: k_def)
    ultimately show ?thesis by (simp add: d dval_mkdec)
  qed
qed

text \<open>Within the precision and the exponent range nothing is rounded.\<close>

lemma dec_fix_fits:
  assumes "ndig c \<le> prec ctx" "emin ctx \<le> e + int (prec ctx) - 1" "e + int (prec ctx) - 1 \<le> emax ctx"
  shows "dec_fix ctx s c e = Inr (mkdec s c e)"
proof -
  have "1 \<le> prec ctx" using assms(1) ndig_pos [of c] by linarith
  then have "min (max e (emin ctx - int (prec ctx) + 1)) (emax ctx) = e"
    and "\<not> e < max (int (ndig c) + e - int (prec ctx)) (emin ctx - int (prec ctx) + 1)"
    and "\<not> int (ndig c) + e - int (prec ctx) > emax ctx - int (prec ctx) + 1"
    using assms by linarith+
  then show ?thesis by (simp add: dec_fix_def Let_def)
qed

lemma dec_mul_exact:
  assumes "dec_mul ctx a b = Inr d" "trap_inexact ctx" "0 < prec ctx"
  shows "dval d = dval a * dval b"
  using dec_fix_exact [OF assms(1) [unfolded dec_mul_def] assms(2,3)]
  by (auto simp: dval_def sint_of_def power_int_add)

lemma dec_add_value:
  assumes "n = sint_of a * 10 ^ nat (expo a - e) + sint_of b * 10 ^ nat (expo b - e)"
    and "e \<le> expo a" "e \<le> expo b"
  shows "of_int n * 10 powi e = dval a + dval b"
proof -
  have "of_int (sint_of x * 10 ^ nat (expo x - e)) * 10 powi e = dval x" if "e \<le> expo x" for x
    using that powi10_add [of "expo x - e" e] powi10_nat [of "expo x - e"]
    by (simp add: dval_def)
  with assms show ?thesis by (simp add: distrib_right)
qed

lemma dec_add_exact:
  assumes ad: "dec_add ctx a b = Inr d" and tr: "trap_inexact ctx" "0 < prec ctx"
  shows "dval d = dval a + dval b"
proof -
  define e where "e = min (expo a) (expo b)"
  have pad: "dval r = dval x"
    if "dec_fix ctx (sign x) (coef x * 10 ^ nat (expo x - e')) e' = Inr r" "e' \<le> expo x" for x e' r
  proof -
    have "dval r = (if sign x then - 1 else 1) * of_nat (coef x) * (10 ^ nat (expo x - e') * 10 powi e')"
      using dec_fix_exact [OF that(1) tr] by auto
    also have "\<dots> = dval x"
      using that(2) powi10_add [of "expo x - e'" e'] powi10_nat [of "expo x - e'"]
      by (auto simp: dval_def sint_of_def)
    finally show ?thesis .
  qed
  consider "coef a = 0" "coef b = 0" | "coef a = 0" "coef b \<noteq> 0" | "coef a \<noteq> 0" "coef b = 0"
    | "coef a \<noteq> 0" "coef b \<noteq> 0" by blast
  then show ?thesis
  proof cases
    case 1
    then show ?thesis using ad dec_fix_exact [OF _ tr]
      by (auto simp: dec_add_def Let_def dval_def sint_of_def)
  next
    case 2
    then show ?thesis using ad pad [of b "max e (expo b - int (prec ctx) - 1)" d]
      by (auto simp: dec_add_def Let_def e_def dval_def sint_of_def)
  next
    case 3
    then show ?thesis using ad pad [of a "max e (expo a - int (prec ctx) - 1)" d]
      by (auto simp: dec_add_def Let_def e_def dval_def sint_of_def)
  next
    case 4
    define n where "n = sint_of a * 10 ^ nat (expo a - e) + sint_of b * 10 ^ nat (expo b - e)"
    have "dec_fix ctx (n < 0) (nat \<bar>n\<bar>) e = Inr d"
      using ad 4 by (simp add: dec_add_def Let_def e_def n_def)
    then have "dval d = of_int n * 10 powi e"
      using dec_fix_exact [OF _ tr] by (auto split: if_splits)
    also have "\<dots> = dval a + dval b" by (rule dec_add_value) (auto simp: n_def e_def)
    finally show ?thesis .
  qed
qed

lemma strip_zeros_value:
  "strip_zeros c e ideal = (c', e') \<Longrightarrow> of_nat c' * (10::rat) powi e' = of_nat c * 10 powi e"
proof (induction c e ideal rule: strip_zeros.induct)
  case (1 c e ideal)
  show ?case
  proof (cases "e < ideal \<and> c mod 10 = 0")
    case True
    with 1 have "of_nat c' * (10::rat) powi e' = of_nat (c div 10) * 10 powi (e + 1)"
      by (simp add: strip_zeros.simps [of c])
    also have "\<dots> = of_nat (c div 10 * 10) * 10 powi e" by (simp add: powi10_add)
    also have "c div 10 * 10 = c" using True by (simp add: minus_mod_eq_div_mult [symmetric])
    finally show ?thesis .
  next
    case False
    with "1.prems" show ?thesis by (simp add: strip_zeros.simps [of c])
  qed
qed

text \<open>An inexact quotient has a sticky last digit beyond the precision, so it traps.\<close>

lemma dec_fix_sticky:
  assumes "c mod 5 \<noteq> 0" "prec ctx < ndig c" "trap_inexact ctx"
  shows "\<exists>x. dec_fix ctx s c e = Inl x"
proof -
  define em where "em = max (int (ndig c) + e - int (prec ctx)) (emin ctx - int (prec ctx) + 1)"
  have "c \<noteq> 0" using assms(1) by (cases "c = 0") auto
  moreover have e: "e < em" using assms(2) by (simp add: em_def)
  moreover have "int c mod 10 ^ nat (em - e) \<noteq> 0"
  proof
    assume "int c mod 10 ^ nat (em - e) = 0"
    then have "10 ^ nat (em - e) dvd int c" by auto
    moreover have "(5::int) dvd 10 ^ nat (em - e)"
      using e by (intro dvd_trans [OF _ dvd_power [of "nat (em - e)" 10]]) auto
    ultimately have "(5::int) dvd int c" by (rule dvd_trans [rotated])
    then have "5 dvd c" by presburger
    with assms(1) show False by auto
  qed
  ultimately show ?thesis using assms(3)
    by (auto simp: dec_fix_def Let_def em_def)
qed

lemma quotient_digits:
  assumes "0 < a" "0 < b" "sh = int (ndig b) - int (ndig a) + int p + 1"
  shows "p < ndig ((if 0 \<le> sh then a * 10 ^ nat sh else a) div
                    (if 0 \<le> sh then b else b * 10 ^ nat (- sh)))" (is "p < ndig (?n div ?d)")
proof -
  have lo: "10 ^ (ndig a - 1) \<le> a" and hi: "b < 10 ^ ndig b"
    using ndig_lower [OF assms(1)] ndig_upper by auto
  have na: "0 < ndig a" by simp
  have "?d * 10 ^ p \<le> ?n"
  proof (cases "0 \<le> sh")
    case True
    then have "ndig a - 1 + nat sh = ndig b + p" using assms(3) na by linarith
    then have "10 ^ (ndig b + p) \<le> a * 10 ^ nat sh"
      using mult_le_mono1 [OF lo, of "10 ^ nat sh"] by (simp flip: power_add)
    moreover have "b * 10 ^ p \<le> 10 ^ (ndig b + p)" using hi by (simp add: power_add)
    ultimately show ?thesis using True by simp
  next
    case False
    then have "ndig a - 1 = ndig b + nat (- sh) + p" using assms(3) na by linarith
    then have "10 ^ (ndig b + nat (- sh) + p) \<le> a" using lo by simp
    moreover have "b * 10 ^ nat (- sh) * 10 ^ p \<le> 10 ^ (ndig b + nat (- sh) + p)"
      using hi by (simp add: power_add)
    ultimately show ?thesis using False by simp
  qed
  then have "10 ^ p \<le> ?n div ?d"
    using assms(2) by (simp add: less_eq_div_iff_mult_less_eq mult.commute)
  then show ?thesis using ndig_le_iff [of p "?n div ?d"] by (cases "p = 0") auto
qed

lemma quotient_value:
  fixes a b :: nat
  assumes "0 < b" "(if 0 \<le> sh then a * 10 ^ nat sh else a) mod (if 0 \<le> sh then b else b * 10 ^ nat (- sh)) = 0"
  shows "of_nat ((if 0 \<le> sh then a * 10 ^ nat sh else a) div (if 0 \<le> sh then b else b * 10 ^ nat (- sh)))
           * (10::rat) powi (- sh) = of_nat a / of_nat b"
proof (cases "0 \<le> sh")
  case True
  define q where "q = a * 10 ^ nat sh div b"
  have "q * b = a * 10 ^ nat sh" using assms True by (simp add: q_def minus_mod_eq_div_mult [symmetric])
  then have "(of_nat q :: rat) * of_nat b = of_nat a * 10 ^ nat sh"
    by (metis of_nat_mult of_nat_numeral of_nat_power)
  then have "(of_nat q :: rat) = of_nat a / of_nat b * 10 ^ nat sh"
    using assms(1) by (simp add: field_simps)
  moreover have "(10::rat) ^ nat sh * 10 powi (- sh) = 1"
    using True powi10_nat [of sh] powi10_add [of sh "- sh"] by simp
  ultimately show ?thesis using True by (simp add: q_def [symmetric])
next
  case False
  define m where "m = (10::nat) ^ nat (- sh)"
  define q where "q = a div (b * m)"
  have "q * (b * m) = a" using assms False by (simp add: q_def m_def minus_mod_eq_div_mult [symmetric])
  then have "(of_nat q :: rat) * of_nat m * of_nat b = of_nat a"
    by (metis mult.assoc mult.commute of_nat_mult)
  moreover have "(10::rat) powi (- sh) = of_nat m"
    using False by (simp add: m_def powi10_nat)
  ultimately show ?thesis using False assms(1)
    by (simp add: q_def [symmetric] m_def [symmetric] field_simps)
qed

lemma dval_sign: "dval d = (if sign d then - \<bar>dval d\<bar> else \<bar>dval d\<bar>)"
  unfolding dval_abs by (simp add: dval_def sint_of_def)

lemma dec_div_exact:
  assumes dv: "dec_div ctx a b = Inr d" and tr: "trap_inexact ctx" "0 < prec ctx"
  shows "dval d = dval a / dval b"
proof (cases "coef a = 0")
  case True
  then have "dec_fix ctx (sign a \<noteq> sign b) 0 (expo a - expo b) = Inr d"
    using dv by (auto simp: dec_div_def Let_def split: if_splits)
  then have "dval d = 0" using dec_fix_exact [OF _ tr] by fastforce
  with True show ?thesis using dval_zero_iff [of a] by simp
next
  case False
  define sh where "sh = int (ndig (coef b)) - int (ndig (coef a)) + int (prec ctx) + 1"
  define num where "num = (if 0 \<le> sh then coef a * 10 ^ nat sh else coef a)"
  define den where "den = (if 0 \<le> sh then coef b else coef b * 10 ^ nat (- sh))"
  define ideal where "ideal = expo a - expo b"
  have b: "coef b \<noteq> 0" using dv False by (auto simp: dec_div_def Let_def split: if_splits)
  have eq: "dec_div ctx a b = (if num mod den \<noteq> 0
      then dec_fix ctx (sign a \<noteq> sign b) (if num div den mod 5 = 0 then num div den + 1 else num div den) (ideal - sh)
      else (case strip_zeros (num div den) (ideal - sh) ideal of (q', e') \<Rightarrow>
              dec_fix ctx (sign a \<noteq> sign b) q' e'))"
    unfolding sh_def num_def den_def ideal_def using False b by (simp only: dec_div_def Let_def if_False)
  have big: "prec ctx < ndig (num div den)"
    using quotient_digits [of "coef a" "coef b" sh] False b by (simp add: num_def den_def sh_def)
  have "num mod den = 0"
  proof (rule ccontr)
    assume r: "num mod den \<noteq> 0"
    let ?q = "if num div den mod 5 = 0 then num div den + 1 else num div den"
    have "?q mod 5 \<noteq> 0" by (simp add: mod_Suc)
    moreover have "10 ^ prec ctx \<le> num div den"
      using big ndig_le_iff [OF tr(2), of "num div den"] by simp
    then have "10 ^ prec ctx \<le> ?q" by (simp only: split: if_split) simp
    then have "prec ctx < ndig ?q" using ndig_le_iff [OF tr(2), of ?q] by linarith
    ultimately obtain x where "dec_fix ctx (sign a \<noteq> sign b) ?q (ideal - sh) = Inl x"
      using dec_fix_sticky tr(1) by blast
    then show False using dv r by (simp only: eq if_True simp_thms) simp
  qed
  moreover obtain q' e' where st: "strip_zeros (num div den) (ideal - sh) ideal = (q', e')"
    by (cases "strip_zeros (num div den) (ideal - sh) ideal")
  ultimately have fx: "dec_fix ctx (sign a \<noteq> sign b) q' e' = Inr d"
    using dv by (simp only: eq simp_thms if_False st prod.case)
  have "of_nat q' * (10::rat) powi e' = of_nat (num div den) * 10 powi (ideal - sh)"
    by (rule strip_zeros_value [OF st])
  also have "\<dots> = of_nat (num div den) * 10 powi (- sh) * 10 powi ideal"
    using powi10_add [of "- sh" ideal] by simp
  also have "of_nat (num div den) * (10::rat) powi (- sh) = of_nat (coef a) / of_nat (coef b)"
    using quotient_value [of "coef b" sh "coef a"] b \<open>num mod den = 0\<close>
    by (simp add: num_def den_def)
  finally have v: "of_nat q' * (10::rat) powi e' = of_nat (coef a) / of_nat (coef b) * 10 powi ideal" .
  have "(10::rat) powi ideal = 10 powi expo a / 10 powi expo b"
    by (simp add: ideal_def power_int_diff)
  with v have "of_nat q' * (10::rat) powi e' = \<bar>dval a\<bar> / \<bar>dval b\<bar>" by (simp add: dval_abs)
  moreover have "dval d = (if sign a \<noteq> sign b then - 1 else 1) * (of_nat q' * 10 powi e')"
    using dec_fix_exact [OF fx tr] by simp
  ultimately show ?thesis
    using dval_sign [of a] dval_sign [of b] by (cases "sign a"; cases "sign b") simp_all
qed

lemma quantize_int_rounds:
  assumes "quantize_int p d = Inr n"
  shows "rounds_half_even (dval d) n"
proof -
  define m where "m = (if 0 \<le> expo d then int (coef d) * 10 ^ nat (expo d)
               else div_half_even (int (coef d)) (10 ^ nat (- expo d)))"
  have "rounds_half_even (of_nat (coef d) * 10 powi expo d) m"
  proof (cases "0 \<le> expo d")
    case True
    then have "of_nat (coef d) * 10 powi expo d = (of_int m :: rat)"
      by (simp add: m_def powi10_nat)
    then show ?thesis by simp
  next
    case False
    then have "of_nat (coef d) * (10::rat) powi expo d = of_int (int (coef d)) / of_int (10 ^ nat (- expo d))"
      using powi10_neg [of "expo d"] by (simp add: field_simps)
    with False show ?thesis using he.rounds [of "10 ^ nat (- expo d)" "int (coef d)"]
      by (simp add: m_def)
  qed
  moreover have "n = (if sign d then - m else m)"
    using assms by (auto simp: quantize_int_def Let_def m_def split: if_splits)
  ultimately show ?thesis
    using rounds_half_even_uminus by (auto simp: dval_def sint_of_def)
qed

lemma adjusted_bounds:
  assumes "coef d \<noteq> 0"
  shows "10 powi adjusted d \<le> \<bar>dval d\<bar>" and "\<bar>dval d\<bar> < 10 powi (adjusted d + 1)"
proof -
  define k where "k = ndig (coef d)"
  have k: "0 < k" by (simp add: k_def)
  have "(10::nat) ^ (k - 1) \<le> coef d" "coef d < 10 ^ k"
    using ndig_lower [of "coef d"] ndig_upper [of "coef d"] assms by (auto simp: k_def)
  then have c: "(10::rat) ^ (k - 1) \<le> of_nat (coef d)" "of_nat (coef d) < (10::rat) ^ k"
    by (metis of_nat_le_iff of_nat_numeral of_nat_power, metis of_nat_less_iff of_nat_numeral of_nat_power)
  have "(10::rat) powi adjusted d = 10 ^ (k - 1) * 10 powi expo d"
    using powi10_add [of "int (k - 1)" "expo d"] powi10_nat [of "int (k - 1)"] k
    by (simp add: adjusted_def k_def [symmetric] of_nat_diff algebra_simps)
  then show "10 powi adjusted d \<le> \<bar>dval d\<bar>"
    using c(1) by (simp add: dval_abs mult_right_mono)
  have "(10::rat) powi (adjusted d + 1) = 10 ^ k * 10 powi expo d"
    using powi10_add [of "int k" "expo d"] powi10_nat [of "int k"]
    by (simp add: adjusted_def k_def [symmetric] algebra_simps)
  then show "\<bar>dval d\<bar> < 10 powi (adjusted d + 1)"
    using c(2) by (simp add: dval_abs)
qed

lemma dval_shift_dec: "shift_dec d k = Inr x \<Longrightarrow> dval x = dval d * 10 powi k"
  by (auto simp: shift_dec_def dec_make_def dval_mkdec dval_def [of d] sint_of_def powi10_add split: if_splits)

lemma decimal_to_int_half_even_rounds:
  assumes "decimal_to_int_half_even d k = Inr n"
  shows "rounds_half_even (dval d * 10 powi k) n"
proof (cases "coef d = 0")
  case True
  then show ?thesis using assms by (auto simp: decimal_to_int_half_even_def dval_def sint_of_def rounds_half_even_def)
next
  case False
  then obtain x where x: "shift_dec d k = Inr x"
    and n: "(if adjusted x \<ge> MAX_NANO_EXP then Inl ValueError else if adjusted x < -1 then Inr 0
             else quantize_int (nat (adjusted x + 2)) x) = Inr n"
    using assms by (auto simp: decimal_to_int_half_even_def Let_def res_simps)
  have xc: "coef x \<noteq> 0"
    using x False by (auto simp: shift_dec_def dec_make_def mkdec_def split: if_splits)
  have "rounds_half_even (dval x) n"
  proof (cases "adjusted x < -1")
    case True
    then have "n = 0" using n by (auto simp: MAX_NANO_EXP_def)
    have "\<bar>dval x\<bar> < 10 powi (adjusted x + 1)" by (rule adjusted_bounds [OF xc])
    also have "\<dots> \<le> (10::rat) powi (-1)"
      using True by (intro power_int_increasing) auto
    finally have "\<bar>dval x\<bar> < 1 / 10" by (simp add: power_int_minus field_simps)
    with \<open>n = 0\<close> show ?thesis by (auto simp: rounds_half_even_def)
  next
    case False
    then show ?thesis using n quantize_int_rounds by (auto split: if_splits)
  qed
  then show ?thesis using dval_shift_dec [OF x] by simp
qed

section \<open>One rounding per line\<close>

lemma EXACT_CTX_simps [simp]: "trap_inexact EXACT_CTX" "prec EXACT_CTX = 60"
  by (simp_all add: EXACT_CTX_def)

lemma finite_or_Inr: "finite_or e d = Inr x \<longleftrightarrow> d = Finite x"
  by (cases d) (auto simp: finite_or_def)

lemma factors_exact:
  "rfold (\<lambda>amount factor. rbind (finite_or ValueError factor) (\<lambda>f. dec_mul EXACT_CTX amount f)) a fs = Inr t
   \<Longrightarrow> dval t = dval a * fvals fs"
proof (induction fs arbitrary: a)
  case Nil
  then show ?case by simp
next
  case (Cons f fs)
  then obtain x b where f: "f = Finite x" and b: "dec_mul EXACT_CTX a x = Inr b"
    and r: "rfold (\<lambda>amount factor. rbind (finite_or ValueError factor) (\<lambda>f. dec_mul EXACT_CTX amount f)) b fs = Inr t"
    by (auto simp: res_simps finite_or_Inr)
  from Cons.IH [OF r] dec_mul_exact [OF b] f show ?case by simp
qed

lemma token_amount_exact:
  assumes "token_amount n (Finite r) fs = Inr a"
  shows "dval a = of_int n * dval r * fvals fs / 10 ^ 6"
proof -
  from assms obtain m t where m: "dec_mul EXACT_CTX (dec_of_int n) r = Inr m"
    and t: "rfold (\<lambda>amount factor. rbind (finite_or ValueError factor) (\<lambda>f. dec_mul EXACT_CTX amount f)) m fs = Inr t"
    and a: "dec_div EXACT_CTX t (dec_of_int MTOK) = Inr a"
    by (auto simp: token_amount_def res_simps finite_or_Inr)
  show ?thesis
    using dec_mul_exact [OF m] factors_exact [OF t] dec_div_exact [OF a] by (simp add: MTOK_def)
qed

lemma token_nano_rounds:
  assumes "token_nano n (Finite r) fs = Inr k"
  shows "rounds_half_even (of_int n * dval r * fvals fs * 10 ^ 3) k"
proof -
  from assms obtain a where a: "token_amount n (Finite r) fs = Inr a"
    and k: "decimal_to_int_half_even a 9 = Inr k"
    by (auto simp: token_nano_def decimal_to_nano_def finite_or_def res_simps)
  have "rounds_half_even (dval a * 10 powi 9) k"
    by (rule decimal_to_int_half_even_rounds [OF k])
  moreover have "dval a * 10 powi 9 = of_int n * dval r * fvals fs * 10 ^ 3"
    by (simp add: token_amount_exact [OF a] powi10_nat)
  ultimately show ?thesis by metis
qed

lemma quantize_int_total:
  assumes "coef d \<noteq> 0" "-1 \<le> adjusted d"
  shows "\<exists>n. quantize_int (nat (adjusted d + 2)) d = Inr n"
proof -
  define m where "m = (if 0 \<le> expo d then int (coef d) * 10 ^ nat (expo d)
               else div_half_even (int (coef d)) (10 ^ nat (- expo d)))"
  define p where "p = nat (adjusted d + 2)"
  have p: "0 < p" using assms(2) by (simp add: p_def)
  have mr: "rounds_half_even \<bar>dval d\<bar> m"
  proof -
    have "quantize_int (ndig (nat m)) (d\<lparr>sign := False\<rparr>) = Inr m"
      by (simp add: quantize_int_def Let_def m_def)
    from quantize_int_rounds [OF this] show ?thesis
      unfolding dval_abs by (simp add: dval_def sint_of_def)
  qed
  have "\<bar>dval d\<bar> < 10 powi (adjusted d + 1)" by (rule adjusted_bounds [OF assms(1)])
  moreover have "(10::rat) powi (adjusted d + 1) = of_int (10 ^ (p - 1))"
    using assms(2) powi10_nat [of "adjusted d + 1"] by (simp add: p_def nat_diff_distrib nat_add_distrib)
  ultimately have "\<bar>dval d\<bar> \<le> of_int (10 ^ (p - 1))" by simp
  then have "m \<le> 10 ^ (p - 1)" by (rule rounds_half_even_mono [OF mr rounds_half_even_of_int])
  also have "\<dots> < (10::int) ^ p" using p by (simp add: power_strict_increasing)
  finally have "nat m < 10 ^ p" by (simp add: nat_less_iff)
  then have "\<not> p < ndig (nat m)" using ndig_le_iff [OF p, of "nat m"] by simp
  then show ?thesis by (auto simp: quantize_int_def Let_def m_def p_def)
qed

lemma decimal_to_int_half_even_total:
  assumes "MIN_ETINY \<le> expo d + k" "adjusted d + k < MAX_NANO_EXP"
  shows "\<exists>n. decimal_to_int_half_even d k = Inr n"
proof (cases "coef d = 0")
  case True
  then show ?thesis by (simp add: decimal_to_int_half_even_def)
next
  case False
  define x where "x = mkdec (sign d) (coef d) (expo d + k)"
  have sh: "shift_dec d k = Inr x"
    using assms by (simp add: shift_dec_def dec_make_def x_def adjusted_def MAX_NANO_EXP_def MAX_EMAX_def)
  have ax: "adjusted x = adjusted d + k" by (simp add: x_def adjusted_def)
  show ?thesis
    using quantize_int_total [of x] False assms(2)
    by (cases "adjusted x < -1")
      (auto simp: decimal_to_int_half_even_def Let_def sh ax [symmetric] x_def)
qed

lemma to_nano_with_remainder_sound:
  assumes "to_nano_with_remainder a = Inr (n, r)"
  shows "rounds_half_even (dval a * 10 ^ 9) n" and "dval r = dval a - of_int n / 10 ^ 9"
proof -
  from assms obtain k where k: "decimal_to_int_half_even a 9 = Inr k"
    by (auto simp: to_nano_with_remainder_def res_simps)
  have kn: "k = n" using assms k
    by (auto simp: to_nano_with_remainder_def Let_def res_simps split: if_splits)
  show "rounds_half_even (dval a * 10 ^ 9) n"
    using decimal_to_int_half_even_rounds [OF k] kn by (simp add: powi10_nat)
  show "dval r = dval a - of_int n / 10 ^ 9"
  proof (cases "n = 0")
    case True
    then show ?thesis using assms k kn by (simp add: to_nano_with_remainder_def)
  next
    case False
    then obtain x c rs where x: "shift_dec a 9 = Inr x"
      and tr: "trap_inexact c" "0 < prec c" and rs: "dec_sub c x (dec_of_int n) = Inr rs"
      and r: "shift_dec rs (-9) = Inr r"
    proof -
      let ?c = "\<lambda>x. \<lparr>prec = nat (int (ndig (coef x)) + \<bar>expo x\<bar> + adjusted (dec_of_int n) + 3),
          emin = MIN_EMIN, emax = MAX_EMAX, trap_inexact = True\<rparr>"
      obtain x rs where "shift_dec a 9 = Inr x" "dec_sub (?c x) x (dec_of_int n) = Inr rs"
        "shift_dec rs (-9) = Inr r"
        using assms k kn False by (auto simp: to_nano_with_remainder_def Let_def res_simps)
      moreover have "0 < prec (?c x)" by (simp add: adjusted_def dec_of_int_def)
      ultimately show ?thesis using that [of x "?c x" rs] by simp
    qed
    have "dval rs = dval x - of_int n"
      using dec_add_exact [OF rs [unfolded dec_sub_def] tr] by simp
    moreover have "dval x = dval a * 10 ^ 9" using dval_shift_dec [OF x] by (simp add: powi10_nat)
    moreover have "dval r = dval rs * 10 powi (-9)" by (rule dval_shift_dec [OF r])
    ultimately show ?thesis by (simp add: power_int_minus field_simps)
  qed
qed

lemma ndig_mult: "ndig (a * b) \<le> ndig a + ndig b"
proof -
  have "a * b < 10 ^ ndig a * 10 ^ ndig b"
    by (rule mult_strict_mono) (use ndig_upper in auto)
  then show ?thesis using ndig_le_iff [of "ndig a + ndig b" "a * b"] by (simp add: power_add)
qed

lemma dec_mul_fits:
  assumes "ndig (coef a) + ndig (coef b) \<le> 60" "\<bar>expo a + expo b\<bar> \<le> 999000"
  shows "dec_mul EXACT_CTX a b = Inr (mkdec (sign a \<noteq> sign b) (coef a * coef b) (expo a + expo b))"
  unfolding dec_mul_def
  using assms ndig_mult [of "coef a" "coef b"] by (intro dec_fix_fits) (auto simp: EXACT_CTX_def)

lemma strip_zeros_le:
  "strip_zeros c e ideal = (c', e') \<Longrightarrow> e \<le> ideal \<Longrightarrow> c' \<le> c \<and> e \<le> e' \<and> e' \<le> ideal"
proof (induction c e ideal rule: strip_zeros.induct)
  case (1 c e ideal)
  then show ?case
    by (cases "e < ideal \<and> c mod 10 = 0") (fastforce simp: strip_zeros.simps [of c])+
qed

lemma strip_zeros_scaled:
  "e \<le> ideal \<Longrightarrow> nat (ideal - e) = k \<Longrightarrow> j \<le> k \<Longrightarrow>
   strip_zeros (c * 10 ^ j) e ideal = strip_zeros c (e + int j) ideal"
proof (induction j arbitrary: e k)
  case 0
  then show ?case by simp
next
  case (Suc j)
  then have "e < ideal" by linarith
  then have "strip_zeros (c * 10 ^ Suc j) e ideal = strip_zeros (c * 10 ^ j) (e + 1) ideal"
    by (subst strip_zeros.simps) simp
  also have "\<dots> = strip_zeros c (e + 1 + int j) ideal"
    using Suc.prems \<open>e < ideal\<close> by (intro Suc.IH [of _ "k - 1"]) auto
  finally show ?case by (simp add: algebra_simps)
qed

lemma dec_div_exact_quotient:
  assumes "coef a \<noteq> 0" "coef b \<noteq> 0" "coef a * 10 ^ k = q * coef b"
    and "int (ndig (coef b)) - int (ndig (coef a)) + int (prec ctx) + 1 = int k"
  shows "dec_div ctx a b = (case strip_zeros q (expo a - expo b - int k) (expo a - expo b) of (q', e') \<Rightarrow>
           dec_fix ctx (sign a \<noteq> sign b) q' e')"
  unfolding dec_div_def Let_def assms(4) using assms(1-3) by simp

text \<open>Dividing by the tokens of a price unit is exact and needs no digit more.\<close>

lemma dec_div_MTOK:
  assumes "ndig (coef a) \<le> 60" "\<bar>expo a\<bar> \<le> 900000"
  shows "\<exists>d. dec_div EXACT_CTX a (dec_of_int MTOK) = Inr d \<and> ndig (coef d) \<le> 60 \<and>
             expo a - 6 \<le> expo d \<and> expo d \<le> expo a"
proof (cases "coef a = 0")
  case True
  then show ?thesis using assms
    by (simp add: dec_div_def Let_def MTOK_def dec_of_int_def dec_fix_def EXACT_CTX_def ndig.simps)
next
  case False
  have m: "ndig 1000000 = 7" by (simp add: ndig.simps)
  obtain j where j: "62 = j + ndig (coef a)"
    using assms(1) that [of "62 - ndig (coef a)"] by simp
  have dv: "dec_div EXACT_CTX a (dec_of_int MTOK) =
      (case strip_zeros (coef a * 10 ^ j) (expo a - (int j + 6)) (expo a) of (q', e') \<Rightarrow>
         dec_fix EXACT_CTX (sign a) q' e')"
    using dec_div_exact_quotient [of a "dec_of_int MTOK" "j + 6" "coef a * 10 ^ j" EXACT_CTX] False j m
    by (simp add: dec_of_int_def MTOK_def power_add)
  have "strip_zeros (coef a * 10 ^ j) (expo a - (int j + 6)) (expo a) = strip_zeros (coef a) (expo a - 6) (expo a)"
    by (subst strip_zeros_scaled [where k = "j + 6"]) (auto simp: nat_add_distrib)
  moreover obtain c e where s: "strip_zeros (coef a) (expo a - 6) (expo a) = (c, e)"
    by (cases "strip_zeros (coef a) (expo a - 6) (expo a)")
  moreover have ce: "c \<le> coef a" "expo a - 6 \<le> e" "e \<le> expo a" using strip_zeros_le [OF s] by auto
  then have "ndig c \<le> 60" using assms(1) by (simp add: ndig_le_iff)
  moreover have "dec_fix EXACT_CTX (sign a) c e = Inr (mkdec (sign a) c e)"
    using \<open>ndig c \<le> 60\<close> ce assms(2) by (intro dec_fix_fits) (auto simp: EXACT_CTX_def)
  ultimately have "dec_div EXACT_CTX a (dec_of_int MTOK) = Inr (mkdec (sign a) c e)"
    by (simp add: dv)
  then show ?thesis using ce \<open>ndig c \<le> 60\<close> by auto
qed

lemma factors_fit:
  assumes "ndig (coef a) + sum_list (map (ndig \<circ> coef) fs) \<le> 60" "\<forall>x \<in> set fs. \<bar>expo x\<bar> \<le> 1000"
    and "\<bar>expo a\<bar> + 1000 * int (length fs) \<le> 900000"
  shows "\<exists>t. rfold (\<lambda>amount factor. rbind (finite_or ValueError factor) (\<lambda>f. dec_mul EXACT_CTX amount f)) a
               (map Finite fs) = Inr t \<and> ndig (coef t) \<le> 60 \<and> \<bar>expo t\<bar> \<le> \<bar>expo a\<bar> + 1000 * int (length fs)"
  using assms
proof (induction fs arbitrary: a)
  case Nil
  then show ?case by simp
next
  case (Cons f fs)
  define b where "b = mkdec (sign a \<noteq> sign f) (coef a * coef f) (expo a + expo f)"
  have f: "\<bar>expo f\<bar> \<le> 1000" using Cons.prems by simp
  have "dec_mul EXACT_CTX a f = Inr b"
    using Cons.prems f unfolding b_def by (intro dec_mul_fits) auto
  moreover have "\<exists>t. rfold (\<lambda>amount factor. rbind (finite_or ValueError factor) (\<lambda>f. dec_mul EXACT_CTX amount f)) b
               (map Finite fs) = Inr t \<and> ndig (coef t) \<le> 60 \<and> \<bar>expo t\<bar> \<le> \<bar>expo b\<bar> + 1000 * int (length fs)"
    using Cons.prems f ndig_mult [of "coef a" "coef f"] by (intro Cons.IH) (auto simp: b_def)
  ultimately show ?case using f by (fastforce simp: finite_or_def b_def)
qed

lemma token_nano_total:
  assumes "ndig (nat \<bar>n\<bar>) + ndig (coef r) + sum_list (map (ndig \<circ> coef) fs) \<le> 60"
    and "\<forall>x \<in> set (r # fs). \<bar>expo x\<bar> \<le> 1000" "length fs \<le> 2"
  shows "\<exists>k. token_nano n (Finite r) (map Finite fs) = Inr k"
proof -
  define m where "m = mkdec (sign (dec_of_int n) \<noteq> sign r) (nat \<bar>n\<bar> * coef r) (expo r)"
  have 1: "dec_mul EXACT_CTX (dec_of_int n) r = Inr m"
    using assms dec_mul_fits [of "dec_of_int n" r] by (simp add: m_def dec_of_int_def)
  have "ndig (coef m) + sum_list (map (ndig \<circ> coef) fs) \<le> 60"
    using assms(1) ndig_mult [of "nat \<bar>n\<bar>" "coef r"] by (simp add: m_def)
  then obtain t where 2: "rfold (\<lambda>amount factor. rbind (finite_or ValueError factor) (\<lambda>f. dec_mul EXACT_CTX amount f)) m
               (map Finite fs) = Inr t" and t: "ndig (coef t) \<le> 60" "\<bar>expo t\<bar> \<le> 3000"
    using factors_fit [of m fs] assms(2,3) by (auto simp: m_def)
  obtain d where 3: "dec_div EXACT_CTX t (dec_of_int MTOK) = Inr d"
    and d: "ndig (coef d) \<le> 60" "\<bar>expo d\<bar> \<le> 3006"
    using dec_div_MTOK [of t] t by auto
  have "MIN_ETINY \<le> expo d + 9" "adjusted d + 9 < MAX_NANO_EXP"
    using d by (simp_all add: adjusted_def MIN_ETINY_def MAX_NANO_EXP_def)
  then obtain k where "decimal_to_int_half_even d 9 = Inr k"
    using decimal_to_int_half_even_total by blast
  then show ?thesis
    using 1 2 3 by (simp add: token_nano_def token_amount_def finite_or_def decimal_to_nano_def)
qed

lemma fvals_Finite [simp]: "fvals (map Finite fs) = prod_list (map dval fs)"
  by (induction fs) auto

lemma to_nano_remainder_bound:
  assumes "rounds_half_even (x * 10 ^ 9) n" "y = x - of_int n / 10 ^ 9"
  shows "\<bar>y\<bar> \<le> 1 / 2 / 10 ^ 9"
proof -
  have "y * 10 ^ 9 = x * 10 ^ 9 - of_int n" using assms(2) by (simp add: field_simps)
  then have "\<bar>y * 10 ^ 9\<bar> \<le> 1 / 2" using assms(1) by (simp add: rounds_half_even_def)
  then show ?thesis by (simp add: abs_mult)
qed

lemma quantize_int_digits:
  assumes "quantize_int p d = Inr n"
  shows "ndig (nat \<bar>n\<bar>) \<le> p"
proof -
  define m where "m = (if 0 \<le> expo d then int (coef d) * 10 ^ nat (expo d)
               else div_half_even (int (coef d)) (10 ^ nat (- expo d)))"
  have "0 \<le> m"
    using he.mono [of "10 ^ nat (- expo d)" 0 "int (coef d)"] he.exact [of "10 ^ nat (- expo d)" 0]
    by (simp add: m_def)
  moreover have "(if p < ndig (nat m) then Inl DecInvalid else Inr (if sign d then - m else m)) = Inr n"
    using assms by (simp only: quantize_int_def Let_def m_def)
  ultimately show ?thesis by (cases "p < ndig (nat m)"; cases "sign d") auto
qed

lemma dec_sub_of_int:
  assumes "coef x \<noteq> 0" "n \<noteq> 0"
  shows "dec_sub ctx x (dec_of_int n) =
    dec_fix ctx (sint_of x * 10 ^ nat (expo x - min (expo x) 0) + - n * 10 ^ nat (- min (expo x) 0) < 0)
      (nat \<bar>sint_of x * 10 ^ nat (expo x - min (expo x) 0) + - n * 10 ^ nat (- min (expo x) 0)\<bar>) (min (expo x) 0)"
proof -
  have "coef (dec_neg (dec_of_int n)) \<noteq> 0" "expo (dec_neg (dec_of_int n)) = 0"
    "sint_of (dec_neg (dec_of_int n)) = - n"
    using assms(2) by (auto simp: dec_neg_def dec_of_int_def mkdec_def sint_of_def)
  then show ?thesis using assms(1) by (simp add: dec_sub_def dec_add_def Let_def)
qed

lemma to_nano_with_remainder_total:
  assumes a: "MIN_ETINY \<le> expo a + 9" "adjusted a + 9 < MAX_NANO_EXP" "int (ndig (coef a)) \<le> 100000000000000000"
  shows "\<exists>n r. to_nano_with_remainder a = Inr (n, r)"
proof -
  obtain n where k: "decimal_to_int_half_even a 9 = Inr n"
    using decimal_to_int_half_even_total a(1,2) by blast
  show ?thesis
  proof (cases "n = 0")
    case True
    then show ?thesis using k by (simp add: to_nano_with_remainder_def)
  next
    case False
    define x where "x = mkdec (sign a) (coef a) (expo a + 9)"
    define p where "p = int (ndig (coef x)) + \<bar>expo x\<bar> + adjusted (dec_of_int n) + 3"
    define ctx where "ctx = \<lparr>prec = nat p, emin = MIN_EMIN, emax = MAX_EMAX, trap_inexact = True\<rparr>"
    define e where "e = min (expo x) 0"
    define m where "m = sint_of x * 10 ^ nat (expo x - e) + - n * 10 ^ nat (- e)"
    have x: "shift_dec a 9 = Inr x"
      using a by (simp add: shift_dec_def dec_make_def x_def adjusted_def MAX_NANO_EXP_def MAX_EMAX_def)
    have rnd: "rounds_half_even (dval x) n"
      using decimal_to_int_half_even_rounds [OF k] dval_shift_dec [OF x] by simp
    have ca: "coef a \<noteq> 0"
    proof
      assume "coef a = 0"
      then show False using k False by (simp add: decimal_to_int_half_even_def)
    qed
    have ax: "-1 \<le> adjusted x" and qz: "quantize_int (nat (adjusted x + 2)) x = Inr n"
      using k ca x False by (auto simp: decimal_to_int_half_even_def MAX_NANO_EXP_def Let_def split: if_splits)
    have "of_int m * 10 powi e = dval x + dval (dec_neg (dec_of_int n))"
      by (rule dec_add_value) (auto simp: m_def e_def dec_neg_def dec_of_int_def mkdec_def sint_of_def)
    then have "\<bar>of_int m * (10::rat) powi e\<bar> \<le> 1" using rnd by (simp add: rounds_half_even_def)
    moreover have "(10::rat) powi e * of_int (10 ^ nat (- e)) = 1"
      by (rule powi10_neg) (simp add: e_def)
    ultimately have "\<bar>of_int m :: rat\<bar> \<le> of_int (10 ^ nat (- e))"
      by (smt (verit) abs_mult mult.assoc mult.commute mult_cancel_left1 mult_left_mono abs_of_pos powi10_pos zero_le_power of_int_0_le_iff mult_1)
    then have mb: "nat \<bar>m\<bar> \<le> 10 ^ nat (- e)"
      by (simp only: of_int_abs [symmetric] of_int_le_iff) (simp add: nat_le_iff)
    have "ndig (nat \<bar>n\<bar>) \<le> nat (adjusted x + 2)" by (rule quantize_int_digits [OF qz])
    moreover have "adjusted x < 4000"
      using a(2) by (simp add: x_def adjusted_def MAX_NANO_EXP_def)
    moreover have "int (ndig (coef x)) \<le> 100000000000000000" using a(3) by (simp only: x_def mkdec_simps)
    ultimately have an: "0 \<le> adjusted (dec_of_int n)" "adjusted (dec_of_int n) \<le> 4001"
      "\<bar>expo x\<bar> \<le> 100000000000000001" "int (ndig (coef x)) \<le> 100000000000000000"
      using ax by (auto simp: adjusted_def dec_of_int_def)
    have "nat (- e) < nat p" using an(1) unfolding p_def e_def by linarith
    then have "(10::nat) ^ nat (- e) < 10 ^ nat p" by (simp add: power_strict_increasing)
    with mb have "nat \<bar>m\<bar> < 10 ^ nat p" by (rule le_less_trans)
    then have "ndig (nat \<bar>m\<bar>) \<le> nat p" using an by (subst ndig_le_iff) (simp_all add: p_def)
    then have "dec_fix ctx (m < 0) (nat \<bar>m\<bar>) e = Inr (mkdec (m < 0) (nat \<bar>m\<bar>) e)"
      using an by (intro dec_fix_fits) (auto simp: ctx_def MIN_EMIN_def MAX_EMAX_def p_def e_def)
    then have "dec_sub ctx x (dec_of_int n) = Inr (mkdec (m < 0) (nat \<bar>m\<bar>) e)"
      using dec_sub_of_int [of x n ctx] ca False by (simp only: e_def m_def x_def mkdec_simps simp_thms)
    moreover have "MIN_ETINY \<le> e + -9" "e + -9 + int (ndig (nat \<bar>m\<bar>)) - 1 \<le> MAX_EMAX"
      using an \<open>ndig (nat \<bar>m\<bar>) \<le> nat p\<close> unfolding MIN_ETINY_def MAX_EMAX_def e_def p_def by linarith+
    then have "\<exists>r. shift_dec (mkdec (m < 0) (nat \<bar>m\<bar>) e) (-9) = Inr r"
      by (simp add: shift_dec_def dec_make_def)
    ultimately show ?thesis using k False x
      unfolding to_nano_with_remainder_def Let_def ctx_def p_def by auto
  qed
qed

section \<open>Strings\<close>

lemma is_digit_iff: "is_digit c \<longleftrightarrow> c \<in> set ''0123456789''"
proof -
  have "index_of xs x \<noteq> None \<longleftrightarrow> x \<in> set xs" for xs and x :: char
    by (induction xs) auto
  then show ?thesis by (simp only: is_digit_def undig_def)
qed

lemma is_digit_facts:
  assumes "is_digit c"
  shows "\<not> is_space c" "c \<noteq> CHR ''_''" "c \<noteq> CHR ''-''" "c \<noteq> CHR ''+''" "c \<noteq> CHR ''.''"
    "lower c = c" "c \<noteq> CHR ''i''" "c \<noteq> CHR ''n''" "c \<noteq> CHR ''s''"
  using assms unfolding is_digit_iff by (auto simp: is_space_def lower_def)

lemma strip_id: "s \<noteq> [] \<Longrightarrow> \<not> is_space (hd s) \<Longrightarrow> \<not> is_space (last s) \<Longrightarrow> strip s = s"
proof -
  assume s: "s \<noteq> []" "\<not> is_space (hd s)" "\<not> is_space (last s)"
  then have "dropWhile is_space s = s" by (cases s) auto
  moreover have "dropWhile is_space (rev s) = rev s" using s by (cases "rev s") (auto simp: hd_rev [symmetric])
  ultimately show "strip s = s" by (simp add: strip_def)
qed

text \<open>Plain decimal notation reads as the coefficient of its digits over a power of ten.\<close>

lemma decimal_of_string_plain:
  assumes w: "w \<noteq> []" "\<forall>c \<in> set w. is_digit c" and f: "\<forall>c \<in> set f. is_digit c"
    and sg: "sg = (if neg then ''-'' else '''')"
    and pt: "pt = (if f = [] then '''' else ''.'')"
  shows "decimal_of_string (sg @ w @ pt @ f) =
           rbind (dec_make neg (read_nat (w @ f)) (- int (length f))) (\<lambda>d. Inr (Finite d))"
proof -
  obtain a w' where aw: "w = a # w'" using w(1) by (cases w) auto
  have a: "is_digit a" using w(2) aw by simp
  let ?s = "sg @ w @ pt @ f"
  have "last ?s = (if f = [] then last w else last f)" using w(1) pt by auto
  moreover have "is_digit (last w)" "f \<noteq> [] \<Longrightarrow> is_digit (last f)"
    using w f by (auto dest: last_in_set)
  ultimately have "is_digit (last ?s)" by auto
  moreover have "\<not> is_space (hd ?s)" using is_digit_facts(1) [OF a] sg aw by (auto simp: is_space_def)
  ultimately have st: "strip ?s = ?s" using w(1) is_digit_facts(1) by (intro strip_id) auto
  have us: "filter (\<lambda>c. c \<noteq> CHR ''_'') ?s = ?s"
    using w(2) f sg pt is_digit_facts(2) by (auto simp: filter_id_conv)
  have ts: "take_sign ?s = (neg, w @ pt @ f)"
    using sg aw is_digit_facts(3,4) [OF a] by (auto simp: take_sign_def)
  have low: "map lower (w @ pt @ f) = a # map lower (w' @ pt @ f)"
    using is_digit_facts(6) [OF a] aw by simp
  have tw: "takeWhile is_digit (w @ pt @ f) = w" "dropWhile is_digit (w @ pt @ f) = pt @ f"
    using w(2) f is_digit_facts(5) unfolding pt by (auto simp: takeWhile_append dropWhile_append)
  have tf: "takeWhile is_digit f = f" "dropWhile is_digit f = []"
    using f by (simp_all add: takeWhile_eq_all_conv)
  have "parse_number neg (w @ pt @ f) = dec_make neg (read_nat (w @ f)) (- int (length f))"
  proof (cases "f = []")
    case True
    then show ?thesis unfolding parse_number_def tw Let_def using w(1) pt by (simp add: parse_exponent_def)
  next
    case False
    then have "pt = ''.''" using pt by simp
    then show ?thesis unfolding parse_number_def tw Let_def using w(1) by (simp add: parse_exponent_def tf)
  qed
  then show ?thesis
    using is_digit_facts(7,8,9) [OF a]
    unfolding decimal_of_string_def st us ts prod.case low
    by (simp add: is_nan_text_def startswith_def)
qed

lemma rstrip_char_split: "\<exists>k. s = rstrip_char c s @ replicate k c"
proof -
  have "s = rev (takeWhile (\<lambda>x. x = c) (rev s) @ dropWhile (\<lambda>x. x = c) (rev s))" by simp
  then have "s = rstrip_char c s @ rev (takeWhile (\<lambda>x. x = c) (rev s))"
    unfolding rstrip_char_def by (metis rev_append)
  moreover have "takeWhile (\<lambda>x. x = c) (rev s) = replicate (length (takeWhile (\<lambda>x. x = c) (rev s))) c"
    by (rule replicate_eqI) (auto dest: set_takeWhileD)
  ultimately show ?thesis by (metis rev_replicate)
qed

lemma read_nat_rjust [simp]: "read_nat (rjust w (CHR ''0'') s) = read_nat s"
  by (simp add: rjust_def read_nat_append)

lemma length_rjust: "length s \<le> w \<Longrightarrow> length (rjust w c s) = w"
  by (simp add: rjust_def)

text \<open>The digits printed after the point, trailing zeros removed.\<close>

lemma fraction_digits:
  assumes "0 < fr" "fr < 10 ^ w" "0 < w"
  defines "f \<equiv> rstrip_char (CHR ''0'') (rjust w (CHR ''0'') (show_nat fr))"
  shows "f \<noteq> []" and "\<forall>c \<in> set f. is_digit c" and "length f \<le> w"
    and "read_nat (v @ f) * 10 ^ (w - length f) = read_nat v * 10 ^ w + fr"
proof -
  have len: "length (rjust w (CHR ''0'') (show_nat fr)) = w"
    using assms(2,3) ndig_le_iff [of w fr] by (simp add: length_rjust length_show_nat)
  obtain k where k: "rjust w (CHR ''0'') (show_nat fr) = f @ replicate k (CHR ''0'')"
    unfolding f_def using rstrip_char_split by metis
  have w: "w = length f + k" using len k by simp
  show "length f \<le> w" using w by simp
  have rd: "fr = read_nat f * 10 ^ k"
    using arg_cong [OF k, of read_nat] by (simp add: read_nat_append)
  show "f \<noteq> []" using rd assms(1) by (auto simp: read_nat_def)
  have "\<forall>c \<in> set (rjust w (CHR ''0'') (show_nat fr)). is_digit c"
    using show_nat_digits [of fr] is_digit_dig [of 0] by (auto simp: rjust_def dig_def)
  then show "\<forall>c \<in> set f. is_digit c" using k by auto
  show "read_nat (v @ f) * 10 ^ (w - length f) = read_nat v * 10 ^ w + fr"
    using w rd by (simp add: read_nat_append power_add algebra_simps)
qed

lemma ndig_mono: "a \<le> b \<Longrightarrow> ndig a \<le> ndig b"
  using ndig_upper [of b] ndig_le_iff [of "ndig b" a] by simp

lemma nat_abs_div_mod: "nat \<bar>n\<bar> = nat (\<bar>n\<bar> div 10 ^ 9) * 10 ^ 9 + nat (\<bar>n\<bar> mod 10 ^ 9)"
  by (simp add: nat_div_distrib nat_mod_distrib)

text \<open>What \<open>nano_to_usd_str\<close> prints is read back as a decimal of the same value.\<close>

lemma usd_str_parse:
  assumes "ndig (nat \<bar>n\<bar>) \<le> 3000"
  shows "\<exists>d. usd (PStr (nano_to_usd_str n)) = Inr d \<and> dval d = of_int n / 10 ^ 9 \<and>
           -9 \<le> expo d \<and> expo d \<le> 0 \<and> ndig (coef d) \<le> 3000"
proof -
  define whole fr where "whole = nat (\<bar>n\<bar> div 10 ^ 9)" and "fr = nat (\<bar>n\<bar> mod 10 ^ 9)"
  define f where "f = (if fr = 0 then '''' else rstrip_char (CHR ''0'') (rjust 9 (CHR ''0'') (show_nat fr)))"
  define c where "c = read_nat (show_nat whole @ f)"
  have wf: "nat \<bar>n\<bar> = whole * 10 ^ 9 + fr"
    unfolding whole_def fr_def by (rule nat_abs_div_mod)
  have lt: "fr < 10 ^ 9" by (simp add: fr_def nat_less_iff)
  have fx: "length f \<le> 9" "c * 10 ^ (9 - length f) = nat \<bar>n\<bar>" "\<forall>x \<in> set f. is_digit x" "f = [] \<longleftrightarrow> fr = 0"
    using fraction_digits(1-3) [OF _ lt] fraction_digits(4) [OF _ lt, of "show_nat whole"]
    by (cases "fr = 0"; force simp: f_def c_def wf)+
  have str: "nano_to_usd_str n = (if n < 0 then ''-'' else '''') @ show_nat whole @ (if f = [] then '''' else ''.'') @ f"
  proof (cases "fr = 0")
    case True
    then have "\<bar>n\<bar> mod 10 ^ 9 = 0" using fr_def by (simp add: nat_eq_iff)
    then show ?thesis using True fx(4) by (simp add: nano_to_usd_str_def Let_def NANO_PER_USD_def whole_def)
  next
    case False
    then have "\<bar>n\<bar> mod 10 ^ 9 \<noteq> 0" by (auto simp: fr_def)
    then show ?thesis using False fx(4) by (simp add: nano_to_usd_str_def Let_def NANO_PER_USD_def whole_def f_def fr_def)
  qed
  have cle: "c \<le> nat \<bar>n\<bar>" using mult_le_mono2 [of 1 "10 ^ (9 - length f)" c] fx(2) by simp
  then have nc: "ndig c \<le> 3000" using assms by (rule ndig_mono [THEN le_trans])
  have mk: "dec_make (n < 0) c (- int (length f)) = Inr (mkdec (n < 0) c (- int (length f)))"
    using nc fx(1) by (simp add: dec_make_def MIN_ETINY_def MAX_EMAX_def)
  have "decimal_of_string (nano_to_usd_str n) = Inr (Finite (mkdec (n < 0) c (- int (length f))))"
    unfolding str by (subst decimal_of_string_plain)
      (use show_nat_digits fx(3) in \<open>auto simp: mk c_def [symmetric]\<close>)
  then have "usd (PStr (nano_to_usd_str n)) = Inr (mkdec (n < 0) c (- int (length f)))"
    by (simp add: usd_def parse_money_def check_type_def finite_or_def)
  moreover have "dval (mkdec (n < 0) c (- int (length f))) = of_int n / 10 ^ 9"
  proof -
    have "(of_nat c :: rat) * 10 ^ (9 - length f) = of_int \<bar>n\<bar>"
      using fx(2) by (metis of_nat_mult of_nat_nat of_nat_numeral of_nat_power abs_ge_zero of_int_of_nat_eq)
    moreover have "(10::rat) ^ 9 = 10 ^ (9 - length f) * 10 ^ length f"
      using fx(1) by (simp flip: power_add)
    ultimately have "of_nat c * (10::rat) ^ 9 = of_int \<bar>n\<bar> * 10 ^ length f"
      by (metis mult.assoc)
    then have "of_nat c * (10::rat) powi (- int (length f)) = of_int \<bar>n\<bar> / 10 ^ 9"
      by (simp add: power_int_minus divide_simps)
    then show ?thesis by (simp add: dval_mkdec)
  qed
  ultimately show ?thesis using fx(1) nc by simp
qed

section \<open>Properties\<close>

lemma exact_remainder_zero:
  assumes "dval a = of_int n / 10 ^ 9" "to_nano_with_remainder a = Inr (m, r)"
  shows "m = n \<and> dval r = 0"
proof -
  have "rounds_half_even (of_int n) m"
    using to_nano_with_remainder_sound(1) [OF assms(2)] assms(1) by simp
  then have "m = n" using rounds_half_even_unique rounds_half_even_of_int by blast
  then show ?thesis using to_nano_with_remainder_sound(2) [OF assms(2)] assms(1) by simp
qed

text \<open>C28: Pricing a token line returns for every count, finite rate and at most two finite factors whose digits are at most 60
  together and whose exponents lie between -1000 and 1000 (rates of a card and the multipliers on them are far
  inside these bounds), and the result is the exact product tokens * rate * factors / 10^6 USD in nano-USD, rounded
  half-even exactly once.\<close>

theorem token_nano_rounds_once:
  assumes "ndig (nat \<bar>n\<bar>) + ndig (coef r) + sum_list (map (ndig \<circ> coef) fs) \<le> 60"
    and "\<forall>x \<in> set (r # fs). \<bar>expo x\<bar> \<le> 1000" and "length fs \<le> 2"
  shows "\<exists>k. token_nano n (Finite r) (map Finite fs) = Inr k \<and>
             rounds_half_even (of_int n * dval r * prod_list (map dval fs) * 10 ^ 3) k"
proof -
  obtain k where "token_nano n (Finite r) (map Finite fs) = Inr k"
    using token_nano_total [OF assms] by blast
  then show ?thesis using token_nano_rounds [of n r "map Finite fs" k] by simp
qed

theorem token_nano_rounds_once_witness:
  "\<exists>k. token_nano 1234567 (Finite (mkdec False 1500 (-2))) (map Finite [mkdec False 11 (-1)]) = Inr k \<and>
       rounds_half_even (of_int 1234567 * dval (mkdec False 1500 (-2)) *
         prod_list (map dval [mkdec False 11 (-1)]) * 10 ^ 3) k"
  by (rule token_nano_rounds_once) (simp_all add: ndig.simps)

text \<open>Converting an accepted USD amount to nano-USD returns an amount and a remainder that add up to the source value exactly; the remainder is at most half a nano-USD.\<close>

theorem usd_strings_lose_nothing:
  assumes "usd v = Inr a" "MIN_ETINY \<le> expo a + 9" "adjusted a + 9 < MAX_NANO_EXP"
    and "int (ndig (coef a)) \<le> 100000000000000000"
  shows "\<exists>n r. usd_str_to_nano v = Inr (n, r) \<and> of_int n / 10 ^ 9 + dval r = dval a \<and>
               \<bar>dval r\<bar> \<le> 1 / 2 / 10 ^ 9 \<and> rounds_half_even (dval a * 10 ^ 9) n"
proof -
  obtain n r where nr: "to_nano_with_remainder a = Inr (n, r)"
    using to_nano_with_remainder_total [OF assms(2-4)] by blast
  note s = to_nano_with_remainder_sound [OF nr]
  have "usd_str_to_nano v = Inr (n, r)" using nr assms(1) by (simp add: usd_str_to_nano_def)
  then show ?thesis using s to_nano_remainder_bound [OF s] by force
qed

lemmas eval_parse = usd_def from_cents_def parse_money_def check_type_def decimal_of_string_def strip_def
  is_space_def take_sign_def lower_def is_nan_text_def startswith_def parse_number_def parse_exponent_def
  is_digit_iff Let_def dec_make_def finite_or_def shift_dec_def ndig.simps read_nat_def undig_def
  MIN_ETINY_def MAX_EMAX_def

theorem usd_strings_lose_nothing_witness:
  "\<exists>n r. usd_str_to_nano (PStr ''-12.3456789015'') = Inr (n, r) \<and>
         of_int n / 10 ^ 9 + dval r = dval (mkdec True 123456789015 (-10)) \<and>
         \<bar>dval r\<bar> \<le> 1 / 2 / 10 ^ 9 \<and> rounds_half_even (dval (mkdec True 123456789015 (-10)) * 10 ^ 9) n"
proof (rule usd_strings_lose_nothing)
  show "usd (PStr ''-12.3456789015'') = Inr (mkdec True 123456789015 (-10))" by (simp add: eval_parse)
qed (simp_all add: MIN_ETINY_def adjusted_def MAX_NANO_EXP_def ndig.simps)

text \<open>Converting a cost-report amount in cents to nano-USD returns an amount and a remainder that give back the parsed cents exactly.\<close>

theorem cents_lose_nothing:
  assumes "from_cents v = Inr a" "MIN_ETINY \<le> expo a + 9" "adjusted a + 9 < MAX_NANO_EXP"
    and "int (ndig (coef a)) \<le> 100000000000000000"
  shows "\<exists>d n r. parse_money v = Inr d \<and> cents_to_nano v = Inr (n, r) \<and>
               of_int n / 10 ^ 7 + dval r * 100 = dval d"
proof -
  obtain n r where nr: "to_nano_with_remainder a = Inr (n, r)"
    using to_nano_with_remainder_total [OF assms(2-4)] by blast
  have "cents_to_nano v = Inr (n, r)" using nr assms(1) by (simp add: cents_to_nano_def)
  moreover obtain d where d: "parse_money v = Inr d" "shift_dec d (-2) = Inr a"
    using assms(1) by (auto simp: from_cents_def res_simps)
  moreover have "of_int n / 10 ^ 7 + dval r * 100 = dval d"
    using to_nano_with_remainder_sound(2) [OF nr] dval_shift_dec [OF d(2)]
    by (simp add: power_int_minus field_simps)
  ultimately show ?thesis by blast
qed

theorem cents_lose_nothing_witness:
  "\<exists>d n r. parse_money (PStr ''123.78912'') = Inr d \<and> cents_to_nano (PStr ''123.78912'') = Inr (n, r) \<and>
           of_int n / 10 ^ 7 + dval r * 100 = dval d"
proof (rule cents_lose_nothing)
  show "from_cents (PStr ''123.78912'') = Inr (mkdec False 12378912 (-7))" by (simp add: eval_parse)
qed (simp_all add: MIN_ETINY_def adjusted_def MAX_NANO_EXP_def ndig.simps)

text \<open>Printing a nano-USD amount with \<open>nano_to_usd_str\<close> and reading it with \<open>usd_str_to_nano\<close> gives the amount back with remainder zero.\<close>

theorem nano_usd_str_roundtrip:
  assumes "ndig (nat \<bar>n\<bar>) \<le> 3000"
  shows "\<exists>r. usd_str_to_nano (PStr (nano_to_usd_str n)) = Inr (n, r) \<and> dval r = 0"
proof -
  obtain d where d: "usd (PStr (nano_to_usd_str n)) = Inr d" "dval d = of_int n / 10 ^ 9"
    and e: "-9 \<le> expo d" "expo d \<le> 0" "ndig (coef d) \<le> 3000"
    using usd_str_parse [OF assms] by blast
  have "MIN_ETINY \<le> expo d + 9" "adjusted d + 9 < MAX_NANO_EXP" "int (ndig (coef d)) \<le> 100000000000000000"
    using e by (simp_all add: MIN_ETINY_def adjusted_def MAX_NANO_EXP_def)
  then obtain m r where mr: "to_nano_with_remainder d = Inr (m, r)"
    using to_nano_with_remainder_total by blast
  then show ?thesis
    using exact_remainder_zero [OF d(2) mr] d(1) by (simp add: usd_str_to_nano_def)
qed

theorem nano_usd_str_roundtrip_witness:
  "\<exists>r. usd_str_to_nano (PStr (nano_to_usd_str (-1234567000))) = Inr (-1234567000, r) \<and> dval r = 0"
  by (rule nano_usd_str_roundtrip) (simp add: ndig.simps)

text \<open>Every nano-AIU count converts to the nano-USD nearest to a hundredth of it (half-even), and the remainder makes the conversion exact.\<close>

theorem nano_aiu_exact:
  "\<exists>k r. nano_aiu_to_nano n = Inr (k, r) \<and> of_int k + dval r * 10 ^ 9 = of_int n / 100 \<and>
               rounds_half_even (of_int n / 100) k"
proof -
  define k where "k = div_half_even n 100"
  have rk: "rounds_half_even (of_int n / 100) k" using he.rounds [of 100 n] by (simp add: k_def)
  define d where "d = dec_of_int (n - k * 100)"
  have "\<bar>n - k * 100\<bar> \<le> 50" using he.error_bound [of 100 n] by (simp add: k_def)
  then have "ndig (coef d) \<le> 2" using ndig_le_iff [of 2 "coef d"] by (simp add: d_def dec_of_int_def nat_less_iff)
  then have "shift_dec d (-11) = Inr (mkdec (sign d) (coef d) (-11))"
    by (simp add: shift_dec_def dec_make_def d_def dec_of_int_def MIN_ETINY_def MAX_EMAX_def)
  moreover have "dval (mkdec (sign d) (coef d) (-11)) = of_int (n - k * 100) / 10 ^ 11"
    unfolding dval_shift_dec [OF calculation] power_int_minus by (simp only: d_def dval_of_int divide_inverse power_int_numeral)
  ultimately have "nano_aiu_to_nano n = Inr (k, mkdec (sign d) (coef d) (-11)) \<and>
      of_int k + dval (mkdec (sign d) (coef d) (-11)) * 10 ^ 9 = (of_int n / 100 :: rat)"
    by (simp add: nano_aiu_to_nano_def Let_def NANO_AIU_PER_CREDIT_def NANO_USD_PER_CREDIT_def
        k_def [symmetric] d_def [symmetric] field_simps)
  with rk show ?thesis by blast
qed

lemma scaled_to_nano_half_even:
  "rounds_half_even (of_int a * 10 powi (9 - s)) (scaled_to_nano a s)"
proof (cases "s \<le> 9")
  case True
  then have "of_int a * (10::rat) powi (9 - s) = of_int (scaled_to_nano a s)"
    by (simp add: scaled_to_nano_def Let_def powi10_nat)
  then show ?thesis by simp
next
  case False
  then have "of_int a * (10::rat) powi (9 - s) = of_int a / of_int (10 ^ nat (s - 9))"
    using powi10_neg [of "9 - s"] by (simp add: field_simps)
  with False show ?thesis using he.rounds [of "10 ^ nat (s - 9)" a]
    by (simp add: scaled_to_nano_def Let_def)
qed

text \<open>A scaled store amount is converted to nano-USD by one half-even rounding of its exact value.\<close>

theorem scaled_to_nano_rounds:
  "rounds_half_even (of_int a * 10 powi (9 - s)) (scaled_to_nano a s)"
  by (rule scaled_to_nano_half_even)

theorem floats_are_refused:
  "parse_money PFloat = Inl TypeError" "parse_money (PBool b) = Inl TypeError"
  "from_cents (PDec d) = Inl TypeError" "parse_money (PDec NaN) = Inl ValueError"
  by (simp_all add: parse_money_def from_cents_def check_type_def finite_or_def)

end
