(* ===== verification/Labels.thy ===== *)
theory Labels
  imports Money
begin

text \<open>
  \<open>tokenbill/core/labels.py\<close>: every money value is a \<open>figure\<close> with evidence, basis, finality and
  calibration. \<open>mk_figure\<close> is the construction check of \<open>Figure.__post_init__\<close> (the enum and type
  coercions are the record's types); \<open>add\<close>, \<open>sub\<close>, \<open>scale\<close> and \<open>combine_weakest\<close> build every result
  through it. The lemmas show that combining valid figures succeeds, keeps the construction rules,
  never strengthens evidence and encloses every combination of values of the operands' ranges.
\<close>

section \<open>Definitions\<close>

datatype evidence = EXACT | ESTIMATED | MEASURED | VERIFIED
datatype basis = LIST | CONTRACT | INVOICE | PROVIDER_ESTIMATE | LIST_EQUIVALENT
datatype finality = PROVISIONAL | FINAL | FinalityNA
datatype calibration = CALIBRATED | UNCALIBRATED | CalibrationNA

fun STRENGTH :: "evidence \<Rightarrow> nat" where
  "STRENGTH EXACT = 3" | "STRENGTH VERIFIED = 2" | "STRENGTH MEASURED = 1" | "STRENGTH ESTIMATED = 0"

fun evidence_value :: "evidence \<Rightarrow> string" where
  "evidence_value EXACT = ''exact''" | "evidence_value ESTIMATED = ''estimated''"
| "evidence_value MEASURED = ''measured''" | "evidence_value VERIFIED = ''verified''"

fun basis_value :: "basis \<Rightarrow> string" where
  "basis_value LIST = ''list''" | "basis_value CONTRACT = ''contract''"
| "basis_value INVOICE = ''invoice''" | "basis_value PROVIDER_ESTIMATE = ''provider_estimate''"
| "basis_value LIST_EQUIVALENT = ''list_equivalent''"

fun finality_value :: "finality \<Rightarrow> string" where
  "finality_value PROVISIONAL = ''provisional''" | "finality_value FINAL = ''final''"
| "finality_value FinalityNA = ''n/a''"

fun calibration_value :: "calibration \<Rightarrow> string" where
  "calibration_value CALIBRATED = ''calibrated''" | "calibration_value UNCALIBRATED = ''uncalibrated''"
| "calibration_value CalibrationNA = ''n/a''"

record figure =
  nano :: "int option"
  evidence :: evidence
  basis :: basis
  finality :: finality
  low_nano :: "int option"
  high_nano :: "int option"
  ci_level_pct :: "int option"
  calibration :: calibration
  upper_bound :: bool
  provenance :: "string list"
  fig_note :: string

definition UNPRICED_PREFIX :: string where "UNPRICED_PREFIX = ''unpriced:''"

text \<open>\<open>Figure.__post_init__\<close>: the checks in the order of the code.\<close>

definition mk_figure :: "figure \<Rightarrow> figure res" where
  "mk_figure f =
     (if (case ci_level_pct f of Some ci \<Rightarrow> \<not> (0 < ci \<and> ci < 100) | None \<Rightarrow> False)
      then Inl ContractViolation
      else if nano f = None \<and> \<not> startswith (fig_note f) UNPRICED_PREFIX then Inl ContractViolation
      else if (low_nano f = None) \<noteq> (high_nano f = None) then Inl ContractViolation
      else if (case (low_nano f, high_nano f) of
                 (Some low, Some high) \<Rightarrow> low > high \<or>
                   (case nano f of Some n \<Rightarrow> \<not> (low \<le> n \<and> n \<le> high) | None \<Rightarrow> False)
               | _ \<Rightarrow> False) then Inl ContractViolation
      else if (case evidence f of
                 EXACT \<Rightarrow> low_nano f \<noteq> None \<or> calibration f \<noteq> CalibrationNA \<or> upper_bound f
               | ESTIMATED \<Rightarrow> calibration f = CalibrationNA \<and> fig_note f = ''''
               | _ \<Rightarrow> low_nano f = None \<or> ci_level_pct f = None) then Inl ContractViolation
      else if basis f = INVOICE \<and> evidence f \<noteq> EXACT then Inl ContractViolation
      else Inr f)"

definition valid_figure :: "figure \<Rightarrow> bool" where
  "valid_figure f = (mk_figure f = Inr f)"

definition figure_usd :: "figure \<Rightarrow> dec option res" where
  "figure_usd f = (case nano f of None \<Rightarrow> Inr None
     | Some n \<Rightarrow> rbind (dec_div EXACT_CTX (dec_of_int n) (dec_of_int NANO_PER_USD)) (\<lambda>d. Inr (Some d)))"

definition is_billed_eligible :: "figure \<Rightarrow> bool" where
  "is_billed_eligible f = (evidence f = EXACT \<and> basis f \<in> {LIST, CONTRACT, INVOICE})"

definition weaker :: "evidence \<Rightarrow> evidence \<Rightarrow> evidence" where
  "weaker a b = (if STRENGTH a \<le> STRENGTH b then a else b)"

text \<open>\<open>s.split("; ")\<close>.\<close>

fun split_semi :: "string \<Rightarrow> string list" where
  "split_semi [] = [[]]"
| "split_semi (c # cs) =
     (if c = CHR '';'' \<and> cs \<noteq> [] \<and> hd cs = CHR '' '' then [] # split_semi (tl cs)
      else case split_semi cs of [] \<Rightarrow> [[c]] | p # ps \<Rightarrow> (c # p) # ps)"

definition combine_notes :: "string \<Rightarrow> string \<Rightarrow> string" where
  "combine_notes a b =
     (if b = '''' \<or> a = b then a
      else if a = '''' then b
      else join ''; '' (fold (\<lambda>p parts. if p \<noteq> '''' \<and> p \<notin> set parts then parts @ [p] else parts)
                          (split_semi b) (filter (\<lambda>p. p \<noteq> '''') (split_semi a))))"

definition combine_calibration :: "calibration \<Rightarrow> calibration \<Rightarrow> calibration" where
  "combine_calibration a b =
     (if a = UNCALIBRATED \<or> b = UNCALIBRATED then UNCALIBRATED
      else if a = CALIBRATED \<or> b = CALIBRATED then CALIBRATED else CalibrationNA)"

definition combine_finality :: "finality \<Rightarrow> finality \<Rightarrow> finality" where
  "combine_finality a b =
     (if a = b then a else if a = PROVISIONAL \<or> b = PROVISIONAL then PROVISIONAL else FinalityNA)"

definition combine_ci :: "int option \<Rightarrow> int option \<Rightarrow> int option" where
  "combine_ci a b = (case (a, b) of (None, _) \<Rightarrow> b | (_, None) \<Rightarrow> a | (Some x, Some y) \<Rightarrow> Some (min x y))"

definition bounds :: "figure \<Rightarrow> int \<times> int" where
  "bounds f = (case (low_nano f, high_nano f) of
      (Some lo, Some hi) \<Rightarrow> (lo, hi) | _ \<Rightarrow> (or0 (nano f), or0 (nano f)))"

definition sorted_set :: "string list \<Rightarrow> string list" where
  "sorted_set xs = sort (remdups xs)"

definition combine :: "bool \<Rightarrow> figure \<Rightarrow> figure \<Rightarrow> figure res" where
  "combine subtract a b =
     (if basis a \<noteq> basis b then Inl ContractViolation
      else
       let ev = weaker (evidence a) (evidence b);
           cal = (if ev = EXACT then CalibrationNA else combine_calibration (calibration a) (calibration b));
           fin = combine_finality (finality a) (finality b);
           prov = sorted_set (provenance a @ provenance b);
           upper = (if ev = EXACT then False else upper_bound a \<or> upper_bound b);
           ci = (if ev \<noteq> MEASURED \<and> ev \<noteq> VERIFIED then None
                 else combine_ci (ci_level_pct a) (ci_level_pct b))
       in case (nano a, nano b) of
           (Some na, Some nb) \<Rightarrow>
             let has_range = (low_nano a \<noteq> None \<or> low_nano b \<noteq> None);
                 a_lo = fst (bounds a); a_hi = snd (bounds a);
                 b_lo = fst (bounds b); b_hi = snd (bounds b)
             in mk_figure \<lparr>nano = Some (if subtract then na - nb else na + nb), evidence = ev,
                  basis = basis a, finality = fin,
                  low_nano = (if has_range then Some (if subtract then a_lo - b_hi else a_lo + b_lo) else None),
                  high_nano = (if has_range then Some (if subtract then a_hi - b_lo else a_hi + b_hi) else None),
                  ci_level_pct = ci, calibration = cal, upper_bound = upper, provenance = prov,
                  fig_note = combine_notes (fig_note a) (fig_note b)\<rparr>
         | _ \<Rightarrow>
             mk_figure \<lparr>nano = None,
                  evidence = (if ev = MEASURED \<or> ev = VERIFIED then ESTIMATED else ev),
                  basis = basis a, finality = fin, low_nano = None, high_nano = None,
                  ci_level_pct = None, calibration = cal, upper_bound = upper, provenance = prov,
                  fig_note = (if nano a = None then fig_note a else fig_note b)\<rparr>)"

definition add :: "figure \<Rightarrow> figure \<Rightarrow> figure res" where
  "add a b = combine False a b"

definition sub :: "figure \<Rightarrow> figure \<Rightarrow> figure res" where
  "sub a b = combine True a b"

definition scale_int :: "int \<Rightarrow> int \<Rightarrow> int \<Rightarrow> int" where
  "scale_int value num den =
     (let q = value * num div den; r = value * num mod den; twice = 2 * r
      in if twice > den \<or> (twice = den \<and> q mod 2 = 1) then q + 1 else q)"

definition scale :: "figure \<Rightarrow> int \<Rightarrow> int \<Rightarrow> figure res" where
  "scale a num den =
     (if den \<le> 0 then Inl ContractViolation
      else case nano a of
          None \<Rightarrow> Inr a
        | Some n \<Rightarrow>
            let rng = (case (low_nano a, high_nano a) of
                   (Some lo, Some hi) \<Rightarrow>
                     let x = scale_int lo num den; y = scale_int hi num den
                     in (Some (min x y), Some (max x y))
                 | _ \<Rightarrow> (None, None))
            in mk_figure (a\<lparr>nano := Some (scale_int n num den), low_nano := fst rng, high_nano := snd rng\<rparr>))"

definition exact :: "int \<Rightarrow> basis \<Rightarrow> string list \<Rightarrow> finality \<Rightarrow> figure res" where
  "exact n b prov fin = mk_figure \<lparr>nano = Some n, evidence = EXACT, basis = b, finality = fin,
     low_nano = None, high_nano = None, ci_level_pct = None, calibration = CalibrationNA,
     upper_bound = False, provenance = prov, fig_note = ''''\<rparr>"

definition estimated ::
    "int option \<Rightarrow> basis \<Rightarrow> int option \<Rightarrow> int option \<Rightarrow> calibration \<Rightarrow> bool \<Rightarrow> string \<Rightarrow> string list \<Rightarrow> figure res" where
  "estimated n b low high cal upper nt prov = mk_figure \<lparr>nano = n, evidence = ESTIMATED, basis = b,
     finality = FinalityNA, low_nano = low, high_nano = high, ci_level_pct = None, calibration = cal,
     upper_bound = upper, provenance = prov, fig_note = nt\<rparr>"

definition with_unpriced_prefix :: "string \<Rightarrow> string" where
  "with_unpriced_prefix reason =
     (if startswith reason UNPRICED_PREFIX then reason else UNPRICED_PREFIX @ '' '' @ reason)"

definition unpriced :: "string \<Rightarrow> basis \<Rightarrow> figure res" where
  "unpriced reason b = mk_figure \<lparr>nano = None, evidence = EXACT, basis = b, finality = FinalityNA,
     low_nano = None, high_nano = None, ci_level_pct = None, calibration = CalibrationNA,
     upper_bound = False, provenance = [], fig_note = with_unpriced_prefix reason\<rparr>"

definition zero_figure :: "basis \<Rightarrow> figure res" where
  "zero_figure b = exact 0 b [] FinalityNA"

text \<open>The canonical money object of the outputs.\<close>

datatype json = JNull | JBool bool | JInt int | JStr string | JList "json list" | JObj "(string \<times> json) list"

definition opt_json :: "('a \<Rightarrow> json) \<Rightarrow> 'a option \<Rightarrow> json" where
  "opt_json j o' = (case o' of None \<Rightarrow> JNull | Some x \<Rightarrow> j x)"

definition figure_json :: "figure \<Rightarrow> json" where
  "figure_json fig =
     (let rng = (case (low_nano fig, high_nano fig) of
            (Some lo, Some hi) \<Rightarrow> JObj [(''low_usd'', JStr (nano_to_usd_str lo)), (''low_nano'', JInt lo),
                                   (''high_usd'', JStr (nano_to_usd_str hi)), (''high_nano'', JInt hi)]
          | _ \<Rightarrow> JNull)
      in JObj [(''usd'', opt_json (\<lambda>n. JStr (nano_to_usd_str n)) (nano fig)),
               (''nano'', opt_json JInt (nano fig)),
               (''evidence'', JStr (evidence_value (evidence fig))),
               (''basis'', JStr (basis_value (basis fig))),
               (''finality'', JStr (finality_value (finality fig))),
               (''range'', rng),
               (''ci_level_pct'', opt_json JInt (ci_level_pct fig)),
               (''calibration'', JStr (calibration_value (calibration fig))),
               (''upper_bound'', JBool (upper_bound fig)),
               (''provenance'', JList (map JStr (provenance fig))),
               (''note'', JStr (fig_note fig))])"

definition combined_finality :: "figure list \<Rightarrow> finality" where
  "combined_finality figs =
     (let vs = set (map finality figs)
      in if PROVISIONAL \<in> vs then PROVISIONAL else if vs = {FINAL} then FINAL else FinalityNA)"

definition combine_weakest :: "figure list \<Rightarrow> string \<Rightarrow> figure res" where
  "combine_weakest figs nt =
     (if figs = [] then Inl ContractViolation
      else if \<exists>f \<in> set figs. basis f = LIST_EQUIVALENT \<or> basis f = PROVIDER_ESTIMATE then Inl ContractViolation
      else
       let b = (if list_all (\<lambda>f. basis f = INVOICE) figs then INVOICE else LIST);
           non_invoice = map (\<lambda>(i, f). ''input '' @ show_nat i @ '' ('' @ basis_value (basis f) @ '', '' @
                                evidence_value (evidence f) @ '')'')
                           (filter (\<lambda>(i, f). basis f \<noteq> INVOICE) (enumerate 0 figs));
           full_note = (if non_invoice = [] then nt
                        else combine_notes nt (''non-invoice: '' @ join '', '' non_invoice));
           prov = sorted_set (concat (map provenance figs));
           fin = combined_finality figs;
           all_exact = list_all (\<lambda>f. evidence f = EXACT \<and> low_nano f = None) figs;
           upper = list_ex upper_bound figs;
           cal = fold (\<lambda>f c. combine_calibration c (calibration f)) figs CalibrationNA;
           base = \<lparr>nano = None, evidence = EXACT, basis = b, finality = fin, low_nano = None,
                    high_nano = None, ci_level_pct = None, calibration = CalibrationNA,
                    upper_bound = False, provenance = prov, fig_note = full_note\<rparr>
       in if list_ex (\<lambda>f. nano f = None) figs then
            let nt' = with_unpriced_prefix (if full_note = '''' then ''component unpriced'' else full_note)
            in if all_exact then mk_figure (base\<lparr>fig_note := nt'\<rparr>)
               else mk_figure (base\<lparr>evidence := ESTIMATED, basis := LIST, calibration := cal,
                                 upper_bound := upper, fig_note := nt'\<rparr>)
          else
            let total = sum_list (map (\<lambda>f. or0 (nano f)) figs)
            in if all_exact then mk_figure (base\<lparr>nano := Some total\<rparr>)
               else mk_figure (base\<lparr>nano := Some total, evidence := ESTIMATED, basis := LIST,
                      low_nano := Some (sum_list (map (fst \<circ> bounds) figs)),
                      high_nano := Some (sum_list (map (snd \<circ> bounds) figs)),
                      calibration := cal, upper_bound := upper,
                      fig_note := (if full_note = '''' then ''combined estimate'' else full_note)\<rparr>))"

definition named_note :: "string \<Rightarrow> bool" where
  "named_note s = (s = '''' \<or> list_ex (\<lambda>p. p \<noteq> '''') (split_semi s))"

text \<open>Figures on one basis whose notes name something can be added for ever.\<close>

definition addable :: "basis \<Rightarrow> figure \<Rightarrow> bool" where
  "addable b f \<longleftrightarrow> valid_figure f \<and> basis f = b \<and> named_note (fig_note f)"

definition wit_est :: figure where
  "wit_est = \<lparr>nano = Some 5, evidence = ESTIMATED, basis = LIST, finality = FINAL, low_nano = Some 2,
     high_nano = Some 9, ci_level_pct = None, calibration = CalibrationNA, upper_bound = False,
     provenance = [''r1''], fig_note = ''assumes ttl''\<rparr>"

definition wit_meas :: figure where
  "wit_meas = \<lparr>nano = Some 7, evidence = MEASURED, basis = LIST, finality = PROVISIONAL, low_nano = Some 6,
     high_nano = Some 8, ci_level_pct = Some 95, calibration = CALIBRATED, upper_bound = False,
     provenance = [''r2''], fig_note = ''''\<rparr>"

section \<open>Lemmas\<close>

instantiation evidence :: linorder
begin

definition less_eq_evidence :: "evidence \<Rightarrow> evidence \<Rightarrow> bool" where
  "less_eq_evidence a b = (STRENGTH a \<le> STRENGTH b)"

definition less_evidence :: "evidence \<Rightarrow> evidence \<Rightarrow> bool" where
  "less_evidence a b = (STRENGTH a < STRENGTH b)"

instance
proof
  fix x y z :: evidence
  show "x \<le> y \<Longrightarrow> y \<le> x \<Longrightarrow> x = y"
    by (cases x; cases y) (auto simp: less_eq_evidence_def)
qed (auto simp: less_eq_evidence_def less_evidence_def)

end

lemma weaker_min: "weaker a b = min a b"
  by (simp add: weaker_def min_def less_eq_evidence_def)

lemma valid_figure_iff:
  "valid_figure f \<longleftrightarrow>
     (case ci_level_pct f of Some ci \<Rightarrow> 0 < ci \<and> ci < 100 | None \<Rightarrow> True) \<and>
     (nano f = None \<longrightarrow> startswith (fig_note f) UNPRICED_PREFIX) \<and>
     ((low_nano f = None) = (high_nano f = None)) \<and>
     (case (low_nano f, high_nano f) of
        (Some low, Some high) \<Rightarrow> low \<le> high \<and> (case nano f of Some n \<Rightarrow> low \<le> n \<and> n \<le> high | None \<Rightarrow> True)
      | _ \<Rightarrow> True) \<and>
     (case evidence f of
        EXACT \<Rightarrow> low_nano f = None \<and> calibration f = CalibrationNA \<and> \<not> upper_bound f
      | ESTIMATED \<Rightarrow> calibration f = CalibrationNA \<longrightarrow> fig_note f \<noteq> ''''
      | _ \<Rightarrow> low_nano f \<noteq> None \<and> ci_level_pct f \<noteq> None) \<and>
     (basis f = INVOICE \<longrightarrow> evidence f = EXACT)"
  by (auto simp: valid_figure_def mk_figure_def split: if_splits option.splits evidence.splits)

lemma mk_figure_cases: "mk_figure f = Inr f \<or> mk_figure f = Inl ContractViolation"
  unfolding mk_figure_def by (simp split: if_split)

lemma mk_figure_valid: "mk_figure f = Inr g \<longleftrightarrow> g = f \<and> valid_figure f"
  using mk_figure_cases [of f] by (auto simp: valid_figure_def)

lemma valid_bounds:
  "valid_figure f \<Longrightarrow> nano f = Some n \<Longrightarrow> fst (bounds f) \<le> n \<and> n \<le> snd (bounds f)"
  by (auto simp: valid_figure_iff bounds_def or0_def split: option.splits)

lemma valid_exact: "valid_figure f \<Longrightarrow> evidence f = EXACT \<Longrightarrow> low_nano f = None"
  by (simp add: valid_figure_iff)

lemma valid_invoice: "valid_figure f \<Longrightarrow> basis f = INVOICE \<Longrightarrow> evidence f = EXACT"
  by (simp add: valid_figure_iff)

lemma startswith_nonempty: "startswith s UNPRICED_PREFIX \<Longrightarrow> s \<noteq> ''''"
  by (auto simp: startswith_def UNPRICED_PREFIX_def)

lemma join_eq_Nil: "join sep ps = [] \<Longrightarrow> \<forall>p \<in> set ps. p = []"
  by (induction sep ps rule: join.induct) auto

lemma fold_parts_superset:
  "set ps \<subseteq> set (fold (\<lambda>p parts. if p \<noteq> [] \<and> p \<notin> set parts then parts @ [p] else parts) qs ps)"
proof (induction qs arbitrary: ps)
  case (Cons q qs)
  show ?case using Cons [of ps] Cons [of "ps @ [q]"] by auto
qed simp

lemma fold_parts_member:
  "q \<in> set qs \<Longrightarrow> q \<noteq> [] \<Longrightarrow>
     q \<in> set (fold (\<lambda>p parts. if p \<noteq> [] \<and> p \<notin> set parts then parts @ [p] else parts) qs ps)"
proof (induction qs arbitrary: ps)
  case (Cons p qs)
  then show ?case using fold_parts_superset [of ps qs] fold_parts_superset [of "ps @ [p]" qs] by auto
qed simp

lemma combine_notes_nonempty:
  assumes "named_note a" "named_note b" "a \<noteq> '''' \<or> b \<noteq> ''''"
  shows "combine_notes a b \<noteq> ''''"
proof (cases "b = '''' \<or> a = b \<or> a = ''''")
  case True
  then show ?thesis using assms(3) by (auto simp: combine_notes_def)
next
  case False
  then obtain q where q: "q \<in> set (split_semi b)" "q \<noteq> []"
    using assms(2) by (auto simp: named_note_def list_ex_iff)
  note m = fold_parts_member [OF q, of "filter (\<lambda>p. p \<noteq> []) (split_semi a)"]
  have "join ''; '' (fold (\<lambda>p parts. if p \<noteq> [] \<and> p \<notin> set parts then parts @ [p] else parts)
      (split_semi b) (filter (\<lambda>p. p \<noteq> []) (split_semi a))) \<noteq> []"
    using m q(2) join_eq_Nil by blast
  then show ?thesis using False by (simp only: combine_notes_def de_Morgan_disj simp_thms if_False)
qed

lemma combine_ci_valid:
  "(case x of Some ci \<Rightarrow> 0 < ci \<and> ci < 100 | None \<Rightarrow> True) \<Longrightarrow>
   (case y of Some ci \<Rightarrow> 0 < ci \<and> ci < 100 | None \<Rightarrow> True) \<Longrightarrow>
   (case combine_ci x y of Some ci \<Rightarrow> 0 < ci \<and> ci < (100::int) | None \<Rightarrow> True)"
  by (auto simp: combine_ci_def split: option.splits)

lemma combine_ci_None [simp]: "combine_ci x y = None \<longleftrightarrow> x = None \<and> y = None"
  by (auto simp: combine_ci_def split: option.splits)

lemma combine_calibration_NA:
  "combine_calibration a b = CalibrationNA \<longleftrightarrow> a = CalibrationNA \<and> b = CalibrationNA"
  by (cases a; cases b) (auto simp: combine_calibration_def)

lemma combine_priced:
  assumes v: "valid_figure a" "valid_figure b" and bs: "basis a = basis b"
    and n: "nano a = Some na" "nano b = Some nb"
    and nt: "named_note (fig_note a)" "named_note (fig_note b)"
  shows "\<exists>f. combine s a b = Inr f \<and> valid_figure f \<and> nano f = Some (if s then na - nb else na + nb) \<and>
     evidence f = min (evidence a) (evidence b) \<and> basis f = basis a \<and>
     bounds f = (if s then (fst (bounds a) - snd (bounds b), snd (bounds a) - fst (bounds b))
                 else (fst (bounds a) + fst (bounds b), snd (bounds a) + snd (bounds b)))"
proof -
  define ev where "ev = weaker (evidence a) (evidence b)"
  define f where "f = \<lparr>nano = Some (if s then na - nb else na + nb), evidence = ev,
      basis = basis a, finality = combine_finality (finality a) (finality b),
      low_nano = (if low_nano a \<noteq> None \<or> low_nano b \<noteq> None
         then Some (if s then fst (bounds a) - snd (bounds b) else fst (bounds a) + fst (bounds b)) else None),
      high_nano = (if low_nano a \<noteq> None \<or> low_nano b \<noteq> None
         then Some (if s then snd (bounds a) - fst (bounds b) else snd (bounds a) + snd (bounds b)) else None),
      ci_level_pct = (if ev \<noteq> MEASURED \<and> ev \<noteq> VERIFIED then None
                 else combine_ci (ci_level_pct a) (ci_level_pct b)),
      calibration = (if ev = EXACT then CalibrationNA else combine_calibration (calibration a) (calibration b)),
      upper_bound = (if ev = EXACT then False else upper_bound a \<or> upper_bound b),
      provenance = sorted_set (provenance a @ provenance b),
      fig_note = combine_notes (fig_note a) (fig_note b)\<rparr>"
  have cf: "combine s a b = mk_figure f"
    using bs n by (simp add: combine_def Let_def f_def ev_def)
  have bnd: "fst (bounds a) \<le> na \<and> na \<le> snd (bounds a)" "fst (bounds b) \<le> nb \<and> nb \<le> snd (bounds b)"
    using valid_bounds v n by blast+
  have ci: "case ci_level_pct f of Some ci \<Rightarrow> 0 < ci \<and> ci < 100 | None \<Rightarrow> True"
    using v combine_ci_valid [of "ci_level_pct a" "ci_level_pct b"] by (simp add: f_def valid_figure_iff)
  have evid: "case evidence f of
        EXACT \<Rightarrow> low_nano f = None \<and> calibration f = CalibrationNA \<and> \<not> upper_bound f
      | ESTIMATED \<Rightarrow> calibration f = CalibrationNA \<longrightarrow> fig_note f \<noteq> ''''
      | _ \<Rightarrow> low_nano f \<noteq> None \<and> ci_level_pct f \<noteq> None"
    using v combine_notes_nonempty [OF nt]
    by (cases "evidence a"; cases "evidence b")
      (auto simp: f_def ev_def weaker_def valid_figure_iff combine_calibration_NA)
  have inv: "basis f = INVOICE \<longrightarrow> evidence f = EXACT"
    using v bs by (auto simp: f_def ev_def weaker_def valid_figure_iff)
  have "valid_figure f"
    unfolding valid_figure_iff using ci evid inv bnd by (simp add: f_def)
  moreover have "bounds f = (if s then (fst (bounds a) - snd (bounds b), snd (bounds a) - fst (bounds b))
                 else (fst (bounds a) + fst (bounds b), snd (bounds a) + snd (bounds b)))"
    using n by (auto simp: bounds_def f_def or0_def)
  ultimately show ?thesis
    using cf by (intro exI [of _ f]) (auto simp: valid_figure_def f_def ev_def weaker_min)
qed

lemma combine_unpriced:
  assumes v: "valid_figure a" "valid_figure b" and bs: "basis a = basis b"
    and n: "nano a = None \<or> nano b = None"
  shows "\<exists>f. combine s a b = Inr f \<and> valid_figure f \<and> nano f = None \<and>
     evidence f \<le> min (evidence a) (evidence b) \<and> basis f = basis a"
proof -
  define ev where "ev = weaker (evidence a) (evidence b)"
  define f where "f = \<lparr>nano = None, evidence = (if ev = MEASURED \<or> ev = VERIFIED then ESTIMATED else ev),
      basis = basis a, finality = combine_finality (finality a) (finality b), low_nano = None, high_nano = None,
      ci_level_pct = None,
      calibration = (if ev = EXACT then CalibrationNA else combine_calibration (calibration a) (calibration b)),
      upper_bound = (if ev = EXACT then False else upper_bound a \<or> upper_bound b),
      provenance = sorted_set (provenance a @ provenance b),
      fig_note = (if nano a = None then fig_note a else fig_note b)\<rparr>"
  have cf: "combine s a b = mk_figure f"
    using bs n by (auto simp: combine_def Let_def f_def ev_def split: option.split)
  have nt: "startswith (fig_note f) UNPRICED_PREFIX"
    using v n by (auto simp: f_def valid_figure_iff)
  have "basis f = INVOICE \<longrightarrow> evidence f = EXACT"
    using v bs by (auto simp: f_def ev_def weaker_def valid_figure_iff)
  then have "valid_figure f"
    unfolding valid_figure_iff using nt startswith_nonempty [OF nt]
    by (cases "evidence f") (auto simp: f_def split: if_splits)
  moreover have "evidence f \<le> min (evidence a) (evidence b)"
    by (auto simp: f_def ev_def weaker_min [symmetric] less_eq_evidence_def)
  ultimately show ?thesis
    using cf by (intro exI [of _ f]) (auto simp: valid_figure_def f_def)
qed

lemma split_semi_ne: "split_semi s \<noteq> []"
  by (induction s rule: split_semi.induct) (auto split: list.splits)

lemma split_semi_hd: "hd (split_semi s) = [] \<or> (s \<noteq> [] \<and> hd (hd (split_semi s)) = hd s)"
  by (induction s rule: split_semi.induct) (auto split: list.splits)

lemma startswith_sep [simp]:
  "\<not> startswith [] ''; ''" "\<not> startswith [c] ''; ''"
  "startswith (c # d # t) ''; '' \<longleftrightarrow> c = CHR '';'' \<and> d = CHR '' ''"
  by (simp_all add: startswith_def)

text \<open>No part of a split note starts with the separator, so a joined note names something again.\<close>

lemma split_semi_parts: "p \<in> set (split_semi s) \<Longrightarrow> \<not> startswith p ''; ''"
proof (induction s arbitrary: p rule: split_semi.induct)
  case (2 c cs)
  show ?case
  proof (cases "c = CHR '';'' \<and> cs \<noteq> [] \<and> hd cs = CHR '' ''")
    case True
    with 2 show ?thesis by auto
  next
    case False
    obtain q qs where q: "split_semi cs = q # qs" using split_semi_ne by (cases "split_semi cs") auto
    have "q = [] \<or> (cs \<noteq> [] \<and> hd q = hd cs)" using split_semi_hd [of cs] q by simp
    then have "\<not> startswith (c # q) ''; ''" using False by (cases q) auto
    moreover have "\<not> startswith r ''; ''" if "r \<in> set qs" for r using 2(2) [OF False] that q by simp
    ultimately show ?thesis using 2(3) False q by auto
  qed
qed simp

lemma named_noteI: "s \<noteq> [] \<Longrightarrow> \<not> startswith s ''; '' \<Longrightarrow> named_note s"
proof (cases s)
  case (Cons c cs)
  assume "\<not> startswith s ''; ''"
  with Cons have "\<not> (c = CHR '';'' \<and> cs \<noteq> [] \<and> hd cs = CHR '' '')" by (cases cs) auto
  then have "split_semi s = (case split_semi cs of [] \<Rightarrow> [[c]] | p # ps \<Rightarrow> (c # p) # ps)"
    unfolding Cons split_semi.simps by (rule if_not_P)
  then show ?thesis by (simp add: named_note_def split: list.splits)
qed simp

lemma join_start:
  assumes "p \<noteq> []" "\<not> startswith p ''; ''"
  shows "join ''; '' (p # ps) \<noteq> [] \<and> \<not> startswith (join ''; '' (p # ps)) ''; ''"
proof -
  obtain c q where "p = c # q" using assms(1) by (cases p) auto
  with assms show ?thesis by (cases ps; cases q) simp_all
qed

lemma fold_parts_all:
  assumes "list_all P ys" "\<forall>p \<in> set xs. p \<noteq> [] \<longrightarrow> P p"
  shows "list_all P (fold (\<lambda>p parts. if p \<noteq> '''' \<and> p \<notin> set parts then parts @ [p] else parts) xs ys)"
  using assms by (induction xs arbitrary: ys) auto

lemma combine_notes_named:
  assumes "named_note a" "named_note b"
  shows "named_note (combine_notes a b)"
proof (cases "b = '''' \<or> a = b \<or> a = ''''")
  case False
  define ps where "ps = fold (\<lambda>p parts. if p \<noteq> '''' \<and> p \<notin> set parts then parts @ [p] else parts)
      (split_semi b) (filter (\<lambda>p. p \<noteq> '''') (split_semi a))"
  have ps: "list_all (\<lambda>p. p \<noteq> [] \<and> \<not> startswith p ''; '') ps"
  proof -
    have "\<forall>p \<in> set (split_semi a). \<not> startswith p ''; ''" "\<forall>p \<in> set (split_semi b). \<not> startswith p ''; ''"
      using split_semi_parts by blast+
    then show ?thesis unfolding ps_def by (intro fold_parts_all) (simp_all add: list_all_iff)
  qed
  have eq: "combine_notes a b = join ''; '' ps" using False by (simp add: combine_notes_def ps_def)
  have "named_note (join ''; '' ps)"
  proof (cases ps)
    case (Cons p qs)
    then have "p \<noteq> []" "\<not> startswith p ''; ''" using ps by simp_all
    then show ?thesis using join_start [of p qs] unfolding Cons by (intro named_noteI) simp_all
  qed (simp add: named_note_def)
  then show ?thesis by (simp add: eq)
qed (use assms in \<open>auto simp: combine_notes_def\<close>)

lemma add_addable:
  assumes "addable b x" "addable b y"
  shows "\<exists>f. add x y = Inr f \<and> addable b f"
proof -
  have v: "valid_figure x" "valid_figure y" "basis x = basis y"
    "named_note (fig_note x)" "named_note (fig_note y)"
    using assms by (simp_all add: addable_def)
  have r: "\<exists>f. combine False x y = Inr f \<and> valid_figure f \<and> basis f = basis x"
    using combine_priced [OF v(1-3) _ _ v(4,5), of _ _ False] combine_unpriced [OF v(1-3), of False]
    by (cases "nano x"; cases "nano y") fastforce+
  then obtain f where f: "combine False x y = Inr f" "valid_figure f" "basis f = basis x" by blast
  have "named_note (fig_note f)"
    using f(1) v(3) combine_notes_named [OF v(4,5)] v(4,5)
    by (auto simp: combine_def Let_def mk_figure_valid split: option.splits if_splits)
  with f assms show ?thesis by (auto simp: add_def addable_def)
qed

interpretation sc: half_even "\<lambda>n d. scale_int n 1 d"
proof
  fix n d :: int
  assume "0 < d"
  then show "rounds_half_even (of_int n / of_int d) (scale_int n 1 d)"
    using divmod_rounds_half_even [of d n] by (simp add: scale_int_def Let_def)
qed

lemma scale_int_one: "scale_int v num den = scale_int (v * num) 1 den"
  by (simp add: scale_int_def)

lemma scale_int_between:
  assumes "0 < den" "lo \<le> v" "v \<le> hi"
  shows "min (scale_int lo num den) (scale_int hi num den) \<le> scale_int v num den \<and>
         scale_int v num den \<le> max (scale_int lo num den) (scale_int hi num den)"
proof (cases "0 \<le> num")
  case True
  with assms have "lo * num \<le> v * num" "v * num \<le> hi * num" by (simp_all add: mult_right_mono)
  from this [THEN sc.mono [OF assms(1)]] show ?thesis by (simp add: scale_int_one [of _ num])
next
  case False
  with assms have "hi * num \<le> v * num" "v * num \<le> lo * num" by (simp_all add: mult_right_mono_neg)
  from this [THEN sc.mono [OF assms(1)]] show ?thesis by (simp add: scale_int_one [of _ num])
qed

lemma scale_valid:
  assumes "valid_figure a" "0 < den"
  shows "\<exists>f. scale a num den = Inr f \<and> valid_figure f \<and> evidence f = evidence a \<and> basis f = basis a \<and>
    nano f = map_option (\<lambda>n. scale_int n num den) (nano a)"
proof (cases "nano a")
  case None
  then show ?thesis using assms by (simp add: scale_def)
next
  case (Some n)
  define rng where "rng = (case (low_nano a, high_nano a) of
                   (Some lo, Some hi) \<Rightarrow>
                     let x = scale_int lo num den; y = scale_int hi num den
                     in (Some (min x y), Some (max x y))
                 | _ \<Rightarrow> (None, None))"
  define f where "f = a\<lparr>nano := Some (scale_int n num den), low_nano := fst rng, high_nano := snd rng\<rparr>"
  have sc: "scale a num den = mk_figure f"
    using Some assms(2) by (simp add: scale_def Let_def f_def rng_def)
  have r: "(low_nano f = None) = (low_nano a = None)" "(high_nano f = None) = (low_nano a = None)"
    using assms(1) by (auto simp: f_def rng_def Let_def valid_figure_iff split: option.splits)
  have "case (low_nano f, high_nano f) of
        (Some low, Some high) \<Rightarrow> low \<le> high \<and> (case nano f of Some n \<Rightarrow> low \<le> n \<and> n \<le> high | None \<Rightarrow> True)
      | _ \<Rightarrow> True"
    using assms Some scale_int_between [OF assms(2)]
    by (auto simp: f_def rng_def Let_def valid_figure_iff split: option.splits)
  then have "valid_figure f"
    using assms(1) r unfolding valid_figure_iff
    by (cases "evidence a") (auto simp: f_def)
  then show ?thesis using sc Some by (intro exI [of _ f]) (auto simp: valid_figure_def f_def)
qed

lemma sum_bounds:
  assumes "\<forall>f \<in> set figs. valid_figure f \<and> nano f \<noteq> None"
  shows "sum_list (map (fst \<circ> bounds) figs) \<le> sum_list (map (\<lambda>f. or0 (nano f)) figs) \<and>
         sum_list (map (\<lambda>f. or0 (nano f)) figs) \<le> sum_list (map (snd \<circ> bounds) figs)"
  using assms
proof (induction figs)
  case (Cons f fs)
  then obtain n where "nano f = Some n" "valid_figure f" by auto
  moreover note valid_bounds [OF this(2,1)]
  moreover have "\<forall>f\<in>set fs. valid_figure f \<and> nano f \<noteq> None" using Cons.prems by simp
  note Cons.IH [OF this]
  ultimately show ?case by (simp add: or0_def)
qed simp

lemma with_unpriced_prefix_starts: "startswith (with_unpriced_prefix r) UNPRICED_PREFIX"
  by (simp add: with_unpriced_prefix_def startswith_def UNPRICED_PREFIX_def)

lemma combine_weakest_valid:
  assumes v: "\<forall>f \<in> set figs. valid_figure f" and ne: "figs \<noteq> []"
    and b: "\<forall>f \<in> set figs. basis f \<noteq> LIST_EQUIVALENT \<and> basis f \<noteq> PROVIDER_ESTIMATE"
  shows "\<exists>g. combine_weakest figs nt = Inr g \<and> valid_figure g \<and>
     (nano g = (if \<exists>f \<in> set figs. nano f = None then None else Some (sum_list (map (\<lambda>f. or0 (nano f)) figs)))) \<and>
     (evidence g = EXACT \<longleftrightarrow> (\<forall>f \<in> set figs. evidence f = EXACT)) \<and>
     (basis g = INVOICE \<longleftrightarrow> (\<forall>f \<in> set figs. basis f = INVOICE))"
proof -
  have ex: "low_nano f = None" if "f \<in> set figs" "evidence f = EXACT" for f
    using v that valid_exact by blast
  then have ae: "list_all (\<lambda>f. evidence f = EXACT \<and> low_nano f = None) figs \<longleftrightarrow> (\<forall>f \<in> set figs. evidence f = EXACT)"
    by (auto simp: list_all_iff)
  have ai: "list_all (\<lambda>f. basis f = INVOICE) figs \<longleftrightarrow> (\<forall>f \<in> set figs. basis f = INVOICE)"
    by (simp add: list_all_iff)
  have ie: "\<forall>f \<in> set figs. basis f = INVOICE \<Longrightarrow> \<forall>f \<in> set figs. evidence f = EXACT"
    using v valid_invoice by blast
  have nb: "\<not> (\<exists>f \<in> set figs. basis f = LIST_EQUIVALENT \<or> basis f = PROVIDER_ESTIMATE)" using b by blast
  have nn: "list_ex (\<lambda>f. nano f = None) figs \<longleftrightarrow> (\<exists>f \<in> set figs. nano f = None)" by (simp add: list_ex_iff)
  note up = with_unpriced_prefix_starts startswith_nonempty [OF with_unpriced_prefix_starts]
  show ?thesis
  proof (cases "\<exists>f \<in> set figs. nano f = None")
    case True
    show ?thesis using ie True up ne
      unfolding combine_weakest_def Let_def if_not_P [OF ne] if_not_P [OF nb] nn ae ai if_P [OF True]
      by (auto simp: mk_figure_valid valid_figure_iff)
  next
    case False
    then have "\<forall>f \<in> set figs. valid_figure f \<and> nano f \<noteq> None" using v by simp
    from sum_bounds [OF this] show ?thesis using ie False ne
      unfolding combine_weakest_def Let_def if_not_P [OF ne] if_not_P [OF nb] nn ae ai if_not_P [OF False]
      by (auto simp: mk_figure_valid valid_figure_iff)
  qed
qed

text \<open>C30: Adding or subtracting two valid figures. On two different bases it is refused with ContractViolation. On one
  basis it succeeds for every pair whose notes name something (a note that is more than separators): the result
  satisfies every construction rule, its point is the sum or difference (unpriced when either operand is), it keeps the
  basis, and its evidence is never stronger than the weaker operand's.\<close>

theorem combine_figures_valid:
  assumes "valid_figure a" "valid_figure b" "named_note (fig_note a)" "named_note (fig_note b)"
  shows "if basis a \<noteq> basis b then combine s a b = Inl ContractViolation
    else \<exists>f. combine s a b = Inr f \<and> valid_figure f \<and> basis f = basis a \<and>
     evidence f \<le> min (evidence a) (evidence b) \<and>
     nano f = (if nano a = None \<or> nano b = None then None
               else Some (if s then the (nano a) - the (nano b) else the (nano a) + the (nano b)))"
proof (cases "basis a = basis b")
  case b: True
  show ?thesis
  proof (cases "nano a = None \<or> nano b = None")
    case True
    then show ?thesis using combine_unpriced [OF assms(1,2) b True, of s] b by auto
  next
    case False
    then obtain x y where xy: "nano a = Some x" "nano b = Some y" by auto
    from combine_priced [OF assms(1,2) b xy assms(3,4), of s] xy b show ?thesis by auto
  qed
qed (simp add: combine_def)

lemma wit_figures: "valid_figure wit_est" "valid_figure wit_meas" "named_note (fig_note wit_est)"
  "named_note (fig_note wit_meas)" "basis wit_est = basis wit_meas"
  by (simp_all add: valid_figure_iff wit_est_def wit_meas_def named_note_def)

theorem combine_figures_valid_witness:
  "\<exists>f. combine True wit_est wit_meas = Inr f \<and> valid_figure f \<and> basis f = basis wit_est \<and>
     evidence f \<le> min (evidence wit_est) (evidence wit_meas) \<and>
     nano f = (if nano wit_est = None \<or> nano wit_meas = None then None
               else Some (if True then the (nano wit_est) - the (nano wit_meas)
                          else the (nano wit_est) + the (nano wit_meas)))"
  using combine_figures_valid [OF wit_figures(1-4), of True] wit_figures(5) by simp

text \<open>The range of a difference is sound: whatever values two priced figures really have inside their
  ranges, their difference lies in the range of \<open>sub\<close>'s result.\<close>

theorem sub_range_sound:
  assumes "valid_figure a" "valid_figure b" "basis a = basis b" "nano a = Some na" "nano b = Some nb"
    and "named_note (fig_note a)" "named_note (fig_note b)"
    and "fst (bounds a) \<le> x" "x \<le> snd (bounds a)" "fst (bounds b) \<le> y" "y \<le> snd (bounds b)"
  shows "\<exists>f. sub a b = Inr f \<and> fst (bounds f) \<le> x - y \<and> x - y \<le> snd (bounds f)"
  using combine_priced [OF assms(1-7), of True] assms(8-11) unfolding sub_def by fastforce

theorem sub_range_sound_witness:
  "\<exists>f. sub wit_est wit_meas = Inr f \<and> fst (bounds f) \<le> 3 - 8 \<and> 3 - 8 \<le> snd (bounds f)"
  by (rule sub_range_sound [of wit_est wit_meas 5 7])
    (rule wit_figures | simp add: wit_est_def wit_meas_def bounds_def)+

text \<open>Scaling a valid figure by a ratio with positive denominator succeeds, keeps every construction
  rule and the labels, and rounds the point half-even once.\<close>

theorem scale_keeps_figure:
  assumes "valid_figure a" "0 < den"
  shows "\<exists>f. scale a num den = Inr f \<and> valid_figure f \<and> evidence f = evidence a \<and> basis f = basis a \<and>
    (case nano a of None \<Rightarrow> nano f = None
     | Some n \<Rightarrow> \<exists>k. nano f = Some k \<and> rounds_half_even (of_int (n * num) / of_int den) k)"
proof -
  have "rounds_half_even (of_int (n * num) / of_int den) (scale_int n num den)" for n
    using sc.rounds [OF assms(2), of "n * num"] by (simp only: scale_int_one [of n num])
  with scale_valid [OF assms, of num] show ?thesis by (fastforce split: option.splits)
qed

theorem scale_keeps_figure_witness:
  "\<exists>f. scale wit_est (-3) 2 = Inr f \<and> valid_figure f \<and> evidence f = evidence wit_est \<and> basis f = basis wit_est \<and>
    (case nano wit_est of None \<Rightarrow> nano f = None
     | Some n \<Rightarrow> \<exists>k. nano f = Some k \<and> rounds_half_even (of_int (n * (-3)) / of_int 2) k)"
  by (rule scale_keeps_figure) (simp_all add: wit_figures)

text \<open>A bill across bases: \<open>combine_weakest\<close> of valid dollar figures succeeds, sums the points (unpriced
  when any is), and is EXACT only when every input is and INVOICE only when every input is.\<close>

theorem combine_weakest_honest:
  assumes "\<forall>f \<in> set figs. valid_figure f" "figs \<noteq> []"
    and "\<forall>f \<in> set figs. basis f \<noteq> LIST_EQUIVALENT \<and> basis f \<noteq> PROVIDER_ESTIMATE"
  shows "\<exists>g. combine_weakest figs nt = Inr g \<and> valid_figure g \<and>
     (nano g = (if \<exists>f \<in> set figs. nano f = None then None else Some (sum_list (map (\<lambda>f. or0 (nano f)) figs)))) \<and>
     (evidence g = EXACT \<longleftrightarrow> (\<forall>f \<in> set figs. evidence f = EXACT)) \<and>
     (basis g = INVOICE \<longleftrightarrow> (\<forall>f \<in> set figs. basis f = INVOICE))"
  by (rule combine_weakest_valid [OF assms])

theorem combine_weakest_honest_witness:
  "\<exists>g. combine_weakest [wit_est, wit_meas] ''total'' = Inr g \<and> valid_figure g \<and>
     (nano g = (if \<exists>f \<in> set [wit_est, wit_meas]. nano f = None then None
                else Some (sum_list (map (\<lambda>f. or0 (nano f)) [wit_est, wit_meas])))) \<and>
     (evidence g = EXACT \<longleftrightarrow> (\<forall>f \<in> set [wit_est, wit_meas]. evidence f = EXACT)) \<and>
     (basis g = INVOICE \<longleftrightarrow> (\<forall>f \<in> set [wit_est, wit_meas]. basis f = INVOICE))"
  by (rule combine_weakest_honest) (simp_all add: wit_figures(1,2), simp_all add: wit_est_def wit_meas_def)

text \<open>Two valid figures whose notes hold nothing but separators cannot be added: the combined note is empty.\<close>

lemma separator_notes_raise:
  "\<exists>a b. valid_figure a \<and> valid_figure b \<and> basis a = basis b \<and> add a b = Inl ContractViolation"
proof -
  let ?a = "wit_est\<lparr>fig_note := ''; ''\<rparr>" and ?b = "wit_est\<lparr>fig_note := ''; ; ''\<rparr>"
  have "valid_figure ?a" "valid_figure ?b" by (simp_all add: valid_figure_iff wit_est_def)
  moreover have "add ?a ?b = Inl ContractViolation"
    by (simp add: add_def combine_def wit_est_def weaker_def Let_def mk_figure_def combine_notes_def
        combine_calibration_def bounds_def)
  ultimately show ?thesis by fastforce
qed

end
