(* ===== verification/Dates.thy ===== *)
theory Dates
  imports Prelude
begin

text \<open>
  The proleptic Gregorian calendar of Python's \<open>datetime\<close>, as far as the program uses it: a day
  number since 1970-01-01 to its ISO date string and back. \<open>ordinal\<close> counts days from 0001-01-01
  (day 1). The lemmas show that converting a day number to year, month and day and back is the
  identity, so different days have different dates.
\<close>

definition is_leap :: "int \<Rightarrow> bool" where
  "is_leap y = (y mod 4 = 0 \<and> (y mod 100 \<noteq> 0 \<or> y mod 400 = 0))"

definition days_before_year :: "int \<Rightarrow> int" where
  "days_before_year y = (let p = y - 1 in p * 365 + p div 4 - p div 100 + p div 400)"

fun days_before_month_common :: "int \<Rightarrow> int" where
  "days_before_month_common m =
     (if m = 1 then 0 else if m = 2 then 31 else if m = 3 then 59 else if m = 4 then 90
      else if m = 5 then 120 else if m = 6 then 151 else if m = 7 then 181 else if m = 8 then 212
      else if m = 9 then 243 else if m = 10 then 273 else if m = 11 then 304 else 334)"

definition days_before_month :: "int \<Rightarrow> int \<Rightarrow> int" where
  "days_before_month y m = days_before_month_common m + (if m > 2 \<and> is_leap y then 1 else 0)"

definition ymd2ord :: "int \<Rightarrow> int \<Rightarrow> int \<Rightarrow> int" where
  "ymd2ord y m d = days_before_year y + days_before_month y m + d"

text \<open>The month of the day \<open>n\<close> (from 0) of a year, found from the table.\<close>

definition month_of_yday :: "int \<Rightarrow> int \<Rightarrow> int" where
  "month_of_yday y n =
     (if n < days_before_month y 2 then 1 else if n < days_before_month y 3 then 2
      else if n < days_before_month y 4 then 3 else if n < days_before_month y 5 then 4
      else if n < days_before_month y 6 then 5 else if n < days_before_month y 7 then 6
      else if n < days_before_month y 8 then 7 else if n < days_before_month y 9 then 8
      else if n < days_before_month y 10 then 9 else if n < days_before_month y 11 then 10
      else if n < days_before_month y 12 then 11 else 12)"

definition ord2ymd :: "int \<Rightarrow> int \<times> int \<times> int" where
  "ord2ymd ordinal =
     (let n = ordinal - 1; n400 = n div 146097; a = n mod 146097;
          n100 = a div 36524; b = a mod 36524; n4 = b div 1461; c = b mod 1461;
          n1 = c div 365; k = c mod 365; y = n400 * 400 + 1 + n100 * 100 + n4 * 4 + n1
      in if n1 = 4 \<or> n100 = 4 then (y - 1, 12, 31)
         else let m = month_of_yday y k in (y, m, k - days_before_month y m + 1))"

definition EPOCH_ORD :: int where "EPOCH_ORD = 719163"
definition MAX_ORD :: int where "MAX_ORD = 3652059"

definition pad :: "nat \<Rightarrow> int \<Rightarrow> string" where
  "pad w n = rjust w (CHR ''0'') (show_nat (nat n))"

definition isoformat :: "int \<times> int \<times> int \<Rightarrow> string" where
  "isoformat d = (case d of (y, m, dd) \<Rightarrow> pad 4 y @ ''-'' @ pad 2 m @ ''-'' @ pad 2 dd)"

text \<open>\<open>(date(1970, 1, 1) + timedelta(days=n)).isoformat()\<close>; \<open>None\<close> is \<open>OverflowError\<close>.\<close>

definition date_of_days :: "int \<Rightarrow> string option" where
  "date_of_days n = (let o' = n + EPOCH_ORD
     in if 1 \<le> o' \<and> o' \<le> MAX_ORD then Some (isoformat (ord2ymd o')) else None)"

section \<open>Lemmas\<close>

lemma days_before_year_parts:
  assumes "0 \<le> b" "b \<le> 3" "0 \<le> c" "c \<le> 24" "0 \<le> d" "d \<le> 3"
  shows "days_before_year (a * 400 + 1 + b * 100 + c * 4 + d) = a * 146097 + b * 36524 + c * 1461 + d * 365"
proof -
  define p where "p = a * 400 + b * 100 + c * 4 + d"
  have "p div 4 = a * 100 + b * 25 + c" "p div 100 = a * 4 + b" "p div 400 = a"
    using assms by (simp_all add: p_def)
  moreover have "a * 400 + 1 + b * 100 + c * 4 + d - 1 = p" by (simp add: p_def)
  ultimately have "days_before_year (a * 400 + 1 + b * 100 + c * 4 + d) = p * 365 + (a * 100 + b * 25 + c) - (a * 4 + b) + a"
    by (simp only: days_before_year_def Let_def)
  then show ?thesis by (simp add: p_def)
qed

lemma ordinal_parts:
  fixes n :: int
  defines "a \<equiv> n mod 146097"
  defines "b \<equiv> a mod 36524"
  defines "c \<equiv> b mod 1461"
  shows "n = n div 146097 * 146097 + a div 36524 * 36524 + b div 1461 * 1461 + c div 365 * 365 + c mod 365"
    and "0 \<le> a div 36524" "a div 36524 \<le> 4" "0 \<le> b div 1461" "b div 1461 \<le> 24" "0 \<le> c div 365" "c div 365 \<le> 4"
    and "a div 36524 = 4 \<Longrightarrow> b = 0" and "c div 365 = 4 \<Longrightarrow> c = 1460 \<and> b div 1461 \<le> 23"
proof -
  have ab: "0 \<le> a" "a < 146097" "0 \<le> b" "b < 36524" "0 \<le> c" "c < 1461"
    by (simp_all add: a_def b_def c_def)
  have e: "n = n div 146097 * 146097 + a" "a = a div 36524 * 36524 + b" "b = b div 1461 * 1461 + c"
    "c = c div 365 * 365 + c mod 365" by (simp_all add: a_def b_def c_def)
  then show "n = n div 146097 * 146097 + a div 36524 * 36524 + b div 1461 * 1461 + c div 365 * 365 + c mod 365"
    by linarith
  show "0 \<le> a div 36524" "a div 36524 \<le> 4" "0 \<le> b div 1461" "b div 1461 \<le> 24" "0 \<le> c div 365" "c div 365 \<le> 4"
    using ab by linarith+
  show "a div 36524 = 4 \<Longrightarrow> b = 0" using ab e(2) by linarith
  assume "c div 365 = 4"
  then have "c = 1460" using ab(5,6) by linarith
  then show "c = 1460 \<and> b div 1461 \<le> 23" using e(3) ab(4) by linarith
qed

lemma ymd2ord_ord2ymd:
  assumes "ord2ymd ordinal = (y, m, d)"
  shows "ymd2ord y m d = ordinal"
proof -
  define n where "n = ordinal - 1"
  define q a where "q = n div 146097" and "a = n mod 146097"
  define u b where "u = a div 36524" and "b = a mod 36524"
  define v c where "v = b div 1461" and "c = b mod 1461"
  define w k where "w = c div 365" and "k = c mod 365"
  note defs = q_def a_def u_def b_def v_def c_def w_def k_def
  note parts = ordinal_parts [of n, folded a_def, folded b_def, folded c_def,
      folded q_def u_def v_def w_def k_def]
  have o: "ord2ymd ordinal = (let y = q * 400 + 1 + u * 100 + v * 4 + w in
      if w = 4 \<or> u = 4 then (y - 1, 12, 31)
      else let m = month_of_yday y k in (y, m, k - days_before_month y m + 1))"
    unfolding ord2ymd_def n_def [symmetric] Let_def defs ..
  show ?thesis
  proof (cases "w = 4 \<or> u = 4")
    case False
    then have "days_before_year (q * 400 + 1 + u * 100 + v * 4 + w) = n - k"
      using parts(1-7) by (subst days_before_year_parts) auto
    then show ?thesis using assms o False by (auto simp: Let_def ymd2ord_def n_def)
  next
    case True
    then have y: "y = q * 400 + u * 100 + v * 4 + w" "m = 12" "d = 31"
      using assms o by (auto simp: Let_def)
    show ?thesis
    proof (cases "u = 4")
      case True
      then have "b = 0" by (rule parts(8))
      then have z: "v = 0" "w = 0" "k = 0" by (simp_all add: v_def w_def k_def c_def)
      have "is_leap y" using y True z by (simp add: is_leap_def)
      moreover have "days_before_year y = q * 146097 + 145731"
        using days_before_year_parts [of 3 24 3 q] y True z by (simp add: algebra_simps)
      ultimately show ?thesis using y parts(1) True z by (simp add: ymd2ord_def days_before_month_def n_def)
    next
      case False
      with True have w: "w = 4" by simp
      then have cv: "c = 1460" "v \<le> 23" using parts(9) by auto
      have yl: "y = q * 400 + u * 100 + (v + 1) * 4" using y w by simp
      have "y = 4 * (q * 100 + u * 25 + (v + 1))" using yl by simp
      then have "y mod 4 = 0" by simp
      have "y = (v + 1) * 4 + (q * 4 + u) * 100" using yl by simp
      then have "y mod 100 = (v + 1) * 4 mod 100" by (simp only: mod_mult_self1)
      also have "\<dots> = (v + 1) * 4" using parts(4) cv(2) by simp
      finally have "y mod 100 \<noteq> 0" using parts(4) by simp
      note \<open>y mod 4 = 0\<close> this
      then have "is_leap y" by (simp add: is_leap_def)
      moreover have "days_before_year y = q * 146097 + u * 36524 + v * 1461 + 1095"
        using days_before_year_parts [of u v 3 q] parts(2-5) y w False by (simp add: algebra_simps)
      moreover have "k = 0" using cv by (simp add: k_def)
      ultimately show ?thesis using y parts(1) w by (simp add: ymd2ord_def days_before_month_def n_def)
    qed
  qed
qed

text \<open>Different days have different dates.\<close>

lemma ord2ymd_inj: "ord2ymd a = ord2ymd b \<Longrightarrow> a = b"
  using ymd2ord_ord2ymd by (metis prod_cases3)

end
