(* ===== verification/Records.thy ===== *)
theory Records
  imports Labels Dates
begin

text \<open>
  \<open>tokenbill/core/records.py\<close>: the canonical ledger records. Each record type is a HOL record whose
  fields carry the types that \<open>__post_init__\<close> checks at run time (ints, bools, enums, tuples); the
  remaining checks (ranges, vocabularies, patterns, relations between fields, sortedness) are the
  \<open>mk_\<close> function of the type, which returns the normalised record or \<open>ContractViolation\<close>. Strings are
  lists of 8-bit characters. The reflective JSON codec (\<open>to_json\<close> / \<open>from_json\<close>) is not modelled. The
  lemmas show that buckets add up and stay within range, that a lane orders its requests by time
  without losing any, and which natural keys determine a stored record.
\<close>

section \<open>Vocabularies\<close>

definition MAX_TOKENS :: int where "MAX_TOKENS = 2 ^ 53"

datatype lane_kind = LkMain | LkSubagent | LkWorkflowAgent | LkHelper | LkCompaction | LkApiRun | LkUnknown

datatype inference_kind = IkMessage | IkCompaction | IkAdvisor | IkFallbackDeclined | IkFallback
  | IkKeepalive | IkOutputResidual | IkOther

datatype usage_source = UsFinal | UsMessageStartOnly | UsPartialStream | UsEstimated | UsProviderRollup

datatype outcome = OcOk | OcHttpError | OcAborted | OcTimeout | OcRefused | OcNetworkError | OcUnknown

datatype workload_class = WcInteractive | WcCi | WcScheduled | WcEval | WcBatch | WcService | WcUnknown

fun workload_class_value :: "workload_class \<Rightarrow> string" where
  "workload_class_value WcInteractive = ''interactive''"
| "workload_class_value WcCi = ''ci''"
| "workload_class_value WcScheduled = ''scheduled''"
| "workload_class_value WcEval = ''eval''"
| "workload_class_value WcBatch = ''batch''"
| "workload_class_value WcService = ''service''"
| "workload_class_value WcUnknown = ''unknown''"

datatype fidelity = FdAggregate | FdEstimated | FdNoTtlSplit | FdFull

fun fidelity_rank :: "fidelity \<Rightarrow> int" where
  "fidelity_rank FdAggregate = 0" | "fidelity_rank FdEstimated = 1"
| "fidelity_rank FdNoTtlSplit = 2" | "fidelity_rank FdFull = 3"

definition COPILOT_BILLING_PATHS :: "string list" where
  "COPILOT_BILLING_PATHS = [''copilot_pool'', ''copilot_direct'']"

definition BILLING_PATHS :: "string list" where
  "BILLING_PATHS = [''api_key'', ''subscription'', ''usage_credits'', ''bedrock'', ''vertex'', ''foundry'',
     ''claude_platform_aws'', ''openai'', ''azure_openai'', ''unknown'', ''copilot_pool'', ''copilot_direct'']"

definition billing_class :: "string option \<Rightarrow> string" where
  "billing_class p = (case p of
      None \<Rightarrow> ''billed''
    | Some b \<Rightarrow> if b = ''subscription'' then ''allowance''
               else if b \<in> set COPILOT_BILLING_PATHS then ''pool'' else ''billed'')"

definition EXTRA_KEYS :: "string list" where
  "EXTRA_KEYS = [''mdm_group'', ''gateway'', ''task_id'', ''workflow'', ''run_attempt'', ''department'',
     ''environment'', ''endpoint_scope'', ''copilot_compliance'']"

definition COPILOT_WORKLOADS :: "string list" where
  "COPILOT_WORKLOADS = [''copilot_code_review'', ''copilot_cloud_agent'', ''agentic_workflow'', ''code_quality'']"

definition COPILOT_PSEUDO :: "string list" where
  "COPILOT_PSEUDO = [''code_review'', ''cloud_agent'', ''auto_unattributed'', ''unknown'']"

definition OUTCOME_EXTRA_KEYS :: "string list" where
  "OUTCOME_EXTRA_KEYS = [''prs_merged'', ''prs_created_by_copilot'', ''prs_merged_created_by_copilot'',
     ''prs_reviewed_by_copilot'', ''copilot_suggestions'', ''copilot_applied_suggestions'']"

definition LICENSE_PLANS :: "string list" where
  "LICENSE_PLANS = [''business'', ''enterprise'', ''unknown'']"

definition LICENSE_BUCKETS :: "string list" where
  "LICENSE_BUCKETS = [''0-7'', ''8-30'', ''31-90'', ''none_90d'']"

definition LICENSE_SOURCE_KINDS :: "string list" where
  "LICENSE_SOURCE_KINDS = [''github.copilot_seats'', ''github.copilot_activity_report'']"

definition EDITOR_FAMILIES :: "string list" where
  "EDITOR_FAMILIES = [''vscode'', ''jetbrains'', ''visual_studio'', ''xcode'', ''eclipse'', ''neovim'',
     ''cli'', ''github_com'', ''copilot_app'', ''mobile'', ''other'']"

definition ACTIVITY_KEYS :: "string list" where
  "ACTIVITY_KEYS = [''interactions'', ''code_generation'', ''code_acceptance'', ''loc_suggested_add'',
     ''loc_suggested_delete'', ''loc_added'', ''loc_deleted'', ''cli_sessions'', ''cli_requests'',
     ''cli_prompts'', ''cli_prompt_tokens'', ''cli_output_tokens'', ''app_sessions'', ''app_requests'',
     ''app_prompts'', ''app_prompt_tokens'', ''app_output_tokens'', ''mcp_distinct'', ''skill_distinct'',
     ''custom_agent_distinct'', ''plugin_distinct'', ''slash_cmd_distinct'', ''third_party_agent_jobs'']"

definition ACTIVITY_KEY_PREFIXES :: "string list" where
  "ACTIVITY_KEY_PREFIXES = [''feature:'', ''model:'', ''ide:'']"

definition ACTIVITY_FLAGS :: "string list" where
  "ACTIVITY_FLAGS = [''used_chat'', ''used_agent'', ''used_cli'', ''used_copilot_app'', ''used_cloud_agent'',
     ''used_code_review_active'', ''used_code_review_passive'']"

definition CONFIG_SOURCE_KINDS :: "string list" where
  "CONFIG_SOURCE_KINDS = [''github.budgets'', ''github.cost_centers'', ''github.org_copilot_settings'',
     ''github.ai_usage_report'', ''tokenbill.cli'', ''tokenbill.admin_answers'', ''tokenbill.copilot_export'']"

definition COUNT_CONFIG_KINDS :: "string list" where
  "COUNT_CONFIG_KINDS = [''seat_counts'', ''activity_counts'', ''plan_quota'']"

definition CONFIG_KEYS :: "(string \<times> string list) list" where
  "CONFIG_KEYS = [
     (''budget'', [''scope'', ''type'', ''sku'', ''amount_nano'', ''prevent_further_usage'', ''will_alert'',
        ''n_recipients'', ''expires_at'', ''consumed_nano'', ''target'', ''team'', ''cost_center'']),
     (''budget_users'', [''n_users'', ''n_at_or_over_target'', ''consumed_p50_nano'', ''consumed_p90_nano'']),
     (''cost_center'', [''cost_center_id'', ''state'', ''pool_enabled'', ''pool_target_credits'',
        ''pool_current_credits'', ''n_users'', ''n_teams'', ''n_orgs'', ''n_repos'', ''azure'']),
     (''org_settings'', [''plan_type'', ''seat_management_setting'', ''ide_chat'', ''platform_chat'', ''cli'',
        ''seats_total'', ''seats_added_this_cycle'', ''seats_pending_cancellation'',
        ''seats_pending_invitation'', ''seats_active_this_cycle'', ''seats_inactive_this_cycle'']),
     (''run_flags'', [''promo_eligible'', ''compliance'', ''paid_usage_policy'', ''org_cli_billing_policy'',
        ''plan.'', ''pool_seats.'', ''billing_mode.'', ''renewal_date.'', ''capped_policy.'', ''budget_stop.'']),
     (''seat_counts'', [''team'', ''plan'', ''bucket'', ''surface'', ''assigned_via_team'',
        ''pending_cancellation'', ''created_over_30d'', ''zero_cost_30d'', ''n'', ''n_people'']),
     (''activity_counts'', [''team'', ''month'', ''n_people'', ''interactions'', ''cli_requests'',
        ''cli_prompt_tokens'', ''app_interactions'', ''ide:'']),
     (''plan_quota'', [''month'', ''quota'', ''n_users''])]"

definition COUNT_ATTRS :: "string list" where
  "COUNT_ATTRS = [''n'', ''n_people'', ''n_users'']"

definition DIAG_REASONS :: "string list" where
  "DIAG_REASONS = [''model_changed'', ''system_changed'', ''tools_changed'', ''messages_changed'',
     ''param_changed'', ''key_changed'', ''compacted'', ''previous_message_not_found'', ''unavailable'']"

definition BLOCK_KINDS :: "string list" where
  "BLOCK_KINDS = [''tool_def'', ''system_text'', ''text'', ''tool_use'', ''tool_result'', ''image'',
     ''document'', ''thinking'', ''redacted_thinking'', ''compaction'', ''other'']"

definition BASIS_VALUES :: "string list" where
  "BASIS_VALUES = [''list'', ''contract'', ''invoice'', ''provider_estimate'', ''list_equivalent'']"

definition ENDPOINT_SCOPES :: "string list" where
  "ENDPOINT_SCOPES = [''global'', ''regional'', ''multi_region'', ''unknown'']"

definition ROUTINGS :: "string list" where
  "ROUTINGS = [''direct'', ''auto'', ''unknown'']"

definition FINALITIES :: "string list" where
  "FINALITIES = [''provisional'', ''final'']"

definition INT64 :: int where "INT64 = 2 ^ 63 - 1"
definition MAX_DATE_MS :: int where "MAX_DATE_MS = 253402300799999"

section \<open>Validation helpers\<close>

definition count_ok :: "int \<Rightarrow> bool" where
  "count_ok v = (0 \<le> v \<and> v \<le> MAX_TOKENS)"

definition opt_ok :: "('a \<Rightarrow> bool) \<Rightarrow> 'a option \<Rightarrow> bool" where
  "opt_ok p v = (case v of None \<Rightarrow> True | Some x \<Rightarrow> p x)"

definition one_of :: "string list \<Rightarrow> string \<Rightarrow> bool" where
  "one_of allowed v = (v \<in> set allowed)"

definition validated :: "bool \<Rightarrow> 'a \<Rightarrow> 'a res" where
  "validated ok r = (if ok then Inr r else Inl ContractViolation)"

definition is_hex :: "char \<Rightarrow> bool" where
  "is_hex c = (c \<in> set ''0123456789abcdef'')"

definition code_between :: "char \<Rightarrow> nat \<Rightarrow> nat \<Rightarrow> bool" where
  "code_between c a b = (a \<le> (of_char c :: nat) \<and> (of_char c :: nat) \<le> b)"

definition is_lower :: "char \<Rightarrow> bool" where "is_lower c = code_between c 97 122"
definition is_upper :: "char \<Rightarrow> bool" where "is_upper c = code_between c 65 90"

text \<open>\<open>_HASH_RE\<close>, \<open>_STORE_PRINCIPAL_RE\<close> and \<open>_PRINCIPAL_RE\<close>.\<close>

definition tagged_hex :: "char \<Rightarrow> string \<Rightarrow> bool" where
  "tagged_hex t s = (length s = 22 \<and> s ! 0 = t \<and> s ! 1 = CHR ''_'' \<and> list_all is_hex (drop 2 s))"

definition hashed_ok :: "string \<Rightarrow> bool" where
  "hashed_ok s = tagged_hex (CHR ''h'') s"

definition store_principal_ok :: "string \<Rightarrow> bool" where
  "store_principal_ok s = tagged_hex (CHR ''p'') s"

definition principal_ok :: "string \<Rightarrow> bool" where
  "principal_ok s = (tagged_hex (CHR ''p'') s \<or> tagged_hex (CHR ''c'') s \<or>
     (startswith s ''r_'' \<and> 1 \<le> length s - 2 \<and> length s - 2 \<le> 64 \<and>
      list_all (\<lambda>c. is_lower c \<or> is_upper c \<or> is_digit c \<or> c \<in> set ''._-'') (drop 2 s)))"

definition date_ok :: "string \<Rightarrow> bool" where
  "date_ok s = (length s = 10 \<and> list_all is_digit (take 4 s) \<and> s ! 4 = CHR ''-'' \<and>
     list_all is_digit (take 2 (drop 5 s)) \<and> s ! 7 = CHR ''-'' \<and> list_all is_digit (drop 8 s))"

text \<open>\<open>_DECIMAL_STR_RE\<close>: an optional minus, 1 to 40 digits, optionally a point and 1 to 40 digits.\<close>

definition decimal_str_ok :: "string \<Rightarrow> bool" where
  "decimal_str_ok s =
     (let t = (if startswith s ''-'' then drop 1 s else s);
          w = takeWhile is_digit t; r = dropWhile is_digit t
      in 1 \<le> length w \<and> length w \<le> 40 \<and>
         (r = '''' \<or> (hd r = CHR ''.'' \<and> 1 \<le> length (tl r) \<and> length (tl r) \<le> 40 \<and> list_all is_digit (tl r))))"

definition key_suffix_ok :: "string \<Rightarrow> bool" where
  "key_suffix_ok s = (1 \<le> length s \<and> length s \<le> 64 \<and>
     list_all (\<lambda>c. is_lower c \<or> is_digit c \<or> c \<in> set ''._-'') s)"

definition entity_id_ok :: "string \<Rightarrow> bool" where
  "entity_id_ok s = (s \<in> set [''enterprise'', ''run'', ''admin_answers''] \<or>
     (\<exists>p \<in> set [''org:'', ''cc:'', ''budget:'']. startswith s p \<and> length p < length s \<and>
        list_all (\<lambda>c. 31 < (of_char c :: nat)) (drop (length p) s)))"

text \<open>\<open>_prefixed_key_ok\<close>; \<open>suffix_ok\<close> is the pattern of the suffix.\<close>

definition prefixed_key_ok :: "(string \<Rightarrow> bool) \<Rightarrow> string list \<Rightarrow> string \<Rightarrow> bool" where
  "prefixed_key_ok suffix_ok fixed key = (\<exists>entry \<in> set fixed.
     if entry = '''' \<or> last entry \<notin> set ''.:'' then key = entry
     else startswith key entry \<and> length entry < length key \<and> suffix_ok (drop (length entry) key))"

text \<open>\<open>_pairs\<close> with unique keys: sorted by key, no duplicates.\<close>

definition sorted_pairs :: "(string \<times> 'v) list \<Rightarrow> (string \<times> 'v) list res" where
  "sorted_pairs ps = (let out = sort_key fst ps
     in if distinct (map fst out) then Inr out else Inl ContractViolation)"

section \<open>Usage\<close>

record usage_buckets =
  uncached_input :: int
  cache_read :: int
  cache_write_5m :: int
  cache_write_1h :: int
  cache_write_other :: int
  cache_write_other_ttl_s :: "int option"
  cache_write_unknown :: int
  u_output :: int
  output_reasoning :: "int option"
  web_search_requests :: int
  web_fetch_requests :: int

definition mk_usage :: "usage_buckets \<Rightarrow> usage_buckets res" where
  "mk_usage u = validated
     (list_all count_ok [uncached_input u, cache_read u, cache_write_5m u, cache_write_1h u,
        cache_write_other u, cache_write_unknown u, u_output u, web_search_requests u,
        web_fetch_requests u] \<and>
      opt_ok (\<lambda>r. count_ok r \<and> r \<le> u_output u) (output_reasoning u) \<and>
      opt_ok (\<lambda>t. 0 < t \<and> t \<le> MAX_TOKENS) (cache_write_other_ttl_s u) \<and>
      (cache_write_other u > 0 \<longrightarrow> cache_write_other_ttl_s u \<noteq> None)) u"

definition cache_write :: "usage_buckets \<Rightarrow> int" where
  "cache_write u = cache_write_5m u + cache_write_1h u + cache_write_other u + cache_write_unknown u"

definition total_input :: "usage_buckets \<Rightarrow> int" where
  "total_input u = uncached_input u + cache_read u + cache_write u"

definition add_usage :: "usage_buckets \<Rightarrow> usage_buckets \<Rightarrow> usage_buckets res" where
  "add_usage a b =
     rbind (case (cache_write_other_ttl_s a, cache_write_other_ttl_s b) of
        (Some x, Some y) \<Rightarrow> guard (x = y) ContractViolation
      | _ \<Rightarrow> Inr ()) (\<lambda>_. mk_usage \<lparr>
        uncached_input = uncached_input a + uncached_input b,
        cache_read = cache_read a + cache_read b,
        cache_write_5m = cache_write_5m a + cache_write_5m b,
        cache_write_1h = cache_write_1h a + cache_write_1h b,
        cache_write_other = cache_write_other a + cache_write_other b,
        cache_write_other_ttl_s = (case cache_write_other_ttl_s a of
            Some t \<Rightarrow> Some t | None \<Rightarrow> cache_write_other_ttl_s b),
        cache_write_unknown = cache_write_unknown a + cache_write_unknown b,
        u_output = u_output a + u_output b,
        output_reasoning = (case (output_reasoning a, output_reasoning b) of
            (Some x, Some y) \<Rightarrow> Some (x + y) | _ \<Rightarrow> None),
        web_search_requests = web_search_requests a + web_search_requests b,
        web_fetch_requests = web_fetch_requests a + web_fetch_requests b\<rparr>)"

section \<open>Inferences, attempts and requests\<close>

record pricing_context =
  ctx_provider :: string
  ctx_channel :: string
  ctx_model :: string
  ctx_model_raw :: string
  service_tier :: string
  speed :: string
  inference_geo :: "string option"
  endpoint_scope :: string
  write_ttl_hint :: "string option"
  billing_path :: string
  routing :: string
  compliance :: "string option"
  context_tier :: "string option"

definition mk_pricing_context :: "pricing_context \<Rightarrow> pricing_context res" where
  "mk_pricing_context c = validated
     (one_of ENDPOINT_SCOPES (endpoint_scope c) \<and>
      opt_ok (one_of [''5m'', ''1h'']) (write_ttl_hint c) \<and>
      one_of BILLING_PATHS (billing_path c) \<and>
      one_of ROUTINGS (routing c) \<and>
      opt_ok (one_of [''data_residency'', ''fedramp'']) (compliance c) \<and>
      opt_ok (one_of [''default'', ''long_context'']) (context_tier c)) c"

record inference =
  inference_id :: string
  inf_kind :: inference_kind
  usage :: usage_buckets
  pricing :: pricing_context
  usage_src :: usage_source
  billable :: "bool option"
  billing_rule_id :: "string option"
  output_upper :: "int option"
  provider_reported_cost_nano :: "int option"
  provider_reported_cost_basis :: "string option"

definition mk_inference :: "inference \<Rightarrow> inference res" where
  "mk_inference i = validated
     (opt_ok (\<lambda>up. count_ok up \<and> usage_src i = UsMessageStartOnly \<and> u_output (usage i) \<le> up)
        (output_upper i) \<and>
      opt_ok (one_of BASIS_VALUES) (provider_reported_cost_basis i)) i"

record cache_diagnostic =
  diag_reason :: string
  provider_reason :: string
  missed_input_tokens_estimate :: "int option"
  diag_source :: string

definition mk_cache_diagnostic :: "cache_diagnostic \<Rightarrow> cache_diagnostic res" where
  "mk_cache_diagnostic d = validated
     (one_of DIAG_REASONS (diag_reason d) \<and> opt_ok count_ok (missed_input_tokens_estimate d)) d"

record attempt =
  attempt_id :: string
  attempt_no :: int
  att_ts_start_ms :: int
  ttft_ms :: "int option"
  duration_ms :: "int option"
  att_outcome :: outcome
  http_status :: "int option"
  error_type :: "string option"
  retry_layer :: "string option"
  retry_after_ms :: "int option"
  should_retry :: "bool option"
  provider_request_id :: "string option"
  provider_message_id :: "string option"
  model_served :: "string option"
  stop_reason :: "string option"
  inferences :: "inference list"
  diagnostics :: "cache_diagnostic option"
  applied_edits :: "(string \<times> int) list"
  thinking_dropped :: int
  sdk_retry_count :: "int option"
  raw_usage_json :: "string option"
  convention_id :: "string option"

definition mk_attempt :: "attempt \<Rightarrow> attempt res" where
  "mk_attempt a = validated
     (count_ok (attempt_no a) \<and> count_ok (att_ts_start_ms a) \<and> opt_ok count_ok (ttft_ms a) \<and>
      opt_ok count_ok (duration_ms a) \<and> opt_ok count_ok (http_status a) \<and>
      opt_ok (one_of [''sdk'', ''agent'', ''gateway'']) (retry_layer a) \<and>
      opt_ok count_ok (retry_after_ms a) \<and>
      list_all (\<lambda>(e, n). count_ok n) (applied_edits a) \<and>
      count_ok (thinking_dropped a) \<and> opt_ok count_ok (sdk_retry_count a) \<and>
      opt_ok (\<lambda>raw. int (length raw) \<le> 8 * 1024) (raw_usage_json a)) a"

record breakpoint =
  block_index :: int
  bp_ttl :: string
  bp_assumed :: bool

definition mk_breakpoint :: "breakpoint \<Rightarrow> breakpoint res" where
  "mk_breakpoint b = validated
     (count_ok (block_index b) \<and> one_of [''5m'', ''1h'', ''30m''] (bp_ttl b)) b"

record request_params =
  model_requested :: string
  max_tokens :: "int option"
  stream :: "bool option"
  thinking :: "string option"
  effort :: "string option"
  session_effort :: "string option"
  tool_choice :: "string option"
  output_format :: "string option"
  speed_requested :: "string option"
  service_tier_requested :: "string option"
  inference_geo_requested :: "string option"
  betas :: "string list"
  breakpoints :: "breakpoint list"
  automatic_caching :: "bool option"
  context_management :: "string option"
  task_budget :: "int option"
  web_search_enabled :: "bool option"
  citations_enabled :: "bool option"
  has_images :: "bool option"
  advisor_model :: "string option"
  disable_parallel_tool_use :: "bool option"

definition mk_request_params :: "request_params \<Rightarrow> request_params res" where
  "mk_request_params p = validated
     (opt_ok count_ok (max_tokens p) \<and> opt_ok count_ok (task_budget p))
     (p\<lparr>betas := sort (betas p)\<rparr>)"

record block_ref =
  blk_h :: string
  h_sorted :: "string option"
  h_norm :: "string option"
  blk_tier :: string
  blk_kind :: string
  blk_role :: "string option"
  blk_n_bytes :: int
  est_tokens :: "int option"
  image_px :: "(int \<times> int) option"
  volatile_classes :: "string list"
  lookback_pos :: int
  deferred :: bool

definition mk_block_ref :: "block_ref \<Rightarrow> block_ref res" where
  "mk_block_ref b = validated
     (one_of [''tools'', ''system'', ''messages''] (blk_tier b) \<and> one_of BLOCK_KINDS (blk_kind b) \<and>
      count_ok (blk_n_bytes b) \<and> opt_ok count_ok (est_tokens b) \<and>
      opt_ok (\<lambda>(w, h). 0 \<le> w \<and> 0 \<le> h) (image_px b) \<and> count_ok (lookback_pos b)) b"

record content_fingerprint =
  key_id :: string
  blocks :: "block_ref list"
  tier_end :: "int list"

definition mk_content_fingerprint :: "content_fingerprint \<Rightarrow> content_fingerprint res" where
  "mk_content_fingerprint f = validated
     (case tier_end f of
        [a, b, c] \<Rightarrow> 0 \<le> a \<and> a \<le> b \<and> b \<le> c \<and> c \<le> int (length (blocks f))
      | _ \<Rightarrow> False) f"

record appended_item =
  app_kind :: string
  app_name :: "string option"
  app_n_bytes :: int
  is_error :: bool
  images :: int

definition mk_appended_item :: "appended_item \<Rightarrow> appended_item res" where
  "mk_appended_item a = validated
     (one_of [''tool_result'', ''user_text'', ''attachment'', ''image'', ''assistant''] (app_kind a) \<and>
      count_ok (app_n_bytes a) \<and> count_ok (images a)) a"

record attribution =
  principal :: "string option"
  team :: "string option"
  cost_center :: "string option"
  project :: "string option"
  repo :: "string option"
  workspace_id :: "string option"
  api_key_id :: "string option"
  agent_product :: "string option"
  agent_type :: "string option"
  query_source :: "string option"
  skill :: "string option"
  mcp_server :: "string option"
  plugin :: "string option"
  workload :: workload_class
  entrypoint :: "string option"
  client_version :: "string option"
  attr_billing_path :: "string option"
  cwd_key :: "string option"
  arm :: "string option"
  wave :: "string option"
  extra :: "(string \<times> string) list"

definition mk_attribution :: "attribution \<Rightarrow> attribution res" where
  "mk_attribution a = rbind (sorted_pairs (extra a)) (\<lambda>ex. validated
     (opt_ok principal_ok (principal a) \<and> opt_ok hashed_ok (api_key_id a) \<and> opt_ok hashed_ok (cwd_key a) \<and>
      opt_ok (one_of BILLING_PATHS) (attr_billing_path a) \<and>
      list_all (\<lambda>(k, v). one_of EXTRA_KEYS k \<and> length v \<le> 128) ex)
     (a\<lparr>extra := ex\<rparr>))"

record source_ref =
  adapter :: string
  source_id :: string
  locator :: string
  src_fidelity :: fidelity
  priority :: int

record request =
  request_id :: string
  req_session_key :: string
  req_lane_key :: string
  seq :: int
  attribution :: attribution
  params :: request_params
  attempts :: "attempt list"
  fingerprint :: "content_fingerprint option"
  appended :: "appended_item list"
  source :: "source_ref option"

definition mk_request :: "request \<Rightarrow> request res" where
  "mk_request r = validated (count_ok (seq r) \<and> attempts r \<noteq> []) r"

definition ts_start_ms :: "request \<Rightarrow> int" where
  "ts_start_ms r = att_ts_start_ms (hd (attempts r))"

definition final_attempt :: "request \<Rightarrow> attempt" where
  "final_attempt r = last (attempts r)"

definition serving_inference :: "request \<Rightarrow> inference option" where
  "serving_inference r =
     List.find (\<lambda>i. inf_kind i = IkMessage \<or> inf_kind i = IkFallback) (rev (inferences (final_attempt r)))"

definition billable_inferences :: "request \<Rightarrow> inference list" where
  "billable_inferences r =
     filter (\<lambda>i. billable i \<noteq> Some False) (concat (map inferences (attempts r)))"

definition req_model :: "request \<Rightarrow> string" where
  "req_model r = (case serving_inference r of
      Some i \<Rightarrow> if ctx_model (pricing i) \<noteq> '''' then ctx_model (pricing i) else model_requested (params r)
    | None \<Rightarrow> model_requested (params r))"

section \<open>Lanes and sessions\<close>

datatype attr = AStr string | AInt int | ABool bool | ANone

datatype attr_type = TStr | TInt | TBool | TNone

datatype lane_event_kind = EvCompaction | EvClear | EvModelFallback | EvModelSwitchUser | EvApiError
  | EvContextEdit | EvUpgrade | EvContextInjection | EvHumanPrompt | EvSessionMeta | EvCostState
  | EvImageEviction | EvQuotaState

fun lane_event_kind_value :: "lane_event_kind \<Rightarrow> string" where
  "lane_event_kind_value EvCompaction = ''compaction''"
| "lane_event_kind_value EvClear = ''clear''"
| "lane_event_kind_value EvModelFallback = ''model_fallback''"
| "lane_event_kind_value EvModelSwitchUser = ''model_switch_user''"
| "lane_event_kind_value EvApiError = ''api_error''"
| "lane_event_kind_value EvContextEdit = ''context_edit''"
| "lane_event_kind_value EvUpgrade = ''upgrade''"
| "lane_event_kind_value EvContextInjection = ''context_injection''"
| "lane_event_kind_value EvHumanPrompt = ''human_prompt''"
| "lane_event_kind_value EvSessionMeta = ''session_meta''"
| "lane_event_kind_value EvCostState = ''cost_state''"
| "lane_event_kind_value EvImageEviction = ''image_eviction''"
| "lane_event_kind_value EvQuotaState = ''quota_state''"

fun EVENT_ATTRS :: "lane_event_kind \<Rightarrow> (string \<times> attr_type list) list" where
  "EVENT_ATTRS EvCompaction = [(''trigger'', [TStr]), (''pre_tokens'', [TInt]), (''post_tokens'', [TInt]),
     (''duration_ms'', [TInt]), (''dropped_tokens'', [TInt, TNone]), (''copilot_trigger'', [TStr, TNone]),
     (''system_tokens'', [TInt, TNone]), (''tool_definitions_tokens'', [TInt, TNone])]"
| "EVENT_ATTRS EvClear = []"
| "EVENT_ATTRS EvModelFallback = [(''from_model'', [TStr]), (''to_model'', [TStr]), (''trigger'', [TStr]),
     (''credited'', [TBool, TNone])]"
| "EVENT_ATTRS EvModelSwitchUser = [(''from_model'', [TStr]), (''to_model'', [TStr])]"
| "EVENT_ATTRS EvApiError = [(''status'', [TInt, TNone]), (''error_type'', [TStr]),
     (''retry_attempt'', [TInt, TNone]), (''max_retries'', [TInt, TNone]), (''retry_in_ms'', [TInt, TNone])]"
| "EVENT_ATTRS EvContextEdit = [(''edit_type'', [TStr]), (''cleared_input_tokens'', [TInt])]"
| "EVENT_ATTRS EvUpgrade = [(''from_version'', [TStr]), (''to_version'', [TStr])]"
| "EVENT_ATTRS EvContextInjection = [(''att_type'', [TStr]), (''n_bytes'', [TInt])]"
| "EVENT_ATTRS EvHumanPrompt = []"
| "EVENT_ATTRS EvSessionMeta = [(''agent_type'', [TStr, TNone]), (''spawn_depth'', [TInt, TNone]),
     (''model_alias'', [TStr, TNone]), (''credit_limit_nano'', [TInt, TNone]),
     (''routing_mode'', [TStr, TNone]), (''context_tier'', [TStr, TNone])]"
| "EVENT_ATTRS EvCostState = [(''reported_total_nano'', [TInt]), (''reporter'', [TStr])]"
| "EVENT_ATTRS EvImageEviction = [(''n_images'', [TInt])]"
| "EVENT_ATTRS EvQuotaState = [(''status'', [TStr, TNone]), (''rate_limit_type'', [TStr, TNone]),
     (''using_overage'', [TBool, TNone]), (''overage_status'', [TStr, TNone]), (''resets_at_ms'', [TInt, TNone])]"

definition EVENT_VALUE_DOMAINS :: "lane_event_kind \<Rightarrow> string \<Rightarrow> string list option" where
  "EVENT_VALUE_DOMAINS k key =
     (if k = EvCompaction \<and> key = ''trigger'' then Some [''auto'', ''manual'']
      else if k = EvModelFallback \<and> key = ''trigger'' then Some [''refusal'', ''availability'', ''unknown'']
      else None)"

fun attr_type_ok :: "attr \<Rightarrow> attr_type list \<Rightarrow> bool" where
  "attr_type_ok (ABool _) allowed = (TBool \<in> set allowed)"
| "attr_type_ok (AInt _) allowed = (TInt \<in> set allowed)"
| "attr_type_ok ANone allowed = (TNone \<in> set allowed)"
| "attr_type_ok (AStr _) allowed = (TStr \<in> set allowed)"

record lane_event =
  ev_lane_key :: string
  ev_ts_ms :: int
  ev_kind :: lane_event_kind
  ev_attrs :: "(string \<times> attr) list"

definition event_attr_ok :: "lane_event_kind \<Rightarrow> string \<times> attr \<Rightarrow> bool" where
  "event_attr_ok k kv = (case kv of (key, v) \<Rightarrow>
     (case map_of (EVENT_ATTRS k) key of
        None \<Rightarrow> False
      | Some allowed \<Rightarrow> attr_type_ok v allowed \<and>
          (case v of AInt i \<Rightarrow> - MAX_TOKENS \<le> i \<and> i \<le> MAX_TOKENS | _ \<Rightarrow> True) \<and>
          (case EVENT_VALUE_DOMAINS k key of
             None \<Rightarrow> True | Some vals \<Rightarrow> (case v of AStr t \<Rightarrow> t \<in> set vals | _ \<Rightarrow> False))))"

definition mk_lane_event :: "lane_event \<Rightarrow> lane_event res" where
  "mk_lane_event e = rbind (sorted_pairs (ev_attrs e)) (\<lambda>as. validated
     (count_ok (ev_ts_ms e) \<and> list_all (event_attr_ok (ev_kind e)) as) (e\<lparr>ev_attrs := as\<rparr>))"

definition request_sort_key :: "request \<Rightarrow> int \<times> int \<times> string" where
  "request_sort_key r = (ts_start_ms r, seq r, request_id r)"

definition request_billing_path :: "request \<Rightarrow> string option" where
  "request_billing_path r = (case attr_billing_path (attribution r) of
      Some p \<Rightarrow> Some p
    | None \<Rightarrow> map_option (\<lambda>i. billing_path (pricing i)) (serving_inference r))"

text \<open>\<open>repr\<close> of an attribute value, for 8-bit strings.\<close>

definition hex2 :: "nat \<Rightarrow> string" where
  "hex2 n = [''0123456789abcdef'' ! (n div 16 mod 16), ''0123456789abcdef'' ! (n mod 16)]"

definition repr_char :: "char \<Rightarrow> char \<Rightarrow> string" where
  "repr_char q c = (let n = (of_char c :: nat)
     in if c = q \<or> n = 92 then [CHR 0x5C, c]
        else if n = 9 then [CHR 0x5C, CHR ''t'']
        else if n = 10 then [CHR 0x5C, CHR ''n'']
        else if n = 13 then [CHR 0x5C, CHR ''r'']
        else if n < 32 \<or> (127 \<le> n \<and> n \<le> 160) \<or> n = 173 then [CHR 0x5C, CHR ''x''] @ hex2 n
        else [c])"

definition repr_attr :: "attr \<Rightarrow> string" where
  "repr_attr v = (case v of
      AStr s \<Rightarrow> (let q = (if CHR 0x27 \<in> set s \<and> CHR 0x22 \<notin> set s
                       then CHR 0x22 else CHR 0x27)
                in [q] @ concat (map (repr_char q) s) @ [q])
    | AInt i \<Rightarrow> show_int i
    | ABool b \<Rightarrow> (if b then ''True'' else ''False'')
    | ANone \<Rightarrow> ''None'')"

definition event_sort_key :: "lane_event \<Rightarrow> int \<times> string \<times> (string \<times> string) list" where
  "event_sort_key e = (ev_ts_ms e, lane_event_kind_value (ev_kind e),
     map (\<lambda>(k, v). (k, repr_attr v)) (ev_attrs e))"

record lane =
  lane_key :: string
  lane_session_key :: string
  lane_kind :: lane_kind
  parent_lane_key :: "string option"
  cache_scope_key :: string
  requests :: "request list"
  events :: "lane_event list"
  ttl_observed :: string
  lane_exact :: bool

definition mk_lane :: "lane \<Rightarrow> lane res" where
  "mk_lane l = validated
     (list_all (\<lambda>r. req_lane_key r = lane_key l) (requests l) \<and>
      list_all (\<lambda>e. ev_lane_key e = lane_key l) (events l) \<and>
      one_of [''5m'', ''1h'', ''mixed'', ''unknown''] (ttl_observed l))
     (l\<lparr>requests := (if sorted (map request_sort_key (requests l)) then requests l
                    else sort_key request_sort_key (requests l)),
       events := (if sorted (map event_sort_key (events l)) then events l
                  else sort_key event_sort_key (events l))\<rparr>)"

definition lane_team :: "lane \<Rightarrow> string option" where
  "lane_team l = (case requests l of [] \<Rightarrow> None | r # _ \<Rightarrow> team (attribution r))"

definition lane_billing_class :: "lane \<Rightarrow> string" where
  "lane_billing_class l =
     billing_class (case requests l of [] \<Rightarrow> None | r # _ \<Rightarrow> request_billing_path r)"

record session =
  session_key :: string
  ses_source_kind :: string
  ses_attribution :: attribution
  lanes :: "lane list"
  started_ms :: int
  ended_ms :: int

definition mk_session :: "session \<Rightarrow> session res" where
  "mk_session s = validated
     (list_all (\<lambda>l. lane_session_key l = session_key s) (lanes s) \<and>
      count_ok (started_ms s) \<and> count_ok (ended_ms s) \<and> started_ms s \<le> ended_ms s) s"

section \<open>Aggregates and cost lines\<close>

record usage_aggregate =
  agg_id :: string
  agg_source_kind :: string
  bucket_start_ms :: int
  bucket_end_ms :: int
  dims :: "(string \<times> string) list"
  agg_usage :: usage_buckets
  reported_cost_nano :: "int option"
  reported_cost_basis :: "string option"
  list_cost_nano :: "int option"
  agg_finality :: string
  agg_fetched_ms :: int

definition mk_usage_aggregate :: "usage_aggregate \<Rightarrow> usage_aggregate res" where
  "mk_usage_aggregate a = rbind (sorted_pairs (dims a)) (\<lambda>ds. validated
     (count_ok (bucket_start_ms a) \<and> count_ok (bucket_end_ms a) \<and>
      bucket_start_ms a \<le> bucket_end_ms a \<and>
      opt_ok (one_of BASIS_VALUES) (reported_cost_basis a) \<and>
      one_of FINALITIES (agg_finality a) \<and> count_ok (agg_fetched_ms a)) (a\<lparr>dims := ds\<rparr>))"

record cost_line =
  line_id :: string
  cl_source_kind :: string
  cl_date_utc :: string
  cl_channel :: string
  cl_workspace_id :: "string option"
  description :: string
  cl_model :: "string option"
  cost_type :: "string option"
  token_type :: "string option"
  sku :: "string option"
  cl_service_tier :: "string option"
  cl_inference_geo :: "string option"
  cl_endpoint_scope :: "string option"
  cl_amount_nano :: int
  list_amount_nano :: "int option"
  currency :: string
  cl_finality :: string
  cl_principal :: "string option"
  cl_fetched_ms :: int
  cl_quantity :: "string option"
  cl_unit :: "string option"
  cl_cost_center :: "string option"
  cl_team :: "string option"
  cl_repo :: "string option"
  cl_workload :: "string option"
  cl_workflow :: "string option"
  cl_routing :: "string option"
  cl_speed :: "string option"
  pseudo :: "string option"

definition mk_cost_line :: "cost_line \<Rightarrow> cost_line res" where
  "mk_cost_line c = validated
     (date_ok (cl_date_utc c) \<and> opt_ok (one_of ENDPOINT_SCOPES) (cl_endpoint_scope c) \<and>
      one_of FINALITIES (cl_finality c) \<and> opt_ok store_principal_ok (cl_principal c) \<and>
      count_ok (cl_fetched_ms c) \<and> opt_ok decimal_str_ok (cl_quantity c) \<and>
      opt_ok hashed_ok (cl_repo c) \<and> opt_ok hashed_ok (cl_workflow c) \<and>
      opt_ok (one_of COPILOT_WORKLOADS) (cl_workload c) \<and> opt_ok (one_of ROUTINGS) (cl_routing c) \<and>
      opt_ok (one_of [''standard'', ''fast'']) (cl_speed c) \<and>
      opt_ok (one_of COPILOT_PSEUDO) (pseudo c)) c"

record outcome_aggregate =
  oa_date_utc :: string
  oa_team :: string
  n_users :: int
  sessions :: int
  commits :: int
  pull_requests :: int
  lines_added :: int
  lines_removed :: int
  edits_accepted :: int
  edits_rejected :: int
  oa_source_kind :: string
  oa_extra :: "(string \<times> int) list"

definition mk_outcome_aggregate :: "outcome_aggregate \<Rightarrow> outcome_aggregate res" where
  "mk_outcome_aggregate a = rbind (sorted_pairs (oa_extra a)) (\<lambda>ex. validated
     (date_ok (oa_date_utc a) \<and>
      list_all count_ok [n_users a, sessions a, commits a, pull_requests a, lines_added a,
        lines_removed a, edits_accepted a, edits_rejected a] \<and>
      list_all (\<lambda>(k, v). one_of OUTCOME_EXTRA_KEYS k \<and> count_ok v) ex) (a\<lparr>oa_extra := ex\<rparr>))"

record usage_record =
  ur_inference_id :: string
  ur_request_id :: string
  ur_attempt_id :: string
  ur_session_key :: string
  ur_lane_key :: string
  ur_lane_kind :: lane_kind
  ur_ts_ms :: int
  ur_date_utc :: string
  ur_kind :: inference_kind
  ur_usage_source :: usage_source
  ur_billable :: "bool option"
  ur_billing_rule_id :: "string option"
  ur_pricing :: pricing_context
  ur_usage :: usage_buckets
  ur_attribution :: attribution
  ur_fidelity :: fidelity

definition mk_usage_record :: "usage_record \<Rightarrow> usage_record res" where
  "mk_usage_record u = validated (count_ok (ur_ts_ms u) \<and> date_ok (ur_date_utc u)) u"

section \<open>Seat, activity and configuration records\<close>

record license_snapshot =
  snapshot_date :: string
  lic_product :: string
  lic_plan :: string
  lic_principal :: string
  lic_team :: "string option"
  lic_cost_center :: "string option"
  lic_org :: "string option"
  seat_created :: "string option"
  pending_cancellation :: "string option"
  last_activity_bucket :: string
  last_activity_surface :: "string option"
  last_authenticated_bucket :: string
  assigned_via_team :: "bool option"
  lic_fetched_ms :: int
  lic_source_kind :: string

definition mk_license_snapshot :: "license_snapshot \<Rightarrow> license_snapshot res" where
  "mk_license_snapshot l = validated
     (date_ok (snapshot_date l) \<and> one_of LICENSE_PLANS (lic_plan l) \<and> store_principal_ok (lic_principal l) \<and>
      one_of LICENSE_BUCKETS (last_activity_bucket l) \<and>
      opt_ok (one_of EDITOR_FAMILIES) (last_activity_surface l) \<and>
      one_of (LICENSE_BUCKETS @ [''unknown'']) (last_authenticated_bucket l) \<and>
      count_ok (lic_fetched_ms l) \<and> one_of LICENSE_SOURCE_KINDS (lic_source_kind l)) l"

definition activity_key_ok :: "string \<Rightarrow> bool" where
  "activity_key_ok key = prefixed_key_ok key_suffix_ok (ACTIVITY_KEYS @ ACTIVITY_KEY_PREFIXES) key"

record activity_day =
  act_date_utc :: string
  act_product :: string
  act_principal :: string
  act_team :: "string option"
  act_cost_center :: "string option"
  act_reported_cost_nano :: "int option"
  counts :: "(string \<times> int) list"
  flags :: "string list"
  act_fetched_ms :: int
  act_source_kind :: string

definition mk_activity_day :: "activity_day \<Rightarrow> activity_day res" where
  "mk_activity_day a = rbind (sorted_pairs (counts a)) (\<lambda>cs. validated
     (date_ok (act_date_utc a) \<and> store_principal_ok (act_principal a) \<and>
      list_all (\<lambda>(k, v). activity_key_ok k \<and> count_ok v) cs \<and>
      list_all (one_of ACTIVITY_FLAGS) (flags a) \<and> distinct (flags a) \<and> count_ok (act_fetched_ms a))
     (a\<lparr>counts := cs, flags := sort (flags a)\<rparr>))"

record config_snapshot =
  snapshot_ms :: int
  cfg_source_kind :: string
  cfg_kind :: string
  entity_id :: string
  cfg_attrs :: "(string \<times> attr) list"
  cfg_fetched_ms :: int

definition config_attr_ok :: "string list \<Rightarrow> string \<times> attr \<Rightarrow> bool" where
  "config_attr_ok allowed kv = (case kv of (k, v) \<Rightarrow>
     prefixed_key_ok (\<lambda>_. True) allowed k \<and>
     (case v of AInt i \<Rightarrow> - INT64 \<le> i \<and> i \<le> INT64 | AStr s \<Rightarrow> \<not> store_principal_ok s | _ \<Rightarrow> True))"

definition mk_config_snapshot :: "config_snapshot \<Rightarrow> config_snapshot res" where
  "mk_config_snapshot c = rbind (sorted_pairs (cfg_attrs c)) (\<lambda>as. validated
     (count_ok (snapshot_ms c) \<and> snapshot_ms c \<le> MAX_DATE_MS \<and>
      one_of CONFIG_SOURCE_KINDS (cfg_source_kind c) \<and> entity_id_ok (entity_id c) \<and>
      (case map_of CONFIG_KEYS (cfg_kind c) of
         None \<Rightarrow> False | Some allowed \<Rightarrow> list_all (config_attr_ok allowed) as) \<and>
      count_ok (cfg_fetched_ms c)) (c\<lparr>cfg_attrs := as\<rparr>))"

definition esc_char :: "char \<Rightarrow> string" where
  "esc_char c = (if c = CHR 0x5C then [CHR 0x5C, CHR 0x5C]
                 else if c = CHR 0x1F then [CHR 0x5C, CHR ''x'', CHR ''1'', CHR ''f'']
                 else [c])"

definition escape :: "string \<Rightarrow> string" where
  "escape s = concat (map esc_char s)"

definition key_part :: "attr \<Rightarrow> string" where
  "key_part v = (case v of
      ANone \<Rightarrow> '''' | ABool b \<Rightarrow> (if b then ''true'' else ''false'')
    | AInt i \<Rightarrow> show_int i | AStr s \<Rightarrow> escape s)"

definition utc_date_of_ms :: "int \<Rightarrow> string" where
  "utc_date_of_ms ms = (case date_of_days (ms div 86400000) of Some d \<Rightarrow> d | None \<Rightarrow> '''')"

datatype ext_record = ExtLicense license_snapshot | ExtActivity activity_day | ExtConfig config_snapshot

definition opt_attr :: "string option \<Rightarrow> attr" where
  "opt_attr o' = (case o' of None \<Rightarrow> ANone | Some s \<Rightarrow> AStr s)"

definition record_key :: "ext_record \<Rightarrow> string" where
  "record_key rec = join [CHR 0x1F] (case rec of
      ExtLicense l \<Rightarrow> [snapshot_date l, key_part (AStr (lic_product l)), lic_principal l, key_part (opt_attr (lic_org l))]
    | ExtActivity a \<Rightarrow> [act_date_utc a, key_part (AStr (act_product a)), act_principal a]
    | ExtConfig c \<Rightarrow> [cfg_kind c, key_part (AStr (entity_id c)), utc_date_of_ms (snapshot_ms c)] @
        (if cfg_kind c \<in> set COUNT_CONFIG_KINDS
         then map (\<lambda>(k, v). k @ ''='' @ key_part v) (filter (\<lambda>(k, v). k \<notin> set COUNT_ATTRS) (cfg_attrs c))
         else []))"

definition valid_usage :: "usage_buckets \<Rightarrow> bool" where
  "valid_usage u = (mk_usage u = Inr u)"

definition wit_usage :: usage_buckets where
  "wit_usage = \<lparr>uncached_input = 10, cache_read = 20, cache_write_5m = 3, cache_write_1h = 0,
     cache_write_other = 0, cache_write_other_ttl_s = None, cache_write_unknown = 4, u_output = 5,
     output_reasoning = Some 2, web_search_requests = 1, web_fetch_requests = 0\<rparr>"

definition wit_lane :: lane where
  "wit_lane = \<lparr>lane_key = ''l'', lane_session_key = ''s'', lane_kind = LkMain, parent_lane_key = None,
     cache_scope_key = ''unknown'', requests = [],
     events = [\<lparr>ev_lane_key = ''l'', ev_ts_ms = 7, ev_kind = EvClear, ev_attrs = []\<rparr>,
               \<lparr>ev_lane_key = ''l'', ev_ts_ms = 3, ev_kind = EvHumanPrompt, ev_attrs = []\<rparr>],
     ttl_observed = ''5m'', lane_exact = True\<rparr>"

definition wit_lane_sorted :: lane where
  "wit_lane_sorted = wit_lane\<lparr>events := rev (events wit_lane)\<rparr>"

definition wit_license :: license_snapshot where
  "wit_license = \<lparr>snapshot_date = ''2026-09-01'', lic_product = ''github_copilot'', lic_plan = ''business'',
     lic_principal = ''p_0123456789abcdef0123'', lic_team = None, lic_cost_center = None, lic_org = None,
     seat_created = None, pending_cancellation = None, last_activity_bucket = ''0-7'',
     last_activity_surface = Some ''cli'', last_authenticated_bucket = ''unknown'', assigned_via_team = None,
     lic_fetched_ms = 5, lic_source_kind = ''github.copilot_seats''\<rparr>"

definition wit_license2 :: license_snapshot where
  "wit_license2 = wit_license\<lparr>lic_org := Some '''', lic_plan := ''enterprise''\<rparr>"

definition wit_activity :: activity_day where
  "wit_activity = \<lparr>act_date_utc = ''2026-09-01'', act_product = ''github_copilot'',
     act_principal = ''p_0123456789abcdef0123'', act_team = None, act_cost_center = None,
     act_reported_cost_nano = Some 125000000, counts = [(''interactions'', 3)], flags = [''used_chat''],
     act_fetched_ms = 5, act_source_kind = ''github.copilot_metrics''\<rparr>"

definition wit_activity2 :: activity_day where
  "wit_activity2 = wit_activity\<lparr>flags := [], act_fetched_ms := 9\<rparr>"

definition wit_config :: "attr \<Rightarrow> config_snapshot" where
  "wit_config v = \<lparr>snapshot_ms = 0, cfg_source_kind = ''github.budgets'', cfg_kind = ''seat_counts'',
     entity_id = ''run'', cfg_attrs = [(''n'', AInt 4), (''team'', v)], cfg_fetched_ms = 0\<rparr>"

section \<open>Lemmas\<close>

lemma validated_eq [simp]: "validated ok r = Inr r' \<longleftrightarrow> ok \<and> r' = r"
  by (auto simp: validated_def)

lemma count_ok_iff: "count_ok v \<longleftrightarrow> 0 \<le> v \<and> v \<le> MAX_TOKENS"
  by (simp add: count_ok_def)

lemma valid_usage_iff:
  "valid_usage u \<longleftrightarrow>
     list_all count_ok [uncached_input u, cache_read u, cache_write_5m u, cache_write_1h u,
        cache_write_other u, cache_write_unknown u, u_output u, web_search_requests u,
        web_fetch_requests u] \<and>
      opt_ok (\<lambda>r. count_ok r \<and> r \<le> u_output u) (output_reasoning u) \<and>
      opt_ok (\<lambda>t. 0 < t \<and> t \<le> MAX_TOKENS) (cache_write_other_ttl_s u) \<and>
      (cache_write_other u > 0 \<longrightarrow> cache_write_other_ttl_s u \<noteq> None)"
  unfolding valid_usage_def mk_usage_def by simp

lemma valid_usage_nonneg:
  assumes "valid_usage u"
  shows "0 \<le> uncached_input u" "0 \<le> cache_read u" "0 \<le> cache_write_5m u" "0 \<le> cache_write_1h u"
    "0 \<le> cache_write_other u" "0 \<le> cache_write_unknown u" "0 \<le> u_output u" "0 \<le> web_search_requests u"
  using assms by (simp_all add: valid_usage_iff count_ok_iff)

lemma add_usage_sums:
  assumes "add_usage a b = Inr c"
  shows "valid_usage c" "total_input c = total_input a + total_input b" "u_output c = u_output a + u_output b"
  using assms unfolding valid_usage_def
  by (auto simp: add_usage_def mk_usage_def total_input_def cache_write_def rbind_eq_Inr)

text \<open>Adding two valid usages whose sums stay within the count range and whose write TTLs agree succeeds;
  the result is valid and its input and output totals are the sums of the operands' totals.\<close>

theorem add_usage_total:
  assumes "valid_usage a" "valid_usage b"
    and "total_input a + total_input b \<le> MAX_TOKENS" "u_output a + u_output b \<le> MAX_TOKENS"
    and "web_search_requests a + web_search_requests b \<le> MAX_TOKENS"
    and "web_fetch_requests a + web_fetch_requests b \<le> MAX_TOKENS"
    and "cache_write_other_ttl_s a = None \<or> cache_write_other_ttl_s b = None \<or>
         cache_write_other_ttl_s a = cache_write_other_ttl_s b"
  shows "\<exists>c. add_usage a b = Inr c \<and> valid_usage c \<and> total_input c = total_input a + total_input b \<and>
             u_output c = u_output a + u_output b"
proof -
  have "\<exists>c. add_usage a b = Inr c"
    using assms
    by (cases "output_reasoning a"; cases "output_reasoning b";
        cases "cache_write_other_ttl_s a"; cases "cache_write_other_ttl_s b")
      (simp_all add: add_usage_def mk_usage_def valid_usage_iff count_ok_iff opt_ok_def total_input_def cache_write_def)
  then show ?thesis using add_usage_sums by blast
qed

theorem add_usage_total_witness:
  "\<exists>c. add_usage wit_usage wit_usage = Inr c \<and> valid_usage c \<and>
       total_input c = total_input wit_usage + total_input wit_usage \<and>
       u_output c = u_output wit_usage + u_output wit_usage"
  by (rule add_usage_total)
    (simp_all add: valid_usage_iff wit_usage_def count_ok_iff MAX_TOKENS_def opt_ok_def total_input_def cache_write_def)

lemma sort_if_unsorted: "(if sorted (map f xs) then xs else sort_key f xs) = sort_key f xs"
  by (simp add: sorted_sort_id sort_key_id_if_sorted)

text \<open>A lane that is accepted holds its requests in the order of start time, then sequence number, then
  id, and they are exactly the requests it was given, all carrying the lane's key.\<close>

theorem lane_orders_requests:
  assumes "mk_lane l = Inr l'"
  shows "sorted (map request_sort_key (requests l')) \<and> mset (requests l') = mset (requests l) \<and>
    sorted (map event_sort_key (events l')) \<and> mset (events l') = mset (events l) \<and>
    (\<forall>r \<in> set (requests l'). req_lane_key r = lane_key l')"
  using assms unfolding mk_lane_def by (auto simp: list_all_iff)

lemma wit_lane_sorts: "mk_lane wit_lane = Inr wit_lane_sorted"
  by (simp add: mk_lane_def wit_lane_def wit_lane_sorted_def one_of_def event_sort_key_def less_eq_prod_def less_prod_def)

theorem lane_orders_requests_witness:
  "sorted (map request_sort_key (requests wit_lane_sorted)) \<and>
    mset (requests wit_lane_sorted) = mset (requests wit_lane) \<and>
    sorted (map event_sort_key (events wit_lane_sorted)) \<and>
    mset (events wit_lane_sorted) = mset (events wit_lane)"
  using lane_orders_requests [OF wit_lane_sorts] by blast

subsection \<open>Natural keys\<close>

lemma join_split:
  assumes "sep \<notin> set p" "sep \<notin> set q" "p @ sep # u = q @ sep # v"
  shows "p = q \<and> u = v"
  using assms
proof (induction p arbitrary: q)
  case Nil
  then show ?case by (cases q) auto
next
  case (Cons c p)
  then show ?case by (cases q) auto
qed

text \<open>Joining by a character that occurs in no part loses nothing.\<close>

lemma join_inj:
  assumes "\<forall>p \<in> set ps. sep \<notin> set p" "\<forall>q \<in> set qs. sep \<notin> set q" "ps \<noteq> []" "qs \<noteq> []"
    and "join [sep] ps = join [sep] qs"
  shows "ps = qs"
  using assms
proof (induction ps arbitrary: qs)
  case (Cons p ps)
  obtain q qs' where qs: "qs = q # qs'" using Cons.prems(4) by (cases qs) auto
  have nz: "sep \<notin> set p" "sep \<notin> set q" using Cons.prems qs by auto
  have no: "sep \<in> set (join [sep] (x # xs))" if "xs \<noteq> []" for x xs using that by (cases xs) auto
  show ?case
  proof (cases "ps = []")
    case True
    then have "qs' = []" using Cons.prems(5) qs nz no [of qs' q] by (cases qs') auto
    with True Cons.prems(5) qs show ?thesis by simp
  next
    case False
    then have q': "qs' \<noteq> []" using Cons.prems(5) qs nz no [of ps p] by (cases ps; cases qs') auto
    have "p @ sep # join [sep] ps = q @ sep # join [sep] qs'"
      using Cons.prems(5) qs False q' by (cases ps; cases qs') auto
    from join_split [OF nz this] have "p = q" "join [sep] ps = join [sep] qs'" by auto
    moreover from this(2) have "ps = qs'"
      using Cons.prems(1,2) qs False q' by (intro Cons.IH) auto
    ultimately show ?thesis using qs by simp
  qed
qed simp

lemma esc_char_cases:
  "esc_char c = [c] \<and> c \<noteq> CHR 0x5C \<and> c \<noteq> CHR 0x1F \<or>
   (\<exists>d ds. esc_char c = CHR 0x5C # d # ds \<and>
      (d = CHR 0x5C \<and> ds = [] \<and> c = CHR 0x5C \<or>
       d = CHR ''x'' \<and> ds = ''1f'' \<and> c = CHR 0x1F))"
  by (auto simp: esc_char_def)

lemma escape_inj: "escape s = escape t \<Longrightarrow> s = t"
proof (induction s arbitrary: t)
  case Nil
  then show ?case by (cases t) (auto simp: escape_def esc_char_def split: if_splits)
next
  case (Cons c s)
  obtain d t' where t: "t = d # t'"
    using Cons.prems by (cases t) (auto simp: escape_def esc_char_def split: if_splits)
  have "esc_char c @ escape s = esc_char d @ escape t'" using Cons.prems t by (simp add: escape_def)
  then have "c = d \<and> escape s = escape t'"
    using esc_char_cases [of c] esc_char_cases [of d] by auto
  then show ?case using Cons.IH t by simp
qed

lemma escape_no_sep: "CHR 0x1F \<notin> set (escape s)"
  by (auto simp: escape_def esc_char_def split: if_splits)

lemma sep_not_digit: "\<not> is_digit (CHR 0x1F)" "\<not> is_hex (CHR 0x1F)"
  by (simp_all add: is_digit_iff is_hex_def)

lemma tagged_hex_no_sep: "tagged_hex t s \<Longrightarrow> t \<noteq> CHR 0x1F \<Longrightarrow> CHR 0x1F \<notin> set s"
proof -
  assume h: "tagged_hex t s" and t: "t \<noteq> CHR 0x1F"
  then obtain a b r where s: "s = a # b # r" by (cases s; cases "tl s") (auto simp: tagged_hex_def)
  with h t show "CHR 0x1F \<notin> set s"
    using sep_not_digit(2) by (auto simp: tagged_hex_def list_all_iff)
qed

lemma date_no_sep: "date_ok s \<Longrightarrow> CHR 0x1F \<notin> set s"
proof -
  assume d: "date_ok s"
  then have "length s = Suc (Suc (Suc (Suc (Suc (Suc (Suc (Suc (Suc (Suc 0)))))))))" by (simp add: date_ok_def)
  then obtain a b c e f g h i j k where s: "s = [a, b, c, e, f, g, h, i, j, k]"
    by (auto simp only: length_Suc_conv length_0_conv)
  show ?thesis using d sep_not_digit(1) unfolding s date_ok_def by (auto simp: numeral_nat)
qed

text \<open>The natural key of a stored seat determines it: two accepted seat snapshots with one key agree on
  snapshot date, product, principal and organisation (an absent organisation and an empty one are the same).\<close>

theorem license_key_determines:
  assumes "mk_license_snapshot a = Inr a" "mk_license_snapshot b = Inr b"
    and "record_key (ExtLicense a) = record_key (ExtLicense b)"
  shows "snapshot_date a = snapshot_date b \<and> lic_product a = lic_product b \<and>
    lic_principal a = lic_principal b \<and> key_part (opt_attr (lic_org a)) = key_part (opt_attr (lic_org b))"
proof -
  let ?ps = "\<lambda>l. [snapshot_date l, key_part (AStr (lic_product l)), lic_principal l, key_part (opt_attr (lic_org l))]"
  have ns: "\<forall>p \<in> set (?ps l). CHR 0x1F \<notin> set p" if "mk_license_snapshot l = Inr l" for l
    using that date_no_sep [of "snapshot_date l"] tagged_hex_no_sep [of "CHR ''p''" "lic_principal l"] escape_no_sep
    by (auto simp: mk_license_snapshot_def store_principal_ok_def key_part_def opt_attr_def split: option.splits)
  have "?ps a = ?ps b"
    using assms(3) by (intro join_inj [OF ns [OF assms(1)] ns [OF assms(2)]]) (simp_all add: record_key_def)
  then show ?thesis using escape_inj by (simp add: key_part_def)
qed

text \<open>The natural key of a stored activity row determines its day, product and principal.\<close>

theorem activity_key_determines:
  assumes "mk_activity_day a = Inr a" "mk_activity_day b = Inr b"
    and "record_key (ExtActivity a) = record_key (ExtActivity b)"
  shows "act_date_utc a = act_date_utc b \<and> act_product a = act_product b \<and> act_principal a = act_principal b"
proof -
  let ?ps = "\<lambda>l. [act_date_utc l, key_part (AStr (act_product l)), act_principal l]"
  have ns: "\<forall>p \<in> set (?ps l). CHR 0x1F \<notin> set p" if "mk_activity_day l = Inr l" for l
    using that date_no_sep [of "act_date_utc l"] tagged_hex_no_sep [of "CHR ''p''" "act_principal l"] escape_no_sep
    by (auto simp: mk_activity_day_def rbind_eq_Inr store_principal_ok_def key_part_def)
  have "?ps a = ?ps b"
    using assms(3) by (intro join_inj [OF ns [OF assms(1)] ns [OF assms(2)]]) (simp_all add: record_key_def)
  then show ?thesis using escape_inj by (simp add: key_part_def)
qed

lemmas eval_records = one_of_def opt_ok_def count_ok_def MAX_TOKENS_def date_ok_def store_principal_ok_def
  tagged_hex_def is_hex_def is_digit_iff numeral_nat startswith_def

lemma wit_licenses: "mk_license_snapshot wit_license = Inr wit_license"
  "mk_license_snapshot wit_license2 = Inr wit_license2"
  by (simp_all add: mk_license_snapshot_def wit_license_def wit_license2_def eval_records LICENSE_PLANS_def
      LICENSE_BUCKETS_def EDITOR_FAMILIES_def LICENSE_SOURCE_KINDS_def)

theorem license_key_determines_witness:
  "snapshot_date wit_license = snapshot_date wit_license2 \<and> lic_product wit_license = lic_product wit_license2 \<and>
    lic_principal wit_license = lic_principal wit_license2 \<and>
    key_part (opt_attr (lic_org wit_license)) = key_part (opt_attr (lic_org wit_license2))"
  by (rule license_key_determines [OF wit_licenses])
    (simp add: record_key_def wit_license_def wit_license2_def key_part_def opt_attr_def escape_def)

lemma wit_activities: "mk_activity_day wit_activity = Inr wit_activity" "mk_activity_day wit_activity2 = Inr wit_activity2"
  by (simp_all add: mk_activity_day_def wit_activity_def wit_activity2_def eval_records ACTIVITY_FLAGS_def
      sorted_pairs_def activity_key_ok_def prefixed_key_ok_def ACTIVITY_KEYS_def ACTIVITY_KEY_PREFIXES_def)

theorem activity_key_determines_witness:
  "act_date_utc wit_activity = act_date_utc wit_activity2 \<and> act_product wit_activity = act_product wit_activity2 \<and>
    act_principal wit_activity = act_principal wit_activity2"
  by (rule activity_key_determines [OF wit_activities])
    (simp add: record_key_def wit_activity_def wit_activity2_def)

text \<open>The natural key of a count row is not injective: two accepted rows that differ in an attribute value,
  the flag \<open>True\<close> against the text \<open>"true"\<close>, have one key, so one overwrites the other.\<close>

theorem count_rows_share_key:
  "\<exists>a b. mk_config_snapshot a = Inr a \<and> mk_config_snapshot b = Inr b \<and> cfg_attrs a \<noteq> cfg_attrs b \<and>
     record_key (ExtConfig a) = record_key (ExtConfig b)"
proof (intro exI conjI)
  show "mk_config_snapshot (wit_config (ABool True)) = Inr (wit_config (ABool True))"
    "mk_config_snapshot (wit_config (AStr ''true'')) = Inr (wit_config (AStr ''true''))"
    by (simp_all add: mk_config_snapshot_def wit_config_def eval_records sorted_pairs_def MAX_DATE_MS_def
        CONFIG_SOURCE_KINDS_def CONFIG_KEYS_def entity_id_ok_def config_attr_ok_def prefixed_key_ok_def INT64_def)
  show "cfg_attrs (wit_config (ABool True)) \<noteq> cfg_attrs (wit_config (AStr ''true''))"
    by (simp add: wit_config_def)
  show "record_key (ExtConfig (wit_config (ABool True))) = record_key (ExtConfig (wit_config (AStr ''true'')))"
    by (simp add: record_key_def wit_config_def key_part_def escape_def esc_char_def COUNT_CONFIG_KINDS_def)
qed

end
