(* ===== verification/Models.thy ===== *)
theory Models
  imports Prelude
begin

text \<open>
  \<open>tokenbill/core/models.py\<close>: normalisation of reported model ids. The regular expressions are
  written out as functions on Latin-1 strings, in the order the code applies them. The lemmas show
  which results name no priceable model and that a normalised Copilot id has no doubled dash.
\<close>

section \<open>Character classes and patterns\<close>

definition code_in :: "char \<Rightarrow> nat \<Rightarrow> nat \<Rightarrow> bool" where
  "code_in c a b = (a \<le> (of_char c :: nat) \<and> (of_char c :: nat) \<le> b)"

definition az :: "char \<Rightarrow> bool" where "az c = code_in c 97 122"

definition model_char :: "char \<Rightarrow> bool" where
  "model_char c = (az c \<or> code_in c 65 90 \<or> is_digit c \<or> c = CHR ''.'' \<or> c = CHR ''-'')"

definition CONFIG_ALIASES :: "string list" where
  "CONFIG_ALIASES = [''opus'', ''sonnet'', ''haiku'', ''fable'', ''opusplan'', ''default'']"

record model_id =
  mid_model :: string
  channel_hint :: "string option"
  mid_endpoint_scope :: string
  mid_reason :: "string option"

definition not_priceable :: "string \<Rightarrow> model_id" where
  "not_priceable reason =
     \<lparr>mid_model = '''', channel_hint = None, mid_endpoint_scope = ''unknown'', mid_reason = Some reason\<rparr>"

text \<open>\<open>_ONE_M_RE.sub("", raw)\<close>.\<close>

definition drop_one_m :: "string \<Rightarrow> string" where
  "drop_one_m s = (if endswith (map lower s) ''[1m]'' then take (length s - 4) s else s)"

text \<open>The text after the first occurrence of a character, if there is one.\<close>

definition after_char :: "char \<Rightarrow> string \<Rightarrow> string option" where
  "after_char c s = (case dropWhile (\<lambda>x. x \<noteq> c) s of [] \<Rightarrow> None | _ # r \<Rightarrow> Some r)"

text \<open>\<open>_BEDROCK_ARN_RE.sub("", model)\<close>: drop \<open>arn:aws...:bedrock:<region>:<account>:<kind>/\<close>.\<close>

definition drop_bedrock_arn :: "string \<Rightarrow> string" where
  "drop_bedrock_arn s =
     (if startswith s ''arn:aws'' then
        let r = dropWhile (\<lambda>c. az c \<or> c = CHR ''-'') (drop 7 s)
        in if startswith r '':bedrock:'' then
             (case Option.bind (after_char (CHR '':'') (drop 9 r)) (after_char (CHR '':'')) of
                None \<Rightarrow> s
              | Some k \<Rightarrow> if startswith k ''foundation-model/'' then drop 17 k
                         else if startswith k ''inference-profile/'' then drop 18 k else s)
           else s
      else s)"

text \<open>\<open>-v<digits>[:<digits>]\<close> up to the end, or nothing.\<close>

definition version_suffix :: "string \<Rightarrow> bool" where
  "version_suffix s = (s = '''' \<or>
     (startswith s ''-v'' \<and>
      (let d = takeWhile is_digit (drop 2 s); r = dropWhile is_digit (drop 2 s)
       in d \<noteq> '''' \<and> (r = '''' \<or> (hd r = CHR '':'' \<and> tl r \<noteq> '''' \<and> list_all is_digit (tl r))))))"

text \<open>The lazy group \<open>[A-Za-z0-9.-]+?\<close>: the shortest prefix whose rest is a version suffix.\<close>

definition bedrock_model :: "string \<Rightarrow> string option" where
  "bedrock_model s = map_option (\<lambda>n. take n s)
     (List.find (\<lambda>n. list_all model_char (take n s) \<and> version_suffix (drop n s)) [1..<Suc (length s)])"

definition geo_ok :: "string \<Rightarrow> bool" where
  "geo_ok g = (let h = takeWhile az g; r = dropWhile az g
     in 2 \<le> length h \<and> length h \<le> 8 \<and>
        (r = '''' \<or> (hd r = CHR ''-'' \<and> tl r \<noteq> '''' \<and> list_all az (tl r))))"

text \<open>\<open>_BEDROCK_RE.match\<close>: the geography, if any, and the model.\<close>

definition bedrock_match :: "string \<Rightarrow> (string option \<times> string) option" where
  "bedrock_match s =
     (if startswith s ''anthropic.'' then map_option (\<lambda>m. (None, m)) (bedrock_model (drop 10 s))
      else let g = takeWhile (\<lambda>c. c \<noteq> CHR ''.'') s; r = drop (Suc (length g)) s
       in if length g < length s \<and> geo_ok g \<and> startswith r ''anthropic.''
          then map_option (\<lambda>m. (Some g, m)) (bedrock_model (drop 10 r)) else None)"

text \<open>\<open>_VERTEX_PATH_RE.sub("", model)\<close>: the longest path prefix that ends in the publisher path.\<close>

definition VERTEX_PATH :: string where "VERTEX_PATH = ''publishers/anthropic/models/''"

definition drop_vertex_path :: "string \<Rightarrow> string" where
  "drop_vertex_path s =
     (case List.find (\<lambda>i. startswith (drop i s) VERTEX_PATH \<and>
               (i = 0 \<or> (s ! (i - 1) = CHR ''/'' \<and> CHR 0x0A \<notin> set (take i s)))) (rev [0..<Suc (length s)]) of
        None \<Rightarrow> s | Some i \<Rightarrow> drop (i + length VERTEX_PATH) s)"

definition vertex_match :: "string \<Rightarrow> string option" where
  "vertex_match s =
     (let m = takeWhile (\<lambda>c. c \<noteq> CHR ''@'') s; r = drop (Suc (length m)) s
      in if length m < length s \<and> m \<noteq> '''' \<and> list_all model_char m \<and>
            (r = ''latest'' \<or> (length r = 8 \<and> list_all is_digit r)) then Some m else None)"

definition drop_snapshot :: "string \<Rightarrow> string" where
  "drop_snapshot s = (let k = length s - 9
     in if 9 \<le> length s \<and> s ! k = CHR ''-'' \<and> list_all is_digit (drop (Suc k) s) then take k s else s)"

section \<open>GitHub Copilot labels\<close>

record copilot_model =
  cm_model :: string
  cm_routing :: string
  cm_speed :: string
  cm_pseudo :: "string option"
  suffix_stripped :: "string option"

definition copilot_pseudo :: "string \<Rightarrow> string \<Rightarrow> copilot_model" where
  "copilot_pseudo rt ps =
     \<lparr>cm_model = '''', cm_routing = rt, cm_speed = ''standard'', cm_pseudo = Some ps, suffix_stripped = None\<rparr>"

text \<open>\<open>_AUTO_PREFIX_RE.match\<close>: the text after \<open>auto :\<close>.\<close>

definition after_auto :: "string \<Rightarrow> string option" where
  "after_auto s =
     (if startswith (map lower s) ''auto'' then
        (case dropWhile is_space (drop 4 s) of
           c # r \<Rightarrow> if c = CHR '':'' then Some (dropWhile is_space r) else None | [] \<Rightarrow> None)
      else None)"

fun drop_footnotes :: "nat \<Rightarrow> string \<Rightarrow> string" where
  "drop_footnotes 0 s = s"
| "drop_footnotes (Suc n) s = (case s of
      [] \<Rightarrow> []
    | c # cs \<Rightarrow>
        (let r = dropWhile (\<lambda>x. x \<noteq> CHR '']'') (drop 2 s)
         in if startswith s ''[^'' \<and> r \<noteq> [] then drop_footnotes n (tl r) else c # drop_footnotes n cs))"

text \<open>\<open>re.sub(r"\s*" + text, "", s)\<close> for a parenthesised text, ignoring case.\<close>

fun drop_marker :: "nat \<Rightarrow> string \<Rightarrow> string \<Rightarrow> string" where
  "drop_marker 0 mk s = s"
| "drop_marker (Suc n) mk s = (case s of
      [] \<Rightarrow> []
    | c # cs \<Rightarrow>
        (let r = dropWhile is_space s
         in if startswith (map lower r) mk then drop_marker n mk (drop (length mk) r)
            else c # drop_marker n mk cs))"

definition COPILOT_SUFFIXES :: "string list" where
  "COPILOT_SUFFIXES = [''-1m-internal'', ''-1m'', ''-internal'']"

definition CLOUD_AGENT_MARKERS :: "string list" where
  "CLOUD_AGENT_MARKERS = [''coding agent'', ''padawan'', ''cloud agent'']"

text \<open>\<open>s.replace("--", "-")\<close> and the loop that repeats it.\<close>

fun replace_dashes :: "string \<Rightarrow> string" where
  "replace_dashes (a # b # cs) =
     (if a = CHR ''-'' \<and> b = CHR ''-'' then CHR ''-'' # replace_dashes cs else a # replace_dashes (b # cs))"
| "replace_dashes s = s"

lemma replace_dashes_le: "length (replace_dashes s) \<le> length s"
  by (induction s rule: replace_dashes.induct) auto

lemma replace_dashes_less: "contains s ''--'' \<Longrightarrow> length (replace_dashes s) < length s"
proof (induction s rule: replace_dashes.induct)
  case (1 a b cs)
  then show ?case using replace_dashes_le [of cs] by (cases "a = CHR ''-'' \<and> b = CHR ''-''") auto
qed auto

function collapse_dashes :: "string \<Rightarrow> string" where
  "collapse_dashes s = (if contains s ''--'' then collapse_dashes (replace_dashes s) else s)"
  by pat_completeness auto
termination
  by (relation "measure length") (auto intro: replace_dashes_less)

declare collapse_dashes.simps [simp del]

text \<open>Every run of dashes reduced to one, in a single pass.\<close>

fun squeeze :: "string \<Rightarrow> string" where
  "squeeze (a # b # cs) = (if a = CHR ''-'' \<and> b = CHR ''-'' then squeeze (b # cs) else a # squeeze (b # cs))"
| "squeeze s = s"

definition strip_copilot_suffix :: "string \<Rightarrow> string option \<times> string" where
  "strip_copilot_suffix m =
     (case List.find (\<lambda>c. endswith m c \<and> length c < length m) COPILOT_SUFFIXES of
        None \<Rightarrow> (None, m) | Some c \<Rightarrow> (Some c, take (length m - length c) m))"

definition normalize_copilot_model :: "string \<Rightarrow> copilot_model" where
  "normalize_copilot_model model_raw =
     (let text0 = strip model_raw;
          rt = (case after_auto text0 of None \<Rightarrow> ''direct'' | Some _ \<Rightarrow> ''auto'');
          text = (case after_auto text0 of None \<Rightarrow> text0 | Some t \<Rightarrow> strip t);
          low = map lower text
      in if low = ''auto'' \<or> (rt = ''auto'' \<and> low = '''') then copilot_pseudo ''auto'' ''auto_unattributed''
         else if low = ''unknown'' \<or> low = ''others''
           then copilot_pseudo (if rt = ''direct'' then ''unknown'' else rt) ''unknown''
         else if contains low ''code review'' then copilot_pseudo rt ''code_review''
         else if list_ex (contains low) CLOUD_AGENT_MARKERS then copilot_pseudo rt ''cloud_agent''
         else
          let t1 = filter (\<lambda>c. c \<noteq> CHR 0x27 \<and> c \<noteq> CHR 0x22) (drop_footnotes (length text) text);
              t2 = drop_marker (length t1) ''(fast mode)'' t1;
              sp = (if t2 \<noteq> t1 then ''fast'' else ''standard'');
              t3 = drop_marker (length t2) ''(preview)'' t2;
              m0 = join ''-'' (words (map lower (strip t3)));
              m1 = (if startswith m0 ''claude-'' then map (\<lambda>c. if c = CHR ''.'' then CHR ''-'' else c) m0 else m0)
          in case strip_copilot_suffix m1 of (sf, m2) \<Rightarrow>
             \<lparr>cm_model = collapse_dashes m2, cm_routing = rt, cm_speed = sp, cm_pseudo = None,
              suffix_stripped = sf\<rparr>)"

definition normalize_model :: "string \<Rightarrow> string option \<Rightarrow> model_id" where
  "normalize_model model_raw provider_hint =
     (let raw = strip model_raw
      in if raw = '''' then not_priceable ''empty''
         else if provider_hint = Some ''github'' then
           let cm = normalize_copilot_model raw
           in \<lparr>mid_model = cm_model cm, channel_hint = None, mid_endpoint_scope = ''unknown'',
               mid_reason = (if cm_pseudo cm \<noteq> None then Some ''copilot pseudo model''
                             else if cm_model cm \<noteq> '''' then None else Some ''empty'')\<rparr>
         else if raw = ''<synthetic>'' then not_priceable ''synthetic''
         else if map lower raw \<in> set CONFIG_ALIASES then not_priceable ''config alias''
         else
          let m0 = strip (drop_one_m raw)
          in if map lower m0 \<in> set CONFIG_ALIASES then not_priceable ''config alias''
             else if m0 = '''' then not_priceable ''empty''
             else
              let hint0 = (if provider_hint = Some ''bedrock'' \<or> provider_hint = Some ''vertex''
                           then provider_hint else None);
                  r = (case bedrock_match (drop_bedrock_arn m0) of
                         Some (geo, m) \<Rightarrow> (m, Some ''bedrock'', if geo = Some ''global'' then ''global'' else ''regional'')
                       | None \<Rightarrow> (case vertex_match (drop_vertex_path m0) of
                           Some m \<Rightarrow> (m, Some ''vertex'', ''unknown'')
                         | None \<Rightarrow> (m0, hint0, ''unknown'')))
              in case r of (m, hint, sc) \<Rightarrow>
                 let m' = drop_snapshot m
                 in if m' = '''' then not_priceable ''empty''
                    else \<lparr>mid_model = m', channel_hint = hint, mid_endpoint_scope = sc, mid_reason = None\<rparr>)"

definition COPILOT_SERVICE_NAMES :: "string list" where
  "COPILOT_SERVICE_NAMES = [''github-copilot'', ''copilot-chat'']"

definition is_copilot_resource :: "string option \<Rightarrow> string list \<Rightarrow> string list \<Rightarrow> string list \<Rightarrow> bool" where
  "is_copilot_resource service_name scope_names attr_keys extra_service_names =
     (let names = COPILOT_SERVICE_NAMES @
            filter (\<lambda>n. n \<noteq> '''') (map (\<lambda>e. strip (takeWhile (\<lambda>c. c \<noteq> CHR ''='') e)) extra_service_names)
      in (case service_name of Some n \<Rightarrow> n \<in> set names | None \<Rightarrow> False) \<or>
         list_ex (\<lambda>s. startswith s ''github.copilot'') scope_names \<or>
         list_ex (\<lambda>k. startswith k ''github.copilot.'' \<or> startswith k ''copilot_chat.'') attr_keys)"

section \<open>Lemmas\<close>

lemma collapse_dashes_none: "\<not> contains (collapse_dashes s) ''--''"
proof (induction s rule: collapse_dashes.induct)
  case (1 s)
  then show ?case by (cases "contains s ''--''") (simp_all add: collapse_dashes.simps [of s])
qed

lemma copilot_pseudo_empty:
  "cm_pseudo (normalize_copilot_model s) \<noteq> None \<Longrightarrow> cm_model (normalize_copilot_model s) = ''''"
proof -
  have "cm_pseudo (normalize_copilot_model s) = None \<or> cm_model (normalize_copilot_model s) = []"
    unfolding normalize_copilot_model_def Let_def by (simp add: copilot_pseudo_def split: prod.split)
  then show "cm_pseudo (normalize_copilot_model s) \<noteq> None \<Longrightarrow> cm_model (normalize_copilot_model s) = []" by auto
qed

lemma not_priceable_sel [simp]: "mid_model (not_priceable r) = ''''" "mid_reason (not_priceable r) = Some r"
  by (simp_all add: not_priceable_def)

text \<open>A normalised id names a priceable model exactly when no reason is given: for every raw string and
  provider hint, the model is empty if and only if the result carries a reason.\<close>

theorem normalize_model_priceable:
  "mid_model (normalize_model raw hint) = '''' \<longleftrightarrow> mid_reason (normalize_model raw hint) \<noteq> None"
proof (cases "hint = Some ''github''")
  case True
  then show ?thesis using copilot_pseudo_empty [of "strip raw"]
    by (simp add: normalize_model_def Let_def)
next
  case False
  then show ?thesis by (simp add: normalize_model_def Let_def split: option.split prod.split)
qed

lemma copilot_id_collapsed: "\<not> contains (cm_model (normalize_copilot_model raw)) ''--''"
  unfolding normalize_copilot_model_def Let_def
  using collapse_dashes_none by (simp add: copilot_pseudo_def split: prod.split)

lemma squeeze_replace: "squeeze (x # replace_dashes s) = squeeze (x # s)"
  by (induction s arbitrary: x rule: replace_dashes.induct) auto

lemma squeeze_replaced: "squeeze (replace_dashes s) = squeeze s"
  by (induction s rule: replace_dashes.induct) (auto simp: squeeze_replace)

lemma squeeze_no_runs: "\<not> contains s ''--'' \<Longrightarrow> squeeze s = s"
proof (induction s rule: squeeze.induct)
  case (1 a b cs)
  then have "\<not> (a = CHR ''-'' \<and> b = CHR ''-'')" "\<not> contains (b # cs) ''--''" by auto
  with 1 show ?case by auto
qed simp_all

text \<open>C38: The loop that normalises a Copilot label by replacing two dashes with one, all occurrences from the left at
  a time, until none is left, ends for every string, and its result is the string in which every run of dashes has become one
  dash: no other character is changed, moved or lost, and a single dash stays.\<close>

theorem collapse_is_squeeze: "collapse_dashes s = squeeze s"
proof (induction s rule: collapse_dashes.induct)
  case (1 s)
  show ?case
  proof (cases "contains s ''--''")
    case True
    then show ?thesis using 1 by (simp add: collapse_dashes.simps [of s] squeeze_replaced)
  next
    case False
    then show ?thesis by (simp add: collapse_dashes.simps [of s] squeeze_no_runs)
  qed
qed

end
