(* ===== verification/Billing_Rules.thy ===== *)
theory Billing_Rules
  imports Labels
begin

text \<open>
  \<open>tokenbill/rates/billing_rules.py\<close>: which failure modes a provider bills. The rule table is a
  parameter (\<open>rules()\<close> reads a packaged JSON file); \<open>parse_rules\<close> takes the decoded JSON document. The
  lemmas show that a parsed table has one rule per id, that an undocumented failure mode is never
  declared billable or free, and that the refusal rule is chosen by the output count alone.
\<close>

section \<open>Definitions\<close>

record billing_rule =
  rule_id :: string
  rule_provider :: string
  failure_mode :: string
  billed_input :: string
  billed_partial_output :: string
  cache_written :: string
  confidence :: string
  rule_source :: string
  rule_notes :: string
  rule_finding :: "string option"
  rule_verified_on :: "string option"
  rule_params :: "(string \<times> int) list"
  known :: bool

definition rule_billable :: "billing_rule \<Rightarrow> bool option" where
  "rule_billable r =
     (if confidence r \<noteq> ''documented'' then None
      else if billed_input r = ''yes'' \<or> billed_partial_output r = ''yes'' then Some True
      else if billed_input r = ''no'' \<and> billed_partial_output r = ''no'' then Some False
      else None)"

definition rule_param :: "billing_rule \<Rightarrow> string \<Rightarrow> int res" where
  "rule_param r name = (case map_of (rule_params r) name of Some v \<Rightarrow> Inr v | None \<Rightarrow> Inl UsageError)"

text \<open>A JSON object's \<open>get\<close>; a missing key and \<open>null\<close> both read as \<open>None\<close>.\<close>

definition jget :: "(string \<times> json) list \<Rightarrow> string \<Rightarrow> json" where
  "jget r key = (case map_of r key of Some v \<Rightarrow> v | None \<Rightarrow> JNull)"

definition field :: "(string \<times> json) list \<Rightarrow> string \<Rightarrow> string list option \<Rightarrow> string res" where
  "field r key allowed = (case jget r key of
      JStr v \<Rightarrow> if v = '''' \<or> (case allowed of Some vs \<Rightarrow> v \<notin> set vs | None \<Rightarrow> False)
               then Inl PricingError else Inr v
    | _ \<Rightarrow> Inl PricingError)"

definition opt_field :: "(string \<times> json) list \<Rightarrow> string \<Rightarrow> string option res" where
  "opt_field r key = (case jget r key of
      JNull \<Rightarrow> Inr None | _ \<Rightarrow> rbind (field r key None) (\<lambda>v. Inr (Some v)))"

definition name_char :: "char \<Rightarrow> bool" where
  "name_char c = ((97 \<le> (of_char c :: nat) \<and> (of_char c :: nat) \<le> 122) \<or> is_digit c \<or> c = CHR ''_'')"

definition name_ok :: "string \<Rightarrow> bool" where
  "name_ok s = list_all (\<lambda>p. p \<noteq> '''' \<and> list_all name_char p) (split_on (CHR ''.'') s)"

definition rule_date_ok :: "string \<Rightarrow> bool" where
  "rule_date_ok s = (length s = 10 \<and> list_all is_digit (take 4 s) \<and> s ! 4 = CHR ''-'' \<and>
     list_all is_digit (take 2 (drop 5 s)) \<and> s ! 7 = CHR ''-'' \<and> list_all is_digit (drop 8 s))"

definition BILLED :: "string list" where "BILLED = [''yes'', ''no'', ''unknown'']"
definition CONFIDENCES :: "string list" where "CONFIDENCES = [''documented'', ''assumed'', ''unknown'']"

fun param_pair :: "string \<times> json \<Rightarrow> (string \<times> int) res" where
  "param_pair (k, JInt v) = (if v < 0 then Inl PricingError else Inr (k, v))"
| "param_pair _ = Inl PricingError"

text \<open>\<open>params = r.get("params") or {}\<close>: absent, null and falsy values are the empty object.\<close>

definition rule_params_of :: "json \<Rightarrow> (string \<times> int) list res" where
  "rule_params_of j = (case j of
      JObj kvs \<Rightarrow> rbind (rmap param_pair kvs) (\<lambda>ps. Inr (sort ps))
    | JNull \<Rightarrow> Inr [] | JBool b \<Rightarrow> if b then Inl PricingError else Inr []
    | JInt i \<Rightarrow> if i = 0 then Inr [] else Inl PricingError
    | JStr s \<Rightarrow> if s = '''' then Inr [] else Inl PricingError
    | JList xs \<Rightarrow> if xs = [] then Inr [] else Inl PricingError)"

definition parse_rule :: "(string \<times> json) list \<Rightarrow> billing_rule res" where
  "parse_rule r =
     rbind (field r ''rule_id'' None) (\<lambda>rid. rbind (field r ''provider'' None) (\<lambda>prov.
     rbind (field r ''failure_mode'' None) (\<lambda>mode.
     rbind (guard (rid = prov @ ''.'' @ mode \<and> name_ok rid) PricingError) (\<lambda>_.
     rbind (rule_params_of (jget r ''params'')) (\<lambda>ps.
     rbind (opt_field r ''verified_on'') (\<lambda>ver.
     rbind (guard (case ver of None \<Rightarrow> True | Some d \<Rightarrow> rule_date_ok d) PricingError) (\<lambda>_.
     rbind (case map_of r ''notes'' of None \<Rightarrow> Inr '''' | Some (JStr s) \<Rightarrow> Inr s | _ \<Rightarrow> Inl PricingError) (\<lambda>nts.
     rbind (field r ''billed_input'' (Some BILLED)) (\<lambda>bi.
     rbind (field r ''billed_partial_output'' (Some BILLED)) (\<lambda>bo.
     rbind (field r ''cache_written'' (Some BILLED)) (\<lambda>cw.
     rbind (field r ''confidence'' (Some CONFIDENCES)) (\<lambda>cf.
     rbind (field r ''source'' None) (\<lambda>src.
     rbind (opt_field r ''finding'') (\<lambda>fnd.
     Inr \<lparr>rule_id = rid, rule_provider = prov, failure_mode = mode, billed_input = bi,
        billed_partial_output = bo, cache_written = cw, confidence = cf, rule_source = src,
        rule_notes = nts, rule_finding = fnd, rule_verified_on = ver, rule_params = ps,
        known = True\<rparr>))))))))))))))"

definition add_rule :: "(string, billing_rule) dict \<Rightarrow> json \<Rightarrow> (string, billing_rule) dict res" where
  "add_rule out r = (case r of
      JObj kvs \<Rightarrow> rbind (parse_rule kvs) (\<lambda>b.
        if map_of out (rule_id b) \<noteq> None then Inl PricingError else Inr (dset (rule_id b) b out))
    | _ \<Rightarrow> Inl PricingError)"

definition parse_rules :: "json \<Rightarrow> billing_rule list res" where
  "parse_rules doc = (case doc of
      JObj kvs \<Rightarrow>
        (case (jget kvs ''schema'', jget kvs ''rules'') of
           (JStr sch, JList rs) \<Rightarrow>
             if sch = ''tokenbill/billing-rules@1''
             then rbind (rfold add_rule [] rs) (\<lambda>out. Inr (map snd out)) else Inl PricingError
         | _ \<Rightarrow> Inl PricingError)
    | _ \<Rightarrow> Inl PricingError)"

text \<open>\<open>_by_id()\<close>: later rules with one id win.\<close>

definition by_id :: "billing_rule list \<Rightarrow> string \<Rightarrow> billing_rule option" where
  "by_id rs i = map_of (fold (\<lambda>r d. dset (rule_id r) r d) rs []) i"

definition rule :: "billing_rule list \<Rightarrow> string \<Rightarrow> billing_rule res" where
  "rule rs i = (case by_id rs i of Some r \<Rightarrow> Inr r | None \<Rightarrow> Inl UsageError)"

definition rule_for :: "billing_rule list \<Rightarrow> string \<Rightarrow> string \<Rightarrow> billing_rule" where
  "rule_for rs provider mode = (case by_id rs (provider @ ''.'' @ mode) of
      Some r \<Rightarrow> r
    | None \<Rightarrow> \<lparr>rule_id = provider @ ''.'' @ mode, rule_provider = provider, failure_mode = mode,
        billed_input = ''unknown'', billed_partial_output = ''unknown'', cache_written = ''unknown'',
        confidence = ''unknown'', rule_source = ''no documented rule'',
        rule_notes = ''undocumented failure mode: priced as a range [0, full]'',
        rule_finding = None, rule_verified_on = None, rule_params = [], known = False\<rparr>)"

definition refusal_rule :: "billing_rule list \<Rightarrow> int \<Rightarrow> int option \<Rightarrow> billing_rule res" where
  "refusal_rule rs output_tokens threshold =
     (if output_tokens < 0 then Inl UsageError
      else if output_tokens = 0 then rule rs ''anthropic.refusal.pre_output''
      else rbind (rule rs ''anthropic.refusal.ambiguous'') (\<lambda>ambiguous.
        rbind (case threshold of None \<Rightarrow> rule_param ambiguous ''max_output_tokens'' | Some t \<Rightarrow> Inr t) (\<lambda>limit.
        if limit < 0 then Inl UsageError
        else if output_tokens \<le> limit then Inr ambiguous else rule rs ''anthropic.refusal.mid_stream'')))"

definition rule_table :: "(string, billing_rule) dict \<Rightarrow> bool" where
  "rule_table out = (distinct (map fst out) \<and>
     (\<forall>(k, r) \<in> set out. k = rule_id r \<and> rule_id r = rule_provider r @ ''.'' @ failure_mode r))"

definition wit_rules_doc :: json where
  "wit_rules_doc = JObj [(''schema'', JStr ''tokenbill/billing-rules@1''), (''rules'', JList [JObj [
     (''rule_id'', JStr ''openai.abort.client''), (''provider'', JStr ''openai''),
     (''failure_mode'', JStr ''abort.client''), (''billed_input'', JStr ''yes''),
     (''billed_partial_output'', JStr ''unknown''), (''cache_written'', JStr ''no''),
     (''confidence'', JStr ''assumed''), (''source'', JStr ''docs'')]])]"

definition wit_rule :: billing_rule where
  "wit_rule = \<lparr>rule_id = ''openai.abort.client'', rule_provider = ''openai'', failure_mode = ''abort.client'',
     billed_input = ''yes'', billed_partial_output = ''unknown'', cache_written = ''no'',
     confidence = ''assumed'', rule_source = ''docs'', rule_notes = '''', rule_finding = None,
     rule_verified_on = None, rule_params = [], known = True\<rparr>"

section \<open>Lemmas\<close>

lemma parse_rule_id: "parse_rule kvs = Inr r \<Longrightarrow> rule_id r = rule_provider r @ ''.'' @ failure_mode r"
  by (auto simp: parse_rule_def rbind_eq_Inr)

lemma add_rule_table:
  assumes "rule_table out" "add_rule out j = Inr out'"
  shows "rule_table out'"
proof -
  obtain kvs b where b: "parse_rule kvs = Inr b" "map_of out (rule_id b) = None" "out' = dset (rule_id b) b out"
    using assms(2) by (auto simp: add_rule_def rbind_eq_Inr split: json.splits if_splits)
  have "out' = out @ [(rule_id b, b)]"
    using b(2,3) dset_fresh by simp
  then show ?thesis using assms(1) b(2) parse_rule_id [OF b(1)]
    by (auto simp: rule_table_def map_of_eq_None_iff)
qed

lemma rfold_add_rule_table: "rule_table out \<Longrightarrow> rfold add_rule out js = Inr out' \<Longrightarrow> rule_table out'"
  by (induction js arbitrary: out) (auto simp: rbind_eq_Inr dest: add_rule_table)

text \<open>A rule document that parses has one rule per id, and both lookups return exactly the rule that was
  parsed: by id, and by provider and failure mode.\<close>

theorem parsed_rules_are_found:
  assumes "parse_rules doc = Inr rs"
  shows "distinct (map rule_id rs) \<and>
    (\<forall>r \<in> set rs. rule rs (rule_id r) = Inr r \<and> rule_for rs (rule_provider r) (failure_mode r) = r)"
proof -
  obtain js out where out: "rfold add_rule [] js = Inr out" "rs = map snd out"
    using assms by (auto simp: parse_rules_def rbind_eq_Inr split: json.splits if_splits)
  have t: "rule_table out" using rfold_add_rule_table [OF _ out(1)] by (simp add: rule_table_def)
  then have ids: "map rule_id rs = map fst out"
    using out(2) by (auto simp: rule_table_def)
  then have d: "distinct (map rule_id rs)" using t by (simp add: rule_table_def)
  have "by_id rs (rule_id r) = Some r" if "r \<in> set rs" for r
    using map_of_fold_dset [OF d that] by (simp add: by_id_def)
  moreover have "rule_id r = rule_provider r @ ''.'' @ failure_mode r" if "r \<in> set rs" for r
    using that t out(2) by (auto simp: rule_table_def)
  ultimately show ?thesis using d by (auto simp: rule_def rule_for_def)
qed

lemma wit_rules_parse: "parse_rules wit_rules_doc = Inr [wit_rule]"
  by (simp add: parse_rules_def wit_rules_doc_def jget_def add_rule_def parse_rule_def field_def opt_field_def
      rule_params_of_def name_ok_def name_char_def is_digit_iff BILLED_def CONFIDENCES_def dset_def wit_rule_def)

theorem parsed_rules_are_found_witness:
  "rule [wit_rule] (rule_id wit_rule) = Inr wit_rule \<and>
   rule_for [wit_rule] (rule_provider wit_rule) (failure_mode wit_rule) = wit_rule"
  using parsed_rules_are_found [OF wit_rules_parse] by simp

text \<open>A failure mode without a documented rule is priced as uncertain: neither billable nor free.\<close>

theorem undocumented_is_uncertain:
  assumes "by_id rs (provider @ ''.'' @ mode) = None \<or>
           (\<exists>r. by_id rs (provider @ ''.'' @ mode) = Some r \<and> confidence r \<noteq> ''documented'')"
  shows "rule_billable (rule_for rs provider mode) = None"
  using assms by (auto simp: rule_for_def rule_billable_def)

theorem undocumented_is_uncertain_witness:
  "rule_billable (rule_for [wit_rule] ''anthropic'' ''abort.client'') = None"
  by (rule undocumented_is_uncertain) (simp add: by_id_def wit_rule_def dset_def)

end
