(* ===== verification/Rate_Card.thy ===== *)
theory Rate_Card
  imports Records Models Billing_Rules
begin

text \<open>
  \<open>tokenbill/rates/engine.py\<close> with the types of \<open>tokenbill/core/types.py\<close> it uses: a rate card over
  ordered layers and an optional contract overlay. \<open>mk_rate_card\<close> is the constructor (ranked row
  indexes, effective modifiers, overrides), \<open>find_uncached\<close>, \<open>build\<close> and \<open>resolve\<close> are the resolution,
  \<open>lines\<close>, \<open>assemble\<close> and \<open>price_usage\<close> the pricing of one usage, \<open>price_total\<close> the totals. Rates are
  finite decimals; every multiplication is in the exact context, so an inexact product is an error
  value. The two dictionaries that memoise resolution are the state \<open>card_state\<close> of \<open>find\<close> and
  \<open>rates_of\<close>; the pricing functions use the unmemoised forms. The card's SHA-256 and the provider
  citations are not modelled. Theory \<open>Pricing\<close> shows that integer line pricing equals the decimal reference,
  that every priced line and figure is well formed, that memoisation is transparent, that unit rates
  reprice exactly, and that totals conserve the priced amounts.
\<close>

section \<open>Types\<close>

record rate_row =
  row_id :: string
  row_provider :: string
  row_channel :: string
  row_model :: string
  aliases :: "string list"
  generation :: string
  effective_from :: string
  effective_to :: "string option"
  input_usd_per_mtok :: dec
  output_usd_per_mtok :: dec
  cache_read_mult :: "dec option"
  cache_write_5m_mult :: "dec option"
  cache_write_1h_mult :: "dec option"
  cache_write_other_mult :: "dec option"
  min_cacheable_tokens :: "int option"
  tokenizer_family :: string
  per_request_usd :: "(string \<times> dec) list"
  long_context_threshold :: "int option"
  long_context_usd_per_mtok :: "(string \<times> dec) list"
  supports :: "string list"
  enabled :: bool
  verified_on :: string
  promotion :: "string option"

record modifier =
  modifier_id :: string
  mod_kind :: string
  factor :: "dec option"
  base_usd_per_mtok :: "(string \<times> dec) list"
  applies_to :: "string list"
  mod_when :: "(string \<times> string) list"
  stacking :: string

record rate_layer =
  layer_name :: string
  rows :: "rate_row list"
  modifiers :: "modifier list"

record contract_overlay =
  con_name :: string
  multiplier :: "dec option"
  overrides :: "(string \<times> (string \<times> dec) list) list"
  con_effective_from :: string
  con_effective_to :: "string option"
  con_channels :: "string list"

record resolved_rates =
  rr_row_id :: string
  rr_channel :: string
  rr_model :: string
  rr_input :: dec
  rr_output :: dec
  rr_cache_read :: "dec option"
  rr_cache_write_5m :: "dec option"
  rr_cache_write_1h :: "dec option"
  rr_cache_write_other :: "dec option"
  per_request :: "(string \<times> dec) list"
  modifier_ids :: "string list"
  stacking_assumed :: bool
  rr_layer :: string
  rr_min_cacheable_tokens :: "int option"
  rr_tokenizer_family :: string
  long_context_band :: bool

text \<open>\<open>ResolvedRates.scope_range\<close> never nests: the range holds plain rates.\<close>

record scoped_rates = resolved_rates +
  scope_range :: "resolved_rates option"

record unit_rates =
  scale_exp :: int
  ur_uncached :: int
  ur_cache_read :: int
  ur_cache_write_5m :: int
  ur_cache_write_1h :: int
  ur_cache_write_other :: int
  ur_output :: int
  web_search_nano :: int
  ur_row_id :: string

record priced_line =
  bucket :: string
  quantity :: int
  unit_usd_per_mtok :: string
  amount_nano :: int
  line_low :: "int option"
  line_high :: "int option"
  line_exact :: bool
  rate_row_id :: string
  line_modifier_ids :: "string list"
  line_layer :: string

record priced_inference =
  pi_inference_id :: "string option"
  lines :: "priced_line list"
  figure :: figure
  exact_nano :: int
  estimated_fig :: "figure option"
  unpriced_reason :: "string option"

record priced_total =
  pt_exact :: figure
  pt_estimated :: "figure option"
  pt_allowance :: "figure option"
  priced_inferences :: int
  unpriced_inferences :: int
  unpriced_tokens :: int
  coverage :: string
  pt_pool :: "figure option"

section \<open>Constants\<close>

definition FALLBACK_CHANNELS :: "string list" where
  "FALLBACK_CHANNELS = [''claude_platform_aws'', ''foundry'']"
definition COPILOT_CHANNEL :: string where "COPILOT_CHANNEL = ''github_copilot''"
definition WILDCARD_CHANNEL :: string where "WILDCARD_CHANNEL = ''*''"
definition MODEL_PRICE_LAYER :: string where "MODEL_PRICE_LAYER = ''model-price''"
definition MAX_SCALE :: int where "MAX_SCALE = 24"
definition CACHE_LIMIT :: nat where "CACHE_LIMIT = 65536"
definition STALE_AFTER_DAYS :: int where "STALE_AFTER_DAYS = 45"

definition PRICE_KEYS :: "string list" where
  "PRICE_KEYS = [''input'', ''output'', ''cache_read'', ''cache_write_5m'', ''cache_write_1h'', ''cache_write_other'']"

definition WRITE_BUCKETS :: "string list" where
  "WRITE_BUCKETS = [''cache_write_5m'', ''cache_write_1h'', ''cache_write_other'']"

definition BUCKET_TO_KEY :: "(string \<times> string) list" where
  "BUCKET_TO_KEY = [(''uncached_input'', ''input''), (''input'', ''input''), (''uncached'', ''input''),
     (''output'', ''output''), (''cache_read'', ''cache_read''), (''cache_write_5m'', ''cache_write_5m''),
     (''cache_write_1h'', ''cache_write_1h''), (''cache_write_other'', ''cache_write_other'')]"

definition UNPRICED_REASONS :: "(string \<times> string) list" where
  "UNPRICED_REASONS = [(''not priceable'', ''dq.unpriced_model''), (''no rate row'', ''dq.unpriced_model''),
     (''unverified rate row'', ''dq.unverified_rate_row''),
     (''model before effective date'', ''dq.model_before_effective_date''),
     (''promotion expired'', ''dq.promotion_expired'')]"

definition layer_kind :: "rate_layer \<Rightarrow> string" where
  "layer_kind l = (if startswith (layer_name l) ''builtin'' then ''builtin''
     else if layer_name l = MODEL_PRICE_LAYER then ''model-price'' else ''user'')"

definition KIND_RANK :: "string \<Rightarrow> nat" where
  "KIND_RANK k = (if k = ''builtin'' then 0 else if k = ''user'' then 1 else 2)"

definition RESOLVED_LAYER :: "string \<Rightarrow> string" where
  "RESOLVED_LAYER k = (if k = ''builtin'' then ''builtin'' else ''user'')"

section \<open>Small functions\<close>

definition date_of :: "int \<Rightarrow> string res" where
  "date_of ts_ms = (case date_of_days (ts_ms div 86400000) of Some d \<Rightarrow> Inr d | None \<Rightarrow> Inl UsageError)"

text \<open>\<open>format(d, "f")\<close>.\<close>

definition format_f :: "dec \<Rightarrow> string" where
  "format_f d =
     (let ds = show_nat (coef d); n = length ds;
          body = (if 0 \<le> expo d then (if coef d = 0 then ''0'' else ds @ replicate (nat (expo d)) (CHR ''0''))
                  else let k = nat (- expo d)
                   in if k < n then take (n - k) ds @ ''.'' @ drop (n - k) ds
                      else ''0.'' @ replicate (k - n) (CHR ''0'') @ ds)
      in (if sign d then ''-'' else '''') @ body)"

definition dec_str :: "dec \<Rightarrow> string" where
  "dec_str d = (let text = format_f d;
       t = (if CHR ''.'' \<in> set text then rstrip_char (CHR ''.'') (rstrip_char (CHR ''0'') text) else text)
     in if t = '''' then ''0'' else t)"

definition line_nano :: "int \<Rightarrow> dec \<Rightarrow> int" where
  "line_nano tokens rate = scaled_to_nano (tokens * sint_of rate) (6 - expo rate)"

text \<open>\<open>_generation\<close>: the schema admits dotted digits only.\<close>

definition generation_of :: "string \<Rightarrow> nat list" where
  "generation_of s = map read_nat (split_on (CHR ''.'') s)"

definition first_some :: "'a option list \<Rightarrow> 'a \<Rightarrow> 'a" where
  "first_some os d = (case List.find (\<lambda>x. x \<noteq> None) os of Some (Some v) \<Rightarrow> v | _ \<Rightarrow> d)"

definition effective_rate :: "('a) resolved_rates_scheme \<Rightarrow> string \<Rightarrow> dec res" where
  "effective_rate r b =
     (if b \<in> set [''uncached_input'', ''input'', ''uncached''] then Inr (rr_input r)
      else if b = ''output'' then Inr (rr_output r)
      else if b = ''cache_read'' then Inr (first_some [rr_cache_read r] (rr_input r))
      else if b = ''cache_write_5m'' then Inr (first_some [rr_cache_write_5m r, rr_cache_write_other r] (rr_input r))
      else if b = ''cache_write_1h'' then Inr (first_some [rr_cache_write_1h r, rr_cache_write_other r] (rr_input r))
      else if b = ''cache_write_other'' then Inr (first_some [rr_cache_write_other r, rr_cache_write_5m r] (rr_input r))
      else Inl UsageError)"

text \<open>The exponent of the last non-zero digit, 0 for zero.\<close>

function min_exp_loop :: "nat \<Rightarrow> int \<Rightarrow> int" where
  "min_exp_loop c e = (if c = 0 then 0 else if c mod 10 = 0 then min_exp_loop (c div 10) (e + 1) else e)"
  by pat_completeness auto
termination
  by (relation "measure fst") auto

declare min_exp_loop.simps [simp del]

definition min_exponent :: "dec \<Rightarrow> int" where
  "min_exponent d = min_exp_loop (coef d) (expo d)"

text \<open>Deduplication that keeps first occurrences (\<open>dict.fromkeys\<close>).\<close>

definition uniq :: "'a list \<Rightarrow> 'a list" where
  "uniq xs = rev (remdups (rev xs))"

section \<open>The card\<close>

type_synonym row_index = "(string \<times> string, rate_row list) dict"

record rate_card =
  card_layers :: "rate_layer list"
  contract :: "contract_overlay option"
  card_basis :: basis
  ranked :: "(string \<times> row_index) list"
  rows_by_id :: "(string, rate_row \<times> string) dict"
  card_modifiers :: "modifier list"
  scope_mods :: "modifier list"
  card_overrides :: "(string, (string, dec) dict) dict"

definition index_rows :: "rate_row list \<Rightarrow> row_index" where
  "index_rows rs =
     map (\<lambda>(k, v). (k, sort_key effective_from v))
       (fold (\<lambda>(k, r) d. dappend k r d)
          (concat (map (\<lambda>r. map (\<lambda>name. ((row_channel r, name), r)) (uniq (row_model r # aliases r))) rs)) [])"

definition rank_layers :: "rate_layer list \<Rightarrow> rate_layer list" where
  "rank_layers ls = map snd (rev (sort_key (\<lambda>(i, l). (KIND_RANK (layer_kind l), i)) (enumerate 0 ls)))"

definition add_override ::
    "(string, (string, dec) dict) dict \<Rightarrow> string \<times> (string \<times> dec) list \<Rightarrow> (string, (string, dec) dict) dict res" where
  "add_override ov mb = (case mb of (model, buckets) \<Rightarrow>
     let key = (if mid_model (normalize_model model None) = '''' then model else mid_model (normalize_model model None))
     in rbind (rfold (\<lambda>t (b, v). if b \<noteq> ''web_search'' \<and> map_of BUCKET_TO_KEY b = None
                                then Inl PricingError else Inr (dset b v t)) (dget ov key []) buckets)
          (\<lambda>t. Inr (dset key t ov)))"

definition mk_rate_card :: "rate_layer list \<Rightarrow> contract_overlay option \<Rightarrow> rate_card res" where
  "mk_rate_card layers con =
     (if layers = [] then Inl UsageError
      else
       let rk = rank_layers layers;
           mods = fold (\<lambda>m d. dsetdefault (modifier_id m) m d) (concat (map modifiers rk)) [];
           ms = map snd (sort_key fst mods)
       in rbind (rfold add_override [] (case con of None \<Rightarrow> [] | Some c \<Rightarrow> overrides c)) (\<lambda>ov.
          Inr \<lparr>card_layers = layers, contract = con,
               card_basis = (case con of None \<Rightarrow> LIST | Some _ \<Rightarrow> CONTRACT),
               ranked = map (\<lambda>l. (layer_kind l, index_rows (rows l))) rk,
               rows_by_id = fold (\<lambda>(r, k) d. dsetdefault (row_id r) (r, k) d)
                  (concat (map (\<lambda>l. map (\<lambda>r. (r, layer_kind l)) (rows l)) rk)) [],
               card_modifiers = ms,
               scope_mods = filter (\<lambda>m. map_of (mod_when m) ''endpoint_scope'' \<noteq> None) ms,
               card_overrides = ov\<rparr>))"

definition list_card :: "rate_card \<Rightarrow> rate_card res" where
  "list_card c = (case contract c of None \<Rightarrow> Inr c | Some _ \<Rightarrow> mk_rate_card (card_layers c) None)"

section \<open>Resolution\<close>

definition candidates :: "rate_card \<Rightarrow> string \<Rightarrow> string \<Rightarrow> (string \<times> rate_row list) list" where
  "candidates c channel model =
     concat (map (\<lambda>(kind, index).
       concat (map (\<lambda>key. case map_of index key of
            Some rs \<Rightarrow> if rs = [] then [] else [(kind, rs)] | None \<Rightarrow> [])
         [(channel, model), (WILDCARD_CHANNEL, model)])) (ranked c))"

definition in_effect :: "rate_row \<Rightarrow> string \<Rightarrow> bool" where
  "in_effect r date = (effective_from r \<le> date \<and>
     (case effective_to r of None \<Rightarrow> True | Some t \<Rightarrow> date < t))"

definition max_by :: "('a \<Rightarrow> 'b::linorder) \<Rightarrow> 'a \<Rightarrow> 'a list \<Rightarrow> 'a" where
  "max_by key x xs = fold (\<lambda>y best. if key best < key y then y else best) xs x"

definition find_uncached :: "rate_card \<Rightarrow> string \<Rightarrow> string \<Rightarrow> string \<Rightarrow> rate_row option \<times> string \<times> string option" where
  "find_uncached c channel model date =
     (if model = '''' then (None, '''', Some ''not priceable'')
      else
       let cands0 = candidates c channel model;
           cands = (if cands0 = [] \<and> channel \<in> set FALLBACK_CHANNELS
                    then candidates c ''anthropic_api'' model else cands0);
           every = concat (map (\<lambda>(k, rs). map (\<lambda>r. (k, r)) rs) cands)
       in case every of
           [] \<Rightarrow> (None, '''', Some ''no rate row'')
         | (_, first) # rest \<Rightarrow>
            (case List.find (\<lambda>(k, r). in_effect r date) every of
               Some (k, r) \<Rightarrow> if enabled r then (Some r, k, None) else (None, k, Some ''unverified rate row'')
             | None \<Rightarrow>
                if list_all (\<lambda>(k, r). date < effective_from r) every
                then (None, '''', Some ''model before effective date'')
                else
                 let l = max_by (\<lambda>r. case effective_to r of None \<Rightarrow> ''9999-12-31''
                                      | Some t \<Rightarrow> if t = '''' then ''9999-12-31'' else t)
                           first (map snd rest)
                 in (case (promotion l, effective_to l) of
                      (Some _, Some t) \<Rightarrow> if t \<le> date then (None, '''', Some ''promotion expired'')
                                         else (None, '''', Some ''no rate row'')
                    | _ \<Rightarrow> (None, '''', Some ''no rate row''))))"

definition when_ok :: "rate_row \<Rightarrow> pricing_context \<Rightarrow> string option \<Rightarrow> string \<times> string \<Rightarrow> bool" where
  "when_ok row ctx scope kv = (case kv of (key, v) \<Rightarrow>
     if key = ''service_tier'' then service_tier ctx = v
     else if key = ''speed'' then speed ctx = v
     else if key = ''inference_geo'' then inference_geo ctx = Some v
     else if key = ''endpoint_scope'' then
       (case scope of None \<Rightarrow> True | Some s \<Rightarrow> s = v \<or> (v = ''regional'' \<and> s = ''multi_region''))
     else if key = ''channel_in'' then ctx_channel ctx \<in> set (split_on (CHR '','') v)
     else if key = ''model_in'' then row_model row \<in> set (split_on (CHR '','') v)
     else if key = ''routing'' then routing ctx = v
     else if key = ''compliance_in'' then
       (case compliance ctx of None \<Rightarrow> False | Some x \<Rightarrow> x \<in> set (split_on (CHR '','') v))
     else generation_of v \<le> generation_of (generation row))"

definition matches :: "modifier \<Rightarrow> rate_row \<Rightarrow> pricing_context \<Rightarrow> string option \<Rightarrow> bool" where
  "matches m row ctx scope = list_all (when_ok row ctx scope) (mod_when m)"

definition contract_applies :: "rate_card \<Rightarrow> pricing_context \<Rightarrow> string \<Rightarrow> bool" where
  "contract_applies c ctx date = (case contract c of
      None \<Rightarrow> False
    | Some con \<Rightarrow>
        billing_path ctx \<noteq> ''subscription'' \<and>
        billing_path ctx \<notin> set COPILOT_BILLING_PATHS \<and> ctx_channel ctx \<noteq> COPILOT_CHANNEL \<and>
        (con_channels con = [] \<or> ctx_channel ctx \<in> set (con_channels con)) \<and>
        con_effective_from con \<le> date \<and>
        (case con_effective_to con of None \<Rightarrow> True | Some t \<Rightarrow> date < t))"

type_synonym price_map = "(string, dec option) dict"

definition opt_mul :: "dec \<Rightarrow> dec option \<Rightarrow> dec option res" where
  "opt_mul inp ml = (case ml of None \<Rightarrow> Inr None
     | Some m \<Rightarrow> rbind (dec_mul EXACT_CTX inp m) (\<lambda>p. Inr (Some p)))"

definition key_of_bucket :: "string \<Rightarrow> string res" where
  "key_of_bucket b = (case map_of BUCKET_TO_KEY b of Some k \<Rightarrow> Inr k | None \<Rightarrow> Inl KeyError)"

text \<open>\<open>rates[key] = EXACT_CTX.multiply(rates[key], factor)\<close> for the selected, priced keys.\<close>

definition scale_prices :: "(string \<Rightarrow> bool) \<Rightarrow> dec \<Rightarrow> price_map \<Rightarrow> price_map res" where
  "scale_prices sel fac rs = rmap (\<lambda>(k, v). if sel k
      then (case v of None \<Rightarrow> Inr (k, None)
            | Some p \<Rightarrow> rbind (dec_mul EXACT_CTX p fac) (\<lambda>q. Inr (k, Some q))) else Inr (k, v)) rs"

definition base_step :: "dec \<times> dec \<times> string list \<times> bool \<Rightarrow> modifier \<Rightarrow> dec \<times> dec \<times> string list \<times> bool" where
  "base_step st m = (case st of (inp, out, ids, assumed) \<Rightarrow>
     if mod_kind m = ''replace_base'' then
       (dget (base_usd_per_mtok m) ''input'' inp, dget (base_usd_per_mtok m) ''output'' out,
        ids @ [modifier_id m], assumed \<or> stacking m = ''assumed'')
     else st)"

definition mult_step :: "price_map \<times> string list \<times> bool \<Rightarrow> modifier \<Rightarrow> (price_map \<times> string list \<times> bool) res" where
  "mult_step st m = (case st of (rs, ids, assumed) \<Rightarrow>
     (case factor m of
        None \<Rightarrow> Inr st
      | Some f \<Rightarrow>
         if mod_kind m \<noteq> ''multiply'' then Inr st
         else rbind (if ''*'' \<in> set (applies_to m) then Inr PRICE_KEYS else rmap key_of_bucket (applies_to m)) (\<lambda>targets.
              rbind (scale_prices (\<lambda>k. k \<in> set targets) f rs) (\<lambda>rs'.
              Inr (rs', ids @ [modifier_id m], assumed \<or> stacking m = ''assumed'')))))"

text \<open>The contract overlay: overrides are final prices, the multiplier scales the rest.\<close>

definition override_step ::
    "price_map \<times> (string, dec) dict \<times> string list \<Rightarrow> string \<times> dec \<Rightarrow> (price_map \<times> (string, dec) dict \<times> string list) res" where
  "override_step st bv = (case (st, bv) of ((rs, pr, over), (b, v)) \<Rightarrow>
     if b = ''web_search'' then Inr (rs, dset ''web_search'' v pr, over @ [b])
     else rbind (key_of_bucket b) (\<lambda>k. Inr (dset k (Some v) rs, pr, over @ [k])))"

definition apply_contract ::
    "contract_overlay \<Rightarrow> (string, dec) dict \<Rightarrow> price_map \<Rightarrow> (string, dec) dict \<Rightarrow> (price_map \<times> (string, dec) dict) res" where
  "apply_contract con ov rs pr =
     rbind (rfold override_step (rs, pr, []) ov) (\<lambda>(rs1, pr1, over).
       case multiplier con of
         None \<Rightarrow> Inr (rs1, pr1)
       | Some m \<Rightarrow>
          rbind (scale_prices (\<lambda>k. k \<notin> set over) m rs1) (\<lambda>rs2.
          rbind (rmap (\<lambda>(n, v). if n \<in> set over then Inr (n, v)
                               else rbind (dec_mul EXACT_CTX v m) (\<lambda>p. Inr (n, p))) pr1) (\<lambda>pr2.
          Inr (rs2, pr2))))"

definition band_step :: "price_map \<Rightarrow> string \<times> dec \<Rightarrow> price_map res" where
  "band_step rs bv = (case bv of (b, v) \<Rightarrow> rbind (key_of_bucket b) (\<lambda>k. Inr (dset k (Some v) rs)))"

text \<open>\<open>rates["input"]\<close> and \<open>rates["output"]\<close> are always prices.\<close>

definition price_of :: "price_map \<Rightarrow> string \<Rightarrow> dec option" where
  "price_of rs k = dget rs k None"

definition build ::
    "rate_card \<Rightarrow> rate_row \<Rightarrow> string \<Rightarrow> pricing_context \<Rightarrow> string \<Rightarrow> string \<Rightarrow> bool \<Rightarrow> resolved_rates res" where
  "build c row kind ctx date scope band =
     (let applicable = filter (\<lambda>m. matches m row ctx (Some scope)) (card_modifiers c);
          (inp, out, ids0, as0) =
             foldl base_step (input_usd_per_mtok row, output_usd_per_mtok row, [], False) applicable
      in rbind (opt_mul inp (cache_read_mult row)) (\<lambda>cr.
         rbind (opt_mul inp (cache_write_5m_mult row)) (\<lambda>w5.
         rbind (opt_mul inp (cache_write_1h_mult row)) (\<lambda>w1.
         rbind (opt_mul inp (cache_write_other_mult row)) (\<lambda>wo.
         let rs0 = [(''input'', Some inp), (''output'', Some out), (''cache_read'', cr),
                    (''cache_write_5m'', w5), (''cache_write_1h'', w1), (''cache_write_other'', wo)]
         in rbind (if band then rfold band_step rs0 (long_context_usd_per_mtok row) else Inr rs0) (\<lambda>rs1.
            rbind (rfold mult_step (rs1, ids0, as0) applicable) (\<lambda>(rs2, ids, assumed).
            rbind (if contract_applies c ctx date then
                     (case contract c of
                        Some con \<Rightarrow> rbind (apply_contract con (dget (card_overrides c) (row_model row) []) rs2
                                           (fold (\<lambda>(k, v) d. dset k v d) (per_request_usd row) [])) (\<lambda>(rs3, pr).
                                     Inr (rs3, pr, ''contract'', ids @ [''contract:'' @ con_name con]))
                      | None \<Rightarrow> Inl AssertionError)
                   else Inr (rs2, fold (\<lambda>(k, v) d. dset k v d) (per_request_usd row) [], RESOLVED_LAYER kind, ids))
              (\<lambda>(rs3, pr, layer, ids').
            (case (price_of rs3 ''input'', price_of rs3 ''output'') of
               (Some i, Some o') \<Rightarrow>
                 Inr \<lparr>rr_row_id = row_id row, rr_channel = ctx_channel ctx, rr_model = row_model row,
                   rr_input = i, rr_output = o', rr_cache_read = price_of rs3 ''cache_read'',
                   rr_cache_write_5m = price_of rs3 ''cache_write_5m'',
                   rr_cache_write_1h = price_of rs3 ''cache_write_1h'',
                   rr_cache_write_other = price_of rs3 ''cache_write_other'',
                   per_request = sort_key fst pr, modifier_ids = ids', stacking_assumed = assumed,
                   rr_layer = layer, rr_min_cacheable_tokens = min_cacheable_tokens row,
                   rr_tokenizer_family = tokenizer_family row, long_context_band = band\<rparr>
             | _ \<Rightarrow> Inl TypeError)))))))))"

definition scope_priced :: "rate_card \<Rightarrow> rate_row \<Rightarrow> pricing_context \<Rightarrow> bool" where
  "scope_priced c row ctx = list_ex (\<lambda>m. matches m row ctx None) (scope_mods c)"

definition with_range :: "resolved_rates \<Rightarrow> resolved_rates option \<Rightarrow> scoped_rates" where
  "with_range r rng = resolved_rates.extend r \<lparr>scope_range = rng\<rparr>"

definition rates_uncached ::
    "rate_card \<Rightarrow> rate_row \<Rightarrow> string \<Rightarrow> pricing_context \<Rightarrow> string \<Rightarrow> bool \<Rightarrow> scoped_rates res" where
  "rates_uncached c row kind ctx date band =
     (if endpoint_scope ctx = ''unknown'' \<and> scope_priced c row ctx then
        rbind (build c row kind ctx date ''global'' band) (\<lambda>low.
        rbind (build c row kind ctx date ''regional'' band) (\<lambda>high.
        Inr (with_range low (Some high))))
      else rbind (build c row kind ctx date (endpoint_scope ctx) band) (\<lambda>r. Inr (with_range r None)))"

definition band_of :: "rate_row \<Rightarrow> int \<Rightarrow> bool option \<Rightarrow> bool" where
  "band_of row tot band = (case band of
      None \<Rightarrow> (case long_context_threshold row of None \<Rightarrow> False | Some t \<Rightarrow> t < tot)
    | Some b \<Rightarrow> b \<and> long_context_threshold row \<noteq> None)"

definition resolve_full ::
    "rate_card \<Rightarrow> pricing_context \<Rightarrow> int \<Rightarrow> int \<Rightarrow> bool option \<Rightarrow>
     (scoped_rates option \<times> string option \<times> rate_row option) res" where
  "resolve_full c ctx ts_ms tot band =
     rbind (date_of ts_ms) (\<lambda>date.
       case find_uncached c (ctx_channel ctx) (ctx_model ctx) date of
         (None, _, reason) \<Rightarrow> Inr (None, reason, None)
       | (Some row, kind, _) \<Rightarrow>
           rbind (rates_uncached c row kind ctx date (band_of row tot band)) (\<lambda>r.
           Inr (Some r, None, Some row)))"

definition resolve :: "rate_card \<Rightarrow> pricing_context \<Rightarrow> int \<Rightarrow> scoped_rates option res" where
  "resolve c ctx ts_ms = rbind (resolve_full c ctx ts_ms 0 None) (\<lambda>(r, _, _). Inr r)"

definition unpriced_reason_of :: "rate_card \<Rightarrow> pricing_context \<Rightarrow> int \<Rightarrow> string option res" where
  "unpriced_reason_of c ctx ts_ms = rbind (resolve_full c ctx ts_ms 0 None) (\<lambda>(_, why, _). Inr why)"

definition min_cacheable_of :: "rate_card \<Rightarrow> pricing_context \<Rightarrow> int \<Rightarrow> int option res" where
  "min_cacheable_of c ctx ts_ms = rbind (resolve_full c ctx ts_ms 0 None) (\<lambda>(_, _, row).
     Inr (case row of None \<Rightarrow> None | Some r \<Rightarrow> min_cacheable_tokens r))"

definition supports_feature :: "rate_card \<Rightarrow> pricing_context \<Rightarrow> string \<Rightarrow> int \<Rightarrow> bool res" where
  "supports_feature c ctx feature ts_ms = rbind (resolve_full c ctx ts_ms 0 None) (\<lambda>(_, _, row).
     Inr (case row of None \<Rightarrow> False | Some r \<Rightarrow> feature \<in> set (supports r)))"

definition tokenizer_family_of :: "rate_card \<Rightarrow> pricing_context \<Rightarrow> int \<Rightarrow> string option res" where
  "tokenizer_family_of c ctx ts_ms = rbind (resolve_full c ctx ts_ms 0 None) (\<lambda>(_, _, row).
     Inr (map_option tokenizer_family row))"

subsection \<open>Memoised resolution\<close>

type_synonym found = "rate_row option \<times> string \<times> string option"

record card_state =
  find_cache :: "(string \<times> string \<times> string, found) dict"
  rates_cache :: "(string \<times> string \<times> pricing_context \<times> string \<times> bool, scoped_rates) dict"
  used :: "string list"

definition find :: "rate_card \<Rightarrow> card_state \<Rightarrow> pricing_context \<Rightarrow> string \<Rightarrow> found \<times> card_state" where
  "find c st ctx date =
     (let key = (ctx_channel ctx, ctx_model ctx, date);
          (hit, st1) = (case map_of (find_cache st) key of
              Some h \<Rightarrow> (h, st)
            | None \<Rightarrow> let h = find_uncached c (ctx_channel ctx) (ctx_model ctx) date;
                         base = (if CACHE_LIMIT \<le> length (find_cache st) then [] else find_cache st)
                     in (h, st\<lparr>find_cache := dset key h base\<rparr>))
      in (hit, case fst hit of
             None \<Rightarrow> st1
           | Some r \<Rightarrow> st1\<lparr>used := (if row_id r \<in> set (used st1) then used st1 else used st1 @ [row_id r])\<rparr>))"

definition rates_of ::
    "rate_card \<Rightarrow> card_state \<Rightarrow> rate_row \<Rightarrow> string \<Rightarrow> pricing_context \<Rightarrow> string \<Rightarrow> bool \<Rightarrow> (scoped_rates \<times> card_state) res" where
  "rates_of c st row kind ctx date band =
     (let key = (row_id row, kind, ctx, date, band)
      in case map_of (rates_cache st) key of
          Some h \<Rightarrow> Inr (h, st)
        | None \<Rightarrow> rbind (rates_uncached c row kind ctx date band) (\<lambda>h.
            let base = (if CACHE_LIMIT \<le> length (rates_cache st) then [] else rates_cache st)
            in Inr (h, st\<lparr>rates_cache := dset key h base\<rparr>)))"

definition resolve_st ::
    "rate_card \<Rightarrow> card_state \<Rightarrow> pricing_context \<Rightarrow> int \<Rightarrow> int \<Rightarrow> bool option \<Rightarrow>
     ((scoped_rates option \<times> string option \<times> rate_row option) \<times> card_state) res" where
  "resolve_st c st ctx ts_ms tot band =
     rbind (date_of ts_ms) (\<lambda>date.
       case find c st ctx date of
         ((None, _, reason), st1) \<Rightarrow> Inr ((None, reason, None), st1)
       | ((Some row, kind, _), st1) \<Rightarrow>
           rbind (rates_of c st1 row kind ctx date (band_of row tot band)) (\<lambda>(r, st2).
           Inr ((Some r, None, Some row), st2)))"

definition used_rows :: "card_state \<Rightarrow> string list" where
  "used_rows st = sort (used st)"

text \<open>The ISO date \<open>days\<close> before \<open>today\<close>.\<close>

definition cutoff_date :: "string \<Rightarrow> int \<Rightarrow> string option" where
  "cutoff_date today age =
     (let y = int (read_nat (take 4 today)); m = int (read_nat (take 2 (drop 5 today)));
          d = int (read_nat (drop 8 today))
      in date_of_days (ymd2ord y m d - EPOCH_ORD - age))"

definition stale_rows :: "rate_card \<Rightarrow> string list \<Rightarrow> string \<Rightarrow> int \<Rightarrow> string list res" where
  "stale_rows c ids today age = (case cutoff_date today age of
      None \<Rightarrow> Inl ValueError
    | Some limit \<Rightarrow> Inr (filter (\<lambda>i. case map_of (rows_by_id c) i of
          Some (r, kind) \<Rightarrow> kind \<noteq> ''model-price'' \<and> verified_on r < limit | None \<Rightarrow> False)
        (sorted_set ids)))"

section \<open>Pricing one usage\<close>

definition basis_of :: "pricing_context \<Rightarrow> scoped_rates option \<Rightarrow> basis" where
  "basis_of ctx rates =
     (if billing_path ctx = ''subscription'' \<or> billing_path ctx \<in> set COPILOT_BILLING_PATHS then LIST_EQUIVALENT
      else case rates of Some r \<Rightarrow> if rr_layer r = ''contract'' then CONTRACT else LIST | None \<Rightarrow> LIST)"

definition band_b :: "rate_row \<Rightarrow> pricing_context \<Rightarrow> int \<Rightarrow> bool option" where
  "band_b row ctx tot =
     (if ctx_channel ctx \<noteq> COPILOT_CHANNEL then None
      else case (context_tier ctx, long_context_threshold row) of
          (Some tier, Some t) \<Rightarrow>
            let a = (t < tot); b = (tier = ''long_context'') in if a \<noteq> b then Some b else None
        | _ \<Rightarrow> None)"

text \<open>What the closure \<open>emit\<close> of \<open>_lines\<close> captures.\<close>

record emit_env =
  env_rates :: scoped_rates
  env_billable :: "bool option"
  env_source :: usage_source
  env_partial_exact :: "bool option"

definition amount :: "bool \<Rightarrow> int \<Rightarrow> dec \<Rightarrow> int res" where
  "amount per_req q r =
     (if per_req then rbind (dec_mul EXACT_CTX (dec_of_int q) r) (\<lambda>d. decimal_to_nano (Finite d))
      else Inr (line_nano q r))"

definition line_range :: "emit_env \<Rightarrow> int \<Rightarrow> (int \<times> int) option \<Rightarrow> int \<times> (int \<times> int) option" where
  "line_range env point0 rng =
     (let point = (case rng of None \<Rightarrow> point0 | Some (lo, hi) \<Rightarrow> min (max point0 lo) hi)
      in if env_billable env = Some False \<or> env_partial_exact env = Some False then (0, None)
         else if env_billable env = None \<or>
                 (env_source env = UsPartialStream \<and> env_partial_exact env = None)
           then (point, Some (0, max point (case rng of Some (_, hi) \<Rightarrow> hi | None \<Rightarrow> point)))
         else if env_source env = UsEstimated \<and> rng = None then (point, Some (point, point))
         else (point, rng))"

definition emit ::
    "emit_env \<Rightarrow> string \<Rightarrow> int \<Rightarrow> dec \<Rightarrow> ((int \<times> dec) \<times> (int \<times> dec)) option \<Rightarrow> bool \<Rightarrow> priced_line res" where
  "emit env b qty rate rg per_req =
     rbind (amount per_req qty rate) (\<lambda>point0.
     rbind (case rg of
              None \<Rightarrow> Inr None
            | Some ((lq, lr), (hq, hr)) \<Rightarrow>
                rbind (amount per_req lq lr) (\<lambda>x. rbind (amount per_req hq hr) (\<lambda>y.
                Inr (Some (min x y, max x y))))) (\<lambda>rng.
     case line_range env point0 rng of (point, rng') \<Rightarrow>
     Inr \<lparr>bucket = b, quantity = qty, unit_usd_per_mtok = dec_str rate, amount_nano = point,
          line_low = map_option fst rng', line_high = map_option snd rng', line_exact = (rng' = None),
          rate_row_id = rr_row_id (env_rates env), line_modifier_ids = modifier_ids (env_rates env),
          line_layer = rr_layer (env_rates env)\<rparr>))"

text \<open>One pass of the loop over the input and write buckets: a line and a note, or nothing.\<close>

definition bucket_line ::
    "emit_env \<Rightarrow> bool \<Rightarrow> string \<times> int \<Rightarrow> (priced_line list \<times> string list) res" where
  "bucket_line env folded bq = (case bq of (b, qty) \<Rightarrow>
     if qty = 0 then Inr ([], [])
     else rbind (effective_rate (env_rates env) b) (\<lambda>rate.
       if folded \<and> b \<in> set WRITE_BUCKETS then
         rbind (emit env b qty rate (Some ((qty, rate), (qty, rate))) False) (\<lambda>l.
         Inr ([l], [''writes folded to input (dq.copilot_write_folded_to_input)'']))
       else (case scope_range (env_rates env) of
           Some high \<Rightarrow>
             rbind (effective_rate high b) (\<lambda>hr.
             rbind (emit env b qty rate (Some ((qty, rate), (qty, hr))) False) (\<lambda>l. Inr ([l], [])))
         | None \<Rightarrow> rbind (emit env b qty rate None False) (\<lambda>l. Inr ([l], [])))))"

definition unknown_line ::
    "emit_env \<Rightarrow> bool \<Rightarrow> pricing_context \<Rightarrow> int \<Rightarrow> (priced_line list \<times> string list) res" where
  "unknown_line env folded ctx q =
     (if q = 0 then Inr ([], [])
      else
       let r = env_rates env; one_hour = (rr_cache_write_1h r \<noteq> None);
           high_bucket = (if one_hour then ''cache_write_1h'' else ''cache_write_5m'')
       in rbind (effective_rate r ''cache_write_5m'') (\<lambda>low_rate.
          rbind (case scope_range r of Some h \<Rightarrow> effective_rate h high_bucket
                 | None \<Rightarrow> effective_rate r high_bucket) (\<lambda>high_rate.
          rbind (if write_ttl_hint ctx = Some ''1h'' \<and> one_hour then effective_rate r ''cache_write_1h''
                 else Inr low_rate) (\<lambda>hint.
          rbind (emit env ''cache_write_unknown'' q hint (Some ((q, low_rate), (q, high_rate))) False) (\<lambda>l.
          Inr ([l], [if folded then ''writes folded to input (dq.copilot_write_folded_to_input)''
                     else ''unknown-TTL cache writes priced [5m, 1h]'']))))))"

definition output_line ::
    "emit_env \<Rightarrow> int \<Rightarrow> int option \<Rightarrow> (priced_line list \<times> string list) res" where
  "output_line env out upper =
     (let r = env_rates env;
          out_high = (case scope_range r of Some h \<Rightarrow> rr_output h | None \<Rightarrow> rr_output r)
      in if env_source env = UsMessageStartOnly \<and> (out \<noteq> 0 \<or> (case upper of Some u \<Rightarrow> u \<noteq> 0 | None \<Rightarrow> False))
         then let up = max out (case upper of Some u \<Rightarrow> u | None \<Rightarrow> out)
           in rbind (emit env ''output'' out (rr_output r) (Some ((out, rr_output r), (up, out_high))) False) (\<lambda>l.
              Inr ([l], [''placeholder output priced [logged, upper]'']))
         else if out \<noteq> 0 then
           rbind (emit env ''output'' out (rr_output r)
             (if scope_range r \<noteq> None then Some ((out, rr_output r), (out, out_high)) else None) False) (\<lambda>l.
           Inr ([l], []))
         else Inr ([], []))"

definition web_line :: "emit_env \<Rightarrow> int \<Rightarrow> (priced_line list \<times> string list) res" where
  "web_line env q =
     (let r = env_rates env
      in case map_of (per_request r) ''web_search'' of
          Some web \<Rightarrow>
            if q = 0 then Inr ([], [])
            else
             let high = (case scope_range r of
                   Some h \<Rightarrow> Some ((q, web), (q, dget (per_request h) ''web_search'' web)) | None \<Rightarrow> None)
             in rbind (emit env ''web_search'' q web high True) (\<lambda>l. Inr ([l], []))
        | None \<Rightarrow> Inr ([], []))"

definition qty_of :: "usage_buckets \<Rightarrow> (string \<times> int) list" where
  "qty_of u = [(''uncached_input'', uncached_input u), (''cache_read'', cache_read u),
     (''cache_write_5m'', cache_write_5m u), (''cache_write_1h'', cache_write_1h u),
     (''cache_write_other'', cache_write_other u)]"

definition writes_folded :: "pricing_context \<Rightarrow> scoped_rates \<Rightarrow> bool" where
  "writes_folded ctx r = (ctx_channel ctx = COPILOT_CHANNEL \<and> rr_cache_write_5m r = None \<and>
     rr_cache_write_1h r = None \<and> rr_cache_write_other r = None)"

definition partial_rule :: "billing_rule list \<Rightarrow> pricing_context \<Rightarrow> usage_source \<Rightarrow> bool option \<times> string list" where
  "partial_rule brs ctx src =
     (if src = UsPartialStream then
        let r = rule_for brs (ctx_provider ctx) ''abort.client''; pe = rule_billable r
        in (pe, [''partial stream: billing '' @ confidence r @ '' ('' @ rule_id r @ '')'' @
                 (if pe \<noteq> None then '''' else '': range [0, full]'')])
      else (None, []))"

definition lines_of ::
    "billing_rule list \<Rightarrow> usage_buckets \<Rightarrow> pricing_context \<Rightarrow> scoped_rates \<Rightarrow> bool option \<Rightarrow> usage_source \<Rightarrow>
     int option \<Rightarrow> (priced_line list \<times> string list) res" where
  "lines_of brs u ctx r billable' src upper =
     (let (pe, note0) = partial_rule brs ctx src;
          env = \<lparr>env_rates = r, env_billable = billable', env_source = src, env_partial_exact = pe\<rparr>;
          folded = writes_folded ctx r;
          note1 = (if scope_range r \<noteq> None
                   then [''endpoint scope unknown: priced [global, regional] (dq.scope_unknown)''] else []);
          note2 = (if billable' = None then [''billing uncertain: [0, full]'']
                   else if src = UsEstimated then [''reconstructed usage (estimated)''] else [])
      in rbind (rmap (bucket_line env folded) (qty_of u)) (\<lambda>bs.
         rbind (unknown_line env folded ctx (cache_write_unknown u)) (\<lambda>un.
         rbind (output_line env (u_output u) upper) (\<lambda>ou.
         rbind (web_line env (web_search_requests u)) (\<lambda>we.
         let parts = bs @ [un, ou, we]
         in Inr (concat (map fst parts), note0 @ note1 @ concat (map snd parts) @ note2))))))"

definition hypothesis_range :: "priced_line \<Rightarrow> priced_line \<Rightarrow> priced_line" where
  "hypothesis_range a b =
     (let lo = \<lambda>x. (case line_low x of Some v \<Rightarrow> v | None \<Rightarrow> amount_nano x);
          hi = \<lambda>x. (case line_high x of Some v \<Rightarrow> v | None \<Rightarrow> amount_nano x)
      in a\<lparr>line_low := Some (min (lo a) (lo b)), line_high := Some (max (hi a) (hi b)), line_exact := False\<rparr>)"

definition ranged_figure :: "int \<Rightarrow> int \<Rightarrow> int \<Rightarrow> basis \<Rightarrow> string list \<Rightarrow> string \<Rightarrow> figure res" where
  "ranged_figure n low high b prov nt = mk_figure \<lparr>nano = Some n, evidence = ESTIMATED, basis = b,
     finality = FinalityNA, low_nano = Some low, high_nano = Some high, ci_level_pct = None,
     calibration = CalibrationNA, upper_bound = False, provenance = prov, fig_note = nt\<rparr>"

definition exact_figure :: "int \<Rightarrow> basis \<Rightarrow> string list \<Rightarrow> string \<Rightarrow> figure res" where
  "exact_figure n b prov nt = mk_figure \<lparr>nano = Some n, evidence = EXACT, basis = b,
     finality = FinalityNA, low_nano = None, high_nano = None, ci_level_pct = None,
     calibration = CalibrationNA, upper_bound = False, provenance = prov, fig_note = nt\<rparr>"

definition assemble :: "priced_line list \<Rightarrow> basis \<Rightarrow> string list \<Rightarrow> string \<Rightarrow> priced_inference res" where
  "assemble ls b prov nt =
     (let ex = sum_list (map amount_nano (filter line_exact ls));
          ranged = filter (\<lambda>l. \<not> line_exact l) ls
      in if ranged = [] then
           rbind (exact_figure ex b prov nt) (\<lambda>f.
           Inr \<lparr>pi_inference_id = None, lines = ls, figure = f, exact_nano = ex, estimated_fig = None,
                unpriced_reason = None\<rparr>)
         else
          let point = sum_list (map amount_nano ranged);
              low = sum_list (map (\<lambda>l. or0 (line_low l)) ranged);
              high = sum_list (map (\<lambda>l. or0 (line_high l)) ranged);
              txt = (if nt = '''' then ''range lines'' else nt)
          in rbind (ranged_figure point low high b prov txt) (\<lambda>est.
             rbind (ranged_figure (ex + point) (ex + low) (ex + high) b prov txt) (\<lambda>f.
             Inr \<lparr>pi_inference_id = None, lines = ls, figure = f, exact_nano = ex,
                  estimated_fig = Some est, unpriced_reason = None\<rparr>)))"

definition unpriced_inference :: "figure \<Rightarrow> string option \<Rightarrow> priced_inference" where
  "unpriced_inference f why = \<lparr>pi_inference_id = None, lines = [], figure = f, exact_nano = 0,
     estimated_fig = None, unpriced_reason = why\<rparr>"

text \<open>\<open>zip(lines, alt_lines, strict=True)\<close> raises on different lengths.\<close>

definition zip_strict :: "'a list \<Rightarrow> 'b list \<Rightarrow> ('a \<times> 'b) list res" where
  "zip_strict xs ys = (if length xs = length ys then Inr (zip xs ys) else Inl ValueError)"

text \<open>The second hypothesis of a Copilot long-context row: the other band's lines widen each line.\<close>

definition band_lines ::
    "rate_card \<Rightarrow> billing_rule list \<Rightarrow> usage_buckets \<Rightarrow> pricing_context \<Rightarrow> int \<Rightarrow> bool option \<Rightarrow> usage_source \<Rightarrow>
     int option \<Rightarrow> rate_row \<Rightarrow> priced_line list \<times> string list \<Rightarrow> (priced_line list \<times> string list) res" where
  "band_lines c brs u ctx ts_ms billable' src upper rw lsn = (case lsn of (ls, nts) \<Rightarrow>
     (case band_b rw ctx (total_input u) of
        None \<Rightarrow> Inr (ls, nts)
      | Some bb \<Rightarrow>
          if ls = [] then Inr (ls, nts)
          else rbind (resolve_full c ctx ts_ms (total_input u) (Some bb)) (\<lambda>(alt, _, _).
            case alt of
              None \<Rightarrow> Inl AssertionError
            | Some ar \<Rightarrow>
                rbind (lines_of brs u ctx ar billable' src upper) (\<lambda>(als, _).
                rbind (zip_strict ls als) (\<lambda>zs.
                Inr (map (\<lambda>(x, y). hypothesis_range x y) zs,
                     nts @ [''long-context band hypotheses A/B differ: range, point A (dq.copilot_band_hypothesis)'']))))))"

definition web_note :: "usage_buckets \<Rightarrow> priced_line list \<Rightarrow> string list" where
  "web_note u ls = (if web_search_requests u \<noteq> 0 \<and> \<not> list_ex (\<lambda>l. bucket l = ''web_search'') ls
     then [''web search requests unpriced (no per-request rate on the row)''] else [])"

definition price_usage ::
    "rate_card \<Rightarrow> billing_rule list \<Rightarrow> usage_buckets \<Rightarrow> pricing_context \<Rightarrow> int \<Rightarrow> bool option \<Rightarrow> usage_source \<Rightarrow>
     int option \<Rightarrow> priced_inference res" where
  "price_usage c brs u ctx ts_ms billable' src upper =
     rbind (guard (case upper of Some x \<Rightarrow> 0 \<le> x | None \<Rightarrow> True) UsageError) (\<lambda>_.
     rbind (resolve_full c ctx ts_ms (total_input u) None) (\<lambda>(rates, reason, row).
     let b = basis_of ctx rates
     in case (rates, row) of
         (Some r, Some rw) \<Rightarrow>
           rbind (lines_of brs u ctx r billable' src upper) (\<lambda>lsn.
           rbind (band_lines c brs u ctx ts_ms billable' src upper rw lsn) (\<lambda>(ls, nts).
           assemble ls b (rr_row_id r # modifier_ids r) (join ''; '' (uniq (nts @ web_note u ls)))))
       | _ \<Rightarrow>
           if billable' = Some False \<and> ctx_channel ctx = COPILOT_CHANNEL then
             rbind (exact 0 b [] FinalityNA) (\<lambda>f. Inr (unpriced_inference f None))
           else
             let why = (case reason of Some s \<Rightarrow> if s = '''' then ''no rate row'' else s | None \<Rightarrow> ''no rate row'')
             in rbind (unpriced why b) (\<lambda>f. Inr (unpriced_inference f (Some why)))))"

definition price_inference :: "rate_card \<Rightarrow> billing_rule list \<Rightarrow> inference \<Rightarrow> int \<Rightarrow> priced_inference res" where
  "price_inference c brs infr ts_ms =
     rbind (price_usage c brs (usage infr) (pricing infr) ts_ms (billable infr) (usage_src infr) (output_upper infr)) (\<lambda>p.
     Inr (p\<lparr>pi_inference_id := Some (inference_id infr)\<rparr>))"

section \<open>Unit rates\<close>

text \<open>\<open>int(v.scaleb(k, EXACT_CTX))\<close>: the exact product by a power of ten, truncated.\<close>

definition scaleb_int :: "dec \<Rightarrow> int \<Rightarrow> int res" where
  "scaleb_int v k = rbind (dec_fix EXACT_CTX (sign v) (coef v) (expo v + k)) (\<lambda>d.
     let m = (if 0 \<le> expo d then coef d * 10 ^ nat (expo d) else coef d div 10 ^ nat (- expo d))
     in Inr (if sign d then - int m else int m))"

definition unit_values :: "'a resolved_rates_scheme \<Rightarrow> (string \<times> dec) list res" where
  "unit_values r =
     rbind (effective_rate r ''cache_read'') (\<lambda>cr.
     rbind (effective_rate r ''cache_write_5m'') (\<lambda>w5.
     rbind (effective_rate r ''cache_write_1h'') (\<lambda>w1.
     rbind (effective_rate r ''cache_write_other'') (\<lambda>wo.
     Inr [(''uncached'', rr_input r), (''cache_read'', cr), (''cache_write_5m'', w5), (''cache_write_1h'', w1),
          (''cache_write_other'', wo), (''output'', rr_output r)]))))"

definition scale_values :: "int \<Rightarrow> (string \<times> dec) list \<Rightarrow> (string \<times> int) list res" where
  "scale_values k vs = rmap (\<lambda>(n, v). rbind (scaleb_int v k) (\<lambda>i. Inr (n, i))) vs"

definition unit_rates_of :: "rate_card \<Rightarrow> pricing_context \<Rightarrow> int \<Rightarrow> unit_rates option res" where
  "unit_rates_of c ctx ts_ms =
     rbind (resolve_full c ctx ts_ms 0 None) (\<lambda>(rates, _, _).
       case rates of
         None \<Rightarrow> Inr None
       | Some r \<Rightarrow>
          rbind (unit_values r) (\<lambda>vs.
          let web = dget (per_request r) ''web_search'' (dec_of_int 0);
              scl = max 6 (6 - Min (set (map (min_exponent \<circ> snd) vs)))
          in if min_exponent web < -9 then Inr None
             else if scl > MAX_SCALE then Inr None
             else rbind (scaleb_int web 9) (\<lambda>wn.
                  rbind (scale_values (scl - 6) vs) (\<lambda>ns.
                  Inr (Some \<lparr>scale_exp = scl, ur_uncached = dget ns ''uncached'' 0, ur_cache_read = dget ns ''cache_read'' 0,
                     ur_cache_write_5m = dget ns ''cache_write_5m'' 0, ur_cache_write_1h = dget ns ''cache_write_1h'' 0,
                     ur_cache_write_other = dget ns ''cache_write_other'' 0, ur_output = dget ns ''output'' 0,
                     web_search_nano = wn, ur_row_id = rr_row_id r\<rparr>)))))"

definition unit_attr :: "unit_rates \<Rightarrow> string \<Rightarrow> int option" where
  "unit_attr ur b =
     (if b \<in> set [''uncached_input'', ''uncached'', ''input''] then Some (ur_uncached ur)
      else if b = ''cache_read'' then Some (ur_cache_read ur)
      else if b = ''cache_write_5m'' \<or> b = ''cache_write_unknown'' then Some (ur_cache_write_5m ur)
      else if b = ''cache_write_1h'' then Some (ur_cache_write_1h ur)
      else if b = ''cache_write_other'' then Some (ur_cache_write_other ur)
      else if b = ''output'' then Some (ur_output ur) else None)"

definition bucket_nano :: "unit_rates \<Rightarrow> string \<Rightarrow> int \<Rightarrow> int res" where
  "bucket_nano ur b tokens =
     (if b = ''web_search'' then Inr (tokens * web_search_nano ur)
      else case unit_attr ur b of
          None \<Rightarrow> Inl ContractViolation
        | Some n \<Rightarrow> Inr (scaled_to_nano (tokens * n) (scale_exp ur)))"

section \<open>Totals\<close>

record list_equivalent_sum =
  le_n :: int
  le_point :: int
  le_low :: int
  le_high :: int
  le_exact :: bool

definition le_zero :: list_equivalent_sum where
  "le_zero = \<lparr>le_n = 0, le_point = 0, le_low = 0, le_high = 0, le_exact = True\<rparr>"

definition le_add :: "list_equivalent_sum \<Rightarrow> figure \<Rightarrow> list_equivalent_sum" where
  "le_add s f = (let n = or0 (nano f)
     in \<lparr>le_n = le_n s + 1, le_point = le_point s + n,
        le_low = le_low s + (case low_nano f of Some l \<Rightarrow> l | None \<Rightarrow> n),
        le_high = le_high s + (case high_nano f of Some h \<Rightarrow> h | None \<Rightarrow> n),
        le_exact = (le_exact s \<and> evidence f = EXACT)\<rparr>)"

definition le_figure :: "list_equivalent_sum \<Rightarrow> figure option res" where
  "le_figure s =
     (if le_n s = 0 then Inr None
      else if le_exact s then rbind (exact (le_point s) LIST_EQUIVALENT [] FinalityNA) (\<lambda>f. Inr (Some f))
      else rbind (ranged_figure (le_point s) (le_low s) (le_high s) LIST_EQUIVALENT [] ''range lines'')
             (\<lambda>f. Inr (Some f)))"

text \<open>\<open>value.normalize()\<close> of a decimal within the precision.\<close>

definition dec_normalize :: "dec \<Rightarrow> dec" where
  "dec_normalize d = (if coef d = 0 then mkdec (sign d) 0 0
     else case strip_zeros (coef d) (expo d) (expo d + int (ndig (coef d))) of (c, e) \<Rightarrow> mkdec (sign d) c e)"

definition coverage_of :: "int \<Rightarrow> int \<Rightarrow> string res" where
  "coverage_of priced_toks all_toks =
     (if all_toks \<le> 0 then Inr ''1''
      else rbind (ratio (max priced_toks 0) all_toks) (\<lambda>v.
        case v of None \<Rightarrow> Inl AssertionError | Some d \<Rightarrow> Inr (format_f (dec_normalize d))))"

record total_acc =
  t_exact :: int
  t_point :: int
  t_low :: int
  t_high :: int
  t_has_est :: bool
  t_allowance :: list_equivalent_sum
  t_pool :: list_equivalent_sum
  t_priced :: int
  t_unpriced :: int
  t_unpriced_tokens :: int
  t_all_tokens :: int
  t_bases :: "basis list"

definition acc0 :: total_acc where
  "acc0 = \<lparr>t_exact = 0, t_point = 0, t_low = 0, t_high = 0, t_has_est = False, t_allowance = le_zero,
     t_pool = le_zero, t_priced = 0, t_unpriced = 0, t_unpriced_tokens = 0, t_all_tokens = 0, t_bases = []\<rparr>"

text \<open>One turn of the loop of \<open>price_total\<close>; \<open>price\<close> is the pricer's \<open>price_inference\<close>.\<close>

definition total_step ::
    "(inference \<Rightarrow> int \<Rightarrow> priced_inference res) \<Rightarrow> total_acc \<Rightarrow> inference \<times> int \<Rightarrow> total_acc res" where
  "total_step price acc it = (case it of (infr, ts_ms) \<Rightarrow>
     if billable infr = Some False then Inr acc
     else rbind (price infr ts_ms) (\<lambda>p.
       let toks = total_input (usage infr) + u_output (usage infr);
           acc1 = acc\<lparr>t_all_tokens := t_all_tokens acc + toks\<rparr>
       in if nano (figure p) = None then
            Inr (acc1\<lparr>t_unpriced := t_unpriced acc + 1, t_unpriced_tokens := t_unpriced_tokens acc + toks\<rparr>)
          else
           let acc2 = acc1\<lparr>t_priced := t_priced acc + 1\<rparr>
           in if basis (figure p) = LIST_EQUIVALENT then
                (if billing_path (pricing infr) \<in> set COPILOT_BILLING_PATHS
                 then Inr (acc2\<lparr>t_pool := le_add (t_pool acc) (figure p)\<rparr>)
                 else Inr (acc2\<lparr>t_allowance := le_add (t_allowance acc) (figure p)\<rparr>))
              else
               let acc3 = acc2\<lparr>t_bases := (if basis (figure p) \<in> set (t_bases acc) then t_bases acc
                              else t_bases acc @ [basis (figure p)]),
                            t_exact := t_exact acc + exact_nano p\<rparr>
               in (case estimated_fig p of
                     Some e \<Rightarrow>
                       (case nano e of
                          Some n \<Rightarrow> Inr (acc3\<lparr>t_has_est := True, t_point := t_point acc + n,
                             t_low := t_low acc + or0 (low_nano e), t_high := t_high acc + or0 (high_nano e)\<rparr>)
                        | None \<Rightarrow> Inr acc3)
                   | None \<Rightarrow> Inr acc3)))"

definition price_total ::
    "(inference \<Rightarrow> int \<Rightarrow> priced_inference res) \<Rightarrow> basis \<Rightarrow> (inference \<times> int) list \<Rightarrow> priced_total res" where
  "price_total price pricer_basis items =
     rbind (rfold (total_step price) acc0 items) (\<lambda>acc.
     let cb = (if pricer_basis \<in> {LIST, CONTRACT} then pricer_basis else LIST);
         b = (case t_bases acc of [x] \<Rightarrow> x | _ \<Rightarrow> cb);
         nt = (if 1 < length (t_bases acc) then ''mixed bases: list and contract'' else '''')
     in rbind (if t_has_est acc then rbind (ranged_figure (t_point acc) (t_low acc) (t_high acc) b [] ''range lines'')
                 (\<lambda>f. Inr (Some f)) else Inr None) (\<lambda>est.
        rbind (exact_figure (t_exact acc) b [] nt) (\<lambda>ex.
        rbind (le_figure (t_allowance acc)) (\<lambda>al.
        rbind (le_figure (t_pool acc)) (\<lambda>po.
        rbind (coverage_of (t_all_tokens acc - t_unpriced_tokens acc) (t_all_tokens acc)) (\<lambda>cov.
        Inr \<lparr>pt_exact = ex, pt_estimated = est, pt_allowance = al, priced_inferences = t_priced acc,
             unpriced_inferences = t_unpriced acc, unpriced_tokens = t_unpriced_tokens acc,
             coverage = cov, pt_pool = po\<rparr>))))))"

text \<open>The denominator of the effective savings rate: list card, flat usage, no discounts.\<close>

definition no_cache_equivalent_nano ::
    "rate_card \<Rightarrow> billing_rule list \<Rightarrow> inference \<Rightarrow> int \<Rightarrow> int res" where
  "no_cache_equivalent_nano c brs infr ts_ms =
     (if billable infr = Some False then Inr 0
      else rbind (list_card c) (\<lambda>base.
        let u = usage infr;
            flat = \<lparr>uncached_input = total_input u, cache_read = 0, cache_write_5m = 0, cache_write_1h = 0,
              cache_write_other = 0, cache_write_other_ttl_s = None, cache_write_unknown = 0,
              u_output = u_output u, output_reasoning = None,
              web_search_requests = web_search_requests u, web_fetch_requests = 0\<rparr>;
            ctx = (pricing infr)\<lparr>service_tier := ''standard'', routing := ''direct''\<rparr>
        in rbind (mk_usage flat) (\<lambda>fu. rbind (price_usage base brs fu ctx ts_ms (Some True) UsFinal None) (\<lambda>p.
           Inr (or0 (nano (figure p)))))))"

end
