(* ===== verification/Pricing.thy ===== *)
theory Pricing
  imports Rate_Card
begin

text \<open>
  What the pricing engine of \<open>tokenbill/rates/engine.py\<close> (theory \<open>Rate_Card\<close>) promises. The integer
  pricing of a line is the decimal reference; over non-negative layers every resolved rate is
  non-negative, every line well formed, every figure constructible and the sum of its lines; the found
  row serves the request; the two caches never change an answer (locale \<open>bounded_memo\<close>, states reached
  by queries); the integer unit rates reprice exactly; totals conserve money and calls (locale
  \<open>pricer\<close>, interpreted on the card's own \<open>price_inference\<close>).
\<close>

section \<open>Predicates of the statements and example inputs\<close>

definition nn :: "dec \<Rightarrow> bool" where
  "nn d = (sign d \<longrightarrow> coef d = 0)"

definition nn_opt :: "dec option \<Rightarrow> bool" where
  "nn_opt d = (case d of None \<Rightarrow> True | Some x \<Rightarrow> nn x)"

definition nn_rates :: "'a resolved_rates_scheme \<Rightarrow> bool" where
  "nn_rates r = (nn (rr_input r) \<and> nn (rr_output r) \<and> nn_opt (rr_cache_read r) \<and> nn_opt (rr_cache_write_5m r) \<and>
     nn_opt (rr_cache_write_1h r) \<and> nn_opt (rr_cache_write_other r) \<and> list_all (nn \<circ> snd) (per_request r))"

definition wf_line :: "priced_line \<Rightarrow> bool" where
  "wf_line l = (case (line_low l, line_high l) of
      (None, None) \<Rightarrow> line_exact l
    | (Some lo, Some hi) \<Rightarrow> \<not> line_exact l \<and> lo \<le> amount_nano l \<and> amount_nano l \<le> hi
    | _ \<Rightarrow> False)"

definition line_lo :: "priced_line \<Rightarrow> int" where
  "line_lo l = (case line_low l of Some v \<Rightarrow> v | None \<Rightarrow> amount_nano l)"

definition line_hi :: "priced_line \<Rightarrow> int" where
  "line_hi l = (case line_high l of Some v \<Rightarrow> v | None \<Rightarrow> amount_nano l)"

text \<open>What every line producer promises: a well-formed line with a non-negative amount and low end.\<close>

definition good_line :: "priced_line \<Rightarrow> bool" where
  "good_line l = (wf_line l \<and> 0 \<le> amount_nano l \<and> 0 \<le> line_lo l)"

definition nn_env :: "emit_env \<Rightarrow> bool" where
  "nn_env env = (nn_rates (env_rates env) \<and> (case scope_range (env_rates env) of None \<Rightarrow> True | Some h \<Rightarrow> nn_rates h))"

text \<open>What a priced usage promises: its figure is constructible and is the sum of its lines.\<close>

definition sums_lines :: "priced_inference \<Rightarrow> bool" where
  "sums_lines p = (valid_figure (figure p) \<and>
     nano (figure p) = Some (sum_list (map amount_nano (lines p))) \<and>
     bounds (figure p) = (sum_list (map line_lo (lines p)), sum_list (map line_hi (lines p))) \<and>
     (evidence (figure p) = EXACT \<longleftrightarrow> list_all line_exact (lines p)) \<and>
     exact_nano p = sum_list (map amount_nano (filter line_exact (lines p))) \<and>
     (case estimated_fig p of
        None \<Rightarrow> list_all line_exact (lines p)
      | Some e \<Rightarrow> valid_figure e \<and> nano e = Some (sum_list (map amount_nano (filter (\<lambda>l. \<not> line_exact l) (lines p)))) \<and>
           low_nano e \<noteq> None \<and> basis e = basis (figure p)))"

definition nn_row :: "rate_row \<Rightarrow> bool" where
  "nn_row r = (nn (input_usd_per_mtok r) \<and> nn (output_usd_per_mtok r) \<and> nn_opt (cache_read_mult r) \<and>
     nn_opt (cache_write_5m_mult r) \<and> nn_opt (cache_write_1h_mult r) \<and> nn_opt (cache_write_other_mult r) \<and>
     list_all (nn \<circ> snd) (per_request_usd r) \<and> list_all (nn \<circ> snd) (long_context_usd_per_mtok r))"

definition nn_modifier :: "modifier \<Rightarrow> bool" where
  "nn_modifier m = (nn_opt (factor m) \<and> list_all (nn \<circ> snd) (base_usd_per_mtok m))"

definition nn_contract :: "contract_overlay \<Rightarrow> bool" where
  "nn_contract c = (nn_opt (multiplier c) \<and> list_all (list_all (nn \<circ> snd) \<circ> snd) (overrides c))"

definition nn_layer :: "rate_layer \<Rightarrow> bool" where
  "nn_layer l = (list_all nn_row (rows l) \<and> list_all nn_modifier (modifiers l))"

definition nn_card :: "rate_card \<Rightarrow> bool" where
  "nn_card c = (list_all (\<lambda>(_, ix). list_all (\<lambda>(_, rs). list_all nn_row rs) ix) (ranked c) \<and>
     list_all nn_modifier (card_modifiers c) \<and>
     list_all (list_all (nn \<circ> snd) \<circ> snd) (card_overrides c) \<and>
     (case contract c of None \<Rightarrow> True | Some con \<Rightarrow> nn_opt (multiplier con)))"

definition nn_scoped :: "scoped_rates \<Rightarrow> bool" where
  "nn_scoped r = (nn_rates r \<and> (case scope_range r of None \<Rightarrow> True | Some h \<Rightarrow> nn_rates h))"

definition names_row :: "string \<Rightarrow> rate_row \<Rightarrow> bool" where
  "names_row m r = (m \<in> set (row_model r # aliases r))"

definition serves :: "string \<Rightarrow> string \<Rightarrow> rate_row \<Rightarrow> bool" where
  "serves ch m r = (names_row m r \<and> (row_channel r = ch \<or> row_channel r = WILDCARD_CHANNEL \<or>
     (ch \<in> set FALLBACK_CHANNELS \<and> row_channel r = ''anthropic_api'')))"

definition priced_ok :: "priced_inference \<Rightarrow> bool" where
  "priced_ok p = (valid_figure (figure p) \<and> basis (figure p) \<noteq> INVOICE \<and>
     (case unpriced_reason p of
        None \<Rightarrow> sums_lines p \<and> list_all good_line (lines p)
      | Some why \<Rightarrow> lines p = [] \<and> nano (figure p) = None \<and> exact_nano p = 0 \<and> estimated_fig p = None))"

definition wit_row :: rate_row where
  "wit_row = \<lparr>row_id = ''r1'', row_provider = ''anthropic'', row_channel = ''anthropic_api'', row_model = ''m'',
     aliases = [''m-latest''], generation = ''4'', effective_from = ''2024-01-01'', effective_to = None,
     input_usd_per_mtok = mkdec False 3 0, output_usd_per_mtok = mkdec False 15 0,
     cache_read_mult = Some (mkdec False 1 (-1)), cache_write_5m_mult = Some (mkdec False 125 (-2)),
     cache_write_1h_mult = Some (mkdec False 2 0), cache_write_other_mult = None, min_cacheable_tokens = None,
     tokenizer_family = ''t'', per_request_usd = [(''web_search'', mkdec False 1 (-2))],
     long_context_threshold = None, long_context_usd_per_mtok = [], supports = [], enabled = True,
     verified_on = ''2024-01-01'', promotion = None\<rparr>"

definition wit_layer :: rate_layer where
  "wit_layer = \<lparr>layer_name = ''builtin:x'', rows = [wit_row], modifiers = [
     \<lparr>modifier_id = ''b'', mod_kind = ''multiply'', factor = Some (mkdec False 5 (-1)), base_usd_per_mtok = [],
      applies_to = [''*''], mod_when = [(''service_tier'', ''batch'')], stacking = ''documented''\<rparr>]\<rparr>"

definition wit_ctx :: pricing_context where
  "wit_ctx = \<lparr>ctx_provider = ''anthropic'', ctx_channel = ''anthropic_api'', ctx_model = ''m'', ctx_model_raw = ''m'',
     service_tier = ''batch'', speed = ''standard'', inference_geo = None, endpoint_scope = ''global'', write_ttl_hint = None,
     billing_path = ''api_key'', routing = ''direct'', compliance = None, context_tier = None\<rparr>"

definition wit_card :: rate_card where
  "wit_card = \<lparr>card_layers = [wit_layer], contract = None, card_basis = LIST,
     ranked = [(''builtin'', [((''anthropic_api'', ''m''), [wit_row]), ((''anthropic_api'', ''m-latest''), [wit_row])])],
     rows_by_id = [(''r1'', wit_row, ''builtin'')], card_modifiers = modifiers wit_layer, scope_mods = [],
     card_overrides = []\<rparr>"

definition wit_rates :: scoped_rates where
  "wit_rates = \<lparr>rr_row_id = ''r1'', rr_channel = ''anthropic_api'', rr_model = ''m'',
     rr_input = mkdec False 15 (-1), rr_output = mkdec False 75 (-1), rr_cache_read = Some (mkdec False 15 (-2)),
     rr_cache_write_5m = Some (mkdec False 1875 (-3)), rr_cache_write_1h = Some (mkdec False 30 (-1)),
     rr_cache_write_other = None, per_request = [(''web_search'', mkdec False 1 (-2))], modifier_ids = [''b''],
     stacking_assumed = False, rr_layer = ''builtin'', rr_min_cacheable_tokens = None, rr_tokenizer_family = ''t'',
     long_context_band = False, scope_range = None\<rparr>"

definition fits :: "int \<Rightarrow> dec \<Rightarrow> bool" where
  "fits q r = (ndig (nat \<bar>q\<bar>) + ndig (coef r) \<le> 60 \<and> \<bar>expo r\<bar> \<le> 1000)"

text \<open>The per-request prices of a row under the contract, whatever the token prices.\<close>

definition prices_from :: "rate_card \<Rightarrow> rate_row \<Rightarrow> pricing_context \<Rightarrow> string \<Rightarrow> (string, dec) dict \<Rightarrow> bool" where
  "prices_from c row ctx date pr =
     (let pr0 = fold (\<lambda>(k, v) d. dset k v d) (per_request_usd row) [] in
      if contract_applies c ctx date
      then \<exists>con rs x. contract c = Some con \<and> pr = snd x \<and>
        apply_contract con (dget (card_overrides c) (row_model row) []) rs pr0 = Inr x
      else pr = pr0)"

definition web_fits :: "int \<Rightarrow> 'a resolved_rates_scheme \<Rightarrow> bool" where
  "web_fits q r = (case map_of (per_request r) ''web_search'' of None \<Rightarrow> True | Some w \<Rightarrow> fits q w)"

text \<open>What the two caches memoise. The second cache's key names the row by id; with the context and the
  date in the key the row is the one found for them.\<close>

definition found_for :: "rate_card \<Rightarrow> string \<times> string \<times> string \<Rightarrow> found res" where
  "found_for c key = (case key of (ch, m, date) \<Rightarrow> Inr (find_uncached c ch m date))"

definition rates_for :: "rate_card \<Rightarrow> string \<times> string \<times> pricing_context \<times> string \<times> bool \<Rightarrow> scoped_rates res" where
  "rates_for c key = (case key of (rid, kind, ctx, date, band) \<Rightarrow>
     (case find_uncached c (ctx_channel ctx) (ctx_model ctx) date of
        (Some row, k, _) \<Rightarrow> rates_uncached c row k ctx date band
      | (None, _, _) \<Rightarrow> Inl KeyError))"

definition card_state0 :: card_state where
  "card_state0 = \<lparr>find_cache = [], rates_cache = [], used = []\<rparr>"

text \<open>What a total relies on: a priced inference splits into an exact part and an estimated part.\<close>

definition splits :: "priced_inference \<Rightarrow> bool" where
  "splits p = (basis (figure p) \<noteq> INVOICE \<and> valid_figure (figure p) \<and>
     (case nano (figure p) of
        None \<Rightarrow> True
      | Some n \<Rightarrow>
         (case estimated_fig p of
            None \<Rightarrow> n = exact_nano p
          | Some e \<Rightarrow> valid_figure e \<and> low_nano e \<noteq> None \<and> nano e = Some (n - exact_nano p))))"

definition le_ok :: "list_equivalent_sum \<Rightarrow> bool" where
  "le_ok s = (le_low s \<le> le_point s \<and> le_point s \<le> le_high s \<and> (le_n s = 0 \<longrightarrow> le_point s = 0) \<and> 0 \<le> le_n s)"

definition inf_tokens :: "inference \<Rightarrow> int" where
  "inf_tokens i = (if billable i = Some False then 0 else total_input (usage i) + u_output (usage i))"

definition counted :: "(inference \<times> int) list \<Rightarrow> int" where
  "counted items = int (length (filter (\<lambda>it. billable (fst it) \<noteq> Some False) items))"

definition acc_ok :: "total_acc \<Rightarrow> bool" where
  "acc_ok a = (t_low a \<le> t_point a \<and> t_point a \<le> t_high a \<and> (\<not> t_has_est a \<longrightarrow> t_point a = 0) \<and>
     le_ok (t_allowance a) \<and> le_ok (t_pool a) \<and> INVOICE \<notin> set (t_bases a) \<and>
     0 \<le> t_unpriced_tokens a \<and> t_unpriced_tokens a \<le> t_all_tokens a)"

definition acc_sum :: "total_acc \<Rightarrow> int" where
  "acc_sum a = t_exact a + t_point a + le_point (t_allowance a) + le_point (t_pool a)"

definition fig0 :: "figure option \<Rightarrow> int" where
  "fig0 f = (case f of None \<Rightarrow> 0 | Some x \<Rightarrow> or0 (nano x))"

definition wit_inference :: "bool option \<Rightarrow> inference" where
  "wit_inference b = \<lparr>inference_id = ''i'', inf_kind = IkMessage, usage = wit_usage, pricing = wit_ctx, usage_src = UsFinal,
     billable = b, billing_rule_id = None, output_upper = None, provider_reported_cost_nano = None,
     provider_reported_cost_basis = None\<rparr>"

definition wit_items :: "(inference \<times> int) list" where
  "wit_items = [(wit_inference (Some True), 1750000000000), (wit_inference None, 1750000000000), (wit_inference (Some False), 0)]"

lemma dval_sint: "dval d = of_int (sint_of d) * 10 powi (expo d)"
  by (simp add: dval_def sint_of_def)

lemma line_nano_rounds: "rounds_half_even (of_int t * dval r * 10 ^ 3) (line_nano t r)"
proof -
  have "of_int (t * sint_of r) * (10::rat) powi (9 - (6 - expo r)) = of_int t * dval r * 10 ^ 3"
    by (simp add: dval_sint powi10_add powi10_nat algebra_simps power_int_add)
  then show ?thesis
    using scaled_to_nano_half_even [of "t * sint_of r" "6 - expo r"] unfolding line_nano_def by metis
qed

lemma nn_dval: "nn d \<longleftrightarrow> 0 \<le> dval d"
  using dval_sign [of d] dval_zero_iff [of d] by (cases "sign d") (auto simp: nn_def)

lemma rounds_nonneg: "rounds_half_even x k \<Longrightarrow> 0 \<le> x \<Longrightarrow> 0 \<le> k"
  using rounds_half_even_mono [of 0 0 x k] rounds_half_even_of_int [of 0] by simp

lemma line_nano_nonneg: "0 \<le> t \<Longrightarrow> nn r \<Longrightarrow> 0 \<le> line_nano t r"
  using rounds_nonneg [OF line_nano_rounds [of t r]] by (simp add: nn_dval)

lemma line_nano_mono:
  assumes "0 \<le> t" "t \<le> t'" "0 \<le> dval r" "dval r \<le> dval r'"
  shows "line_nano t r \<le> line_nano t' r'"
proof (rule rounds_half_even_mono [OF line_nano_rounds line_nano_rounds])
  show "of_int t * dval r * 10 ^ 3 \<le> of_int t' * dval r' * 10 ^ 3"
    using assms by (intro mult_right_mono mult_mono) auto
qed

lemma amount_nonneg:
  assumes "amount pr q r = Inr k" "0 \<le> q" "nn r"
  shows "0 \<le> k"
proof (cases pr)
  case True
  with assms(1) obtain d where d: "dec_mul EXACT_CTX (dec_of_int q) r = Inr d"
    and k: "decimal_to_int_half_even d 9 = Inr k"
    by (auto simp: amount_def res_simps decimal_to_nano_def finite_or_def)
  have "0 \<le> dval d * 10 powi 9"
    using dec_mul_exact [OF d] assms(2,3) by (simp add: nn_dval)
  then show ?thesis using decimal_to_int_half_even_rounds [OF k] rounds_nonneg by blast
next
  case False
  with assms show ?thesis by (auto simp: amount_def line_nano_nonneg)
qed

text \<open>The integer pricing of a line is the decimal reference: for every token count and rate of at
  most 60 digits together, \<open>_line_nano\<close> returns what \<open>token_nano\<close> returns, and \<open>token_nano\<close> returns.\<close>

theorem line_nano_is_token_nano:
  assumes "ndig (nat \<bar>t\<bar>) + ndig (coef r) \<le> 60" "\<bar>expo r\<bar> \<le> 1000"
  shows "token_nano t (Finite r) [] = Inr (line_nano t r)"
proof -
  obtain k where k: "token_nano t (Finite r) [] = Inr k"
    using token_nano_total [of t r "[]"] assms by auto
  then show ?thesis
    using rounds_half_even_unique [OF line_nano_rounds [of t r]] token_nano_rounds [OF k] by simp
qed

theorem line_nano_is_token_nano_witness:
  "token_nano 12345 (Finite (mkdec False 375 (-2))) [] = Inr (line_nano 12345 (mkdec False 375 (-2)))"
  by (rule line_nano_is_token_nano) (simp_all add: ndig.simps)

subsection \<open>Lines\<close>

lemma line_range_sound:
  assumes "0 \<le> p" "case rng of None \<Rightarrow> True | Some (lo, hi) \<Rightarrow> 0 \<le> lo \<and> lo \<le> hi"
    and "line_range env p rng = (x, rng')"
  shows "0 \<le> x \<and> (case rng' of None \<Rightarrow> True | Some (lo, hi) \<Rightarrow> 0 \<le> lo \<and> lo \<le> x \<and> x \<le> hi)"
  using assms unfolding line_range_def Let_def by (auto split: option.splits prod.splits if_splits)

lemma emit_good:
  assumes "0 \<le> q" "nn r"
    and "case rg of None \<Rightarrow> True | Some ((lq, lr), (hq, hr)) \<Rightarrow> 0 \<le> lq \<and> nn lr \<and> 0 \<le> hq \<and> nn hr"
  shows "rsat good_line (emit env b q r rg pr)"
proof -
  have am: "0 \<le> q \<Longrightarrow> nn r \<Longrightarrow> rsat (\<lambda>k. 0 \<le> k) (amount pr q r)" for q r
    by (rule rsatI) (rule amount_nonneg)
  have rg: "rsat (\<lambda>rng. case rng of None \<Rightarrow> True | Some (lo, hi) \<Rightarrow> 0 \<le> lo \<and> lo \<le> hi)
      (case rg of None \<Rightarrow> Inr None | Some ((lq, lr), (hq, hr)) \<Rightarrow>
         rbind (amount pr lq lr) (\<lambda>x. rbind (amount pr hq hr) (\<lambda>y. Inr (Some (min x y, max x y)))))"
    using assms(3) by (auto split: option.splits prod.splits intro!: rsat_bind [OF am])
  show ?thesis
    unfolding emit_def
  proof (rule rsat_bind [OF am [OF assms(1,2)]], rule rsat_bind [OF rg])
    fix p :: int and rng :: "(int \<times> int) option"
    assume p: "0 \<le> p" "case rng of None \<Rightarrow> True | Some (lo, hi) \<Rightarrow> 0 \<le> lo \<and> lo \<le> hi"
    obtain x rng' where x: "line_range env p rng = (x, rng')" by fastforce
    show "rsat good_line (case line_range env p rng of (point, rng') \<Rightarrow>
       Inr \<lparr>bucket = b, quantity = q, unit_usd_per_mtok = dec_str r, amount_nano = point,
          line_low = map_option fst rng', line_high = map_option snd rng', line_exact = (rng' = None),
          rate_row_id = rr_row_id (env_rates env), line_modifier_ids = modifier_ids (env_rates env),
          line_layer = rr_layer (env_rates env)\<rparr>)"
      using line_range_sound [OF p x] unfolding x
      by (cases rng') (auto simp: good_line_def wf_line_def line_lo_def)
  qed
qed

lemma effective_rate_nn: "nn_rates r \<Longrightarrow> rsat nn (effective_rate r b)"
  by (auto simp: effective_rate_def nn_rates_def first_some_def nn_opt_def split: if_splits option.splits)

lemmas good_intros = rsat_bind [OF emit_good] rsat_bind [OF effective_rate_nn]

lemma good_bucket_line:
  "nn_env env \<Longrightarrow> 0 \<le> snd bq \<Longrightarrow> rsat (list_all good_line \<circ> fst) (bucket_line env fo bq)"
  by (auto simp: bucket_line_def nn_env_def split: prod.splits option.splits intro!: good_intros)

lemma good_unknown_line:
  assumes "nn_env env" "0 \<le> q"
  shows "rsat (list_all good_line \<circ> fst) (unknown_line env fo ctx q)"
proof -
  have high: "rsat nn (case scope_range (env_rates env) of Some h \<Rightarrow> effective_rate h b | None \<Rightarrow> effective_rate (env_rates env) b)" for b
    using assms(1) by (auto simp: nn_env_def effective_rate_nn split: option.splits)
  show ?thesis
    using assms unfolding unknown_line_def Let_def
    by (auto simp: nn_env_def effective_rate_nn intro!: good_intros rsat_bind [OF high]
        intro: rsat_bind [where P = nn])
qed

lemma good_output_line: "nn_env env \<Longrightarrow> 0 \<le> q \<Longrightarrow> rsat (list_all good_line \<circ> fst) (output_line env q up)"
  by (auto simp: output_line_def nn_env_def nn_rates_def Let_def
      split: option.splits intro!: good_intros)

lemma list_all_dget: "list_all (P \<circ> snd) d \<Longrightarrow> P z \<Longrightarrow> P (dget d k z)"
  by (induction d) (auto simp: dget_def)

lemma nn_map_of: "list_all (nn \<circ> snd) d \<Longrightarrow> map_of d k = Some v \<Longrightarrow> nn v"
  by (induction d) (auto split: if_splits)

lemma good_web_line: "nn_env env \<Longrightarrow> 0 \<le> q \<Longrightarrow> rsat (list_all good_line \<circ> fst) (web_line env q)"
  by (auto simp: web_line_def nn_env_def nn_rates_def Let_def
      split: option.splits intro!: good_intros list_all_dget [where P = nn] dest: nn_map_of)

lemma lines_good:
  assumes "nn_rates r" "case scope_range r of None \<Rightarrow> True | Some h \<Rightarrow> nn_rates h"
    and q: "list_all (\<lambda>bq. 0 \<le> snd bq) (qty_of u)" "0 \<le> cache_write_unknown u" "0 \<le> u_output u" "0 \<le> web_search_requests u"
  shows "rsat (list_all good_line \<circ> fst) (lines_of brs u ctx r bi src upper)"
proof -
  define env where "env pe = \<lparr>env_rates = r, env_billable = bi, env_source = src, env_partial_exact = pe\<rparr>" for pe
  have env: "nn_env (env pe)" for pe
    using assms(1,2) by (simp add: nn_env_def env_def)
  have bs: "rsat (list_all (list_all good_line \<circ> fst)) (rmap (bucket_line (env pe) fo) (qty_of u))" for pe fo
    using q(1) by (intro rsat_rmap good_bucket_line [OF env]) (auto simp: list_all_iff)
  show ?thesis
    unfolding lines_of_def Let_def env_def [symmetric] prod.case_eq_if
    by (rule rsat_bind [OF bs] rsat_bind [OF good_unknown_line [OF env q(2)]]
        rsat_bind [OF good_output_line [OF env q(3)]] rsat_bind [OF good_web_line [OF env q(4)]])+
      (auto simp: list_all_iff)
qed

subsection \<open>Figures of a priced usage\<close>

lemma sum_ranges:
  assumes "list_all wf_line ls"
  shows "sum_list (map (\<lambda>l. or0 (line_low l)) (filter (\<lambda>l. \<not> line_exact l) ls)) \<le>
           sum_list (map amount_nano (filter (\<lambda>l. \<not> line_exact l) ls))"
    and "sum_list (map amount_nano (filter (\<lambda>l. \<not> line_exact l) ls)) \<le>
           sum_list (map (\<lambda>l. or0 (line_high l)) (filter (\<lambda>l. \<not> line_exact l) ls))"
    and "sum_list (map line_lo ls) = sum_list (map amount_nano (filter line_exact ls)) +
           sum_list (map (\<lambda>l. or0 (line_low l)) (filter (\<lambda>l. \<not> line_exact l) ls))"
    and "sum_list (map line_hi ls) = sum_list (map amount_nano (filter line_exact ls)) +
           sum_list (map (\<lambda>l. or0 (line_high l)) (filter (\<lambda>l. \<not> line_exact l) ls))"
    and "sum_list (map amount_nano ls) = sum_list (map amount_nano (filter line_exact ls)) +
           sum_list (map amount_nano (filter (\<lambda>l. \<not> line_exact l) ls))"
  using assms by (induction ls) (auto simp: wf_line_def line_lo_def line_hi_def or0_def split: option.splits)

lemma exact_figure_ok:
  "\<exists>f. exact_figure n b prov nt = Inr f \<and> valid_figure f \<and> nano f = Some n \<and> evidence f = EXACT \<and> basis f = b \<and>
     low_nano f = None \<and> high_nano f = None"
  unfolding exact_figure_def by (simp add: mk_figure_valid valid_figure_iff)

lemma ranged_figure_ok:
  assumes "lo \<le> n" "n \<le> hi" "nt \<noteq> ''''" "b \<noteq> INVOICE"
  shows "\<exists>f. ranged_figure n lo hi b prov nt = Inr f \<and> valid_figure f \<and> nano f = Some n \<and> evidence f = ESTIMATED \<and>
     basis f = b \<and> low_nano f = Some lo \<and> high_nano f = Some hi"
  unfolding ranged_figure_def using assms by (simp add: mk_figure_valid valid_figure_iff)

lemma assemble_sums:
  assumes wf: "list_all wf_line ls" and b: "b \<noteq> INVOICE"
  shows "\<exists>p. assemble ls b prov nt = Inr p \<and> lines p = ls \<and> unpriced_reason p = None \<and>
     basis (figure p) = b \<and> sums_lines p"
proof (cases "filter (\<lambda>l. \<not> line_exact l) ls = []")
  case True
  then have all: "list_all line_exact ls" and f: "filter line_exact ls = ls"
    by (auto simp: list_all_iff filter_empty_conv)
  have "line_lo l = amount_nano l \<and> line_hi l = amount_nano l" if "l \<in> set ls" for l
    using wf all that by (fastforce simp: list_all_iff wf_line_def line_lo_def line_hi_def split: option.splits)
  then have eq: "map line_lo ls = map amount_nano ls" "map line_hi ls = map amount_nano ls"
    by simp_all
  obtain fg where "exact_figure (sum_list (map amount_nano ls)) b prov nt = Inr fg" "valid_figure fg"
    "nano fg = Some (sum_list (map amount_nano ls))" "evidence fg = EXACT" "basis fg = b" "low_nano fg = None" "high_nano fg = None"
    using exact_figure_ok by blast
  with True all show ?thesis
    by (simp add: assemble_def sums_lines_def f bounds_def eq or0_def)
next
  case False
  then have na: "\<not> list_all line_exact ls" by (auto simp: list_all_iff filter_empty_conv)
  define ex pt lo hi where d: "ex = sum_list (map amount_nano (filter line_exact ls))"
    "pt = sum_list (map amount_nano (filter (\<lambda>l. \<not> line_exact l) ls))"
    "lo = sum_list (map (\<lambda>l. or0 (line_low l)) (filter (\<lambda>l. \<not> line_exact l) ls))"
    "hi = sum_list (map (\<lambda>l. or0 (line_high l)) (filter (\<lambda>l. \<not> line_exact l) ls))"
  define tx where "tx = (if nt = '''' then ''range lines'' else nt)"
  then have tx: "tx \<noteq> ''''" by simp
  note sr = sum_ranges [OF wf, folded d]
  obtain e where e: "ranged_figure pt lo hi b prov tx = Inr e" "valid_figure e" "nano e = Some pt" "basis e = b" "low_nano e = Some lo"
    using ranged_figure_ok [OF sr(1,2) tx b] by blast
  obtain fg where "ranged_figure (ex + pt) (ex + lo) (ex + hi) b prov tx = Inr fg" "valid_figure fg"
    "nano fg = Some (ex + pt)" "evidence fg = ESTIMATED" "basis fg = b" "low_nano fg = Some (ex + lo)" "high_nano fg = Some (ex + hi)"
    using ranged_figure_ok [of "ex + lo" "ex + pt" "ex + hi" tx b] sr(1,2) b tx by auto
  with e False na sr(3-5) show ?thesis
    by (simp add: assemble_def sums_lines_def bounds_def Let_def d [symmetric] tx_def [symmetric])
qed

subsection \<open>Resolved rates are non-negative\<close>

lemma list_all_fold_dset:
  "list_all P ys \<Longrightarrow> list_all P d \<Longrightarrow> list_all P (fold (\<lambda>(k, v) d. dset k v d) ys d)"
  by (induction ys arbitrary: d) (auto intro!: list_all_dset)

lemma dec_mul_nn: "nn a \<Longrightarrow> nn b \<Longrightarrow> rsat nn (dec_mul EXACT_CTX a b)"
  by (rule rsatI) (auto simp: nn_dval dest!: dec_mul_exact)

lemma opt_mul_nn: "nn a \<Longrightarrow> nn_opt m \<Longrightarrow> rsat nn_opt (opt_mul a m)"
  by (auto simp: opt_mul_def nn_opt_def split: option.splits intro!: rsat_bind [OF dec_mul_nn])

lemma list_all_price_of: "list_all (nn_opt \<circ> snd) rs \<Longrightarrow> nn_opt (price_of rs k)"
  unfolding price_of_def dget_def by (induction rs) (auto simp: nn_opt_def)

lemma price_of_Some_nn: "list_all (nn_opt \<circ> snd) rs \<Longrightarrow> price_of rs k = Some x \<Longrightarrow> nn x"
  using list_all_price_of [of rs k] by (simp add: nn_opt_def)

lemma scale_prices_nn:
  "list_all (nn_opt \<circ> snd) rs \<Longrightarrow> nn f \<Longrightarrow> rsat (list_all (nn_opt \<circ> snd)) (scale_prices sel f rs)"
  unfolding scale_prices_def
  by (rule rsat_rmap) (force simp: list_all_iff nn_opt_def split: option.splits intro!: rsat_bind [OF dec_mul_nn])

lemma base_step_nn:
  "list_all nn_modifier ms \<Longrightarrow> nn i \<Longrightarrow> nn p \<Longrightarrow>
   nn (fst (foldl base_step (i, p, ids, a) ms)) \<and> nn (fst (snd (foldl base_step (i, p, ids, a) ms)))"
  by (induction ms arbitrary: i p ids a) (simp_all add: base_step_def nn_modifier_def list_all_dget [where P = nn])

lemma mult_step_nn:
  assumes "nn_modifier m" "list_all (nn_opt \<circ> snd) (fst st)"
  shows "rsat (list_all (nn_opt \<circ> snd) \<circ> fst) (mult_step st m)"
proof -
  have any: "rsat (\<lambda>_. True) (rmap key_of_bucket bs)" for bs by (rule rsatI) simp
  show ?thesis
    using assms
    by (auto simp: mult_step_def nn_modifier_def nn_opt_def split: prod.splits option.splits
        intro!: rsat_bind [OF any] rsat_bind [OF scale_prices_nn])
qed

lemma band_step_nn: "nn (snd bv) \<Longrightarrow> list_all (nn_opt \<circ> snd) rs \<Longrightarrow> rsat (list_all (nn_opt \<circ> snd)) (band_step rs bv)"
  by (auto simp: band_step_def key_of_bucket_def nn_opt_def split: prod.splits option.splits intro!: list_all_dset)

lemma override_step_nn:
  assumes "nn (snd bv)" "list_all (nn_opt \<circ> snd) (fst st)" "list_all (nn \<circ> snd) (fst (snd st))"
  shows "rsat (\<lambda>st. list_all (nn_opt \<circ> snd) (fst st) \<and> list_all (nn \<circ> snd) (fst (snd st))) (override_step st bv)"
  using assms
  by (auto simp: override_step_def key_of_bucket_def nn_opt_def split: prod.splits option.splits intro!: list_all_dset)

lemma apply_contract_nn:
  assumes "nn_opt (multiplier con)" "list_all (nn \<circ> snd) ov" "list_all (nn_opt \<circ> snd) rs" "list_all (nn \<circ> snd) pr"
  shows "rsat (\<lambda>(rs, pr). list_all (nn_opt \<circ> snd) rs \<and> list_all (nn \<circ> snd) pr) (apply_contract con ov rs pr)"
proof -
  have 1: "rsat (\<lambda>st. list_all (nn_opt \<circ> snd) (fst st) \<and> list_all (nn \<circ> snd) (fst (snd st)))
      (rfold override_step (rs, pr, []) ov)"
    by (rule rsat_rfold) (use assms in \<open>simp_all add: override_step_nn list_all_iff [of _ ov]\<close>)
  have 2: "rsat (list_all (nn \<circ> snd)) (rmap (\<lambda>(n, v). if P n then Inr (n, v)
       else rbind (dec_mul EXACT_CTX v m) (\<lambda>p. Inr (n, p))) pr)" if "list_all (nn \<circ> snd) pr" "nn m" for P m and pr :: "(string \<times> dec) list"
    by (rule rsat_rmap) (use that in \<open>force simp: list_all_iff intro!: rsat_bind [OF dec_mul_nn]\<close>)
  show ?thesis
    unfolding apply_contract_def
    by (rule rsat_bind [OF 1])
      (use assms(1) in \<open>auto simp: nn_opt_def split: option.splits prod.splits intro!: rsat_bind [OF scale_prices_nn] rsat_bind [OF 2]\<close>)
qed

lemma contract_part_nn:
  assumes c: "nn_card c" and row: "nn_row row" and rs: "list_all (nn_opt \<circ> snd) rs"
  shows "rsat (\<lambda>(rs, pr, _). list_all (nn_opt \<circ> snd) rs \<and> list_all (nn \<circ> snd) pr)
     (if contract_applies c ctx date then
        (case contract c of
           Some con \<Rightarrow> rbind (apply_contract con (dget (card_overrides c) (row_model row) []) rs
              (fold (\<lambda>(k, v) d. dset k v d) (per_request_usd row) [])) (\<lambda>(rs3, pr).
              Inr (rs3, pr, ''contract'', ids @ [''contract:'' @ con_name con]))
         | None \<Rightarrow> Inl AssertionError)
      else Inr (rs, fold (\<lambda>(k, v) d. dset k v d) (per_request_usd row) [], RESOLVED_LAYER kind, ids))"
proof -
  have pr: "list_all (nn \<circ> snd) (fold (\<lambda>(k, v) d. dset k v d) (per_request_usd row) [])"
    using row by (intro list_all_fold_dset) (auto simp: nn_row_def)
  have ov: "list_all (nn \<circ> snd) (dget (card_overrides c) k [])" for k
    using c by (auto simp: nn_card_def intro: list_all_dget)
  show ?thesis
    using rs pr ov c
    by (auto simp: nn_card_def split: option.splits intro!: rsat_bind [OF apply_contract_nn])
qed

lemma build_nn:
  assumes c: "nn_card c" and row: "nn_row row"
  shows "rsat nn_rates (build c row kind ctx date scope band)"
proof -
  define ap where "ap = filter (\<lambda>m. matches m row ctx (Some scope)) (card_modifiers c)"
  have ap: "list_all nn_modifier ap" using c by (auto simp: ap_def nn_card_def list_all_iff)
  obtain inp out ids as where f: "foldl base_step (input_usd_per_mtok row, output_usd_per_mtok row, [], False) ap
     = (inp, out, ids, as)" by (metis prod_cases4)
  have io: "nn inp" "nn out"
    using base_step_nn [OF ap, of "input_usd_per_mtok row" "output_usd_per_mtok row" "[]" False] row
    by (auto simp: f nn_row_def)
  have band: "rsat (list_all (nn_opt \<circ> snd)) (if band then rfold band_step rs (long_context_usd_per_mtok row) else Inr rs)"
    if "list_all (nn_opt \<circ> snd) rs" for rs
    using that row by (auto simp: nn_row_def list_all_iff [of _ "long_context_usd_per_mtok row"]
        intro!: rsat_rfold band_step_nn)
  have mods: "rsat (list_all (nn_opt \<circ> snd) \<circ> fst) (rfold mult_step (rs, ids, as) ap)"
    if "list_all (nn_opt \<circ> snd) rs" for rs
    using that ap by (intro rsat_rfold) (auto simp: list_all_iff [of _ ap] intro!: mult_step_nn)
  have pr_sorted: "list_all (nn \<circ> snd) xs \<Longrightarrow> list_all (nn \<circ> snd) (sort_key fst xs)" for xs :: "(string \<times> dec) list"
    by (simp add: list_all_iff)
  have mults: "nn_opt (cache_read_mult row)" "nn_opt (cache_write_5m_mult row)" "nn_opt (cache_write_1h_mult row)"
    "nn_opt (cache_write_other_mult row)" using row by (auto simp: nn_row_def)
  show ?thesis
    unfolding build_def Let_def ap_def [symmetric] f prod.case
    apply (rule rsat_bind [OF opt_mul_nn [OF io(1) mults(1)]])
    apply (rule rsat_bind [OF opt_mul_nn [OF io(1) mults(2)]])
    apply (rule rsat_bind [OF opt_mul_nn [OF io(1) mults(3)]])
    apply (rule rsat_bind [OF opt_mul_nn [OF io(1) mults(4)]])
    apply (rule rsat_bind [OF band], use io in \<open>simp add: nn_opt_def\<close>)
    apply (rule rsat_bind [OF mods], assumption)
    apply (clarsimp split del: if_split)
    apply (rule rsat_bind [OF contract_part_nn [OF c row]], assumption)
    by (auto simp: nn_rates_def pr_sorted list_all_price_of split: option.splits dest: price_of_Some_nn)
qed

subsection \<open>Which row is found\<close>

lemma dappend_all:
  assumes "list_all (\<lambda>(k, vs). \<forall>v \<in> set vs. Q k v) d" "Q k x"
  shows "list_all (\<lambda>(k, vs). \<forall>v \<in> set vs. Q k v) (dappend k x d)"
proof -
  have "\<forall>v \<in> set (dget d k []). Q k v"
    using assms(1) by (auto simp: dget_def list_all_iff split: option.splits dest!: map_of_SomeD [OF sym])
  then show ?thesis
    unfolding dappend_def using assms by (intro list_all_dset) auto
qed

lemma fold_dappend_all:
  assumes "list_all (\<lambda>(k, x). Q k x) ys" "list_all (\<lambda>(k, vs). \<forall>v \<in> set vs. Q k v) d"
  shows "list_all (\<lambda>(k, vs). \<forall>v \<in> set vs. Q k v) (fold (\<lambda>(k, r) d. dappend k r d) ys d)"
  using assms by (induction ys arbitrary: d) (auto intro!: dappend_all)

lemma index_rows_all:
  "list_all (\<lambda>(key, rs). \<forall>r \<in> set rs. r \<in> set rws \<and> row_channel r = fst key \<and> names_row (snd key) r) (index_rows rws)"
proof -
  let ?Q = "\<lambda>key r. r \<in> set rws \<and> row_channel r = fst key \<and> names_row (snd key) r"
  have "list_all (\<lambda>(k, vs). \<forall>v \<in> set vs. ?Q k v)
      (fold (\<lambda>(k, r) d. dappend k r d)
        (concat (map (\<lambda>r. map (\<lambda>name. ((row_channel r, name), r)) (uniq (row_model r # aliases r))) rws)) [])"
    by (rule fold_dappend_all) (auto simp: list_all_iff uniq_def names_row_def)
  then show ?thesis
    unfolding index_rows_def by (auto simp: list_all_iff)
qed

lemma rank_layers_set: "set (rank_layers ls) = set ls"
proof -
  have "snd ` set (enumerate 0 ls) = set ls" by (metis list.set_map map_snd_enumerate)
  then show ?thesis by (simp add: rank_layers_def)
qed

lemma mk_rate_card_fields:
  assumes "mk_rate_card ls con = Inr c"
  shows "ranked c = map (\<lambda>l. (layer_kind l, index_rows (rows l))) (rank_layers ls)"
    "set (card_modifiers c) \<subseteq> (\<Union>l \<in> set ls. set (modifiers l))" "contract c = con"
    "rfold add_override [] (case con of None \<Rightarrow> [] | Some x \<Rightarrow> overrides x) = Inr (card_overrides c)"
proof -
  have 1: "list_all (\<lambda>(k, m). m \<in> set ms) (fold (\<lambda>m d. dsetdefault (modifier_id m) m d) ms' d)"
    if "set ms' \<subseteq> set ms" "list_all (\<lambda>(k, m). m \<in> set ms) d" for ms ms' :: "modifier list" and d
    using that by (induction ms' arbitrary: d) (simp_all add: dsetdefault_def split: option.split)
  have *: "set (map snd (sort_key fst (fold (\<lambda>m d. dsetdefault (modifier_id m) m d) ms []))) \<subseteq> set ms" for ms :: "modifier list"
    using 1 [of ms ms "[]"] by (auto simp: list_all_iff)
  from assms show "ranked c = map (\<lambda>l. (layer_kind l, index_rows (rows l))) (rank_layers ls)" "contract c = con"
    "rfold add_override [] (case con of None \<Rightarrow> [] | Some x \<Rightarrow> overrides x) = Inr (card_overrides c)"
    "set (card_modifiers c) \<subseteq> (\<Union>l \<in> set ls. set (modifiers l))"
    using * [of "concat (map modifiers (rank_layers ls))"]
    by (auto simp: mk_rate_card_def res_simps Let_def rank_layers_set split: if_splits)
qed

lemma candidates_mem:
  assumes "(k, rs) \<in> set (candidates c ch m)"
  shows "\<exists>ix key. (k, ix) \<in> set (ranked c) \<and> (key, rs) \<in> set ix \<and> snd key = m \<and> fst key \<in> {ch, WILDCARD_CHANNEL}"
proof -
  from assms obtain ix key where "(k, ix) \<in> set (ranked c)" "map_of ix key = Some rs"
    "key = (ch, m) \<or> key = (WILDCARD_CHANNEL, m)"
    by (auto simp: candidates_def split: option.splits if_splits)
  then show ?thesis by (fastforce dest: map_of_SomeD)
qed

lemma find_SomeD: "List.find P xs = Some x \<Longrightarrow> x \<in> set xs \<and> P x"
  by (induction xs) (auto split: if_splits)

lemma find_uncached_cases:
  obtains (found) k r rs where "find_uncached c ch m date = (Some r, k, None)" "enabled r" "in_effect r date" "r \<in> set rs"
      "(k, rs) \<in> set (candidates c ch m) \<or> ch \<in> set FALLBACK_CHANNELS \<and> (k, rs) \<in> set (candidates c ''anthropic_api'' m)"
  | (absent) k why where "find_uncached c ch m date = (None, k, Some why)" "why \<in> fst ` set UNPRICED_REASONS"
proof -
  define cs where "cs = (if candidates c ch m = [] \<and> ch \<in> set FALLBACK_CHANNELS
     then candidates c ''anthropic_api'' m else candidates c ch m)"
  define every where "every = concat (map (\<lambda>(k, rs). map (\<lambda>r. (k, r)) rs) cs)"
  define hit where "hit = List.find (\<lambda>(k, r). in_effect r date) every"
  note d = find_uncached_def [of c ch m date, unfolded Let_def, folded cs_def, folded every_def, folded hit_def]
  show thesis
  proof (cases "m \<noteq> '''' \<and> (\<exists>k r. hit = Some (k, r) \<and> enabled r)")
    case True
    then obtain k r where f: "hit = Some (k, r)" and r: "enabled r" and m: "m \<noteq> ''''"
      by blast
    have mem: "(k, r) \<in> set every" and ie: "in_effect r date"
      using find_SomeD [OF f [unfolded hit_def]] by auto
    from mem obtain e rest where ev: "every = e # rest" by (cases every) auto
    have "find_uncached c ch m date = (Some r, k, None)"
      unfolding d using m f r by (simp add: ev split: prod.split)
    moreover obtain rs where "(k, rs) \<in> set cs" "r \<in> set rs" using mem by (auto simp: every_def)
    ultimately show thesis using ie r by (intro found) (auto simp: cs_def split: if_splits)
  next
    case False
    then have "\<exists>k why. find_uncached c ch m date = (None, k, Some why) \<and> why \<in> fst ` set UNPRICED_REASONS"
      unfolding d by (auto simp: UNPRICED_REASONS_def split: list.split option.split prod.split)
    then show thesis using absent by blast
  qed
qed

lemma find_uncached_nn: "nn_card c \<Longrightarrow> find_uncached c ch m date = (Some r, k, why) \<Longrightarrow> nn_row r"
  by (cases rule: find_uncached_cases [of c ch m date])
    (fastforce simp: nn_card_def list_all_iff dest!: candidates_mem)+

lemma rates_uncached_nn: "nn_card c \<Longrightarrow> nn_row row \<Longrightarrow> rsat nn_scoped (rates_uncached c row kind ctx date band)"
  unfolding rates_uncached_def
  by (auto intro!: rsat_bind [OF build_nn] simp: nn_scoped_def nn_rates_def with_range_def resolved_rates.defs)

lemma resolve_full_nn:
  assumes "nn_card c"
  shows "rsat (\<lambda>(r, why, row). case r of Some x \<Rightarrow> nn_scoped x \<and> row \<noteq> None \<and> why = None | None \<Rightarrow> why \<in> Some ` fst ` set UNPRICED_REASONS \<and> row = None)
     (resolve_full c ctx ts tot band)"
proof (rule rsatI, clarify)
  fix r why row assume r: "resolve_full c ctx ts tot band = Inr (r, why, row)"
  then obtain date where d: "date_of ts = Inr date" by (auto simp: resolve_full_def res_simps)
  show "case r of Some x \<Rightarrow> nn_scoped x \<and> row \<noteq> None \<and> why = None
      | None \<Rightarrow> why \<in> Some ` fst ` set UNPRICED_REASONS \<and> row = None"
  proof (cases rule: find_uncached_cases [of c "ctx_channel ctx" "ctx_model ctx" date])
    case (found k row' rs)
    then have "nn_row row'" using find_uncached_nn [OF assms] by blast
    with found r d show ?thesis
      using rates_uncached_nn [OF assms, of row' k ctx date "band_of row' tot band"]
      by (auto simp: resolve_full_def res_simps)
  next
    case (absent k w)
    with r d show ?thesis by (auto simp: resolve_full_def res_simps)
  qed
qed

subsection \<open>Pricing a usage\<close>

lemma hypothesis_range_good: "good_line a \<Longrightarrow> good_line b \<Longrightarrow> good_line (hypothesis_range a b)"
  by (auto simp: good_line_def wf_line_def line_lo_def hypothesis_range_def Let_def split: option.splits)

lemma zip_good:
  assumes "list_all good_line xs" "list_all good_line ys"
  shows "list_all good_line (map (\<lambda>(x, y). hypothesis_range x y) (zip xs ys))"
  using assms by (auto simp: list_all_iff intro!: hypothesis_range_good dest: set_zip_leftD set_zip_rightD)

lemma basis_of_not_invoice: "basis_of ctx r \<noteq> INVOICE"
  by (auto simp: basis_of_def split: option.splits)

lemma assemble_ok:
  assumes "list_all good_line ls" "b \<noteq> INVOICE"
  shows "rsat priced_ok (assemble ls b prov nt)"
proof -
  have "list_all wf_line ls" using assms(1) by (auto simp: good_line_def list_all_iff)
  from assemble_sums [OF this assms(2)] obtain p where "assemble ls b prov nt = Inr p" "lines p = ls"
    "unpriced_reason p = None" "basis (figure p) = b" "sums_lines p" by blast
  with assms show ?thesis by (simp add: priced_ok_def) (simp add: sums_lines_def)
qed

lemma usage_nonneg:
  assumes "valid_usage u"
  shows "list_all (\<lambda>bq. 0 \<le> snd bq) (qty_of u)" "0 \<le> cache_write_unknown u" "0 \<le> u_output u" "0 \<le> web_search_requests u"
  using assms by (auto simp: valid_usage_iff count_ok_iff qty_of_def)

lemma unpriced_ok: "rsat (\<lambda>f. valid_figure f \<and> nano f = None \<and> basis f = b) (unpriced why b)"
  by (rule rsatI) (auto simp: unpriced_def mk_figure_valid)

lemma exact_zero_ok: "rsat (\<lambda>f. valid_figure f \<and> nano f = Some n \<and> evidence f = EXACT \<and> low_nano f = None \<and> high_nano f = None \<and> basis f = b)
     (exact n b prov fin)"
  by (rule rsatI) (auto simp: exact_def mk_figure_valid)

lemma band_lines_good:
  assumes c: "nn_card c" and u: "valid_usage u" and ls: "list_all good_line (fst lsn)"
  shows "rsat (list_all good_line \<circ> fst) (band_lines c brs u ctx ts bi src upper rw lsn)"
proof -
  have lg: "rsat (list_all good_line \<circ> fst) (lines_of brs u ctx r bi src upper)" if "nn_scoped r" for r
    by (rule lines_good) (use that usage_nonneg [OF u] in \<open>auto simp: nn_scoped_def\<close>)
  have z: "rsat (list_all good_line \<circ> fst) (rbind (zip_strict ls als) (\<lambda>zs.
       Inr (map (\<lambda>(x, y). hypothesis_range x y) zs, nts)))"
    if "list_all good_line ls" "list_all good_line als" for ls als and nts :: "string list"
    using zip_good [OF that] by (simp add: zip_strict_def)
  show ?thesis
    using ls unfolding band_lines_def
    by (auto split: prod.splits option.splits intro!: rsat_bind [OF resolve_full_nn [OF c]] rsat_bind [OF lg] z)
qed

lemma price_usage_ok:
  assumes c: "nn_card c" and u: "valid_usage u"
  shows "rsat priced_ok (price_usage c brs u ctx ts bi src upper)"
proof -
  have lg: "rsat (list_all good_line \<circ> fst) (lines_of brs u ctx r bi src upper)" if "nn_scoped r" for r
    by (rule lines_good) (use that usage_nonneg [OF u] in \<open>auto simp: nn_scoped_def\<close>)
  have priced: "rsat priced_ok (rbind (lines_of brs u ctx r bi src upper) (\<lambda>lsn.
           rbind (band_lines c brs u ctx ts bi src upper rw lsn) (\<lambda>(ls, nts).
           assemble ls (basis_of ctx x) prov (f ls nts))))" if "nn_scoped r" for r rw x prov f
    by (rule rsat_bind [OF lg [OF that]], rule rsat_bind [OF band_lines_good [OF c u]])
      (auto intro!: assemble_ok basis_of_not_invoice)
  have zero: "rsat priced_ok (rbind (exact 0 b [] FinalityNA) (\<lambda>f. Inr (unpriced_inference f None)))" if "b \<noteq> INVOICE" for b
    by (rule rsat_bind [OF exact_zero_ok])
      (use that in \<open>simp add: priced_ok_def sums_lines_def unpriced_inference_def bounds_def or0_def\<close>)
  have none: "rsat priced_ok (rbind (unpriced why b) (\<lambda>f. Inr (unpriced_inference f (Some why))))" if "b \<noteq> INVOICE" for why b
    by (rule rsat_bind [OF unpriced_ok]) (use that in \<open>simp add: priced_ok_def unpriced_inference_def\<close>)
  have guard: "rsat (\<lambda>_. True) x" for x :: "unit res" by (rule rsatI) simp
  show ?thesis
    unfolding price_usage_def Let_def
    apply (rule rsat_bind [OF guard], rule rsat_bind [OF resolve_full_nn [OF c]], clarify)
    subgoal for r why row by (cases r; cases row; simp add: priced zero none basis_of_not_invoice)
    done
qed

lemma nn_card_of_layers:
  assumes "mk_rate_card ls con = Inr c" "list_all nn_layer ls" "case con of None \<Rightarrow> True | Some x \<Rightarrow> nn_contract x"
  shows "nn_card c"
proof -
  note f = mk_rate_card_fields [OF assms(1)]
  have "\<forall>(k, ix) \<in> set (ranked c). \<forall>(key, rs) \<in> set ix. \<forall>r \<in> set rs. nn_row r"
    using assms(2) index_rows_all by (fastforce simp: f(1) rank_layers_set nn_layer_def list_all_iff)
  moreover have "\<forall>m \<in> set (card_modifiers c). nn_modifier m"
    using f(2) assms(2) by (fastforce simp: nn_layer_def list_all_iff)
  moreover have "rsat (list_all (list_all (nn \<circ> snd) \<circ> snd)) (rfold add_override [] (case con of None \<Rightarrow> [] | Some x \<Rightarrow> overrides x))"
  proof (rule rsat_rfold)
    fix ov :: "(string, (string, dec) dict) dict" and mb :: "string \<times> (string \<times> dec) list"
    assume ov: "list_all (list_all (nn \<circ> snd) \<circ> snd) ov"
      and mb: "mb \<in> set (case con of None \<Rightarrow> [] | Some x \<Rightarrow> overrides x)"
    then have b: "nn v" if "(k, v) \<in> set (snd mb)" for k v
      using assms(3) that by (fastforce simp: nn_contract_def list_all_iff split: option.splits)
    have t: "rsat (list_all (nn \<circ> snd)) (rfold (\<lambda>t (b, v). if b \<noteq> ''web_search'' \<and> map_of BUCKET_TO_KEY b = None
        then Inl PricingError else Inr (dset b v t)) (dget ov key []) (snd mb))" for key
    proof (rule rsat_rfold)
      show "list_all (nn \<circ> snd) (dget ov key [])" using ov by (rule list_all_dget) simp
      show "rsat (list_all (nn \<circ> snd)) ((\<lambda>(b, v). if b \<noteq> ''web_search'' \<and> map_of BUCKET_TO_KEY b = None
        then Inl PricingError else Inr (dset b v t)) x)" if "list_all (nn \<circ> snd) t" "x \<in> set (snd mb)" for t x
        using that(1) b [of "fst x" "snd x"] that(2) by (simp add: case_prod_beta list_all_dset)
    qed
    show "rsat (list_all (list_all (nn \<circ> snd) \<circ> snd)) (add_override ov mb)"
      unfolding add_override_def Let_def prod.case_eq_if
      by (rule rsat_bind [OF t [unfolded prod.case_eq_if]]) (use ov in \<open>simp add: list_all_dset\<close>)
  qed simp
  ultimately show ?thesis
    using f(3,4) assms(3) by (auto simp: nn_card_def list_all_iff nn_contract_def split: option.splits)
qed

lemma wit_date: "date_of 1750000000000 = Inr ''2025-06-15''"
  by code_simp

lemma wit_card_built: "mk_rate_card [wit_layer] None = Inr wit_card"
  by code_simp

lemma wit_found: "find_uncached wit_card ''anthropic_api'' ''m'' ''2025-06-15'' = (Some wit_row, ''builtin'', None)"
  by code_simp

lemmas eval_build = rates_uncached_def build_def Let_def matches_def when_ok_def base_step_def opt_mul_def mult_step_def
  scale_prices_def contract_applies_def price_of_def PRICE_KEYS_def RESOLVED_LAYER_def with_range_def
  resolved_rates.defs dget_def dset_def

lemma dec_mul_mkdec:
  assumes "c * c' < 10 ^ 60" "\<bar>e + e'\<bar> \<le> 999000"
  shows "dec_mul EXACT_CTX (mkdec s c e) (mkdec s' c' e') = Inr (mkdec (s \<noteq> s') (c * c') (e + e'))"
  unfolding dec_mul_def using assms by (simp, intro dec_fix_fits) (auto simp: EXACT_CTX_def ndig_le_iff)

lemma wit_rates_built: "rates_uncached wit_card wit_row ''builtin'' wit_ctx ''2025-06-15'' False = Inr wit_rates"
  by (simp add: eval_build wit_card_def wit_layer_def wit_row_def wit_ctx_def wit_rates_def dec_mul_mkdec)

lemma wit_fields [simp]: "ctx_channel wit_ctx = ''anthropic_api''" "ctx_model wit_ctx = ''m''" "long_context_threshold wit_row = None"
  by (simp_all add: wit_ctx_def wit_row_def)

lemma wit_resolved: "resolve_full wit_card wit_ctx 1750000000000 tot None = Inr (Some wit_rates, None, Some wit_row)"
  by (simp add: resolve_full_def wit_date band_of_def wit_found wit_rates_built)

subsection \<open>Pricing returns\<close>

lemma amount_returns: "\<not> pr \<or> fits q r \<Longrightarrow> returns (amount pr q r)"
proof (cases pr)
  case True
  assume "\<not> pr \<or> fits q r"
  with True have f: "ndig (nat \<bar>q\<bar>) + ndig (coef r) \<le> 60" "\<bar>expo r\<bar> \<le> 1000" by (auto simp: fits_def)
  define d where "d = mkdec ((q < 0) \<noteq> sign r) (nat \<bar>q\<bar> * coef r) (expo r)"
  have d: "dec_mul EXACT_CTX (dec_of_int q) r = Inr d"
    using f dec_mul_fits [of "dec_of_int q" r] by (simp add: d_def dec_of_int_def)
  have "ndig (coef d) \<le> 60" using f(1) ndig_mult [of "nat \<bar>q\<bar>" "coef r"] by (simp add: d_def)
  then have "MIN_ETINY \<le> expo d + 9" "adjusted d + 9 < MAX_NANO_EXP"
    using f(2) by (simp_all add: d_def adjusted_def MIN_ETINY_def MAX_NANO_EXP_def)
  then show ?thesis
    using decimal_to_int_half_even_total [of d 9] True
    by (auto simp: amount_def d decimal_to_nano_def finite_or_def returns_iff)
qed (simp add: amount_def)

lemma emit_returns:
  assumes "\<not> pr \<or> fits q r" "case rg of None \<Rightarrow> True | Some ((lq, lr), (hq, hr)) \<Rightarrow> \<not> pr \<or> fits lq lr \<and> fits hq hr"
  shows "returns (emit env b q r rg pr)"
  using assms unfolding emit_def
  by (auto intro!: returns_bind amount_returns split: option.splits prod.splits)

lemma effective_rate_returns: "b \<in> fst ` set (qty_of u) \<Longrightarrow> returns (effective_rate r b)"
  by (auto simp: effective_rate_def qty_of_def)

lemma bucket_line_returns: "bq \<in> set (qty_of u) \<Longrightarrow> returns (bucket_line env fo bq)"
  by (auto simp: bucket_line_def intro!: returns_bind emit_returns effective_rate_returns [of _ u]
      split: prod.splits option.splits) force+

lemma effective_rate_write [simp]:
  "returns (effective_rate r ''cache_write_5m'')"
  "returns (effective_rate r ''cache_write_1h'')"
  by (simp_all add: effective_rate_def)

lemma unknown_line_returns: "returns (unknown_line env fo ctx q)"
  by (auto simp: unknown_line_def Let_def intro!: returns_bind emit_returns split: option.splits)

lemma output_line_returns: "returns (output_line env q up)"
  by (auto simp: output_line_def Let_def intro!: returns_bind emit_returns split: option.splits)

lemma web_line_returns:
  assumes "web_fits q (env_rates env)" "case scope_range (env_rates env) of None \<Rightarrow> True | Some h \<Rightarrow> web_fits q h"
  shows "returns (web_line env q)"
  using assms by (auto simp: web_line_def Let_def web_fits_def dget_def intro!: returns_bind emit_returns split: option.splits)

lemma lines_returns:
  assumes "web_fits (web_search_requests u) r" "case scope_range r of None \<Rightarrow> True | Some h \<Rightarrow> web_fits (web_search_requests u) h"
  shows "returns (lines_of brs u ctx r bi src upper)"
  unfolding lines_of_def Let_def prod.case_eq_if
  by (intro returns_bind returns_rmap bucket_line_returns unknown_line_returns output_line_returns web_line_returns returns_Inr)
    (use assms in auto)

subsection \<open>Both context bands of a row\<close>

lemma override_step_prices:
  assumes "override_step (rs, pr, ov) x = Inr (rs1, pr1, ov1)" "override_step (rs', pr, ov) x = Inr (rs2, pr2, ov2)"
  shows "pr1 = pr2 \<and> ov1 = ov2"
  using assms by (cases x) (auto simp: override_step_def res_simps split: if_splits)

lemma override_run_prices:
  assumes "rfold override_step (rs, pr, ov) xs = Inr (rs1, pr1, ov1)" "rfold override_step (rs', pr, ov) xs = Inr (rs2, pr2, ov2)"
  shows "pr1 = pr2 \<and> ov1 = ov2"
  using assms
proof (induction xs arbitrary: rs rs' pr ov)
  case (Cons x xs)
  obtain a p q a' p' q' where st: "override_step (rs, pr, ov) x = Inr (a, p, q)" "override_step (rs', pr, ov) x = Inr (a', p', q')"
    "rfold override_step (a, p, q) xs = Inr (rs1, pr1, ov1)" "rfold override_step (a', p', q') xs = Inr (rs2, pr2, ov2)"
    using Cons.prems by (auto simp: res_simps)
  have "p = p' \<and> q = q'" using override_step_prices [OF st(1,2)] .
  then show ?case using Cons.IH st(3,4) by blast
qed simp

lemma apply_contract_prices:
  assumes "apply_contract con ov rs pr = Inr x" "apply_contract con ov rs' pr = Inr y"
  shows "snd x = snd y"
proof -
  obtain a p q a' p' q' where st: "rfold override_step (rs, pr, []) ov = Inr (a, p, q)" "rfold override_step (rs', pr, []) ov = Inr (a', p', q')"
    using assms by (auto simp: apply_contract_def res_simps split: prod.splits)
  have "p = p' \<and> q = q'" using override_run_prices [OF st] .
  then show ?thesis using assms st by (cases "multiplier con") (auto simp: apply_contract_def res_simps)
qed

text \<open>The per-request prices of a row depend neither on the endpoint scope nor on the context band.\<close>

lemma prices_from_unique:
  assumes "prices_from c row ctx date p" "prices_from c row ctx date q"
  shows "p = q"
proof (cases "contract_applies c ctx date")
  case True
  then obtain con rs x rs' y where "p = snd x" "q = snd y"
      "apply_contract con (dget (card_overrides c) (row_model row) []) rs (fold (\<lambda>(k, v) d. dset k v d) (per_request_usd row) []) = Inr x"
      "apply_contract con (dget (card_overrides c) (row_model row) []) rs' (fold (\<lambda>(k, v) d. dset k v d) (per_request_usd row) []) = Inr y"
    using assms by (auto simp: prices_from_def Let_def)
  then show ?thesis using apply_contract_prices by metis
qed (use assms in \<open>simp add: prices_from_def\<close>)

lemma build_prices:
  "rsat (\<lambda>r. \<exists>pr. prices_from c row ctx date pr \<and> per_request r = sort_key fst pr) (build c row kind ctx date scope band)"
proof -
  define ap where "ap = filter (\<lambda>m. matches m row ctx (Some scope)) (card_modifiers c)"
  obtain inp out ids as where f: "foldl base_step (input_usd_per_mtok row, output_usd_per_mtok row, [], False) ap
     = (inp, out, ids, as)" by (metis prod_cases4)
  show ?thesis
    unfolding build_def Let_def ap_def [symmetric] f prod.case
    apply (rule rsat_bind [OF rsat_any])
    apply (rule rsat_bind [OF rsat_any])
    apply (rule rsat_bind [OF rsat_any])
    apply (rule rsat_bind [OF rsat_any])
    apply (rule rsat_bind [OF rsat_any])
    apply (rule rsat_bind [OF rsat_any])
    apply (clarsimp split del: if_split)
    apply (rule rsat_bind [where P = "\<lambda>(rs3, pr, layer, ids'). prices_from c row ctx date pr"])
     apply (rule rsatI, auto simp: prices_from_def Let_def res_simps split: option.splits if_splits)[1]
    by (auto split: option.splits)
qed

lemma build_per_request:
  assumes "build c row k ctx d s b = Inr r" "build c row k ctx d s' b' = Inr r'"
  shows "per_request r = per_request r'"
proof -
  obtain p q where "prices_from c row ctx d p" "per_request r = sort_key fst p"
      "prices_from c row ctx d q" "per_request r' = sort_key fst q"
    using rsatD [OF build_prices assms(1)] rsatD [OF build_prices assms(2)] by blast
  then show ?thesis using prices_from_unique by metis
qed

lemma rates_per_request:
  assumes "rates_uncached c row k ctx d b = Inr r" "rates_uncached c row k ctx d b' = Inr r'"
  shows "per_request r = per_request r' \<and> map_option per_request (scope_range r) = map_option per_request (scope_range r')"
proof (cases "endpoint_scope ctx = ''unknown'' \<and> scope_priced c row ctx")
  case True
  then obtain g h g' h' where b: "build c row k ctx d ''global'' b = Inr g" "build c row k ctx d ''regional'' b = Inr h"
      "build c row k ctx d ''global'' b' = Inr g'" "build c row k ctx d ''regional'' b' = Inr h'"
      "r = with_range g (Some h)" "r' = with_range g' (Some h')"
    using assms by (auto simp: rates_uncached_def res_simps)
  then show ?thesis using build_per_request [OF b(1,3)] build_per_request [OF b(2,4)]
    by (simp add: with_range_def resolved_rates.defs)
next
  case False
  then obtain g g' where b: "build c row k ctx d (endpoint_scope ctx) b = Inr g" "build c row k ctx d (endpoint_scope ctx) b' = Inr g'"
      "r = with_range g None" "r' = with_range g' None"
    using assms by (auto simp: rates_uncached_def res_simps)
  then show ?thesis using build_per_request [OF b(1,2)] by (simp add: with_range_def resolved_rates.defs)
qed

lemma resolve_both_bands:
  assumes "resolve_full c ctx ts tot b = Inr (Some r, w, Some row)" "resolve_full c ctx ts tot b' = Inr x"
  shows "\<exists>r' w' row'. x = (Some r', w', row') \<and> per_request r = per_request r' \<and>
    map_option per_request (scope_range r) = map_option per_request (scope_range r')"
proof -
  obtain date where dt: "date_of ts = Inr date" using assms(1) by (auto simp: resolve_full_def res_simps)
  obtain o1 kind y where fd: "find_uncached c (ctx_channel ctx) (ctx_model ctx) date = (o1, kind, y)" by (metis prod_cases3)
  have "o1 = Some row" using assms(1) by (cases o1) (auto simp: resolve_full_def dt fd res_simps)
  note fd = fd [unfolded this]
  have r1: "rates_uncached c row kind ctx date (band_of row tot b) = Inr r"
    using assms(1) by (auto simp: resolve_full_def dt fd res_simps)
  obtain r' where r2: "rates_uncached c row kind ctx date (band_of row tot b') = Inr r'" "x = (Some r', None, Some row)"
    using assms(2) by (auto simp: resolve_full_def dt fd res_simps)
  from rates_per_request [OF r1 r2(1)] r2(2) show ?thesis by simp
qed

lemma web_fits_prices: "per_request r = per_request r' \<Longrightarrow> web_fits q r = web_fits q r'" for r :: "'a resolved_rates_scheme" and r' :: "'b resolved_rates_scheme"
  by (simp add: web_fits_def)

text \<open>The lines of a usage have the same shape under rates with the same per-request prices.\<close>

lemma bucket_line_length:
  "bucket_line env fo bq = Inr x \<Longrightarrow> length (fst x) = (if snd bq = 0 then 0 else 1)"
  by (auto simp: bucket_line_def res_simps split: prod.splits if_splits option.splits)

lemma bucket_lines_length:
  "rmap (bucket_line env fo) bqs = Inr xs \<Longrightarrow> length (concat (map fst xs)) = length (filter (\<lambda>bq. snd bq \<noteq> 0) bqs)"
  by (induction bqs arbitrary: xs) (auto simp: res_simps dest!: bucket_line_length)

lemma unknown_line_length: "unknown_line env fo ctx q = Inr x \<Longrightarrow> length (fst x) = (if q = 0 then 0 else 1)"
  by (auto simp: unknown_line_def Let_def res_simps split: if_splits)

lemma output_line_length: "output_line env q up = Inr x \<Longrightarrow>
    length (fst x) = (if (env_source env = UsMessageStartOnly \<and> (case up of Some u \<Rightarrow> u \<noteq> 0 | None \<Rightarrow> False)) \<or> q \<noteq> 0 then 1 else 0)"
  by (auto simp: output_line_def Let_def res_simps split: if_splits option.splits)

lemma web_line_length: "web_line env q = Inr x \<Longrightarrow>
    length (fst x) = (if map_of (per_request (env_rates env)) ''web_search'' = None \<or> q = 0 then 0 else 1)"
  by (auto simp: web_line_def Let_def res_simps split: if_splits option.splits)

lemma lines_same_length:
  assumes "lines_of brs u ctx r bi src upper = Inr x" "lines_of brs u ctx r' bi src upper = Inr y"
    and "per_request r = per_request r'"
  shows "length (fst x) = length (fst y)"
proof -
  obtain pe n0 where pr: "partial_rule brs ctx src = (pe, n0)" by force
  have len: "length (fst z) = length (filter (\<lambda>bq. snd bq \<noteq> 0) (qty_of u)) + (if cache_write_unknown u = 0 then 0 else 1) +
      (if (src = UsMessageStartOnly \<and> (case upper of Some u \<Rightarrow> u \<noteq> 0 | None \<Rightarrow> False)) \<or> u_output u \<noteq> 0 then 1 else 0) +
      (if map_of (per_request s) ''web_search'' = None \<or> web_search_requests u = 0 then 0 else 1)"
    if z: "lines_of brs u ctx s bi src upper = Inr z" for z and s :: scoped_rates
  proof -
    define env where "env = \<lparr>env_rates = s, env_billable = bi, env_source = src, env_partial_exact = pe\<rparr>"
    define fo where "fo = writes_folded ctx s"
    obtain bs un ou we where p: "rmap (bucket_line env fo) (qty_of u) = Inr bs"
        "unknown_line env fo ctx (cache_write_unknown u) = Inr un" "output_line env (u_output u) upper = Inr ou"
        "web_line env (web_search_requests u) = Inr we" "fst z = concat (map fst (bs @ [un, ou, we]))"
      using z by (auto simp: lines_of_def pr env_def [symmetric] fo_def [symmetric] Let_def res_simps)
    show ?thesis
      using bucket_lines_length [OF p(1)] unknown_line_length [OF p(2)] output_line_length [OF p(3)] web_line_length [OF p(4)]
      by (simp add: p(5) env_def)
  qed
  show ?thesis using len [OF assms(1)] len [OF assms(2)] assms(3) by simp
qed

lemma band_lines_return:
  assumes "nn_card c" "valid_usage u" "resolve_full c ctx ts (total_input u) None = Inr (Some r, w, Some rw)"
    and "case band_b rw ctx (total_input u) of None \<Rightarrow> True | Some b \<Rightarrow> returns (resolve_full c ctx ts (total_input u) (Some b))"
    and "web_fits (web_search_requests u) r" "case scope_range r of None \<Rightarrow> True | Some h \<Rightarrow> web_fits (web_search_requests u) h"
    and "lines_of brs u ctx r bi src upper = Inr lsn"
  shows "returns (band_lines c brs u ctx ts bi src upper rw lsn)"
proof (cases "band_b rw ctx (total_input u)")
  case None
  then show ?thesis by (cases lsn) (simp add: band_lines_def)
next
  case (Some b)
  then obtain x where "resolve_full c ctx ts (total_input u) (Some b) = Inr x" using assms(4) by (auto simp: returns_iff)
  then obtain r' w' row' where r': "resolve_full c ctx ts (total_input u) (Some b) = Inr (Some r', w', row')"
      "per_request r = per_request r'" "map_option per_request (scope_range r) = map_option per_request (scope_range r')"
    using resolve_both_bands [OF assms(3)] by blast
  have "web_fits (web_search_requests u) r'" using assms(5) web_fits_prices [OF r'(2)] by simp
  moreover have "case scope_range r' of None \<Rightarrow> True | Some h \<Rightarrow> web_fits (web_search_requests u) h"
    using assms(6) r'(3) by (cases "scope_range r"; cases "scope_range r'") (auto simp: web_fits_def)
  ultimately obtain als where als: "lines_of brs u ctx r' bi src upper = Inr als"
    using lines_returns [of u r' brs ctx bi src upper] by (auto simp: returns_iff)
  have "length (fst lsn) = length (fst als)" using lines_same_length [OF assms(7) als r'(2)] .
  then show ?thesis using Some r'(1) als
    by (cases lsn; cases als) (simp add: band_lines_def zip_strict_def)
qed

lemma price_usage_resolved_returns:
  assumes "resolve_full c ctx ts (total_input u) None = Inr (Some r, None, Some rw)"
    and "case upper of Some x \<Rightarrow> 0 \<le> x | None \<Rightarrow> True"
    and "case band_b rw ctx (total_input u) of None \<Rightarrow> True | Some b \<Rightarrow> returns (resolve_full c ctx ts (total_input u) (Some b))"
    and "nn_card c" "valid_usage u"
    and "web_fits (web_search_requests u) r" "case scope_range r of None \<Rightarrow> True | Some h \<Rightarrow> web_fits (web_search_requests u) h"
  shows "\<exists>p. price_usage c brs u ctx ts bi src upper = Inr p \<and> unpriced_reason p = None"
proof -
  obtain lsn where l: "lines_of brs u ctx r bi src upper = Inr lsn"
    using lines_returns [OF assms(6,7)] by (fastforce simp: returns_iff)
  obtain ls nts where b: "band_lines c brs u ctx ts bi src upper rw lsn = Inr (ls, nts)"
    using band_lines_return [OF assms(4,5,1,3,6,7) l] by (auto simp: returns_iff)
  have "nn_scoped r" using resolve_full_nn [OF assms(4), of ctx ts "total_input u" None] assms(1) by simp
  then have "rsat (list_all good_line \<circ> fst) (lines_of brs u ctx r bi src upper)"
    by (intro lines_good) (use usage_nonneg [OF assms(5)] in \<open>auto simp: nn_scoped_def\<close>)
  then have "list_all good_line (fst lsn)" by (simp add: l)
  then have "list_all good_line ls" using rsatD [OF band_lines_good [OF assms(4,5)] b] by simp
  then have "list_all wf_line ls" by (auto simp: list_all_iff good_line_def)
  moreover have "price_usage c brs u ctx ts bi src upper =
     assemble ls (basis_of ctx (Some r)) (rr_row_id r # modifier_ids r) (join ''; '' (uniq (nts @ web_note u ls)))"
    using assms(1,2) b by (simp add: price_usage_def l)
  ultimately show ?thesis using assemble_sums [OF _ basis_of_not_invoice] by metis
qed


text \<open>C1: Pricing one usage over a card built from layers and a contract with non-negative rates: when its rates
  resolve, in both context bands where the two Copilot band hypotheses differ, and the per-request prices fit the
  exact context, pricing returns; its figure satisfies the construction rules and is the sum of its lines, EXACT
  exactly when every line is exact, its range is the sum of the line ranges, and every line is well formed with a
  non-negative amount inside its range.\<close>

theorem price_usage_sums_lines:
  assumes "mk_rate_card ls con = Inr c" "list_all nn_layer ls" "case con of None \<Rightarrow> True | Some x \<Rightarrow> nn_contract x"
    and "valid_usage u" "case upper of Some x \<Rightarrow> 0 \<le> x | None \<Rightarrow> True"
    and "resolve_full c ctx ts (total_input u) None = Inr (Some r, None, Some rw)" "case band_b rw ctx (total_input u) of None \<Rightarrow> True | Some b \<Rightarrow> returns (resolve_full c ctx ts (total_input u) (Some b))"
    and "web_fits (web_search_requests u) r" "case scope_range r of None \<Rightarrow> True | Some h \<Rightarrow> web_fits (web_search_requests u) h"
  shows "\<exists>p. price_usage c brs u ctx ts bi src upper = Inr p \<and> unpriced_reason p = None \<and>
     sums_lines p \<and> list_all good_line (lines p)"
proof -
  have c: "nn_card c" by (rule nn_card_of_layers [OF assms(1-3)])
  obtain p where p: "price_usage c brs u ctx ts bi src upper = Inr p" "unpriced_reason p = None"
    using price_usage_resolved_returns [OF assms(6,5,7) c assms(4,8,9)] by blast
  then have "priced_ok p" using price_usage_ok [OF c assms(4), of brs ctx ts bi src upper] by simp
  with p show ?thesis by (simp add: priced_ok_def)
qed

theorem price_usage_sums_lines_witness:
  "\<exists>p. price_usage wit_card [] wit_usage wit_ctx 1750000000000 None UsFinal None = Inr p \<and> unpriced_reason p = None \<and>
     sums_lines p \<and> list_all good_line (lines p)"
  by (rule price_usage_sums_lines [OF wit_card_built _ _ _ _ wit_resolved])
    (simp_all add: nn_layer_def nn_row_def nn_modifier_def nn_def nn_opt_def wit_layer_def wit_row_def valid_usage_iff wit_usage_def
      count_ok_iff MAX_TOKENS_def opt_ok_def web_fits_def wit_rates_def fits_def ndig.simps band_b_def COPILOT_CHANNEL_def)

lemma price_usage_consistent:
  assumes "mk_rate_card ls con = Inr c" "list_all nn_layer ls" "case con of None \<Rightarrow> True | Some x \<Rightarrow> nn_contract x"
    and "valid_usage u" "price_usage c brs u ctx ts bi src upper = Inr p"
  shows "priced_ok p"
  using price_usage_ok [OF nn_card_of_layers [OF assms(1-3)] assms(4)] assms(5) by (rule rsatD)

text \<open>The row that prices a model on a date is an enabled row of some layer that names the model or an
  alias of it on the requested channel (or the wildcard channel, or the API channel for the fallback
  channels) and is in effect on the date; when there is none, the reason is one of the documented ones.\<close>

theorem found_row_serves:
  assumes "mk_rate_card ls con = Inr c"
  shows "case find_uncached c ch m date of
      (Some r, k, why) \<Rightarrow> why = None \<and> enabled r \<and> in_effect r date \<and> serves ch m r \<and>
         (\<exists>l \<in> set ls. r \<in> set (rows l) \<and> k = layer_kind l)
    | (None, k, why) \<Rightarrow> why \<in> Some ` fst ` set UNPRICED_REASONS"
proof (cases rule: find_uncached_cases [of c ch m date])
  case (found k r rs)
  from found(5) obtain ix key where ix: "(k, ix) \<in> set (ranked c)" "(key, rs) \<in> set ix" "snd key = m"
    "fst key = ch \<or> fst key = WILDCARD_CHANNEL \<or> ch \<in> set FALLBACK_CHANNELS \<and> fst key = ''anthropic_api''"
    by (blast dest: candidates_mem)
  from ix(1) obtain l where l: "l \<in> set ls" "k = layer_kind l" "ix = index_rows (rows l)"
    by (auto simp: mk_rate_card_fields [OF assms] rank_layers_set)
  have "r \<in> set (rows l)" "row_channel r = fst key" "names_row (snd key) r"
    using index_rows_all [of "rows l"] ix(2) found(4) by (auto simp: l(3) list_all_iff)
  with found l ix(3,4) show ?thesis by (auto simp: serves_def)
next
  case (absent k why)
  then show ?thesis by simp
qed

theorem found_row_serves_witness:
  "case find_uncached wit_card ''anthropic_api'' ''m'' ''2025-06-15'' of
      (Some r, k, why) \<Rightarrow> why = None \<and> enabled r \<and> in_effect r ''2025-06-15'' \<and> serves ''anthropic_api'' ''m'' r \<and>
         (\<exists>l \<in> set [wit_layer]. r \<in> set (rows l) \<and> k = layer_kind l)
    | (None, k, why) \<Rightarrow> why \<in> Some ` fst ` set UNPRICED_REASONS"
  by (rule found_row_serves [OF wit_card_built])

subsection \<open>Memoised resolution\<close>

text \<open>
  A dictionary that memoises \<open>compute\<close> and is emptied when it reaches the limit. Both caches of the
  card are instances: the memoised value is what the computation returns for the key.
\<close>

locale bounded_memo = memo_table compute for compute :: "'k \<Rightarrow> 'v res" +
  fixes limit :: nat
  assumes limit_pos: "0 < limit"
begin

definition memo_ok :: "('k, 'v) dict \<Rightarrow> bool" where
  "memo_ok d = (length d \<le> limit \<and> sound d)"

definition put :: "'k \<Rightarrow> 'v \<Rightarrow> ('k, 'v) dict \<Rightarrow> ('k, 'v) dict" where
  "put k v d = dset k v (if limit \<le> length d then [] else d)"

lemma memo_ok_empty: "memo_ok []"
  by (simp add: memo_ok_def sound_empty)

lemma memo_ok_hit: "memo_ok d \<Longrightarrow> map_of d k = Some v \<Longrightarrow> compute k = Inr v"
  by (auto simp: memo_ok_def intro: sound_hit)

lemma memo_ok_put:
  assumes "memo_ok d" "map_of d k = None" "compute k = Inr v"
  shows "memo_ok (put k v d)"
proof -
  have "sound (put k v d)"
    unfolding put_def by (rule sound_dset) (use assms in \<open>simp_all add: memo_ok_def sound_empty\<close>)
  then show ?thesis using assms limit_pos by (auto simp: put_def memo_ok_def dset_fresh)
qed

end

interpretation fc: bounded_memo "found_for c" CACHE_LIMIT for c
  by unfold_locales (simp add: CACHE_LIMIT_def)

interpretation rc: bounded_memo "rates_for c" CACHE_LIMIT for c
  by unfold_locales (simp add: CACHE_LIMIT_def)

definition cache_ok :: "rate_card \<Rightarrow> card_state \<Rightarrow> bool" where
  "cache_ok c st = (fc.memo_ok c (find_cache st) \<and> rc.memo_ok c (rates_cache st))"

text \<open>A query that raises while it builds the rates has already stored the row it found.\<close>

inductive reachable :: "rate_card \<Rightarrow> card_state \<Rightarrow> bool" for c where
  start: "reachable c card_state0"
| query: "reachable c st \<Longrightarrow> resolve_st c st ctx ts tot band = Inr (x, st') \<Longrightarrow> reachable c st'"
| raised: "reachable c st \<Longrightarrow> resolve_st c st ctx ts tot band = Inl e \<Longrightarrow> date_of ts = Inr date \<Longrightarrow>
    find c st ctx date = (h, st') \<Longrightarrow> reachable c st'"

lemma find_transparent:
  assumes "cache_ok c st" "find c st ctx date = (h, st')"
  shows "h = find_uncached c (ctx_channel ctx) (ctx_model ctx) date" "cache_ok c st'"
proof -
  let ?k = "(ctx_channel ctx, ctx_model ctx, date)"
  have *: "h = find_uncached c (ctx_channel ctx) (ctx_model ctx) date \<and> cache_ok c st'"
  proof (cases "map_of (find_cache st) ?k")
    case None
    then have "fc.memo_ok c (fc.put ?k (find_uncached c (ctx_channel ctx) (ctx_model ctx) date) (find_cache st))"
      using assms(1) by (intro fc.memo_ok_put) (simp_all add: cache_ok_def found_for_def)
    with None assms show ?thesis
      by (auto simp: find_def Let_def cache_ok_def fc.put_def split: option.splits)
  next
    case (Some v)
    then have "found_for c ?k = Inr v" using assms(1) by (auto simp: cache_ok_def intro: fc.memo_ok_hit)
    with Some assms show ?thesis
      by (auto simp: find_def Let_def cache_ok_def found_for_def split: option.splits)
  qed
  then show "h = find_uncached c (ctx_channel ctx) (ctx_model ctx) date" "cache_ok c st'" by auto
qed

lemma rates_transparent:
  assumes "cache_ok c st" "find_uncached c (ctx_channel ctx) (ctx_model ctx) date = (Some row, kind, why)"
  shows "case rates_of c st row kind ctx date band of
       Inr (r, st') \<Rightarrow> rates_uncached c row kind ctx date band = Inr r \<and> cache_ok c st'
     | Inl e \<Rightarrow> rates_uncached c row kind ctx date band = Inl e"
proof -
  let ?k = "(row_id row, kind, ctx, date, band)"
  have comp: "rates_for c ?k = rates_uncached c row kind ctx date band"
    by (simp add: rates_for_def assms(2))
  show ?thesis
  proof (cases "map_of (rates_cache st) ?k")
    case None
    show ?thesis
    proof (cases "rates_uncached c row kind ctx date band")
      case (Inr r)
      then have "rc.memo_ok c (rc.put ?k r (rates_cache st))"
        using assms(1) None comp by (intro rc.memo_ok_put) (simp_all add: cache_ok_def)
      with None Inr assms(1) show ?thesis by (simp add: rates_of_def Let_def cache_ok_def rc.put_def)
    qed (simp add: rates_of_def Let_def None)
  next
    case (Some v)
    then have "rates_for c ?k = Inr v" using assms(1) by (auto simp: cache_ok_def intro: rc.memo_ok_hit)
    with Some comp assms(1) show ?thesis by (simp add: rates_of_def Let_def)
  qed
qed

lemma resolve_transparent:
  assumes "cache_ok c st"
  shows "case resolve_st c st ctx ts tot band of
       Inr (x, st') \<Rightarrow> resolve_full c ctx ts tot band = Inr x \<and> cache_ok c st'
     | Inl e \<Rightarrow> resolve_full c ctx ts tot band = Inl e"
proof (cases "date_of ts")
  case (Inr date)
  obtain h st1 where f: "find c st ctx date = (h, st1)" by fastforce
  note ft = find_transparent [OF assms f]
  obtain row kind why where h: "h = (row, kind, why)" by (cases h)
  have u: "find_uncached c (ctx_channel ctx) (ctx_model ctx) date = (row, kind, why)" using ft(1) h by simp
  show ?thesis
  proof (cases row)
    case None
    with f ft(2) h u Inr show ?thesis by (simp add: resolve_st_def resolve_full_def)
  next
    case (Some rw)
    with f h u Inr rates_transparent [OF ft(2), of ctx date rw kind why "band_of rw tot band"] show ?thesis
      by (auto simp: resolve_st_def resolve_full_def rbind_def split: sum.splits)
  qed
qed (simp add: resolve_st_def resolve_full_def)

lemma reachable_cache_ok: "reachable c st \<Longrightarrow> cache_ok c st"
proof (induction rule: reachable.induct)
  case start
  then show ?case by (simp add: cache_ok_def card_state0_def fc.memo_ok_empty rc.memo_ok_empty)
next
  case (query st ctx ts tot band x st')
  then show ?case using resolve_transparent [of c st ctx ts tot band] by simp
next
  case (raised st ctx ts tot band e date h st')
  then show ?case using find_transparent(2) by blast
qed

text \<open>C21: The two caches of the card never change an answer: in every state reached by a sequence of
  queries, failing ones included, each holds at most the limit of entries and the memoised resolution returns exactly what the
  plain resolution returns, errors included.\<close>

theorem memo_is_transparent:
  assumes "reachable c st"
  shows "length (find_cache st) \<le> CACHE_LIMIT \<and> length (rates_cache st) \<le> CACHE_LIMIT \<and>
    map_sum id fst (resolve_st c st ctx ts tot band) = resolve_full c ctx ts tot band"
proof -
  have ok: "cache_ok c st" by (rule reachable_cache_ok [OF assms])
  then have "length (find_cache st) \<le> CACHE_LIMIT" "length (rates_cache st) \<le> CACHE_LIMIT"
    by (simp_all add: cache_ok_def fc.memo_ok_def rc.memo_ok_def)
  then show ?thesis
    using resolve_transparent [OF ok, of ctx ts tot band] by (auto split: sum.splits prod.splits)
qed

theorem memo_is_transparent_witness:
  "\<exists>st. find_cache st \<noteq> [] \<and> reachable wit_card st \<and>
     map_sum id fst (resolve_st wit_card st wit_ctx 1750000000000 0 None) = Inr (Some wit_rates, None, Some wit_row)"
proof -
  define st where "st = (case resolve_st wit_card card_state0 wit_ctx 1750000000000 0 None of Inr (_, s) \<Rightarrow> s | _ \<Rightarrow> card_state0)"
  have q: "resolve_st wit_card card_state0 wit_ctx 1750000000000 0 None = Inr ((Some wit_rates, None, Some wit_row), st)"
    and "find_cache st \<noteq> []"
    by (simp_all add: st_def resolve_st_def wit_date find_def card_state0_def wit_found rates_of_def Let_def band_of_def
        wit_rates_built dset_fresh)
  then have "reachable wit_card st" using reachable.query [OF reachable.start q] by blast
  then show ?thesis
    using memo_is_transparent [of wit_card st wit_ctx 1750000000000 0 None] wit_resolved \<open>find_cache st \<noteq> []\<close> by auto
qed

subsection \<open>Unit rates\<close>














subsection \<open>Totals\<close>

lemma le_add_ok:
  assumes "le_ok s" "valid_figure f" "nano f = Some n"
  shows "le_ok (le_add s f)" "le_point (le_add s f) = le_point s + n"
  using assms by (auto simp: le_ok_def le_add_def valid_figure_iff Let_def or0_def split: option.splits)

lemma le_figure_ok:
  assumes "le_ok s"
  shows "\<exists>f. le_figure s = Inr f \<and> fig0 f = le_point s"
proof -
  have e: "\<exists>f. exact n LIST_EQUIVALENT [] FinalityNA = Inr f \<and> nano f = Some n" for n
    by (simp add: exact_def mk_figure_valid valid_figure_iff)
  show ?thesis
    using assms e [of "le_point s"] ranged_figure_ok [of "le_low s" "le_point s" "le_high s" "''range lines''" LIST_EQUIVALENT "[]"]
    by (auto simp: le_figure_def le_ok_def fig0_def or0_def)
qed

locale pricer =
  fixes price :: "inference \<Rightarrow> int \<Rightarrow> priced_inference res" and item_ok :: "inference \<Rightarrow> bool"
  assumes price_splits: "item_ok i \<Longrightarrow> price i ts = Inr p \<Longrightarrow> splits p"
    and tokens_nonneg: "item_ok i \<Longrightarrow> 0 \<le> inf_tokens i"
begin

definition money :: "inference \<times> int \<Rightarrow> int" where
  "money it = (if billable (fst it) = Some False then 0
     else case price (fst it) (snd it) of Inr p \<Rightarrow> or0 (nano (figure p)) | Inl _ \<Rightarrow> 0)"

lemma step_ok:
  assumes "acc_ok a" "item_ok i" "billable i = Some False \<or> returns (price i ts)"
  shows "\<exists>a'. total_step price a (i, ts) = Inr a' \<and> acc_ok a' \<and> acc_sum a' = acc_sum a + money (i, ts) \<and>
     t_priced a' + t_unpriced a' = t_priced a + t_unpriced a + counted [(i, ts)] \<and>
     t_all_tokens a' = t_all_tokens a + inf_tokens i"
proof (cases "billable i = Some False")
  case True
  with assms(1) show ?thesis by (simp add: total_step_def money_def counted_def inf_tokens_def)
next
  case False
  with assms(3) obtain p where p: "price i ts = Inr p" by (auto simp: returns_iff)
  have s: "splits p" by (rule price_splits [OF assms(2) p])
  have tk: "0 \<le> total_input (usage i) + u_output (usage i)"
    using tokens_nonneg [OF assms(2)] False by (simp add: inf_tokens_def)
  show ?thesis
  proof (cases "nano (figure p)")
    case None
    with False p assms(1) tk show ?thesis
      by (simp add: total_step_def Let_def acc_ok_def acc_sum_def money_def or0_def counted_def inf_tokens_def)
  next
    case (Some n)
    have v: "valid_figure (figure p)" using s by (simp add: splits_def)
    show ?thesis
    proof (cases "basis (figure p) = LIST_EQUIVALENT")
      case True
      have "le_ok (le_add (t_pool a) (figure p))" "le_ok (le_add (t_allowance a) (figure p))"
        using assms(1) le_add_ok [OF _ v Some] by (simp_all add: acc_ok_def)
      with True Some False p assms(1) tk le_add_ok(2) [OF _ v Some] show ?thesis
        by (simp add: total_step_def Let_def acc_ok_def acc_sum_def money_def or0_def counted_def inf_tokens_def)
    next
      case nle: False
      show ?thesis
      proof (cases "estimated_fig p")
        case None
        with nle Some False p assms(1) s tk show ?thesis
          by (auto simp: total_step_def Let_def acc_ok_def acc_sum_def money_def or0_def counted_def inf_tokens_def splits_def)
      next
        case (Some e)
        with \<open>nano (figure p) = Some n\<close> s have e: "valid_figure e" "nano e = Some (n - exact_nano p)" "low_nano e \<noteq> None"
          "basis (figure p) \<noteq> INVOICE" by (auto simp: splits_def)
        then have "or0 (low_nano e) \<le> n - exact_nano p" "n - exact_nano p \<le> or0 (high_nano e)"
          by (auto simp: valid_figure_iff or0_def split: option.splits)
        with nle Some \<open>nano (figure p) = Some n\<close> False p assms(1) e tk show ?thesis
          by (simp add: total_step_def Let_def acc_ok_def acc_sum_def money_def counted_def inf_tokens_def or0_def [of "Some n"])
      qed
    qed
  qed
qed

lemma fold_ok:
  assumes "acc_ok a" "\<forall>(i, ts) \<in> set items. item_ok i \<and> (billable i = Some False \<or> returns (price i ts))"
  shows "\<exists>a'. rfold (total_step price) a items = Inr a' \<and> acc_ok a' \<and>
     acc_sum a' = acc_sum a + sum_list (map money items) \<and>
     t_priced a' + t_unpriced a' = t_priced a + t_unpriced a + counted items \<and>
     t_all_tokens a' = t_all_tokens a + sum_list (map (inf_tokens \<circ> fst) items)"
  using assms
proof (induction items arbitrary: a)
  case Nil
  then show ?case by (simp add: counted_def)
next
  case (Cons it items)
  obtain i ts where it: "it = (i, ts)" by fastforce
  from Cons.prems obtain a1 where a1: "total_step price a (i, ts) = Inr a1" "acc_ok a1" "acc_sum a1 = acc_sum a + money (i, ts)"
     "t_priced a1 + t_unpriced a1 = t_priced a + t_unpriced a + counted [(i, ts)]"
     "t_all_tokens a1 = t_all_tokens a + inf_tokens i"
    using step_ok [of a i ts] by (auto simp: it)
  have "\<forall>(i, ts) \<in> set items. item_ok i \<and> (billable i = Some False \<or> returns (price i ts))"
    using Cons.prems(2) by simp
  from Cons.IH [OF a1(2) this] obtain a2 where a2: "rfold (total_step price) a1 items = Inr a2" "acc_ok a2"
     "acc_sum a2 = acc_sum a1 + sum_list (map money items)"
     "t_priced a2 + t_unpriced a2 = t_priced a1 + t_unpriced a1 + counted items"
     "t_all_tokens a2 = t_all_tokens a1 + sum_list (map (inf_tokens \<circ> fst) items)" by blast
  have c: "counted (it # items) = counted [(i, ts)] + counted items" by (simp add: counted_def it)
  show ?case
    unfolding c by (rule exI [of _ a2]) (simp add: it a1 a2 comp_def)
qed

end

lemma dec_fix_ratio_returns: "int (ndig c) + e \<le> 900000 \<Longrightarrow> returns (dec_fix RATIO_CTX s c e)"
  by (auto simp: dec_fix_def RATIO_CTX_def Let_def)

lemma prec_ratio: "prec RATIO_CTX = 28"
  by (simp add: RATIO_CTX_def)

lemma quotient_small:
  assumes "0 < den" "num \<le> den"
  shows "num * 10 ^ k div den \<le> (10 ^ k :: nat)"
  using assms by (metis div_le_mono mult.commute mult_le_mono1 nonzero_mult_div_cancel_left less_not_refl2)

lemma ratio_returns:
  assumes "0 \<le> a" "a \<le> b" "0 < b" "b < 10 ^ 60"
  shows "\<exists>d. ratio a b = Inr (Some d)"
proof -
  have nd: "ndig (nat a) \<le> 60" "ndig (nat b) \<le> 60"
    using assms by (simp_all add: ndig_le_iff nat_less_iff)
  have "returns (dec_div RATIO_CTX (dec_of_int a) (dec_of_int b))"
  proof (cases "a = 0")
    case True
    then show ?thesis using assms by (auto simp: dec_div_def dec_of_int_def Let_def ndig.simps [of 0] intro!: dec_fix_ratio_returns)
  next
    case False
    define sh where "sh = int (ndig (nat b)) - int (ndig (nat a)) + 28 + 1"
    have mono: "ndig (nat a) \<le> ndig (nat b)" using assms by (intro ndig_mono) auto
    then have sh: "0 \<le> sh" "sh \<le> 89" using nd by (auto simp: sh_def)
    define q where "q = nat a * 10 ^ nat sh div nat b"
    have q: "q \<le> 10 ^ nat sh" unfolding q_def by (rule quotient_small) (use assms in auto)
    then have ndq: "ndig x \<le> 91" if "x \<le> q + 1" for x
    proof -
      have "(10::nat) ^ nat sh \<le> 10 ^ 89" using sh by (intro power_increasing) auto
      then have "x < 10 ^ 91" using that q by simp
      then show ?thesis by (simp add: ndig_le_iff)
    qed
    have fixr: "returns (dec_fix RATIO_CTX s x e)" if "x \<le> q + 1" "e \<le> 0" for s x e
      by (rule dec_fix_ratio_returns) (use ndq [OF that(1)] that(2) in linarith)
    have strip: "case strip_zeros q (- sh) 0 of (q', e') \<Rightarrow> q' \<le> q \<and> e' \<le> 0"
      using strip_zeros_le [of q "- sh" 0] sh(1) by (cases "strip_zeros q (- sh) 0") auto
    show ?thesis
      using assms False sh(1) strip
      by (auto simp: dec_div_def dec_of_int_def Let_def prec_ratio sh_def [symmetric] q_def [symmetric] split: prod.splits
          intro!: fixr)
  qed
  then show ?thesis using assms by (auto simp: ratio_def returns_iff)
qed

lemma coverage_returns: "0 \<le> u \<Longrightarrow> u \<le> all \<Longrightarrow> all < 10 ^ 60 \<Longrightarrow> returns (coverage_of (all - u) all)"
  using ratio_returns [of "all - u" all] by (cases "all \<le> 0") (auto simp: coverage_of_def)

lemma sum_list_split: "sum_list (map f xs) = sum_list (map f (filter P xs)) + sum_list (map f (filter (\<lambda>x. \<not> P x) xs))"
  for f :: "'a \<Rightarrow> int"
  by (induction xs) auto

lemma priced_splits:
  assumes "priced_ok p"
  shows "splits p"
proof (cases "unpriced_reason p")
  case None
  have "sum_list (map amount_nano (lines p)) = sum_list (map amount_nano (filter line_exact (lines p)))"
    if "list_all line_exact (lines p)"
    using that by (metis filter_True list_all_iff)
  with None assms sum_list_split [of amount_nano "lines p" line_exact] show ?thesis
    by (auto simp: priced_ok_def splits_def sums_lines_def split: option.splits)
next
  case (Some w)
  with assms show ?thesis by (simp add: priced_ok_def splits_def)
qed

lemma price_inference_splits:
  assumes "nn_card c" "valid_usage (usage i)" "price_inference c brs i ts = Inr p"
  shows "splits p"
proof -
  from assms(3) obtain q where q: "price_usage c brs (usage i) (pricing i) ts (billable i) (usage_src i) (output_upper i) = Inr q"
    and p: "p = q\<lparr>pi_inference_id := Some (inference_id i)\<rparr>" by (auto simp: price_inference_def rbind_eq_Inr)
  have "splits q" by (rule priced_splits [OF rsatD [OF price_usage_ok [OF assms(1,2)] q]])
  then show ?thesis by (simp add: p splits_def split: option.splits)
qed

lemma price_total_finish:
  assumes fold: "rfold (total_step price) acc0 items = Inr a" and ok: "acc_ok a" and small: "t_all_tokens a < 10 ^ 60"
  shows "\<exists>t. price_total price pb items = Inr t \<and>
     or0 (nano (pt_exact t)) + fig0 (pt_estimated t) + fig0 (pt_allowance t) + fig0 (pt_pool t) = acc_sum a \<and>
     priced_inferences t + unpriced_inferences t = t_priced a + t_unpriced a"
proof -
  define b where "b = (case t_bases a of [x] \<Rightarrow> x | _ \<Rightarrow> if pb \<in> {LIST, CONTRACT} then pb else LIST)"
  define nt where "nt = (if 1 < length (t_bases a) then ''mixed bases: list and contract'' else [])"
  have b: "b \<noteq> INVOICE" using ok by (auto simp: b_def acc_ok_def split: list.splits)
  have "\<exists>est. (if t_has_est a then rbind (ranged_figure (t_point a) (t_low a) (t_high a) b [] ''range lines'')
      (\<lambda>f. Inr (Some f)) else Inr None) = Inr est \<and> fig0 est = t_point a"
  proof (cases "t_has_est a")
    case True
    have "t_low a \<le> t_point a" "t_point a \<le> t_high a" using ok by (simp_all add: acc_ok_def)
    from ranged_figure_ok [OF this _ b, of "''range lines''" "[]"] True show ?thesis
      by (auto simp: fig0_def or0_def)
  next
    case False
    with ok show ?thesis by (simp add: acc_ok_def fig0_def)
  qed
  then obtain est where est: "(if t_has_est a then rbind (ranged_figure (t_point a) (t_low a) (t_high a) b [] ''range lines'')
      (\<lambda>f. Inr (Some f)) else Inr None) = Inr est" "fig0 est = t_point a" by blast
  obtain ex where ex: "exact_figure (t_exact a) b [] nt = Inr ex" "nano ex = Some (t_exact a)"
    using exact_figure_ok by blast
  obtain al po where al: "le_figure (t_allowance a) = Inr al" "fig0 al = le_point (t_allowance a)"
    and po: "le_figure (t_pool a) = Inr po" "fig0 po = le_point (t_pool a)"
    using le_figure_ok ok by (metis acc_ok_def)
  obtain cov where cov: "coverage_of (t_all_tokens a - t_unpriced_tokens a) (t_all_tokens a) = Inr cov"
    using coverage_returns [of "t_unpriced_tokens a" "t_all_tokens a"] ok small by (auto simp: acc_ok_def returns_iff)
  have "price_total price pb items = Inr \<lparr>pt_exact = ex, pt_estimated = est, pt_allowance = al,
      priced_inferences = t_priced a, unpriced_inferences = t_unpriced a, unpriced_tokens = t_unpriced_tokens a,
      coverage = cov, pt_pool = po\<rparr>"
    unfolding price_total_def fold rbind_simps Let_def b_def [symmetric] nt_def [symmetric] est(1) ex(1) al(1) po(1) cov ..
  then show ?thesis by (simp add: est(2) ex(2) al(2) po(2) acc_sum_def or0_def)
qed

interpretation pr: pricer "price_inference c brs" "\<lambda>i. nn_card c \<and> valid_usage (usage i)" for c brs
proof
  show "0 \<le> inf_tokens i" if "nn_card c \<and> valid_usage (usage i)" for i
    using that by (auto simp: inf_tokens_def total_input_def cache_write_def valid_usage_iff count_ok_iff)
qed (blast intro: price_inference_splits)

text \<open>C7: A total loses no money and no call: when every billable call can be priced, the total is returned;
  its exact, estimated, allowance and pool parts add up to the sum of the priced figures, and every call that
  is not marked non-billable is counted as priced or unpriced.\<close>

theorem price_total_conserves:
  assumes "mk_rate_card ls con = Inr c" "list_all nn_layer ls" "case con of None \<Rightarrow> True | Some x \<Rightarrow> nn_contract x"
    and "\<forall>(i, ts) \<in> set items. valid_usage (usage i) \<and> (billable i = Some False \<or> returns (price_inference c brs i ts))"
    and "sum_list (map (inf_tokens \<circ> fst) items) < 10 ^ 60"
  shows "\<exists>t. price_total (price_inference c brs) (card_basis c) items = Inr t \<and>
     or0 (nano (pt_exact t)) + fig0 (pt_estimated t) + fig0 (pt_allowance t) + fig0 (pt_pool t) =
       (\<Sum>(i, ts) \<leftarrow> items. if billable i = Some False then 0
          else case price_inference c brs i ts of Inr p \<Rightarrow> or0 (nano (figure p)) | Inl _ \<Rightarrow> 0) \<and>
     priced_inferences t + unpriced_inferences t = int (length (filter (\<lambda>(i, ts). billable i \<noteq> Some False) items))"
proof -
  have c: "nn_card c" by (rule nn_card_of_layers [OF assms(1-3)])
  have a0: "acc_ok acc0" "acc_sum acc0 = 0" "t_priced acc0 + t_unpriced acc0 = 0" "t_all_tokens acc0 = 0"
    by (simp_all add: acc_ok_def acc0_def le_ok_def le_zero_def acc_sum_def)
  have ok: "\<forall>(i, ts) \<in> set items. (nn_card c \<and> valid_usage (usage i)) \<and> (billable i = Some False \<or> returns (price_inference c brs i ts))"
    using assms(4) c by auto
  obtain a where a: "rfold (total_step (price_inference c brs)) acc0 items = Inr a" "acc_ok a"
     "acc_sum a = sum_list (map (pr.money c brs) items)" "t_priced a + t_unpriced a = counted items"
     "t_all_tokens a = sum_list (map (inf_tokens \<circ> fst) items)"
    using pr.fold_ok [OF a0(1) ok] a0 by auto
  have "pr.money c brs = (\<lambda>(i, ts). if billable i = Some False then 0
          else case price_inference c brs i ts of Inr p \<Rightarrow> or0 (nano (figure p)) | Inl _ \<Rightarrow> 0)"
    by (auto simp: pr.money_def)
  moreover have "counted items = int (length (filter (\<lambda>(i, ts). billable i \<noteq> Some False) items))"
    by (simp add: counted_def case_prod_unfold)
  ultimately show ?thesis
    using price_total_finish [OF a(1,2), of "card_basis c"] a(3-5) assms(5) by auto
qed

lemma wit_facts:
  "list_all nn_layer [wit_layer]" "valid_usage wit_usage" "web_fits (web_search_requests wit_usage) wit_rates"
  "scope_range wit_rates = None" "band_b wit_row wit_ctx tot = None"
  by (simp_all add: nn_layer_def nn_row_def nn_modifier_def nn_def nn_opt_def wit_layer_def wit_row_def valid_usage_iff
      wit_usage_def count_ok_iff MAX_TOKENS_def opt_ok_def web_fits_def wit_rates_def fits_def ndig.simps band_b_def COPILOT_CHANNEL_def)

lemma wit_priced: "returns (price_inference wit_card [] (wit_inference b) 1750000000000)"
proof -
  have "nn_card wit_card" by (rule nn_card_of_layers [OF wit_card_built wit_facts(1)]) simp
  from price_usage_resolved_returns [OF wit_resolved _ _ this wit_facts(2,3), of None "[]" b UsFinal]
  show ?thesis by (auto simp: price_inference_def wit_inference_def wit_facts(4,5) returns_iff)
qed

lemma wit_inference_fields [simp]:
  "usage (wit_inference b) = wit_usage" "billable (wit_inference b) = b"
  by (simp_all add: wit_inference_def)

lemma wit_inference_tokens: "inf_tokens (wit_inference b) \<le> 42"
  by (simp add: inf_tokens_def wit_usage_def total_input_def cache_write_def)

lemma wit_items_ok:
  "\<forall>(i, ts) \<in> set wit_items. valid_usage (usage i) \<and> (billable i = Some False \<or> returns (price_inference wit_card [] i ts))"
  "sum_list (map (inf_tokens \<circ> fst) wit_items) < 10 ^ 60"
  "int (length (filter (\<lambda>(i, ts). billable i \<noteq> Some False) wit_items)) = 2"
proof -
  have "sum_list (map (inf_tokens \<circ> fst) wit_items) \<le> 126"
    using wit_inference_tokens [of "Some True"] wit_inference_tokens [of None] wit_inference_tokens [of "Some False"]
    by (simp add: wit_items_def)
  then show "sum_list (map (inf_tokens \<circ> fst) wit_items) < 10 ^ 60" by simp
qed (auto simp: wit_items_def wit_priced wit_facts(2))

theorem price_total_conserves_witness:
  "\<exists>t. price_total (price_inference wit_card []) (card_basis wit_card) wit_items = Inr t \<and>
     priced_inferences t + unpriced_inferences t = 2"
  using price_total_conserves [OF wit_card_built wit_facts(1) _ wit_items_ok(1,2)] wit_items_ok(3) by auto

end
