(* ===== verification/Rate_Schema.thy ===== *)
theory Rate_Schema
  imports Pricing
begin

text \<open>
  Rate files: \<open>rates/schema.py\<close> parses a \<open>tokenbill/rates@1\<close> document into rows and modifiers and validates the
  layer. The model starts at the decoded JSON value (\<open>json.loads\<close> is the standard library's); every failure is a
  \<open>PricingError\<close>. The ids of known promotions are a parameter. A layer's digest, schema and as-of date are not part
  of the model. The lemmas show that a loaded layer has at most one row in effect per channel, model and day, and
  that it meets the conditions under which the pricing engine is proved consistent.
\<close>

section \<open>Definitions\<close>

definition PREDICATE_KEYS :: "string list" where
  "PREDICATE_KEYS = [''service_tier'', ''speed'', ''inference_geo'', ''endpoint_scope'',
     ''channel_in'', ''model_in'', ''generation_gte'', ''routing'', ''compliance_in'']"

definition MULTIPLIER_BUCKETS :: "string list" where
  "MULTIPLIER_BUCKETS = [''cache_read'', ''cache_write_5m'', ''cache_write_1h'', ''cache_write_other'']"

definition BAND_BUCKETS :: "string list" where "BAND_BUCKETS = [''input'', ''output''] @ MULTIPLIER_BUCKETS"
definition APPLIES_TO :: "string list" where "APPLIES_TO = [''*'', ''input'', ''uncached_input''] @ BAND_BUCKETS"
definition PER_REQUEST_KEYS :: "string list" where "PER_REQUEST_KEYS = [''web_search'']"
definition CACHE_RULE_WORDS :: "string list" where "CACHE_RULE_WORDS = [''cache'', ''keeps'', ''invalidat'', ''break'']"
definition MULTI_VALUE_KEYS :: "string list" where "MULTI_VALUE_KEYS = [''channel_in'', ''model_in'', ''compliance_in'']"
definition SCHEMA :: string where "SCHEMA = ''tokenbill/rates@1''"

subsection \<open>Scalar fields\<close>

text \<open>The regular expressions; \<open>decimal_re n k\<close> allows \<open>n\<close> whole and \<open>k\<close> fractional digits.\<close>

definition decimal_re :: "nat \<Rightarrow> nat \<Rightarrow> string \<Rightarrow> bool" where
  "decimal_re n k s =
     (let w = takeWhile is_digit s; r = dropWhile is_digit s
      in (w = ''0'' \<or> (w \<noteq> [] \<and> hd w \<noteq> CHR ''0'' \<and> length w \<le> n)) \<and>
         (r = [] \<or> (hd r = CHR ''.'' \<and> 1 \<le> length (tl r) \<and> length (tl r) \<le> k \<and> list_all is_digit (tl r))))"

definition generation_re :: "string \<Rightarrow> bool" where
  "generation_re s = (let parts = split_on (CHR ''.'') s in
     length parts \<le> 4 \<and> list_all (\<lambda>p. 1 \<le> length p \<and> length p \<le> 4 \<and> list_all is_digit p) parts)"

definition token_re :: "string \<Rightarrow> bool" where
  "token_re s = (1 \<le> length s \<and> length s \<le> 64 \<and> (is_lower (hd s) \<or> is_digit (hd s)) \<and>
     list_all (\<lambda>c. is_lower c \<or> is_digit c \<or> c \<in> set ''_.-'') s)"

definition printable_re :: "string \<Rightarrow> bool" where
  "printable_re s = (1 \<le> length s \<and> length s \<le> 200 \<and>
     list_all (\<lambda>c. 32 \<le> (of_char c :: int) \<and> (of_char c :: int) \<noteq> 127) s)"

definition word_re :: "string \<Rightarrow> bool" where
  "word_re s = (s \<noteq> [] \<and> list_all (\<lambda>c. \<not> is_space c) s)"

definition month_days :: "int \<Rightarrow> int \<Rightarrow> int" where
  "month_days y m = (if m = 12 then 31 else days_before_month y (m + 1) - days_before_month y m)"

definition calendar_date :: "string \<Rightarrow> bool" where
  "calendar_date s = (date_ok s \<and>
     (let y = read_nat (take 4 s); m = int (read_nat (take 2 (drop 5 s))); d = int (read_nat (drop 8 s))
      in 1 \<le> y \<and> 1 \<le> m \<and> m \<le> 12 \<and> 1 \<le> d \<and> d \<le> month_days (int y) m))"

definition date_field :: "json \<Rightarrow> string res" where
  "date_field v = (case v of JStr s \<Rightarrow> if calendar_date s then Inr s else Inl PricingError | _ \<Rightarrow> Inl PricingError)"

definition decimal_field :: "json \<Rightarrow> dec res" where
  "decimal_field v = (case v of
      JStr s \<Rightarrow> if decimal_re 12 18 s then rbind (decimal_of_string s) (finite_or PricingError) else Inl PricingError
    | _ \<Rightarrow> Inl PricingError)"

definition str_field :: "(string \<Rightarrow> bool) \<Rightarrow> json \<Rightarrow> string res" where
  "str_field re v = (case v of JStr s \<Rightarrow> if re s then Inr s else Inl PricingError | _ \<Rightarrow> Inl PricingError)"

definition int_field :: "bool \<Rightarrow> json \<Rightarrow> int res" where
  "int_field positive v = (case v of
      JInt i \<Rightarrow> if i < (if positive then 1 else 0) \<or> 2 ^ 53 < i then Inl PricingError else Inr i
    | _ \<Rightarrow> Inl PricingError)"

definition mapping_field :: "json \<Rightarrow> (string \<times> json) list res" where
  "mapping_field v = (case v of JNull \<Rightarrow> Inr [] | JObj d \<Rightarrow> Inr d | _ \<Rightarrow> Inl PricingError)"

definition list_field :: "json \<Rightarrow> json list res" where
  "list_field v = (case v of JNull \<Rightarrow> Inr [] | JList xs \<Rightarrow> Inr xs | _ \<Rightarrow> Inl PricingError)"

definition jget :: "(string \<times> json) list \<Rightarrow> string \<Rightarrow> json" where
  "jget d k = dget d k JNull"

text \<open>\<open>None if v is None else f(v)\<close>.\<close>

definition optional_field :: "(json \<Rightarrow> 'a res) \<Rightarrow> json \<Rightarrow> 'a option res" where
  "optional_field f v = (if v = JNull then Inr None else rbind (f v) (\<lambda>x. Inr (Some x)))"

definition pair_field :: "string list \<Rightarrow> string \<times> json \<Rightarrow> (string \<times> dec) res" where
  "pair_field allowed kv = rbind (guard (fst kv \<in> set allowed) PricingError) (\<lambda>_.
     rbind (decimal_field (snd kv)) (\<lambda>d. Inr (fst kv, d)))"

definition pairs_field :: "string list \<Rightarrow> json \<Rightarrow> (string \<times> dec) list res" where
  "pairs_field allowed v = rbind (mapping_field v) (\<lambda>d. rbind (rmap (pair_field allowed) d) (\<lambda>ps. Inr (sort_key fst ps)))"

record citation =
  cite_url :: string
  cite_retrieved :: string
  cite_finding :: "string option"

definition citation_field :: "json \<Rightarrow> citation res" where
  "citation_field v = rbind (mapping_field v) (\<lambda>s.
     rbind (case jget s ''finding'' of JNull \<Rightarrow> Inr None | JStr f \<Rightarrow> Inr (Some f) | _ \<Rightarrow> Inl PricingError) (\<lambda>f.
     rbind (str_field printable_re (jget s ''url'')) (\<lambda>u. rbind (date_field (jget s ''retrieved'')) (\<lambda>r.
       Inr \<lparr>cite_url = u, cite_retrieved = r, cite_finding = f\<rparr>))))"

definition citations_field :: "json \<Rightarrow> citation list res" where
  "citations_field v = rbind (list_field v) (rmap citation_field)"

subsection \<open>Rows and modifiers\<close>

record parsed_row =
  pr_row :: rate_row
  pr_other_ttl_s :: "int option"
  published_absolute :: "(string \<times> dec) list"
  pr_sources :: "citation list"
  pr_notes :: string

definition str_list :: "(string \<Rightarrow> bool) \<Rightarrow> json \<Rightarrow> string list res" where
  "str_list re v = rbind (list_field v) (rmap (str_field re))"

definition multiplier_field :: "(string \<times> json) list \<Rightarrow> string \<Rightarrow> dec option res" where
  "multiplier_field mlt bk = optional_field decimal_field (jget mlt bk)"

definition long_context_field :: "json \<Rightarrow> (int option \<times> (string \<times> dec) list) res" where
  "long_context_field v = (if v = JNull then Inr (None, []) else
     rbind (mapping_field v) (\<lambda>lc. rbind (int_field True (jget lc ''threshold'')) (\<lambda>t.
     rbind (pairs_field BAND_BUCKETS (jget lc ''usd_per_mtok'')) (\<lambda>band. Inr (Some t, band)))))"

definition bool_field :: "json \<Rightarrow> bool res" where
  "bool_field v = (case v of JBool b \<Rightarrow> Inr b | _ \<Rightarrow> Inl PricingError)"

definition text_field :: "json \<Rightarrow> string res" where
  "text_field v = (case v of JStr s \<Rightarrow> Inr s | _ \<Rightarrow> Inl PricingError)"

definition parse_row :: "string \<Rightarrow> json \<Rightarrow> parsed_row res" where
  "parse_row provider v = (case v of JObj r \<Rightarrow>
     rbind (str_field printable_re (jget r ''row_id'')) (\<lambda>rid.
     rbind (mapping_field (jget r ''usd_per_mtok'')) (\<lambda>prices.
     rbind (mapping_field (jget r ''multipliers'')) (\<lambda>mlt.
     rbind (guard (list_all (\<lambda>(k, _). k \<in> set MULTIPLIER_BUCKETS) mlt) PricingError) (\<lambda>_.
     rbind (long_context_field (jget r ''long_context'')) (\<lambda>(threshold, band).
     rbind (optional_field (int_field True) (jget r ''cache_write_other_ttl_s'')) (\<lambda>ttl.
     rbind (optional_field (int_field False) (jget r ''min_cacheable_tokens'')) (\<lambda>min_cache.
     rbind (bool_field (jget r ''enabled'')) (\<lambda>en.
     rbind (text_field (dget r ''notes'' (JStr ''''))) (\<lambda>nts.
     rbind (optional_field (str_field printable_re) (jget r ''promotion'')) (\<lambda>promo.
     rbind (str_field printable_re (dget r ''provider'' (JStr provider))) (\<lambda>prov.
     rbind (str_field printable_re (jget r ''channel'')) (\<lambda>ch.
     rbind (str_field printable_re (jget r ''model'')) (\<lambda>md.
     rbind (str_list printable_re (jget r ''aliases'')) (\<lambda>als.
     rbind (str_field printable_re (jget r ''generation'')) (\<lambda>gen.
     rbind (date_field (jget r ''effective_from'')) (\<lambda>efrom.
     rbind (optional_field date_field (jget r ''effective_to'')) (\<lambda>eto.
     rbind (decimal_field (jget prices ''input'')) (\<lambda>inp.
     rbind (decimal_field (jget prices ''output'')) (\<lambda>out.
     rbind (multiplier_field mlt ''cache_read'') (\<lambda>m1.
     rbind (multiplier_field mlt ''cache_write_5m'') (\<lambda>m2.
     rbind (multiplier_field mlt ''cache_write_1h'') (\<lambda>m3.
     rbind (multiplier_field mlt ''cache_write_other'') (\<lambda>m4.
     rbind (pairs_field MULTIPLIER_BUCKETS (jget r ''published_absolute'')) (\<lambda>pub.
     rbind (str_field printable_re (jget r ''tokenizer_family'')) (\<lambda>tok.
     rbind (pairs_field PER_REQUEST_KEYS (jget r ''per_request_usd'')) (\<lambda>per.
     rbind (str_list token_re (jget r ''supports'')) (\<lambda>sup.
     rbind (date_field (jget r ''verified_on'')) (\<lambda>ver.
     rbind (citations_field (jget r ''sources'')) (\<lambda>srcs. Inr
       \<lparr>pr_row = \<lparr>row_id = rid, row_provider = prov, row_channel = ch, row_model = md, aliases = als, generation = gen,
          effective_from = efrom, effective_to = eto, input_usd_per_mtok = inp, output_usd_per_mtok = out,
          cache_read_mult = m1, cache_write_5m_mult = m2, cache_write_1h_mult = m3, cache_write_other_mult = m4,
          min_cacheable_tokens = min_cache, tokenizer_family = tok, per_request_usd = per,
          long_context_threshold = threshold, long_context_usd_per_mtok = band, supports = sup, enabled = en,
          verified_on = ver, promotion = promo\<rparr>,
        pr_other_ttl_s = ttl, published_absolute = pub, pr_sources = srcs, pr_notes = nts\<rparr>)))))))))))))))))))))))))))))
   | _ \<Rightarrow> Inl PricingError)"

definition when_pair :: "string \<times> json \<Rightarrow> (string \<times> string) res" where
  "when_pair kv = (case snd kv of JStr s \<Rightarrow> Inr (fst kv, s) | _ \<Rightarrow> Inl PricingError)"

definition parse_modifier :: "json \<Rightarrow> modifier res" where
  "parse_modifier v = (case v of JObj m \<Rightarrow>
     rbind (str_field printable_re (jget m ''modifier_id'')) (\<lambda>mid.
     rbind (mapping_field (jget m ''when'')) (\<lambda>wh.
     rbind (rmap when_pair wh) (\<lambda>preds.
     rbind (str_field printable_re (jget m ''kind'')) (\<lambda>knd.
     rbind (optional_field decimal_field (jget m ''factor'')) (\<lambda>fac.
     rbind (pairs_field [''input'', ''output''] (jget m ''base_usd_per_mtok'')) (\<lambda>base.
     rbind (str_list word_re (dget m ''applies_to'' (JList [JStr ''*'']))) (\<lambda>app.
     rbind (str_field printable_re (jget m ''stacking'')) (\<lambda>stk.
     rbind (citations_field (jget m ''sources'')) (\<lambda>_. Inr
       \<lparr>modifier_id = mid, mod_kind = knd, factor = fac, base_usd_per_mtok = base, applies_to = app,
        mod_when = sort_key fst preds, stacking = stk\<rparr>)))))))))
   | _ \<Rightarrow> Inl PricingError)"

subsection \<open>Validation\<close>

text \<open>Python's \<open>==\<close> of two finite decimals.\<close>

definition dec_same :: "dec \<Rightarrow> dec \<Rightarrow> bool" where
  "dec_same a b = (let e = min (expo a) (expo b) in
     sint_of a * 10 ^ nat (expo a - e) = sint_of b * 10 ^ nat (expo b - e))"

definition row_mult :: "rate_row \<Rightarrow> string \<Rightarrow> dec option" where
  "row_mult r b = (if b = ''cache_read'' then cache_read_mult r else if b = ''cache_write_5m'' then cache_write_5m_mult r
     else if b = ''cache_write_1h'' then cache_write_1h_mult r
     else if b = ''cache_write_other'' then cache_write_other_mult r else None)"

definition check_published :: "rate_row \<Rightarrow> string \<times> dec \<Rightarrow> unit res" where
  "check_published r bp = (case row_mult r (fst bp) of
      None \<Rightarrow> Inl PricingError
    | Some m \<Rightarrow> rbind (dec_mul EXACT_CTX (input_usd_per_mtok r) m) (\<lambda>x. guard (dec_same x (snd bp)) PricingError))"

definition check_row :: "string list \<Rightarrow> parsed_row \<Rightarrow> unit res" where
  "check_row promos p = (let r = pr_row p in
     rbind (guard (pr_sources p \<noteq> []) PricingError) (\<lambda>_.
     rbind (guard (calendar_date (verified_on r) \<and> calendar_date (effective_from r)) PricingError) (\<lambda>_.
     rbind (guard (case effective_to r of None \<Rightarrow> True | Some t \<Rightarrow> calendar_date t \<and> effective_from r < t) PricingError) (\<lambda>_.
     rbind (guard (generation_re (generation r)) PricingError) (\<lambda>_.
     rbind (rmap (check_published r) (published_absolute p)) (\<lambda>_.
     rbind (guard (cache_write_other_mult r = None \<or> pr_other_ttl_s p \<noteq> None) PricingError) (\<lambda>_.
     rbind (guard (list_all (\<lambda>f. \<not> list_ex (\<lambda>w. contains f w) CACHE_RULE_WORDS) (supports r)) PricingError) (\<lambda>_.
     rbind (guard (case promotion r of None \<Rightarrow> True | Some x \<Rightarrow> x \<in> set promos) PricingError) (\<lambda>_.
     guard ((long_context_threshold r = None) = (long_context_usd_per_mtok r = [])) PricingError)))))))))"

definition check_when :: "string \<times> string \<Rightarrow> bool" where
  "check_when kv = (case kv of (k, v) \<Rightarrow>
     k \<in> set PREDICATE_KEYS \<and> v \<noteq> '''' \<and>
     list_all (\<lambda>p. p \<noteq> '''') (if k \<in> set MULTI_VALUE_KEYS then split_on (CHR '','') v else [v]) \<and>
     (k = ''generation_gte'' \<longrightarrow> generation_re v))"

definition check_modifier :: "modifier \<Rightarrow> unit res" where
  "check_modifier m =
     rbind (guard (mod_kind m = ''multiply'' \<and> factor m \<noteq> None \<and> base_usd_per_mtok m = [] \<or>
                   mod_kind m = ''replace_base'' \<and> factor m = None \<and> base_usd_per_mtok m \<noteq> []) PricingError) (\<lambda>_.
     rbind (guard (applies_to m \<noteq> [] \<and> list_all (\<lambda>b. b \<in> set APPLIES_TO) (applies_to m)) PricingError) (\<lambda>_.
     rbind (guard (stacking m \<in> {''documented'', ''assumed''}) PricingError) (\<lambda>_.
     guard (list_all check_when (mod_when m)) PricingError)))"

text \<open>A pass that checks every item and refuses an id seen before.\<close>

definition check_once :: "('a \<Rightarrow> unit res) \<Rightarrow> ('a \<Rightarrow> string) \<Rightarrow> string list \<Rightarrow> 'a \<Rightarrow> string list res" where
  "check_once chk id_of seen x = rbind (chk x) (\<lambda>_. rbind (guard (id_of x \<notin> set seen) PricingError) (\<lambda>_. Inr (id_of x # seen)))"

text \<open>\<open>zip(group, group[1:])\<close>: every row ends before the next one starts.\<close>

fun check_group :: "rate_row list \<Rightarrow> unit res" where
  "check_group (a # b # rs) =
     rbind (guard (case effective_to a of None \<Rightarrow> False | Some t \<Rightarrow> t \<le> effective_from b) PricingError) (\<lambda>_. check_group (b # rs))"
| "check_group _ = Inr ()"

text \<open>The groups by channel and name, each in order of \<open>effective_from\<close>, are those of the card's index.\<close>

definition check_layer :: "string list \<Rightarrow> parsed_row list \<Rightarrow> modifier list \<Rightarrow> unit res" where
  "check_layer promos rs ms =
     rbind (rfold (check_once (check_row promos) (row_id \<circ> pr_row)) [] rs) (\<lambda>_.
     rbind (rfold (check_once check_modifier modifier_id) [] ms) (\<lambda>_.
     rbind (rmap (check_group \<circ> snd) (sort_key fst (index_rows (map pr_row rs)))) (\<lambda>_. Inr ())))"

definition make_layer :: "string list \<Rightarrow> string \<Rightarrow> parsed_row list \<Rightarrow> modifier list \<Rightarrow> rate_layer res" where
  "make_layer promos name rs ms = rbind (check_layer promos rs ms) (\<lambda>_.
     Inr \<lparr>layer_name = name, rows = map pr_row rs, modifiers = ms\<rparr>)"

subsection \<open>Documents\<close>

definition parse_doc :: "json \<Rightarrow> (string \<times> string \<times> parsed_row list \<times> modifier list) res" where
  "parse_doc v = (case v of JObj doc \<Rightarrow>
     rbind (guard (jget doc ''schema'' = JStr SCHEMA) PricingError) (\<lambda>_.
     rbind (str_field printable_re (jget doc ''provider'')) (\<lambda>provider.
     rbind (date_field (jget doc ''as_of'')) (\<lambda>as_of.
     rbind (list_field (jget doc ''rows'')) (\<lambda>rs. rbind (rmap (parse_row provider) rs) (\<lambda>prs.
     rbind (list_field (jget doc ''modifiers'')) (\<lambda>ms. rbind (rmap parse_modifier ms) (\<lambda>mods.
       Inr (provider, as_of, prs, mods))))))))
   | _ \<Rightarrow> Inl PricingError)"

definition parse_layer :: "string list \<Rightarrow> string \<Rightarrow> json \<Rightarrow> rate_layer res" where
  "parse_layer promos name v = rbind (parse_doc v) (\<lambda>(_, _, rs, ms). make_layer promos name rs ms)"

text \<open>\<open>load_file\<close> from the size and the decoded content of the file.\<close>

definition load_file :: "string list \<Rightarrow> string \<Rightarrow> int \<Rightarrow> json \<Rightarrow> rate_layer res" where
  "load_file promos name size_bytes v =
     (if 16 * 2 ^ 20 < size_bytes then Inl PricingError
      else parse_layer promos (if startswith name ''user:'' then name else ''user:'' @ name) v)"

type_synonym parsed_doc = "string \<times> string \<times> parsed_row list \<times> modifier list"

definition doc_kept :: "string option \<Rightarrow> parsed_doc \<Rightarrow> bool" where
  "doc_kept provider doc = (case provider of None \<Rightarrow> True | Some p \<Rightarrow> fst doc = p)"

text \<open>The rows of \<open>core.facts\<close> on channels no extension file covers, and the modifiers that name such a channel.\<close>

definition facts_part :: "parsed_doc list \<Rightarrow> string option \<Rightarrow> parsed_row list \<Rightarrow> modifier list \<Rightarrow> parsed_doc list" where
  "facts_part exts provider facts_rows facts_mods =
     (let covered = concat (map (\<lambda>(_, _, rs, _). map (row_channel \<circ> pr_row) rs) exts);
          rs = filter (\<lambda>p. row_channel (pr_row p) \<notin> set covered) facts_rows;
          channels = map (row_channel \<circ> pr_row) rs;
          ms = filter (\<lambda>m. list_ex (\<lambda>c. c \<in> set channels) (split_on (CHR '','') (dget (mod_when m) ''channel_in'' ''''))) facts_mods
      in case rs of [] \<Rightarrow> []
         | p # ps \<Rightarrow> if provider = None \<or> provider = Some ''github''
                     then [(''github'', fold (\<lambda>p d. max d (verified_on (pr_row p))) ps (verified_on (pr_row p)), rs, ms)]
                     else [])"

definition load_builtin ::
    "string list \<Rightarrow> parsed_row list \<Rightarrow> modifier list \<Rightarrow> json list \<Rightarrow> json list \<Rightarrow> string option \<Rightarrow> rate_layer res" where
  "load_builtin promos facts_rows facts_mods files ext_files provider =
     rbind (rmap parse_doc files) (\<lambda>docs. rbind (rmap parse_doc ext_files) (\<lambda>exts.
     let parts = filter (doc_kept provider) (docs @ exts) @ facts_part exts provider facts_rows facts_mods;
         rs = concat (map (\<lambda>(_, _, rs, _). rs) parts); ms = concat (map (\<lambda>(_, _, _, ms). ms) parts)
     in if rs = [] then Inl UsageError
        else make_layer promos (''builtin@'' @ fold max (map (fst \<circ> snd) parts) '''') rs ms))"

subsection \<open>Price overrides of the command line\<close>

definition no_spaces :: "string \<Rightarrow> bool" where
  "no_spaces s = list_all (\<lambda>c. \<not> is_space c) s"

text \<open>\<open>MODEL=IN,OUT\<close> with white space around the parts (\<open>_MODEL_PRICE_RE\<close>).\<close>

definition parse_model_price :: "string \<Rightarrow> (string \<times> string \<times> string) res" where
  "parse_model_price txt' =
     (let left = takeWhile (\<lambda>c. c \<noteq> CHR ''='') txt'; rest = drop (Suc (length left)) txt'; model = strip left
      in if length left = length txt' \<or> model = [] then Inl UsageError
         else case split_on (CHR '','') rest of
           [a, b] \<Rightarrow>
             let inp = strip a; out = strip b in
             if inp = [] \<or> out = [] \<or> \<not> no_spaces inp \<or> \<not> no_spaces out then Inl UsageError
             else if \<not> decimal_re 6 9 inp \<or> \<not> decimal_re 6 9 out then Inl UsageError
             else if list_ex (\<lambda>c. (of_char c :: int) < 32 \<or> (of_char c :: int) = 127) model \<or> 128 < length model then Inl UsageError
             else Inr (model, inp, out)
         | _ \<Rightarrow> Inl UsageError)"

definition price_spec :: "string \<times> string \<times> string \<Rightarrow> (string \<times> string \<times> string) res" where
  "price_spec spec = (case spec of (m, i, out) \<Rightarrow> parse_model_price (m @ ''='' @ i @ '','' @ out))"

definition latest_price ::
    "(string, string \<times> string) dict \<Rightarrow> string \<times> string \<times> string \<Rightarrow> (string, string \<times> string) dict res" where
  "latest_price d spec = rbind (price_spec spec) (\<lambda>(model, inp, out). Inr (dset model (inp, out) d))"

definition override_row :: "string \<times> string \<times> string \<Rightarrow> parsed_row res" where
  "override_row mio = (case mio of (model, inp, out) \<Rightarrow>
     rbind (rbind (decimal_of_string inp) (finite_or ValueError)) (\<lambda>i.
     rbind (rbind (decimal_of_string out) (finite_or ValueError)) (\<lambda>o'. Inr
       \<lparr>pr_row = \<lparr>row_id = ''model-price/*/'' @ model @ ''/1970-01-01'', row_provider = ''user'', row_channel = WILDCARD_CHANNEL,
          row_model = model, aliases = [], generation = ''0'', effective_from = ''1970-01-01'', effective_to = None,
          input_usd_per_mtok = i, output_usd_per_mtok = o', cache_read_mult = Some (mkdec False 1 (-1)),
          cache_write_5m_mult = Some (mkdec False 125 (-2)), cache_write_1h_mult = Some (mkdec False 2 0),
          cache_write_other_mult = None, min_cacheable_tokens = None, tokenizer_family = ''unknown'', per_request_usd = [],
          long_context_threshold = None, long_context_usd_per_mtok = [], supports = [], enabled = True,
          verified_on = ''1970-01-01'', promotion = None\<rparr>,
        pr_other_ttl_s = None, published_absolute = [],
        pr_sources = [\<lparr>cite_url = ''cli:--model-price'', cite_retrieved = ''1970-01-01'', cite_finding = None\<rparr>],
        pr_notes = ''--model-price override (exempt from staleness)''\<rparr>)))"

definition model_price_layer :: "string list \<Rightarrow> (string \<times> string \<times> string) list \<Rightarrow> rate_layer res" where
  "model_price_layer promos specs = rbind (rfold latest_price [] specs) (\<lambda>d.
     rbind (rmap override_row (sort_key fst d)) (\<lambda>rs. make_layer promos MODEL_PRICE_LAYER rs []))"

definition override_ok :: "string list \<Rightarrow> string \<times> string \<times> string \<Rightarrow> parsed_row \<Rightarrow> bool" where
  "override_ok promos mio p = (check_row promos p = Inr () \<and> row_model (pr_row p) = fst mio \<and> aliases (pr_row p) = [] \<and>
     row_id (pr_row p) = ''model-price/*/'' @ fst mio @ ''/1970-01-01'' \<and> row_channel (pr_row p) = WILDCARD_CHANNEL \<and>
     enabled (pr_row p) \<and> effective_to (pr_row p) = None \<and>
     decimal_of_string (fst (snd mio)) = Inr (Finite (input_usd_per_mtok (pr_row p))) \<and>
     decimal_of_string (snd (snd mio)) = Inr (Finite (output_usd_per_mtok (pr_row p))))"

definition wit_row_json :: "string \<Rightarrow> string \<Rightarrow> json \<Rightarrow> json" where
  "wit_row_json rid since until = JObj [(''row_id'', JStr rid), (''channel'', JStr ''anthropic_api''), (''model'', JStr ''m''),
     (''aliases'', JList [JStr ''m-latest'']), (''generation'', JStr ''4.5''), (''effective_from'', JStr since),
     (''effective_to'', until), (''usd_per_mtok'', JObj [(''input'', JStr ''3''), (''output'', JStr ''15'')]),
     (''multipliers'', JObj [(''cache_read'', JStr ''0.1'')]), (''published_absolute'', JObj [(''cache_read'', JStr ''0.30'')]),
     (''tokenizer_family'', JStr ''t''), (''supports'', JList [JStr ''batch'']), (''enabled'', JBool True),
     (''verified_on'', JStr ''2025-01-01''),
     (''sources'', JList [JObj [(''url'', JStr ''https://x''), (''retrieved'', JStr ''2025-01-01'')]])]"

definition wit_rate_file :: json where
  "wit_rate_file = JObj [(''schema'', JStr SCHEMA), (''provider'', JStr ''anthropic''), (''as_of'', JStr ''2025-01-01''),
     (''rows'', JList [wit_row_json ''r2'' ''2025-01-01'' JNull, wit_row_json ''r1'' ''2024-01-01'' (JStr ''2025-01-01'')]),
     (''modifiers'', JList [JObj [(''modifier_id'', JStr ''b''), (''when'', JObj [(''service_tier'', JStr ''batch'')]),
        (''kind'', JStr ''multiply''), (''factor'', JStr ''0.5''), (''stacking'', JStr ''documented'')]])]"

definition wit_loaded_price :: "priced_inference res" where
  "wit_loaded_price = rbind (parse_layer [] ''builtin'' wit_rate_file) (\<lambda>l. rbind (mk_rate_card [l] None) (\<lambda>c.
     price_usage c [] wit_usage wit_ctx 1750000000000 (Some True) UsFinal None))"

section \<open>Lemmas\<close>

subsection \<open>Decimal fields\<close>

lemma digit_index_less: "index_of xs x = Some i \<Longrightarrow> i < length xs"
  by (induction xs arbitrary: i) (auto split: if_splits option.splits)

lemma read_nat_less: "read_nat s < 10 ^ length s"
proof (induction s rule: rev_induct)
  case Nil
  then show ?case by (simp add: read_nat_def)
next
  case (snoc c s)
  have "read_nat [c] < 10"
    by (auto simp: read_nat_def undig_def dest: digit_index_less split: option.split)
  then show ?case using snoc.IH by (simp add: read_nat_append)
qed

lemma ndig_read_nat: "s \<noteq> [] \<Longrightarrow> ndig (read_nat s) \<le> length s"
  using read_nat_less [of s] by (simp add: ndig_le_iff)

text \<open>A string of the shape is read as a non-negative coefficient over a power of ten.\<close>

lemma decimal_re_reads:
  assumes "decimal_re n k s" "1 \<le> n" "n \<le> 1000" "k \<le> 1000"
  shows "\<exists>c e. decimal_of_string s = Inr (Finite (mkdec False c e))"
proof -
  define w where "w = takeWhile is_digit s"
  define r where "r = dropWhile is_digit s"
  define f where "f = tl r"
  have s: "s = '''' @ w @ (if f = [] then '''' else ''.'') @ f"
    and f: "\<forall>c \<in> set f. is_digit c" "length f \<le> 1000" and wn: "w \<noteq> []" "length w \<le> 1000"
    using assms takeWhile_dropWhile_id [of is_digit s]
    by (cases r; fastforce simp: decimal_re_def Let_def w_def [symmetric] r_def [symmetric] f_def list_all_iff)+
  have w: "\<forall>c \<in> set w. is_digit c" unfolding w_def by (auto dest: set_takeWhileD)
  have "ndig (read_nat (w @ f)) \<le> length (w @ f)" using wn(1) by (intro ndig_read_nat) simp
  then have "dec_make False (read_nat (w @ f)) (- int (length f)) = Inr (mkdec False (read_nat (w @ f)) (- int (length f)))"
    using f(2) wn(2) by (simp add: dec_make_def MIN_ETINY_def MAX_EMAX_def)
  then show ?thesis
    using decimal_of_string_plain [OF wn(1) w f(1), of "''''" False "if f = [] then '''' else ''.''"] s by auto
qed

lemma decimal_field_nn: "rsat nn (decimal_field v)"
proof (cases "\<exists>s. v = JStr s \<and> decimal_re 12 18 s")
  case True
  then obtain s where s: "v = JStr s" "decimal_re 12 18 s" by blast
  from decimal_re_reads [OF s(2)] obtain c e where "decimal_of_string s = Inr (Finite (mkdec False c e))" by auto
  then show ?thesis using s by (simp add: decimal_field_def finite_or_def nn_def)
next
  case False
  then show ?thesis by (auto simp: decimal_field_def split: json.split)
qed

lemma optional_decimal_nn: "rsat nn_opt (optional_field decimal_field v)"
  unfolding optional_field_def
  by (auto simp: nn_opt_def intro!: rsat_bind [OF decimal_field_nn])

lemma pairs_field_nn: "rsat (list_all (nn \<circ> snd)) (pairs_field allowed v)"
proof -
  have "rsat (nn \<circ> snd) (pair_field allowed kv)" for kv
    unfolding pair_field_def by (rule rsat_bind [OF rsat_any], rule rsat_bind [OF decimal_field_nn]) simp
  then have "rsat (list_all (nn \<circ> snd)) (rmap (pair_field allowed) d)" for d by (rule rsat_rmap)
  then show ?thesis
    unfolding pairs_field_def by (intro rsat_bind [OF rsat_any] rsat_bind) (assumption, simp add: list_all_iff)
qed

lemma long_context_nn: "rsat (list_all (nn \<circ> snd) \<circ> snd) (long_context_field v)"
  unfolding long_context_field_def
  by (auto intro!: rsat_bind [OF rsat_any] rsat_bind [OF pairs_field_nn])

lemma rsat_prod: "(\<And>a b. x = (a, b) \<Longrightarrow> rsat Q (f a b)) \<Longrightarrow> rsat Q (case x of (a, b) \<Rightarrow> f a b)"
  by (cases x) simp

lemmas nn_fields = rsat_bind [OF decimal_field_nn] rsat_bind [OF optional_decimal_nn]
  rsat_bind [OF pairs_field_nn] rsat_bind [OF long_context_nn]

lemma parse_row_nn: "rsat (nn_row \<circ> pr_row) (parse_row provider v)"
proof (cases v)
  case (JObj r)
  show ?thesis
    unfolding JObj parse_row_def json.case multiplier_field_def
    by ((rule nn_fields | rule rsat_bind [OF rsat_any] | rule rsat_prod)+) (simp add: nn_row_def)
qed (simp_all add: parse_row_def)

lemma parse_modifier_nn: "rsat nn_modifier (parse_modifier v)"
proof (cases v)
  case (JObj m)
  show ?thesis
    unfolding JObj parse_modifier_def json.case
    by ((rule nn_fields | rule rsat_bind [OF rsat_any])+) (simp add: nn_modifier_def)
qed (simp_all add: parse_modifier_def)

lemma parse_doc_nn:
  "rsat (\<lambda>(_, _, rs, ms). list_all (nn_row \<circ> pr_row) rs \<and> list_all nn_modifier ms) (parse_doc v)"
proof (cases v)
  case (JObj d)
  show ?thesis
    unfolding JObj parse_doc_def json.case
    by ((rule rsat_bind [OF rsat_rmap [OF parse_row_nn]] | rule rsat_bind [OF rsat_rmap [OF parse_modifier_nn]] |
        rule rsat_bind [OF rsat_any])+) simp
qed (simp_all add: parse_doc_def)

lemma parse_layer_nn: "rsat nn_layer (parse_layer promos name v)"
  unfolding parse_layer_def
  by (rule rsat_bind [OF parse_doc_nn], clarify, unfold make_layer_def, rule rsat_bind [OF rsat_any])
    (simp add: nn_layer_def list_all_iff)

subsection \<open>Validated layers\<close>

lemma fold_dappend_lookup:
  "map_of (fold (\<lambda>(k, v) d. dappend k v d) ps []) k =
     (if k \<in> fst ` set ps then Some (map snd (filter (\<lambda>p. fst p = k) ps)) else None)"
proof (induction ps rule: rev_induct)
  case (snoc p ps)
  then show ?case by (cases p; cases "k = fst p") (force simp: dappend_def dget_def filter_empty_conv)+
qed simp

lemma keyed_names:
  "map snd (filter (\<lambda>p. fst p = (ch, n)) (concat (map (\<lambda>r. map (\<lambda>m. ((row_channel r, m), r)) (uniq (row_model r # aliases r))) rs))) =
     filter (\<lambda>r. row_channel r = ch \<and> names_row n r) rs"
proof (induction rs)
  case (Cons r rs)
  have u: "distinct (uniq xs)" "set (uniq xs) = set xs" for xs :: "string list" by (simp_all add: uniq_def)
  have one: "distinct us \<Longrightarrow> map snd (filter (\<lambda>p. fst p = (ch, n)) (map (\<lambda>m. ((c, m), r)) us)) =
      (if c = ch \<and> n \<in> set us then [r] else [])" for c and us :: "string list"
    by (induction us) auto
  show ?case
    using Cons.IH one [OF u(1), of "row_channel r"] by (simp add: names_row_def u(2))
qed simp

lemma index_rows_group:
  assumes "(row_channel r = ch \<and> names_row n r)" "r \<in> set rs"
  shows "\<exists>g. ((ch, n), g) \<in> set (index_rows rs) \<and> g = sort_key effective_from (filter (\<lambda>r. row_channel r = ch \<and> names_row n r) rs)"
proof -
  let ?ps = "concat (map (\<lambda>r. map (\<lambda>m. ((row_channel r, m), r)) (uniq (row_model r # aliases r))) rs)"
  have "((ch, n), r) \<in> set ?ps" using assms by (force simp: names_row_def uniq_def)
  then have "(ch, n) \<in> fst ` set ?ps" by force
  then have "map_of (fold (\<lambda>(k, v) d. dappend k v d) ?ps []) (ch, n) = Some (filter (\<lambda>r. row_channel r = ch \<and> names_row n r) rs)"
    by (simp only: fold_dappend_lookup keyed_names if_True)
  then show ?thesis unfolding index_rows_def by (force dest: map_of_SomeD)
qed

lemma check_group_disjoint:
  assumes "check_group g = Inr ()" "sorted (map effective_from g)"
  shows "length (filter (\<lambda>r. in_effect r d) g) \<le> 1"
  using assms
proof (induction g rule: check_group.induct)
  case (1 a b rs)
  then obtain t where t: "effective_to a = Some t" "t \<le> effective_from b" "check_group (b # rs) = Inr ()"
    by (auto simp: res_simps split: option.splits)
  have "\<forall>r \<in> set (b # rs). effective_from b \<le> effective_from r" using 1(3) by simp
  then have "\<forall>r \<in> set (b # rs). \<not> (in_effect a d \<and> in_effect r d)"
    using t(1,2) unfolding in_effect_def by (fastforce simp: t(1))
  then have "in_effect a d \<Longrightarrow> filter (\<lambda>r. in_effect r d) (b # rs) = []" by (auto simp: filter_empty_conv)
  moreover have "length (filter (\<lambda>r. in_effect r d) (b # rs)) \<le> 1" using 1 t(3) by simp
  ultimately show ?case by (cases "in_effect a d") auto
qed simp_all

lemma check_once_ids:
  "rfold (check_once chk f) seen xs = Inr seen' \<Longrightarrow> distinct seen \<Longrightarrow>
     (\<forall>x \<in> set xs. chk x = Inr ()) \<and> distinct (map f xs) \<and> set (map f xs) \<inter> set seen = {}"
proof (induction xs arbitrary: seen)
  case (Cons x xs)
  then have "chk x = Inr ()" "f x \<notin> set seen" "rfold (check_once chk f) (f x # seen) xs = Inr seen'"
    by (auto simp: check_once_def [of chk f seen x] res_simps)
  with Cons.IH [of "f x # seen"] Cons.prems show ?case by auto
qed simp

lemma check_layer_facts:
  assumes "check_layer promos rs ms = Inr ()"
  shows "\<forall>p \<in> set rs. check_row promos p = Inr ()" "distinct (map (row_id \<circ> pr_row) rs)"
    "\<forall>m \<in> set ms. check_modifier m = Inr ()" "distinct (map modifier_id ms)"
    "\<forall>(k, g) \<in> set (index_rows (map pr_row rs)). check_group g = Inr ()"
proof -
  obtain s s' us where "rfold (check_once (check_row promos) (row_id \<circ> pr_row)) [] rs = Inr s"
    "rfold (check_once check_modifier modifier_id) [] ms = Inr s'"
    and g: "rmap (check_group \<circ> snd) (sort_key fst (index_rows (map pr_row rs))) = Inr us"
    using assms by (auto simp: check_layer_def res_simps)
  then show "\<forall>p \<in> set rs. check_row promos p = Inr ()" "distinct (map (row_id \<circ> pr_row) rs)"
    "\<forall>m \<in> set ms. check_modifier m = Inr ()" "distinct (map modifier_id ms)"
    by (auto dest!: check_once_ids)
  have "rmap h xs = Inr us \<Longrightarrow> \<forall>x \<in> set xs. h x = Inr ()" for h :: "'b \<Rightarrow> unit res" and xs us
    by (induction xs arbitrary: us) (auto simp: res_simps)
  from this [OF g] show "\<forall>(k, g) \<in> set (index_rows (map pr_row rs)). check_group g = Inr ()" by auto
qed

lemma one_in_effect:
  assumes "check_layer promos rs ms = Inr ()"
  shows "length (filter (\<lambda>r. row_channel r = ch \<and> names_row n r \<and> in_effect r d) (map pr_row rs)) \<le> 1"
proof -
  let ?g = "filter (\<lambda>r. row_channel r = ch \<and> names_row n r) (map pr_row rs)"
  have "length (filter (\<lambda>r. in_effect r d) ?g) \<le> 1"
  proof (cases "?g = []")
    case False
    then obtain r where "r \<in> set (map pr_row rs)" "row_channel r = ch \<and> names_row n r"
      by (auto simp: filter_empty_conv)
    from index_rows_group [OF this(2,1)] have "check_group (sort_key effective_from ?g) = Inr ()"
      using check_layer_facts(5) [OF assms] by blast
    then have "length (filter (\<lambda>r. in_effect r d) (sort_key effective_from ?g)) \<le> 1"
      by (rule check_group_disjoint) simp
    moreover have "length (filter (\<lambda>r. in_effect r d) (sort_key effective_from ?g)) = length (filter (\<lambda>r. in_effect r d) ?g)"
      by (rule mset_eq_length) (simp only: mset_filter mset_sort)
    ultimately show ?thesis by linarith
  qed simp
  moreover have "filter (\<lambda>r. row_channel r = ch \<and> names_row n r \<and> in_effect r d) (map pr_row rs) = filter (\<lambda>r. in_effect r d) ?g"
    unfolding filter_filter by (rule filter_cong) auto
  ultimately show ?thesis by presburger
qed

subsection \<open>Price overrides\<close>

lemma distinct_fold_dappend: "distinct (map fst d) \<Longrightarrow> distinct (map fst (fold (\<lambda>(k, v) d. dappend k v d) ps d))"
  by (induction ps arbitrary: d) (auto simp: dappend_def)

lemma fold_dappend_Some:
  "map_of (fold (\<lambda>(k, v) d. dappend k v d) ps []) k = Some h \<Longrightarrow> h = map snd (filter (\<lambda>p. fst p = k) ps)"
  by (simp add: fold_dappend_lookup split: if_splits)

lemma index_rows_member:
  assumes "(k, g) \<in> set (index_rows rs)"
  shows "g = sort_key effective_from (filter (\<lambda>r. row_channel r = fst k \<and> names_row (snd k) r) rs)"
proof -
  let ?ps = "concat (map (\<lambda>r. map (\<lambda>m. ((row_channel r, m), r)) (uniq (row_model r # aliases r))) rs)"
  obtain h where h: "(k, h) \<in> set (fold (\<lambda>(k, v) d. dappend k v d) ?ps [])" "g = sort_key effective_from h"
    using assms by (auto simp: index_rows_def)
  have "map_of (fold (\<lambda>(k, v) d. dappend k v d) ?ps []) k = Some h"
    by (rule map_of_is_SomeI [OF distinct_fold_dappend h(1)]) simp
  then have "h = map snd (filter (\<lambda>p. fst p = k) ?ps)" by (rule fold_dappend_Some)
  then show ?thesis using keyed_names [of "fst k" "snd k" rs] h(2) by (simp only: prod.collapse)
qed

lemma check_once_passes:
  "\<forall>x \<in> set xs. chk x = Inr () \<Longrightarrow> distinct (map f xs) \<Longrightarrow> set (map f xs) \<inter> set seen = {} \<Longrightarrow>
     returns (rfold (check_once chk f) seen xs)"
proof (induction xs arbitrary: seen)
  case (Cons x xs)
  then have "check_once chk f seen x = Inr (f x # seen)" by (simp add: check_once_def)
  with Cons show ?case by simp
qed (simp add: returns_def)

lemma short_group: "length g \<le> 1 \<Longrightarrow> check_group g = Inr ()"
  by (cases g rule: check_group.cases) simp_all

lemma parse_model_price_shape:
  assumes "parse_model_price s = Inr (m, i, k)"
  shows "decimal_re 6 9 i" "decimal_re 6 9 k" "m \<noteq> []" "length m \<le> 128"
  using assms by (auto simp: parse_model_price_def Let_def split: if_splits list.splits)

lemma epoch_facts: "calendar_date ''1970-01-01''" "generation_re ''0''"
  by code_simp+

lemma override_row_loads:
  assumes "decimal_re 6 9 i" "decimal_re 6 9 k"
  shows "\<exists>p. override_row (m, i, k) = Inr p \<and> override_ok promos (m, i, k) p"
proof -
  obtain c e c' e' where "decimal_of_string i = Inr (Finite (mkdec False c e))"
    "decimal_of_string k = Inr (Finite (mkdec False c' e'))"
    using decimal_re_reads [OF assms(1)] decimal_re_reads [OF assms(2)] by auto
  then show ?thesis
    by (simp add: override_row_def finite_or_def override_ok_def check_row_def epoch_facts)
qed

lemma price_spec_shape: "rsat (\<lambda>(m, i, k). decimal_re 6 9 i \<and> decimal_re 6 9 k) (price_spec spec)"
  using parse_model_price_shape by (auto simp: price_spec_def split: prod.split intro!: rsatI)

lemma latest_prices:
  "rmap price_spec specs = Inr ps \<Longrightarrow> rfold latest_price d specs = Inr (fold (\<lambda>(k, v) d. dset k v d) ps d)"
proof (induction specs arbitrary: ps d)
  case (Cons spec specs)
  then obtain m i k qs where "price_spec spec = Inr (m, i, k)" "rmap price_spec specs = Inr qs" "ps = (m, i, k) # qs"
    by (auto simp: res_simps)
  with Cons.IH show ?case by (simp add: latest_price_def [of _ spec])
qed simp

lemma fold_dset_last:
  "map_of (fold (\<lambda>(k, v) d. dset k v d) ps []) = map_of (rev ps)"
  "distinct (map fst (fold (\<lambda>(k, v) d. dset k v d) ps []))"
  by (induction ps rule: rev_induct) auto

lemma override_rows_load:
  assumes "\<forall>mio \<in> set xs. \<exists>p. override_row mio = Inr p \<and> override_ok promos mio p"
  shows "\<exists>rs. rmap override_row xs = Inr rs \<and> list_all2 (override_ok promos) xs rs"
  using assms by (induction xs) (auto simp: list_all2_Cons1)

lemma override_rows_checked:
  assumes "list_all2 (override_ok promos) xs rs" "distinct (map fst xs)"
  shows "check_layer promos rs [] = Inr ()" "map (row_model \<circ> pr_row) rs = map fst xs"
proof -
  have f: "\<forall>p \<in> set rs. check_row promos p = Inr () \<and> aliases (pr_row p) = []"
    and ids: "map (row_id \<circ> pr_row) rs = map (\<lambda>m. ''model-price/*/'' @ m @ ''/1970-01-01'') (map fst xs)"
    and ms: "map (row_model \<circ> pr_row) rs = map fst xs"
    using assms(1) by (induction rule: list_all2_induct) (auto simp: override_ok_def)
  show "map (row_model \<circ> pr_row) rs = map fst xs" by (rule ms)
  have "distinct (map (row_id \<circ> pr_row) rs)"
    unfolding ids using assms(2) by (subst distinct_map) (simp add: inj_on_def)
  then have a: "returns (rfold (check_once (check_row promos) (row_id \<circ> pr_row)) [] rs)"
    using f by (intro check_once_passes) simp_all
  have g: "check_group g = Inr ()" if kg: "(k, g) \<in> set (index_rows (map pr_row rs))" for k g
  proof (rule short_group)
    have d: "distinct (map row_model (map pr_row rs))" using ms assms(2) by (simp only: map_map)
    have "distinct (map row_model ys) \<Longrightarrow> \<forall>r \<in> set ys. aliases r = [] \<Longrightarrow>
        length (filter (\<lambda>r. row_channel r = c \<and> names_row n r) ys) \<le> 1" for ys c n
    proof (induction ys)
      case (Cons y ys)
      then have "n = row_model y \<Longrightarrow> filter (\<lambda>r. row_channel r = c \<and> names_row n r) ys = []"
        by (force simp: filter_empty_conv names_row_def)
      with Cons show ?case by (auto simp: names_row_def)
    qed simp
    from this [OF d] show "length g \<le> 1" using f by (simp add: index_rows_member [OF kg])
  qed
  have pass: "\<forall>x \<in> set ys. check_group (snd x) = Inr () \<Longrightarrow> rmap (check_group \<circ> snd) ys = Inr (map (\<lambda>_. ()) ys)" for ys :: row_index
    by (induction ys) auto
  obtain us where b: "rmap (check_group \<circ> snd) (sort_key fst (index_rows (map pr_row rs))) = Inr us"
    using pass [of "sort_key fst (index_rows (map pr_row rs))"] g by fastforce
  show "check_layer promos rs [] = Inr ()"
    using a b by (auto simp: check_layer_def returns_def split: sum.splits)
qed

lemma list_all2_partner: "list_all2 P xs ys \<Longrightarrow> \<forall>y \<in> set ys. \<exists>x \<in> set xs. P x y"
  by (induction rule: list_all2_induct) auto

lemma sorted_keys: "distinct (map fst d) \<Longrightarrow> map fst (sort_key fst d) = sort (remdups (map fst d))"
  for d :: "('a::linorder \<times> 'b) list"
  by (rule sorted_distinct_set_unique)
    (auto simp: distinct_map intro: mset_eq_imp_distinct_iff [THEN iffD1])

subsection \<open>Loaded layers\<close>

text \<open>C18: A rate file that loads is unambiguous: its row ids and its modifier ids are distinct, and for every
  channel, model name or alias and day at most one of its rows is in effect.\<close>

theorem loaded_layer_unambiguous:
  assumes "parse_layer promos name v = Inr l"
  shows "distinct (map row_id (rows l)) \<and> distinct (map modifier_id (modifiers l)) \<and>
    length (filter (\<lambda>r. row_channel r = ch \<and> names_row n r \<and> in_effect r d) (rows l)) \<le> 1"
proof -
  obtain rs ms where c: "check_layer promos rs ms = Inr ()" and l: "rows l = map pr_row rs" "modifiers l = ms"
    using assms by (auto simp: parse_layer_def make_layer_def res_simps)
  show ?thesis
    using check_layer_facts(2,4) [OF c] one_in_effect [OF c] by (simp only: l map_map simp_thms)
qed

text \<open>A card built from loaded rate files, under a contract with non-negative rates, prices every valid usage
  consistently: the figure obeys the construction rules and is the sum of its well-formed lines, or is an
  unpriced figure with its reason.\<close>

theorem loaded_card_prices:
  assumes "\<forall>l \<in> set ls. \<exists>promos name v. parse_layer promos name v = Inr l" "mk_rate_card ls con = Inr c"
    and "case con of None \<Rightarrow> True | Some x \<Rightarrow> nn_contract x" "valid_usage u"
    and "price_usage c brs u ctx ts bi src upper = Inr p"
  shows "priced_ok p"
proof -
  have "list_all nn_layer ls" using assms(1) rsatD [OF parse_layer_nn] by (fastforce simp: list_all_iff)
  with assms(2-5) show ?thesis by (intro price_usage_consistent)
qed

text \<open>C34: Price overrides that parse always load, as one layer with exactly one row per model, on every channel
  and in effect from the epoch on, at the prices of the last override of the model.\<close>

theorem price_overrides_load:
  assumes "rmap price_spec specs = Inr ps"
  shows "\<exists>l. model_price_layer promos specs = Inr l \<and> layer_kind l = ''model-price'' \<and>
     map row_model (rows l) = sort (remdups (map fst ps)) \<and>
     (\<forall>r \<in> set (rows l). row_channel r = WILDCARD_CHANNEL \<and> enabled r \<and> effective_to r = None \<and>
        (\<exists>i k. map_of (rev ps) (row_model r) = Some (i, k) \<and> decimal_of_string i = Inr (Finite (input_usd_per_mtok r)) \<and>
           decimal_of_string k = Inr (Finite (output_usd_per_mtok r))))"
proof -
  define d where "d = fold (\<lambda>(k, v) d. dset k v d) ps []"
  have d: "map_of d = map_of (rev ps)" "distinct (map fst d)" "fst ` set d = fst ` set ps"
    using fold_dset_last [of ps] by (simp_all add: d_def flip: dom_map_of_conv_image_fst [of d] dom_map_of_conv_image_fst [of ps])
      (metis d_def dom_map_of_conv_image_fst set_rev)
  have ps: "\<forall>(m, i, k) \<in> set ps. decimal_re 6 9 i \<and> decimal_re 6 9 k"
    using rsatD [OF rsat_rmap [OF price_spec_shape] assms] by (simp add: list_all_iff)
  have xs: "map_of (rev ps) (fst x) = Some (snd x)" if "x \<in> set (sort_key fst d)" for x
    using that d(1,2) by (metis map_of_is_SomeI prod.collapse set_sort)
  have "\<forall>x \<in> set (sort_key fst d). \<exists>p. override_row x = Inr p \<and> override_ok promos x p"
    using xs ps by (fastforce dest!: map_of_SomeD intro: override_row_loads)
  from override_rows_load [OF this] obtain rs where rs: "rmap override_row (sort_key fst d) = Inr rs"
    "list_all2 (override_ok promos) (sort_key fst d) rs" by blast
  have sk: "distinct (map fst (sort_key fst d))" by (simp add: sorted_keys [OF d(2)])
  note c = override_rows_checked [OF rs(2) sk]
  have "model_price_layer promos specs = Inr \<lparr>layer_name = MODEL_PRICE_LAYER, rows = map pr_row rs, modifiers = []\<rparr>"
    using c(1) rs(1) by (simp add: model_price_layer_def latest_prices [OF assms] d_def [symmetric] make_layer_def)
  moreover have "sort (remdups (map fst d)) = sort (remdups (map fst ps))"
    using d(3) by (intro sorted_distinct_set_unique) auto
  moreover have "\<exists>i k. map_of (rev ps) (row_model (pr_row p)) = Some (i, k) \<and>
      decimal_of_string i = Inr (Finite (input_usd_per_mtok (pr_row p))) \<and>
      decimal_of_string k = Inr (Finite (output_usd_per_mtok (pr_row p)))"
    "row_channel (pr_row p) = WILDCARD_CHANNEL \<and> enabled (pr_row p) \<and> effective_to (pr_row p) = None"
    if mem: "p \<in> set rs" for p
  proof -
    obtain x where x: "x \<in> set (sort_key fst d)" "override_ok promos x p"
      using list_all2_partner [OF rs(2)] mem by blast
    with xs [OF x(1)] show "\<exists>i k. map_of (rev ps) (row_model (pr_row p)) = Some (i, k) \<and>
      decimal_of_string i = Inr (Finite (input_usd_per_mtok (pr_row p))) \<and>
      decimal_of_string k = Inr (Finite (output_usd_per_mtok (pr_row p)))"
      "row_channel (pr_row p) = WILDCARD_CHANNEL \<and> enabled (pr_row p) \<and> effective_to (pr_row p) = None"
      by (cases x; auto simp: override_ok_def)+
  qed
  ultimately show ?thesis
    using c(2) by (auto simp: layer_kind_def MODEL_PRICE_LAYER_def startswith_def sorted_keys [OF d(2)] comp_def)
qed

lemma wit_rate_file_loads: "case parse_layer [] ''builtin'' wit_rate_file of Inl _ \<Rightarrow> False | Inr l \<Rightarrow> length (rows l) = 2"
  by code_simp

theorem loaded_layer_unambiguous_witness:
  "case parse_layer [] ''builtin'' wit_rate_file of Inl _ \<Rightarrow> False | Inr l \<Rightarrow>
     distinct (map row_id (rows l)) \<and> distinct (map modifier_id (modifiers l)) \<and>
     length (filter (\<lambda>r. row_channel r = ''anthropic_api'' \<and> names_row ''m-latest'' r \<and> in_effect r ''2025-01-01'') (rows l)) \<le> 1"
  using wit_rate_file_loads loaded_layer_unambiguous [of "[]" "''builtin''" wit_rate_file]
  by (auto split: sum.splits)

lemma wit_loaded_price_returns: "case wit_loaded_price of Inl _ \<Rightarrow> False | Inr p \<Rightarrow> unpriced_reason p = None"
  by code_simp

theorem loaded_card_prices_witness: "\<exists>p. wit_loaded_price = Inr p \<and> unpriced_reason p = None \<and> priced_ok p"
proof -
  obtain l c p where l: "parse_layer [] ''builtin'' wit_rate_file = Inr l" and c: "mk_rate_card [l] None = Inr c"
    and p: "price_usage c [] wit_usage wit_ctx 1750000000000 (Some True) UsFinal None = Inr p"
    and w: "wit_loaded_price = Inr p" "unpriced_reason p = None"
    using wit_loaded_price_returns unfolding wit_loaded_price_def by (auto simp: res_simps split: sum.splits)
  have "priced_ok p" by (rule loaded_card_prices [OF _ c _ wit_facts(2) p]) (use l in auto)
  with w show ?thesis by blast
qed

theorem price_overrides_load_witness:
  "\<exists>l. model_price_layer [] [(''m'', ''1'', ''2''), ('' m '', ''3.5'', ''15'')] = Inr l \<and> layer_kind l = ''model-price'' \<and>
     map row_model (rows l) = sort (remdups (map fst [(''m'', ''1'', ''2''), (''m'', ''3.5'', ''15'')])) \<and>
     (\<forall>r \<in> set (rows l). row_channel r = WILDCARD_CHANNEL \<and> enabled r \<and> effective_to r = None \<and>
        (\<exists>i k. map_of (rev [(''m'', ''1'', ''2''), (''m'', ''3.5'', ''15'')]) (row_model r) = Some (i, k) \<and>
           decimal_of_string i = Inr (Finite (input_usd_per_mtok r)) \<and>
           decimal_of_string k = Inr (Finite (output_usd_per_mtok r))))"
  by (rule price_overrides_load) code_simp

lemma make_layer_name: "make_layer promos name rs ms = Inr l \<Longrightarrow> layer_name l = name"
  by (auto simp: make_layer_def res_simps)

lemma user_file_kind:
  assumes "load_file promos name n v = Inr l"
  shows "layer_kind l = ''user''"
proof -
  define m where "m = (if startswith name ''user:'' then name else ''user:'' @ name)"
  have m: "startswith m ''user:''" "parse_layer promos m v = Inr l"
    using assms by (auto simp: load_file_def m_def startswith_def split: if_splits)
  then have "layer_name l = m" by (auto simp: parse_layer_def res_simps dest: make_layer_name)
  with m(1) show ?thesis
    by (cases m) (auto simp: layer_kind_def startswith_def MODEL_PRICE_LAYER_def)
qed

lemma builtin_kind:
  assumes "load_builtin promos fr fm files exts provider = Inr l"
  shows "layer_kind l = ''builtin''"
proof -
  obtain s where "layer_name l = ''builtin@'' @ s"
    using assms unfolding load_builtin_def Let_def
    by (auto simp only: rbind_eq_Inr dest!: make_layer_name split: if_splits)
  then show ?thesis by (simp add: layer_kind_def startswith_def)
qed

end
