(* ===== verification/Contract.thy ===== *)
theory Contract
  imports Rate_Schema
begin

text \<open>
  Contract overlays: \<open>rates/contract.py\<close> loads a \<open>tokenbill/contract@1\<close> document or Claude Code's managed
  \<open>modelPricing\<close> block into a \<open>ContractOverlay\<close> and writes both formats back. The model starts at the decoded
  document: \<open>cjson\<close> is what \<open>json.loads(..., parse_float=Decimal)\<close> gives, with the shortest \<open>repr\<close> of a Python
  float where a caller passes one. The overlay's digest and the JSON text are not part of the model. A document
  may leave out its first day, so the loaded overlay keeps it as an option; \<open>overlay_of\<close> is the overlay the rate
  card can read. The lemmas show that what loads is non-negative, so that a card with a loaded contract prices
  consistently, that the \<open>modelPricing\<close> block is given back, and which documents are read back.
\<close>

section \<open>Definitions\<close>

datatype cjson = CNull | CBool bool | CInt int | CDec decimal | CFloat string | CStr string
  | CList "cjson list" | CObj "(string \<times> cjson) list"

definition cget :: "(string \<times> cjson) list \<Rightarrow> string \<Rightarrow> cjson" where
  "cget d k = dget d k CNull"

definition cget_or :: "(string \<times> cjson) list \<Rightarrow> string \<Rightarrow> cjson \<Rightarrow> cjson" where
  "cget_or d k dflt = dget d k dflt"

definition CONTRACT_SCHEMA :: string where "CONTRACT_SCHEMA = ''tokenbill/contract@1''"

definition CONTRACT_BUCKETS :: "string list" where
  "CONTRACT_BUCKETS = [''input'', ''output'', ''cache_read'', ''cache_write_5m'', ''cache_write_1h'',
     ''cache_write_other'', ''web_search'']"

definition MP_KEYS :: "(string \<times> string) list" where
  "MP_KEYS = [(''input'', ''input''), (''output'', ''output''), (''cacheRead'', ''cache_read''),
     (''cacheWrite'', ''cache_write_5m''), (''cacheWrite1h'', ''cache_write_1h'')]"

definition ONE_HOUR_FROM_WRITE :: dec where "ONE_HOUR_FROM_WRITE = mkdec False 16 (-1)"
definition MAX_MULTIPLIER :: dec where "MAX_MULTIPLIER = mkdec False 10 0"

definition contract_name_re :: "string \<Rightarrow> bool" where
  "contract_name_re s = (1 \<le> length s \<and> length s \<le> 128 \<and>
     list_all (\<lambda>c. 32 \<le> (of_char c :: int) \<and> (of_char c :: int) \<noteq> 127) s)"

subsection \<open>Numbers\<close>

text \<open>\<open>repr\<close> of a finite, non-negative float: digits, an optional fraction, an optional exponent.\<close>

definition float_repr_re :: "string \<Rightarrow> bool" where
  "float_repr_re s =
     (let w = takeWhile is_digit s; r = dropWhile is_digit s;
          point = (r \<noteq> [] \<and> hd r = CHR ''.'');
          f = (if point then takeWhile is_digit (tl r) else []);
          t = (if point then dropWhile is_digit (tl r) else r)
      in w \<noteq> [] \<and> (point \<longrightarrow> f \<noteq> []) \<and>
         (t = [] \<or> ((hd t = CHR ''e'' \<or> hd t = CHR ''E'') \<and>
            (let x = (if tl t \<noteq> [] \<and> (hd (tl t) = CHR ''-'' \<or> hd (tl t) = CHR ''+'') then tl (tl t) else tl t)
             in x \<noteq> [] \<and> list_all is_digit x))))"

definition num_decimal :: "cjson \<Rightarrow> decimal res" where
  "num_decimal v = (case v of
      CInt i \<Rightarrow> Inr (Finite (dec_of_int i))
    | CDec d \<Rightarrow> Inr d
    | CStr s \<Rightarrow> if decimal_re 12 18 (strip s) then decimal_of_string (strip s) else Inl PricingError
    | CFloat t \<Rightarrow> if float_repr_re t then decimal_of_string t else Inl PricingError
    | _ \<Rightarrow> Inl PricingError)"

definition num_field :: "cjson \<Rightarrow> dec res" where
  "num_field v = rbind (num_decimal v) (\<lambda>d. rbind (finite_or PricingError d) (\<lambda>x.
     if (sign x \<and> coef x \<noteq> 0) \<or> 11 < adjusted x \<or> expo x < -18 then Inl PricingError else Inr x))"

text \<open>\<open>a > b\<close> on finite decimals.\<close>

definition dec_less :: "dec \<Rightarrow> dec \<Rightarrow> bool" where
  "dec_less a b = (let e = min (expo a) (expo b) in
     sint_of a * 10 ^ nat (expo a - e) < sint_of b * 10 ^ nat (expo b - e))"

subsection \<open>Overlays\<close>

record contract_doc =
  cd_name :: string
  cd_multiplier :: "dec option"
  cd_overrides :: "(string \<times> (string \<times> dec) list) list"
  cd_from :: "string option"
  cd_to :: "string option"
  cd_derived :: bool
  cd_assumed :: "string list"
  cd_channels :: "string list"

definition overlay_of :: "contract_doc \<Rightarrow> contract_overlay option" where
  "overlay_of c = map_option (\<lambda>since. \<lparr>con_name = cd_name c, multiplier = cd_multiplier c, overrides = cd_overrides c,
     con_effective_from = since, con_effective_to = cd_to c, con_channels = cd_channels c\<rparr>) (cd_from c)"

definition name_field :: "cjson \<Rightarrow> string res" where
  "name_field v = (case v of CStr s \<Rightarrow> if contract_name_re s then Inr s else Inl PricingError | _ \<Rightarrow> Inl PricingError)"

definition day_field :: "cjson \<Rightarrow> string option res" where
  "day_field v = (case v of CNull \<Rightarrow> Inr None | CStr s \<Rightarrow> if date_ok s then Inr (Some s) else Inl PricingError
     | _ \<Rightarrow> Inl PricingError)"

text \<open>\<open>effective_to <= effective_from\<close>: comparing a day with \<open>None\<close> raises.\<close>

definition check_days :: "string option \<Rightarrow> string option \<Rightarrow> unit res" where
  "check_days since until = (case until of None \<Rightarrow> Inr ()
     | Some t \<Rightarrow> (case since of None \<Rightarrow> Inl TypeError | Some f \<Rightarrow> guard (f < t) PricingError))"

definition override_rows :: "(string \<times> (string \<times> dec) list) list \<Rightarrow> (string \<times> (string \<times> dec) list) list res" where
  "override_rows ov = rmap (\<lambda>(model, bs).
     rbind (guard (contract_name_re model) PricingError) (\<lambda>_.
     rbind (guard (list_all (\<lambda>b. b \<in> set CONTRACT_BUCKETS) (map fst bs)) PricingError) (\<lambda>_.
     Inr (model, sort_key fst bs)))) (sort_key fst ov)"

definition assumed_field :: "cjson \<Rightarrow> string res" where
  "assumed_field v = (case v of
      CStr s \<Rightarrow> if takeWhile (\<lambda>c. c \<noteq> CHR ''@'') s \<in> set CONTRACT_BUCKETS then Inr s else Inl PricingError
    | _ \<Rightarrow> Inl AttributeError)"

definition channel_field :: "cjson \<Rightarrow> string res" where
  "channel_field v = (case v of CStr s \<Rightarrow> if s \<noteq> '''' then Inr s else Inl PricingError | _ \<Rightarrow> Inl PricingError)"

definition make_overlay ::
    "cjson \<Rightarrow> dec option \<Rightarrow> (string \<times> (string \<times> dec) list) list \<Rightarrow> cjson \<Rightarrow> cjson \<Rightarrow> bool \<Rightarrow> cjson list \<Rightarrow>
     cjson list \<Rightarrow> contract_doc res" where
  "make_overlay name mlt ov since until derived assumed channels =
     rbind (name_field name) (\<lambda>nm.
     rbind (guard (case mlt of None \<Rightarrow> True | Some x \<Rightarrow> \<not> dec_less MAX_MULTIPLIER x) PricingError) (\<lambda>_.
     rbind (day_field since) (\<lambda>f. rbind (day_field until) (\<lambda>t. rbind (check_days f t) (\<lambda>_.
     rbind (override_rows ov) (\<lambda>rs.
     rbind (rmap assumed_field assumed) (\<lambda>as. rbind (rmap channel_field channels) (\<lambda>chs.
     Inr \<lparr>cd_name = nm, cd_multiplier = mlt, cd_overrides = rs, cd_from = f, cd_to = t, cd_derived = derived,
          cd_assumed = sort as, cd_channels = sort chs\<rparr>))))))))"

subsection \<open>Managed model pricing\<close>

definition mp_bucket :: "string \<times> cjson \<Rightarrow> (string \<times> dec) res" where
  "mp_bucket kv = (case map_of MP_KEYS (fst kv) of None \<Rightarrow> Inl PricingError
     | Some b \<Rightarrow> rbind (num_field (snd kv)) (\<lambda>x. Inr (b, x)))"

text \<open>The buckets of one model; the 1-hour rate is derived from the 5-minute rate unless it is stated.\<close>

definition mp_model :: "string \<times> cjson \<Rightarrow> (string \<times> (string \<times> dec) list \<times> bool) res" where
  "mp_model mv = (case snd mv of
      CObj rates \<Rightarrow>
        rbind (guard (list_all (\<lambda>k. map_of MP_KEYS k \<noteq> None) (map fst rates)) PricingError) (\<lambda>_.
        rbind (rmap mp_bucket rates) (\<lambda>bs.
        case (map_of bs ''cache_write_5m'', map_of bs ''cache_write_1h'') of
          (Some w, None) \<Rightarrow> rbind (dec_mul EXACT_CTX w ONE_HOUR_FROM_WRITE) (\<lambda>h.
                              Inr (fst mv, bs @ [(''cache_write_1h'', h)], True))
        | _ \<Rightarrow> Inr (fst mv, bs, False)))
    | _ \<Rightarrow> Inl PricingError)"

definition assumed_of :: "(string \<times> (string \<times> dec) list \<times> bool) list \<Rightarrow> string list" where
  "assumed_of ms =
     (let derived = filter (\<lambda>(_, _, d). d) ms;
          stated = filter (\<lambda>(_, bs, d). map_of bs ''cache_write_1h'' \<noteq> None \<and> \<not> d) ms
      in if derived \<noteq> [] \<and> stated = [] then [''cache_write_1h'']
         else map (\<lambda>(m, _, _). ''cache_write_1h@'' @ m) derived)"

definition mapping_or_empty :: "cjson \<Rightarrow> (string \<times> cjson) list res" where
  "mapping_or_empty v = (case v of CNull \<Rightarrow> Inr [] | CObj d \<Rightarrow> Inr d | _ \<Rightarrow> Inl PricingError)"

definition optional_num :: "cjson \<Rightarrow> dec option res" where
  "optional_num v = (if v = CNull then Inr None else rbind (num_field v) (\<lambda>x. Inr (Some x)))"

definition from_model_pricing :: "(string \<times> cjson) list \<Rightarrow> cjson \<Rightarrow> cjson \<Rightarrow> cjson list \<Rightarrow> contract_doc res" where
  "from_model_pricing block name since channels =
     rbind (guard (list_all (\<lambda>k. k \<in> {''multiplier'', ''overrides''}) (map fst block)) PricingError) (\<lambda>_.
     rbind (mapping_or_empty (cget block ''overrides'')) (\<lambda>ov.
     rbind (rmap mp_model ov) (\<lambda>ms.
     rbind (optional_num (cget block ''multiplier'')) (\<lambda>mlt.
     make_overlay name mlt (map (\<lambda>(m, bs, _). (m, bs)) ms) since CNull False (map CStr (assumed_of ms)) channels))))"

definition number_json :: "dec \<Rightarrow> cjson" where
  "number_json d = (if 0 \<le> expo d then CInt (sint_of d * 10 ^ nat (expo d))
     else if coef d mod 10 ^ nat (- expo d) = 0 then CInt (sgn (sint_of d) * int (coef d div 10 ^ nat (- expo d)))
     else CDec (Finite d))"

definition MP_REVERSE :: "(string \<times> string) list" where
  "MP_REVERSE = map (\<lambda>(k, b). (b, k)) MP_KEYS"

definition one_hour_assumed :: "string list \<Rightarrow> string \<Rightarrow> bool" where
  "one_hour_assumed assumed model = (''cache_write_1h'' \<in> set assumed \<or> (''cache_write_1h@'' @ model) \<in> set assumed)"

definition mp_entry :: "string list \<Rightarrow> string \<Rightarrow> string \<times> dec \<Rightarrow> (string \<times> cjson) list" where
  "mp_entry assumed model bv = (case map_of MP_REVERSE (fst bv) of
      None \<Rightarrow> []
    | Some k \<Rightarrow> if k = ''cacheWrite1h'' \<and> one_hour_assumed assumed model then [] else [(k, number_json (snd bv))])"

definition to_model_pricing :: "contract_doc \<Rightarrow> (string \<times> cjson) list" where
  "to_model_pricing c =
     (let ov = map (\<lambda>(m, bs). (m, CObj (concat (map (mp_entry (cd_assumed c) m) bs)))) (cd_overrides c);
          m = (case cd_multiplier c of None \<Rightarrow> [] | Some x \<Rightarrow> [(''multiplier'', number_json x)])
      in m @ (if ov \<noteq> [] \<or> m = [] then [(''overrides'', CObj ov)] else []))"

subsection \<open>Contract documents\<close>

text \<open>A number with a point or an exponent, or a constant such as \<open>NaN\<close>: the strict second parse refuses it.\<close>

fun has_float :: "cjson \<Rightarrow> bool" where
  "has_float (CDec _) = True"
| "has_float (CFloat _) = True"
| "has_float (CList xs) = list_ex has_float xs"
| "has_float (CObj d) = list_ex (\<lambda>kv. has_float (snd kv)) d"
| "has_float _ = False"

definition falsy :: "cjson \<Rightarrow> bool" where
  "falsy v = (v \<in> {CNull, CBool False, CInt 0, CStr '''', CList [], CObj []})"

definition override_nums :: "cjson \<Rightarrow> (string \<times> (string \<times> dec) list) list res" where
  "override_nums v = (if falsy v then Inr [] else case v of
      CObj ov \<Rightarrow>
        rbind (guard (list_all (\<lambda>(_, b). case b of CObj _ \<Rightarrow> True | _ \<Rightarrow> False) ov) PricingError) (\<lambda>_.
        rmap (\<lambda>(m, b). case b of
            CObj bs \<Rightarrow> rbind (rmap (\<lambda>(k, x). rbind (num_field x) (\<lambda>d. Inr (k, d))) bs) (\<lambda>ds. Inr (m, ds))
          | _ \<Rightarrow> Inl PricingError) ov)
    | _ \<Rightarrow> Inl PricingError)"

definition clist_field :: "cjson \<Rightarrow> cjson list res" where
  "clist_field v = (case v of CList xs \<Rightarrow> Inr xs | _ \<Rightarrow> Inl PricingError)"

definition cbool_field :: "cjson \<Rightarrow> bool res" where
  "cbool_field v = (case v of CBool b \<Rightarrow> Inr b | _ \<Rightarrow> Inl PricingError)"

definition load_contract :: "string \<Rightarrow> cjson \<Rightarrow> contract_doc res" where
  "load_contract stem doc = (case doc of
      CObj d \<Rightarrow>
        if map_of d ''modelPricing'' \<noteq> None \<and> map_of d ''schema'' = None then
          (case cget d ''modelPricing'' of
             CObj block \<Rightarrow> from_model_pricing block (CStr stem) (CStr ''1970-01-01'') []
           | _ \<Rightarrow> Inl PricingError)
        else
          rbind (guard (\<not> has_float doc) PricingError) (\<lambda>_.
          rbind (guard (cget d ''schema'' = CStr CONTRACT_SCHEMA) PricingError) (\<lambda>_.
          rbind (override_nums (cget d ''overrides'')) (\<lambda>ov.
          rbind (clist_field (cget_or d ''assumed_fields'' (CList []))) (\<lambda>as.
          rbind (clist_field (cget_or d ''channels'' (CList []))) (\<lambda>chs.
          rbind (cbool_field (cget_or d ''derived'' (CBool False))) (\<lambda>dv.
          rbind (optional_num (cget d ''multiplier'')) (\<lambda>mlt.
          make_overlay (cget d ''name'') mlt ov (cget d ''effective_from'') (cget d ''effective_to'') dv as chs)))))))
    | _ \<Rightarrow> Inl PricingError)"

text \<open>\<open>str(Decimal)\<close>: plain notation while the exponent is not positive and the number is not below \<open>1E-6\<close>.\<close>

definition py_dec_str :: "dec \<Rightarrow> string" where
  "py_dec_str d =
     (if expo d \<le> 0 \<and> -6 \<le> adjusted d then format_f d
      else (if sign d then ''-'' else '''') @
        (let ds = show_nat (coef d) in take 1 ds @ (if length ds = 1 then '''' else ''.'' @ drop 1 ds)) @
        ''E'' @ (if adjusted d < 0 then ''-'' else ''+'') @ show_nat (nat \<bar>adjusted d\<bar>))"

definition opt_str :: "string option \<Rightarrow> cjson" where
  "opt_str v = (case v of None \<Rightarrow> CNull | Some s \<Rightarrow> CStr s)"

definition contract_json :: "contract_doc \<Rightarrow> cjson" where
  "contract_json c = CObj [(''schema'', CStr CONTRACT_SCHEMA), (''name'', CStr (cd_name c)),
     (''multiplier'', case cd_multiplier c of None \<Rightarrow> CNull | Some x \<Rightarrow> CStr (py_dec_str x)),
     (''overrides'', CObj (map (\<lambda>(m, bs). (m, CObj (map (\<lambda>(b, x). (b, CStr (py_dec_str x))) bs))) (cd_overrides c))),
     (''effective_from'', opt_str (cd_from c)), (''effective_to'', opt_str (cd_to c)),
     (''derived'', CBool (cd_derived c)), (''assumed_fields'', CList (map CStr (cd_assumed c))),
     (''channels'', CList (map CStr (cd_channels c)))]"

definition plain_num :: "dec \<Rightarrow> bool" where
  "plain_num x = (\<not> sign x \<and> -18 \<le> expo x \<and> expo x \<le> 0 \<and> -6 \<le> adjusted x \<and> adjusted x \<le> 11)"

definition nn_doc :: "contract_doc \<Rightarrow> bool" where
  "nn_doc c = (nn_opt (cd_multiplier c) \<and> list_all (list_all (nn \<circ> snd) \<circ> snd) (cd_overrides c))"

definition plain_doc :: "contract_doc \<Rightarrow> bool" where
  "plain_doc c = ((case cd_multiplier c of None \<Rightarrow> True | Some x \<Rightarrow> plain_num x) \<and>
     list_all (\<lambda>(m, bs). list_all (\<lambda>(b, x). plain_num x) bs) (cd_overrides c))"

definition num_val :: "cjson \<Rightarrow> rat option" where
  "num_val v = (case v of CInt i \<Rightarrow> Some (of_int i) | CDec (Finite d) \<Rightarrow> Some (dval d) | _ \<Rightarrow> None)"

definition obj_of :: "cjson \<Rightarrow> (string \<times> cjson) list" where
  "obj_of v = (case v of CObj d \<Rightarrow> d | _ \<Rightarrow> [])"

definition mp_models :: "(string \<times> cjson) list \<Rightarrow> string set" where
  "mp_models block = fst ` set (obj_of (cget block ''overrides''))"

definition mp_rate :: "(string \<times> cjson) list \<Rightarrow> string \<Rightarrow> string \<Rightarrow> rat option" where
  "mp_rate block m k = Option.bind (map_of (obj_of (cget block ''overrides'')) m) (\<lambda>v. Option.bind (map_of (obj_of v) k) num_val)"

text \<open>A parsed block: object keys are distinct and numbers are integers or decimals.\<close>

definition parsed_block :: "(string \<times> cjson) list \<Rightarrow> bool" where
  "parsed_block block =
     (let ov = obj_of (cget block ''overrides'') in
      distinct (map fst ov) \<and> list_all (\<lambda>(m, v). distinct (map fst (obj_of v)) \<and>
        list_all (\<lambda>(k, x). num_val x \<noteq> None) (obj_of v)) ov \<and>
      (cget block ''multiplier'' = CNull \<or> num_val (cget block ''multiplier'') \<noteq> None))"

definition wit_contract :: "string \<Rightarrow> cjson" where
  "wit_contract x = CObj [(''schema'', CStr CONTRACT_SCHEMA), (''name'', CStr ''acme''), (''multiplier'', CStr x),
     (''overrides'', CObj [(''m'', CObj [(''output'', CStr ''9'')])]), (''effective_from'', CStr ''2025-01-01'')]"

definition wit_contract_price :: "priced_inference res" where
  "wit_contract_price = rbind (parse_layer [] ''builtin'' wit_rate_file) (\<lambda>l. rbind (load_contract ''c'' (wit_contract ''0.5'')) (\<lambda>d.
     rbind (mk_rate_card [l] (overlay_of d)) (\<lambda>c. price_usage c [] wit_usage wit_ctx 1750000000000 (Some True) UsFinal None)))"

definition wit_round :: "contract_doc res" where
  "wit_round = make_overlay (CStr ''acme'') (Some (mkdec False 85 (-2))) [(''m'', [(''output'', mkdec False 9 0), (''input'', mkdec False 25 (-1))])]
     (CStr ''2025-01-01'') CNull False [] [CStr ''anthropic_api'']"

definition wit_block :: "(string \<times> cjson) list" where
  "wit_block = [(''multiplier'', CDec (Finite (mkdec False 5 (-1)))),
     (''overrides'', CObj [(''m'', CObj [(''input'', CInt 3), (''cacheWrite'', CDec (Finite (mkdec False 2 0)))]),
        (''k'', CObj [(''cacheWrite'', CInt 1), (''cacheWrite1h'', CInt 2)])])]"

section \<open>Lemmas\<close>

subsection \<open>Numbers as text\<close>

lemma hd_show_nat: "0 < n \<Longrightarrow> hd (show_nat n) \<noteq> CHR ''0''"
proof (induction n rule: show_nat.induct)
  case (1 n)
  show ?case
  proof (cases "n < 10")
    case True
    then have "n \<in> {1, 2, 3, 4, 5, 6, 7, 8, 9}" using 1(2) by auto
    then show ?thesis by (auto simp: show_nat.simps [of n] dig_def)
  next
    case False
    with 1 show ?thesis by (simp add: show_nat.simps [of n] hd_append)
  qed
qed

lemma plain_digits:
  assumes "plain_num x"
  obtains w f where "py_dec_str x = w @ (if f = [] then '''' else ''.'') @ f" "w \<noteq> []"
    "\<forall>c \<in> set w. is_digit c" "\<forall>c \<in> set f. is_digit c" "read_nat (w @ f) = coef x" "int (length f) = - expo x"
    "w = ''0'' \<or> (hd w \<noteq> CHR ''0'' \<and> length w \<le> 12)"
proof -
  have p: "\<not> sign x" "expo x \<le> 0" "py_dec_str x = format_f x" and a: "adjusted x \<le> 11"
    using assms by (simp_all add: plain_num_def py_dec_str_def)
  define ds where "ds = show_nat (coef x)"
  have ds: "\<forall>c \<in> set ds. is_digit c" "ds \<noteq> []" "int (length ds) = adjusted x - expo x + 1" "read_nat ds = coef x"
    by (simp_all add: ds_def show_nat_digits show_nat_nonempty length_show_nat adjusted_def)
  have z: "is_digit (CHR ''0'')" by (simp add: is_digit_iff)
  have hd0: "coef x \<noteq> 0 \<Longrightarrow> hd ds \<noteq> CHR ''0''" using hd_show_nat [of "coef x"] by (simp add: ds_def)
  consider "expo x = 0" | "expo x < 0" "nat (- expo x) < length ds" | "expo x < 0" "length ds \<le> nat (- expo x)"
    using p(2) by linarith
  then show thesis
  proof cases
    case 1
    have "format_f x = ds" using 1 p(1) by (simp add: format_f_def Let_def ds_def show_nat.simps dig_def)
    moreover have "ds = ''0'' \<or> (hd ds \<noteq> CHR ''0'' \<and> length ds \<le> 12)"
      using hd0 ds(3) a 1 by (cases "coef x = 0") (simp_all add: ds_def show_nat.simps dig_def)
    ultimately show thesis using that [of ds "[]"] ds p(3) 1 by simp
  next
    case 2
    let ?n = "length ds - nat (- expo x)"
    have "format_f x = take ?n ds @ ''.'' @ drop ?n ds" using 2 p(1) by (simp add: format_f_def Let_def ds_def)
    moreover have "coef x \<noteq> 0"
    proof
      assume "coef x = 0"
      then show False using 2 by (simp add: ds_def show_nat.simps)
    qed
    then have "hd (take ?n ds) \<noteq> CHR ''0''" using hd0 2 by simp
    moreover have "length (take ?n ds) \<le> 12" using ds(3) a 2(2) by simp
    moreover have "take ?n ds \<noteq> []" "drop ?n ds \<noteq> []" "int (length (drop ?n ds)) = - expo x" using 2 ds(2) by auto
    ultimately show thesis
      using that [of "take ?n ds" "drop ?n ds"] ds(1,4) p(3) by (auto dest: in_set_takeD in_set_dropD)
  next
    case 3
    let ?f = "replicate (nat (- expo x) - length ds) (CHR ''0'') @ ds"
    have "format_f x = ''0.'' @ ?f" using 3 p(1) by (simp add: format_f_def Let_def ds_def)
    moreover have "read_nat (''0'' @ ?f) = coef x"
      using ds(4) read_nat_zeros [of 1] by (simp only: read_nat_append) simp
    moreover have "?f \<noteq> []" "int (length ?f) = - expo x" "\<forall>c \<in> set ?f. is_digit c" using 3 ds(1,2) z by auto
    ultimately show thesis using that [of "''0''" ?f] p(3) z by simp
  qed
qed

lemma digits_dot_strip:
  assumes "s = w @ (if f = [] then '''' else ''.'') @ f" "w \<noteq> []" "\<forall>c \<in> set w. is_digit c" "\<forall>c \<in> set f. is_digit c"
  shows "strip s = s" "takeWhile is_digit s = w" "dropWhile is_digit s = (if f = [] then '''' else ''.'' @ f)"
proof -
  have "\<not> is_digit (CHR ''.'')" by (simp add: is_digit_iff)
  then show "takeWhile is_digit s = w" "dropWhile is_digit s = (if f = [] then '''' else ''.'' @ f)"
    using assms by (auto simp: takeWhile_append dropWhile_append)
  have "last s = (if f = [] then last w else last f)" using assms(1,2) by auto
  then have "is_digit (last s)" using assms(2-4) by (auto split: if_splits)
  moreover have "is_digit (hd s)" using assms(1-3) by (auto simp: hd_append)
  ultimately show "strip s = s" using assms(1,2) is_digit_facts(1) by (intro strip_id) auto
qed

lemma py_dec_str_reads:
  assumes "plain_num x"
  shows "num_field (CStr (py_dec_str x)) = Inr x"
proof -
  from assms obtain w f where s: "py_dec_str x = w @ (if f = [] then '''' else ''.'') @ f" "w \<noteq> []"
    "\<forall>c \<in> set w. is_digit c" "\<forall>c \<in> set f. is_digit c" "read_nat (w @ f) = coef x" "int (length f) = - expo x"
    "w = ''0'' \<or> (hd w \<noteq> CHR ''0'' \<and> length w \<le> 12)"
    by (rule plain_digits)
  note t = digits_dot_strip [OF s(1-4)]
  have p: "\<not> sign x" "-18 \<le> expo x" "expo x \<le> 0" "adjusted x \<le> 11" using assms by (simp_all add: plain_num_def)
  have "length f \<le> 18" using s(6) p(2) by linarith
  then have "decimal_re 12 18 (py_dec_str x)" using s(2,4,7) by (auto simp: decimal_re_def t list_all_iff Suc_le_eq)
  moreover have "int (ndig (coef x)) \<le> 30" using p by (simp add: adjusted_def)
  then have "dec_make False (coef x) (expo x) = Inr x"
    using p by (cases x) (simp add: dec_make_def MIN_ETINY_def MAX_EMAX_def mkdec_def)
  then have "decimal_of_string (py_dec_str x) = Inr (Finite x)"
    using decimal_of_string_plain [OF s(2-4), of "''''" False "if f = [] then '''' else ''.''"] s(1,5,6) by simp
  ultimately show ?thesis using p by (simp add: num_field_def num_decimal_def t(1) finite_or_def)
qed

subsection \<open>What loads is non-negative\<close>

lemma num_field_nn: "rsat nn (num_field v)"
  unfolding num_field_def
  by (rule rsat_bind [OF rsat_any], rule rsat_bind [OF rsat_any]) (simp add: nn_def)

lemma optional_num_nn: "rsat nn_opt (optional_num v)"
  unfolding optional_num_def by (auto simp: nn_opt_def intro!: rsat_bind [OF num_field_nn])

lemma override_rows_nn:
  assumes "list_all (list_all (nn \<circ> snd) \<circ> snd) ov"
  shows "rsat (list_all (list_all (nn \<circ> snd) \<circ> snd)) (override_rows ov)"
  unfolding override_rows_def
proof (rule rsat_rmap)
  fix x assume "x \<in> set (sort_key fst ov)"
  then have "list_all (nn \<circ> snd) (snd x)" using assms by (auto simp: list_all_iff)
  then show "rsat (list_all (nn \<circ> snd) \<circ> snd) (case x of (model, bs) \<Rightarrow>
     rbind (guard (contract_name_re model) PricingError) (\<lambda>_.
     rbind (guard (list_all (\<lambda>b. b \<in> set CONTRACT_BUCKETS) (map fst bs)) PricingError) (\<lambda>_.
     Inr (model, sort_key fst bs))))"
    by (cases x) (auto simp: list_all_iff intro!: rsat_bind [OF rsat_any])
qed

lemma make_overlay_nn:
  assumes "nn_opt mlt" "list_all (list_all (nn \<circ> snd) \<circ> snd) ov"
  shows "rsat nn_doc (make_overlay name mlt ov since until derived assumed channels)"
  unfolding make_overlay_def
  by ((rule rsat_bind [OF override_rows_nn [OF assms(2)]] | rule rsat_bind [OF rsat_any])+) (simp add: nn_doc_def assms(1))

lemma mp_model_nn: "rsat (\<lambda>(_, bs, _). list_all (nn \<circ> snd) bs) (mp_model mv)"
proof (cases "snd mv")
  case (CObj rates)
  have b: "rsat (nn \<circ> snd) (mp_bucket kv)" for kv
    unfolding mp_bucket_def by (auto split: option.split intro!: rsat_bind [OF num_field_nn])
  have w: "nn (mkdec False c e)" for c e by (simp add: nn_def)
  have m: "rsat (\<lambda>(_, bs, _). list_all (nn \<circ> snd) bs)
      (case (map_of bs ''cache_write_5m'', map_of bs ''cache_write_1h'') of
          (Some w, None) \<Rightarrow> rbind (dec_mul EXACT_CTX w ONE_HOUR_FROM_WRITE) (\<lambda>h.
                              Inr (fst mv, bs @ [(''cache_write_1h'', h)], True))
        | _ \<Rightarrow> Inr (fst mv, bs, False))" if "list_all (nn \<circ> snd) bs" for bs
  proof (cases "map_of bs ''cache_write_5m''")
    case (Some w)
    then have "nn w" using that by (auto simp: list_all_iff dest!: map_of_SomeD)
    then have "rsat (\<lambda>(_, bs, _). list_all (nn \<circ> snd) bs) (rbind (dec_mul EXACT_CTX w ONE_HOUR_FROM_WRITE) (\<lambda>h.
        Inr (fst mv, bs @ [(''cache_write_1h'', h)], True)))"
      using that by (intro rsat_bind [OF dec_mul_nn]) (simp_all add: ONE_HOUR_FROM_WRITE_def w)
    with Some that show ?thesis by (simp split: option.split)
  qed (use that in simp)
  show ?thesis
    unfolding mp_model_def CObj cjson.case
    by (rule rsat_bind [OF rsat_any], rule rsat_bind [OF rsat_rmap [OF b]]) (rule m)
qed (simp_all add: mp_model_def)

lemma from_model_pricing_nn: "rsat nn_doc (from_model_pricing block name since channels)"
proof -
  have "list_all (\<lambda>(_, bs, _). list_all (nn \<circ> snd) bs) ms \<Longrightarrow>
      list_all (list_all (nn \<circ> snd) \<circ> snd) (map (\<lambda>(m, bs, _). (m, bs)) ms)" for ms :: "(string \<times> (string \<times> dec) list \<times> bool) list"
    by (induction ms) auto
  then show ?thesis
    unfolding from_model_pricing_def
    by (intro rsat_bind [OF rsat_any] rsat_bind [OF rsat_rmap [OF mp_model_nn]] rsat_bind [OF optional_num_nn] make_overlay_nn)
qed

lemma override_nums_nn: "rsat (list_all (list_all (nn \<circ> snd) \<circ> snd)) (override_nums v)"
proof -
  have "rsat (list_all (nn \<circ> snd)) (rmap (\<lambda>(k, x). rbind (num_field x) (\<lambda>d. Inr (k, d))) bs)" for bs :: "(string \<times> cjson) list"
    by (rule rsat_rmap) (auto intro!: rsat_bind [OF num_field_nn])
  then have "rsat (list_all (nn \<circ> snd) \<circ> snd) (case mb of (m, b) \<Rightarrow> case b of
            CObj bs \<Rightarrow> rbind (rmap (\<lambda>(k, x). rbind (num_field x) (\<lambda>d. Inr (k, d))) bs) (\<lambda>ds. Inr (m, ds))
          | _ \<Rightarrow> Inl PricingError)" for mb
    by (auto split: prod.split cjson.split intro!: rsat_bind)
  from rsat_rmap [OF this] show ?thesis
    unfolding override_nums_def by (auto split: cjson.split intro!: rsat_bind [OF rsat_any])
qed

lemma load_contract_nn: "rsat nn_doc (load_contract stem doc)"
proof (cases doc)
  case (CObj d)
  show ?thesis
    unfolding CObj load_contract_def cjson.case
    by (auto split: cjson.split intro!: from_model_pricing_nn)
      ((rule rsat_bind [OF override_nums_nn] | rule rsat_bind [OF optional_num_nn] | rule make_overlay_nn | assumption |
        rule rsat_bind [OF rsat_any])+)
qed (simp_all add: load_contract_def)

subsection \<open>Reading a contract back\<close>

lemma sorted_sort_key: "sorted (map f xs) \<Longrightarrow> sort_key f xs = xs"
  by (rule sort_key_id_if_sorted)

lemma override_rows_again:
  assumes "override_rows ov = Inr rs"
  shows "override_rows rs = Inr rs"
proof -
  let ?g = "\<lambda>(model, bs). rbind (guard (contract_name_re model) PricingError) (\<lambda>_.
     rbind (guard (list_all (\<lambda>b. b \<in> set CONTRACT_BUCKETS) (map fst bs)) PricingError) (\<lambda>_.
     Inr (model :: string, sort_key fst bs :: (string \<times> dec) list)))"
  have g: "rmap ?g xs = Inr ys \<Longrightarrow> map fst ys = map fst xs \<and> rmap ?g ys = Inr ys" for xs ys
    by (induction xs arbitrary: ys) (auto simp: res_simps list_all_iff sorted_sort_key)
  have "map fst rs = map fst (sort_key fst ov)" "rmap ?g rs = Inr rs"
    using g assms unfolding override_rows_def by blast+
  then show ?thesis unfolding override_rows_def by (simp add: sorted_sort_key)
qed

lemma override_nums_back:
  assumes "list_all (\<lambda>(m, bs). list_all (\<lambda>(b, x). plain_num x) bs) ov"
  shows "override_nums (CObj (map (\<lambda>(m, bs). (m, CObj (map (\<lambda>(b, x). (b, CStr (py_dec_str x))) bs))) ov)) = Inr ov"
proof -
  have b: "list_all (\<lambda>(b, x). plain_num x) bs \<Longrightarrow>
      rmap (\<lambda>(k, x). rbind (num_field x) (\<lambda>d. Inr (k, d))) (map (\<lambda>(b, x). (b, CStr (py_dec_str x))) bs) = Inr bs" for bs
    by (induction bs) (auto simp: py_dec_str_reads)
  have "rmap (\<lambda>(m, b). case b of
            CObj bs \<Rightarrow> rbind (rmap (\<lambda>(k, x). rbind (num_field x) (\<lambda>d. Inr (k, d))) bs) (\<lambda>ds. Inr (m, ds))
          | _ \<Rightarrow> Inl PricingError) (map (\<lambda>(m, bs). (m, CObj (map (\<lambda>(b, x). (b, CStr (py_dec_str x))) bs))) ov) = Inr ov"
    using assms by (induction ov) (auto simp: b)
  moreover have "list_all (\<lambda>(_, b). case b of CObj _ \<Rightarrow> True | _ \<Rightarrow> False)
      (map (\<lambda>(m, bs). (m, CObj (map (\<lambda>(b, x). (b, CStr (py_dec_str x))) bs))) ov)"
    by (auto simp: list_all_iff)
  ultimately show ?thesis by (simp add: override_nums_def falsy_def)
qed

lemma assumed_again: "assumed_field v = Inr y \<Longrightarrow> assumed_field (CStr y) = Inr y"
  and channel_again: "channel_field v = Inr y \<Longrightarrow> channel_field (CStr y) = Inr y"
  by (auto simp: assumed_field_def channel_field_def split: cjson.splits if_splits)

lemma make_overlay_again:
  assumes "make_overlay name mlt ov since until derived assumed channels = Inr c"
  shows "make_overlay (CStr (cd_name c)) (cd_multiplier c) (cd_overrides c) (opt_str (cd_from c)) (opt_str (cd_to c))
     (cd_derived c) (map CStr (cd_assumed c)) (map CStr (cd_channels c)) = Inr c"
proof -
  obtain as chs where a: "name_field name = Inr (cd_name c)" "day_field since = Inr (cd_from c)" "day_field until = Inr (cd_to c)"
    "check_days (cd_from c) (cd_to c) = Inr ()" "override_rows ov = Inr (cd_overrides c)"
    "rmap assumed_field assumed = Inr as" "rmap channel_field channels = Inr chs"
    "cd_assumed c = sort as" "cd_channels c = sort chs" "cd_multiplier c = mlt" "cd_derived c = derived"
    "case mlt of None \<Rightarrow> True | Some x \<Rightarrow> \<not> dec_less MAX_MULTIPLIER x"
    using assms by (auto simp: make_overlay_def res_simps)
  have f: "rmap fld xs = Inr ys \<Longrightarrow> \<forall>y \<in> set ys. fld (CStr y) = Inr y"
    if "\<And>v y. fld v = Inr y \<Longrightarrow> fld (CStr y) = Inr y" for fld :: "cjson \<Rightarrow> string res" and xs ys
    using that by (induction xs arbitrary: ys) (auto simp: res_simps)
  have again: "\<forall>y \<in> set ys. fld (CStr y) = Inr y \<Longrightarrow> rmap fld (map CStr ys) = Inr ys" for fld :: "cjson \<Rightarrow> string res" and ys
    by (induction ys) auto
  have "\<forall>y \<in> set as. assumed_field (CStr y) = Inr y" "\<forall>y \<in> set chs. channel_field (CStr y) = Inr y"
    using f [of assumed_field, OF _ a(6)] f [of channel_field, OF _ a(7)] assumed_again channel_again by blast+
  then have "rmap assumed_field (map CStr (sort as)) = Inr (sort as)" "rmap channel_field (map CStr (sort chs)) = Inr (sort chs)"
    by (auto intro!: again)
  moreover have "name_field (CStr (cd_name c)) = Inr (cd_name c)" "day_field (opt_str (cd_from c)) = Inr (cd_from c)"
    "day_field (opt_str (cd_to c)) = Inr (cd_to c)"
    using a(1-3) by (auto simp: name_field_def day_field_def opt_str_def split: cjson.splits if_splits option.splits)
  ultimately show ?thesis
    using a(4,8-12) override_rows_again [OF a(5)] by (cases c) (simp add: make_overlay_def sorted_sort_id)
qed

text \<open>C33: A contract overlay built from any arguments, whose rates are in plain notation (not below \<open>1E-6\<close>, at most
  18 decimals), is written and read back as itself.\<close>

theorem contract_round_trip:
  assumes "make_overlay name mlt ov since until derived assumed channels = Inr c" "plain_doc c"
  shows "load_contract stem (contract_json c) = Inr c"
proof -
  have "\<not> has_float (contract_json c)"
    by (auto simp: contract_json_def opt_str_def list_ex_iff split: option.splits)
  moreover have "optional_num (case cd_multiplier c of None \<Rightarrow> CNull | Some x \<Rightarrow> CStr (py_dec_str x)) = Inr (cd_multiplier c)"
    using assms(2) by (auto simp: optional_num_def plain_doc_def py_dec_str_reads split: option.splits)
  moreover have "override_nums (CObj (map (\<lambda>(m, bs). (m, CObj (map (\<lambda>(b, x). (b, CStr (py_dec_str x))) bs))) (cd_overrides c))) = Inr (cd_overrides c)"
    using assms(2) by (intro override_nums_back) (simp add: plain_doc_def)
  ultimately show ?thesis
    using make_overlay_again [OF assms(1)]
    by (simp add: load_contract_def contract_json_def cget_def cget_or_def dget_def clist_field_def cbool_field_def)
qed

subsection \<open>Managed model pricing is given back\<close>

lemma num_val_CNull: "num_val CNull = None"
  by (simp add: num_val_def)

lemma obj_of_CObj: "obj_of (CObj d) = d"
  by (simp add: obj_of_def)

lemma num_field_val: "num_field v = Inr x \<Longrightarrow> num_val v \<noteq> None \<Longrightarrow> num_val v = Some (dval x)"
  by (auto simp: num_field_def num_decimal_def num_val_def res_simps finite_or_def split: cjson.splits decimal.splits if_splits)

lemma number_json_val: "num_val (number_json d) = Some (dval d)"
proof (cases "0 \<le> expo d")
  case True
  then show ?thesis by (simp add: number_json_def num_val_def dval_def power_int_def)
next
  case False
  let ?k = "nat (- expo d)"
  show ?thesis
  proof (cases "coef d mod 10 ^ ?k = 0")
    case True
    then obtain q where q: "coef d = q * 10 ^ ?k" by (metis mod_0_imp_dvd dvd_def mult.commute)
    have "dval d = of_int (sint_of d) * inverse (10 ^ ?k)"
      using \<open>\<not> 0 \<le> expo d\<close> by (simp add: dval_def power_int_def power_one_over inverse_eq_divide)
    also have "\<dots> = (if sign d then - of_nat q else of_nat q)"
      by (simp add: sint_of_def q)
    finally show ?thesis
      using \<open>\<not> 0 \<le> expo d\<close> by (auto simp: number_json_def num_val_def q sint_of_def sgn_if mult_less_0_iff zero_less_mult_iff)
  next
    case False
    with \<open>\<not> 0 \<le> expo d\<close> show ?thesis by (simp add: number_json_def num_val_def)
  qed
qed

lemma MP_inverse: "map_of MP_REVERSE b = Some k \<longleftrightarrow> map_of MP_KEYS k = Some b"
  by (auto simp: MP_REVERSE_def MP_KEYS_def split: if_splits)

lemma mp_entries_lookup:
  "map_of (concat (map (mp_entry as m) bs)) k = (case map_of MP_KEYS k of None \<Rightarrow> None
     | Some b \<Rightarrow> if k = ''cacheWrite1h'' \<and> one_hour_assumed as m then None
                else map_option number_json (map_of bs b))"
proof (induction bs)
  case (Cons bx bs)
  obtain b x where bx: "bx = (b, x)" by (cases bx)
  show ?case
  proof (cases "map_of MP_KEYS k = Some b")
    case True
    then have "map_of MP_REVERSE b = Some k" by (simp add: MP_inverse)
    moreover from this have "map_of (mp_entry as m bx) k = (if k = ''cacheWrite1h'' \<and> one_hour_assumed as m then None else Some (number_json x))"
      by (simp add: mp_entry_def bx)
    ultimately show ?thesis
      using Cons.IH True bx by (cases "k = ''cacheWrite1h'' \<and> one_hour_assumed as m") (auto simp: map_add_def)
  next
    case False
    then have "map_of (mp_entry as m (b, x)) k = None"
      using MP_inverse [of b k] by (auto simp: mp_entry_def split: option.split)
    then show ?thesis using Cons.IH False bx by (auto simp: map_add_def split: option.split)
  qed
qed (simp split: option.split)

lemma mp_buckets_lookup:
  assumes "rmap mp_bucket rates = Inr bs" "map_of MP_KEYS k = Some b"
  shows "case map_of rates k of None \<Rightarrow> map_of bs b = None
    | Some v \<Rightarrow> \<exists>x. num_field v = Inr x \<and> map_of bs b = Some x"
  using assms(1)
proof (induction rates arbitrary: bs)
  case (Cons kv rates)
  obtain k' v where kv: "kv = (k', v)" by (cases kv)
  with Cons.prems obtain b' x bs' where b: "map_of MP_KEYS k' = Some b'" "num_field v = Inr x" "rmap mp_bucket rates = Inr bs'"
    "bs = (b', x) # bs'"
    by (auto simp: mp_bucket_def [of "(k', v)"] res_simps split: option.splits)
  have "k' = k \<longleftrightarrow> b' = b" using b(1) assms(2) MP_inverse by (metis option.inject)
  with Cons.IH [OF b(3)] b kv show ?case by (auto split: option.splits)
qed simp

lemma mp_model_cases:
  assumes "mp_model (m, v) = Inr (m', bs, d)"
  obtains bs' where "m' = m" "v = CObj (obj_of v)" "rmap mp_bucket (obj_of v) = Inr bs'"
    "bs = bs' \<and> \<not> d \<or> (\<exists>h. bs = bs' @ [(''cache_write_1h'', h)] \<and> d \<and> map_of bs' ''cache_write_1h'' = None)"
proof -
  obtain rates bs' where r: "v = CObj rates" "rmap mp_bucket rates = Inr bs'"
    and c: "(case (map_of bs' ''cache_write_5m'', map_of bs' ''cache_write_1h'') of
          (Some w, None) \<Rightarrow> rbind (dec_mul EXACT_CTX w ONE_HOUR_FROM_WRITE) (\<lambda>h.
                              Inr (m, bs' @ [(''cache_write_1h'', h)], True))
        | _ \<Rightarrow> Inr (m, bs', False)) = Inr (m', bs, d)"
    using assms unfolding mp_model_def fst_conv snd_conv by (auto simp: rbind_eq_Inr split: cjson.splits)
  show thesis
    by (rule that [of bs']; use r c in \<open>auto simp: obj_of_def rbind_eq_Inr split: option.splits\<close>)
qed

text \<open>The entry written for a model has the rates its block had.\<close>

lemma mp_model_entry:
  assumes "mp_model (m, v) = Inr (m', bs, d)" "list_all (\<lambda>(k, x). num_val x \<noteq> None) (obj_of v)"
    and "map_of bs ''cache_write_1h'' \<noteq> None \<Longrightarrow> one_hour_assumed as m = d" "set bs'' = set bs" "distinct (map fst bs)" "distinct (map fst bs'')"
  shows "Option.bind (map_of (concat (map (mp_entry as m) bs'')) k) num_val = Option.bind (map_of (obj_of v) k) num_val"
proof -
  from assms(1) obtain bs' where b: "rmap mp_bucket (obj_of v) = Inr bs'"
    "bs = bs' \<and> \<not> d \<or> (\<exists>h. bs = bs' @ [(''cache_write_1h'', h)] \<and> d \<and> map_of bs' ''cache_write_1h'' = None)"
    by (rule mp_model_cases)
  have same: "map_of bs'' = map_of bs" using assms(4-6) map_of_inject_set by blast
  have keys: "map_of MP_KEYS k = None \<Longrightarrow> map_of (obj_of v) k = None"
  proof (rule ccontr)
    assume "map_of MP_KEYS k = None" "map_of (obj_of v) k \<noteq> None"
    then obtain x where "(k, x) \<in> set (obj_of v)" by (auto dest: map_of_SomeD)
    moreover have "rmap mp_bucket rs = Inr ys \<Longrightarrow> (k, x) \<in> set rs \<Longrightarrow> map_of MP_KEYS k \<noteq> None" for rs ys
      by (induction rs arbitrary: ys) (auto simp: mp_bucket_def [of "(k, x)"] res_simps split: option.splits)
    ultimately show False using b(1) \<open>map_of MP_KEYS k = None\<close> by blast
  qed
  show ?thesis
  proof (cases "map_of MP_KEYS k")
    case None
    with keys show ?thesis by (simp add: mp_entries_lookup)
  next
    case (Some bk)
    have one: "bk = ''cache_write_1h'' \<longleftrightarrow> k = ''cacheWrite1h''"
      using Some by (auto simp: MP_KEYS_def split: if_splits)
    note l = mp_buckets_lookup [OF b(1) Some]
    have val: "num_val x = Some (dval y)" if "map_of (obj_of v) k = Some x" "num_field x = Inr y" for x y
      using that assms(2) num_field_val by (fastforce simp: list_all_iff dest: map_of_SomeD)
    have plain: "Option.bind (map_option number_json (map_of bs' bk)) num_val = Option.bind (map_of (obj_of v) k) num_val"
      using l val by (cases "map_of (obj_of v) k") (auto simp: number_json_val)
    show ?thesis
    proof (cases d)
      case True
      then have d: "bs = bs' @ [(''cache_write_1h'', snd (last bs))]" "map_of bs' ''cache_write_1h'' = None"
        using b(2) by auto
      then have "map_of bs ''cache_write_1h'' \<noteq> None" by (metis map_of_append map_add_None map_of.simps(2) fun_upd_same option.distinct(1) snd_conv fst_conv)
      then have a: "one_hour_assumed as m" using assms(3) True by simp
      show ?thesis
      proof (cases "bk = ''cache_write_1h''")
        case True
        then have "map_of (obj_of v) k = None" using l d(2) by (auto split: option.splits)
        then show ?thesis using Some True one a by (simp add: mp_entries_lookup)
      next
        case False
        then have "map_of bs bk = map_of bs' bk" by (subst d(1)) (simp add: map_add_def split: option.split)
        with False one plain Some show ?thesis by (simp add: mp_entries_lookup same)
      qed
    next
      case False
      then have "bs = bs'" using b(2) by simp
      moreover have "k = ''cacheWrite1h'' \<and> one_hour_assumed as m \<Longrightarrow> map_of bs' bk = None"
        using assms(3) False one \<open>bs = bs'\<close> by (cases "map_of bs' bk") auto
      ultimately show ?thesis using plain Some by (auto simp: mp_entries_lookup same)
    qed
  qed
qed

lemma override_rows_eq: "override_rows ov = Inr rs \<Longrightarrow> rs = map (\<lambda>(m, bs). (m, sort_key fst bs)) (sort_key fst ov)"
proof -
  have "rmap (\<lambda>(model, bs). rbind (guard (contract_name_re model) PricingError) (\<lambda>_.
     rbind (guard (list_all (\<lambda>b. b \<in> set CONTRACT_BUCKETS) (map fst bs)) PricingError) (\<lambda>_.
     Inr (model, sort_key fst bs)))) xs = Inr ys \<Longrightarrow> ys = map (\<lambda>(m, bs). (m, sort_key fst bs)) xs" for xs ys
    by (induction xs arbitrary: ys) (auto simp: res_simps)
  then show "override_rows ov = Inr rs \<Longrightarrow> ?thesis" by (simp add: override_rows_def)
qed

lemma map_of_sort_key: "distinct (map fst d) \<Longrightarrow> map_of (sort_key f d) = map_of d"
proof -
  assume d: "distinct (map fst d)"
  then have "distinct (map fst (sort_key f d))"
    using mset_eq_imp_distinct_iff [of "map fst (sort_key f d)" "map fst d"] by simp
  with d show ?thesis using map_of_inject_set [of "sort_key f d" d] by simp
qed

lemma map_of_map_key: "map_of (map (\<lambda>(m, x). (m, g m x)) d) m = map_option (g m) (map_of d m)"
  by (induction d) auto

lemma map_of_mapped: "map_of (map (\<lambda>(m, bs, _). (m, bs)) ms) m = map_option fst (map_of ms m)"
  by (induction ms) auto

lemma mp_models_lookup:
  assumes "rmap mp_model ov = Inr ms"
  shows "map fst ms = map fst ov" "map_of ov m = Some v \<Longrightarrow> \<exists>bs d. map_of ms m = Some (bs, d) \<and> mp_model (m, v) = Inr (m, bs, d)"
proof -
  have "map fst ms = map fst ov \<and> (map_of ov m = Some v \<longrightarrow> (\<exists>bs d. map_of ms m = Some (bs, d) \<and> mp_model (m, v) = Inr (m, bs, d)))"
    using assms
  proof (induction ov arbitrary: ms)
    case (Cons x ov)
    then obtain m' bs d ms' where x: "mp_model x = Inr (m', bs, d)" "rmap mp_model ov = Inr ms'" "ms = (m', bs, d) # ms'"
      by (auto simp: res_simps)
    moreover from this have "fst x = m'" by (metis mp_model_cases prod.collapse)
    ultimately show ?case using Cons.IH [OF x(2)] by (cases x) auto
  qed simp
  then show "map fst ms = map fst ov" "map_of ov m = Some v \<Longrightarrow> \<exists>bs d. map_of ms m = Some (bs, d) \<and> mp_model (m, v) = Inr (m, bs, d)"
    by blast+
qed

lemma assumed_iff_derived:
  assumes "distinct (map fst ms)" "(m, bs, d) \<in> set ms" "map_of bs ''cache_write_1h'' \<noteq> None"
  shows "one_hour_assumed (sort (assumed_of ms)) m = d"
proof -
  have mem: "(m, bs', d') \<in> set ms \<Longrightarrow> d' = d" for bs' d'
    using assms(1,2) by (metis eq_key_imp_eq_value prod.inject)
  show ?thesis
  proof (cases d)
    case True
    then have "(m, bs, True) \<in> set (filter (\<lambda>(_, _, d). d) ms)" using assms(2) by simp
    then show ?thesis
      using True by (auto simp: one_hour_assumed_def assumed_of_def Let_def image_iff split: prod.splits)
  next
    case False
    then have "(m, bs, d) \<in> set (filter (\<lambda>(_, bs, d). map_of bs ''cache_write_1h'' \<noteq> None \<and> \<not> d) ms)"
      using assms(2,3) by simp
    then have "filter (\<lambda>(_, bs, d). map_of bs ''cache_write_1h'' \<noteq> None \<and> \<not> d) ms \<noteq> []"
      by (intro notI) (simp only: list.set empty_iff)
    then show ?thesis
      using False mem by (auto simp: one_hour_assumed_def assumed_of_def Let_def)
  qed
qed

lemma mp_model_distinct:
  assumes "mp_model (m, v) = Inr (m', bs, d)" "distinct (map fst (obj_of v))"
  shows "distinct (map fst bs)"
proof -
  from assms(1) obtain bs' where b: "rmap mp_bucket (obj_of v) = Inr bs'"
    "bs = bs' \<and> \<not> d \<or> (\<exists>h. bs = bs' @ [(''cache_write_1h'', h)] \<and> d \<and> map_of bs' ''cache_write_1h'' = None)"
    by (rule mp_model_cases)
  have "rmap mp_bucket rs = Inr ys \<Longrightarrow> map Some (map fst ys) = map (map_of MP_KEYS) (map fst rs)" for rs ys
    by (induction rs arbitrary: ys) (auto simp: mp_bucket_def res_simps split: option.splits)
  from this [OF b(1)] have e: "map Some (map fst bs') = map (map_of MP_KEYS) (map fst (obj_of v))" .
  have "inj_on (map_of MP_KEYS) (set (map fst (obj_of v)))"
  proof (rule inj_onI)
    fix x y assume xy: "x \<in> set (map fst (obj_of v))" "map_of MP_KEYS x = map_of MP_KEYS y"
    then have "map_of MP_KEYS x \<in> set (map Some (map fst bs'))" unfolding e set_map by blast
    then obtain b where "map_of MP_KEYS x = Some b" by auto
    with xy(2) show "x = y" using MP_inverse by (metis option.inject)
  qed
  then have "distinct (map Some (map fst bs'))" unfolding e using assms(2) distinct_map by blast
  then have "distinct (map fst bs')" by (simp only: distinct_map)
  with b(2) show ?thesis by (auto simp: map_of_eq_None_iff)
qed

lemma from_model_pricing_fields:
  assumes "from_model_pricing block name since channels = Inr c"
  obtains ms where "rmap mp_model (obj_of (cget block ''overrides'')) = Inr ms"
    "cget block ''overrides'' = CNull \<or> cget block ''overrides'' = CObj (obj_of (cget block ''overrides''))"
    "cd_overrides c = map (\<lambda>(m, bs). (m, sort_key fst bs)) (sort_key fst (map (\<lambda>(m, bs, _). (m, bs)) ms))"
    "cd_assumed c = sort (assumed_of ms)" "optional_num (cget block ''multiplier'') = Inr (cd_multiplier c)"
proof -
  have id: "rmap assumed_field (map CStr xs) = Inr ys \<Longrightarrow> ys = xs" for xs ys
    by (induction xs arbitrary: ys) (auto simp: assumed_field_def res_simps split: if_splits)
  obtain ov ms where m: "mapping_or_empty (cget block ''overrides'') = Inr ov" "rmap mp_model ov = Inr ms"
    "optional_num (cget block ''multiplier'') = Inr (cd_multiplier c)"
    "override_rows (map (\<lambda>(m, bs, _). (m, bs)) ms) = Inr (cd_overrides c)"
    "\<exists>as. rmap assumed_field (map CStr (assumed_of ms)) = Inr as \<and> cd_assumed c = sort as"
    using assms unfolding from_model_pricing_def make_overlay_def by (auto simp: rbind_eq_Inr)
  have "ov = obj_of (cget block ''overrides'')"
    "cget block ''overrides'' = CNull \<or> cget block ''overrides'' = CObj (obj_of (cget block ''overrides''))"
    using m(1) by (auto simp: mapping_or_empty_def obj_of_def split: cjson.splits)
  with m(2,3,5) override_rows_eq [OF m(4)] show thesis by (intro that) (auto dest: id)
qed

text \<open>C20: Claude Code's managed model pricing survives the import: a parsed block that is imported as a contract
  is written with the same models, the same multiplier and, per model and key, the same rate (a derived 1-hour
  rate is left out again).\<close>

theorem model_pricing_round_trip:
  assumes "from_model_pricing block name since channels = Inr c" "parsed_block block"
  shows "mp_models (to_model_pricing c) = mp_models block \<and> mp_rate (to_model_pricing c) m k = mp_rate block m k \<and>
     num_val (cget (to_model_pricing c) ''multiplier'') = num_val (cget block ''multiplier'')"
proof -
  let ?ov = "obj_of (cget block ''overrides'')"
  from assms(1) obtain ms where ms: "rmap mp_model ?ov = Inr ms"
    and c: "cd_overrides c = map (\<lambda>(m, bs). (m, sort_key fst bs)) (sort_key fst (map (\<lambda>(m, bs, _). (m, bs)) ms))"
    and as: "cd_assumed c = sort (assumed_of ms)" and mu: "optional_num (cget block ''multiplier'') = Inr (cd_multiplier c)"
    by (rule from_model_pricing_fields)
  let ?out = "map (\<lambda>(m, bs). (m, CObj (concat (map (mp_entry (cd_assumed c) m) bs)))) (cd_overrides c)"
  have keys: "map fst ms = map fst ?ov" by (rule mp_models_lookup(1) [OF ms])
  have dk: "distinct (map fst ms)" using assms(2) keys by (simp add: parsed_block_def Let_def)
  then have dk': "distinct (map fst (map (\<lambda>(m, bs, _). (m, bs)) ms))" by (simp add: comp_def case_prod_beta)
  have out: "obj_of (cget (to_model_pricing c) ''overrides'') = ?out"
    by (simp add: to_model_pricing_def Let_def cget_def dget_def obj_of_def split: option.split)
  have "fst ` set ?out = fst ` set ms" by (force simp: c)
  then have 1: "mp_models (to_model_pricing c) = mp_models block"
    unfolding mp_models_def out using keys by (metis list.set_map)
  have lk: "map_of ?out m = map_option (\<lambda>(bs, d). CObj (concat (map (mp_entry (cd_assumed c) m) (sort_key fst bs)))) (map_of ms m)"
    unfolding c map_of_map_key map_of_sort_key [OF dk'] map_of_mapped by (cases "map_of ms m") auto
  have 2: "mp_rate (to_model_pricing c) m k = mp_rate block m k"
  proof (cases "map_of ?ov m")
    case None
    then have "map_of ms m = None" using keys by (simp add: map_of_eq_None_iff flip: set_map)
    then show ?thesis using None by (simp add: mp_rate_def out lk)
  next
    case (Some v)
    from mp_models_lookup(2) [OF ms Some] obtain bs d where b: "map_of ms m = Some (bs, d)" "mp_model (m, v) = Inr (m, bs, d)" by blast
    have pv: "distinct (map fst (obj_of v))" "list_all (\<lambda>(k, x). num_val x \<noteq> None) (obj_of v)"
      using assms(2) map_of_SomeD [OF Some] by (auto simp: parsed_block_def Let_def list_all_iff)
    have db: "distinct (map fst bs)" by (rule mp_model_distinct [OF b(2) pv(1)])
    have "Option.bind (map_of (concat (map (mp_entry (cd_assumed c) m) (sort_key fst bs))) k) num_val = Option.bind (map_of (obj_of v) k) num_val"
    proof (rule mp_model_entry [OF b(2) pv(2) _ _ db])
      show "one_hour_assumed (cd_assumed c) m = d" if "map_of bs ''cache_write_1h'' \<noteq> None"
        unfolding as by (rule assumed_iff_derived [OF dk map_of_SomeD [OF b(1)] that])
      show "distinct (map fst (sort_key fst bs))"
        using db mset_eq_imp_distinct_iff [of "map fst (sort_key fst bs)" "map fst bs"] by simp
    qed simp
    then show ?thesis by (simp add: mp_rate_def out lk b(1) Some obj_of_CObj)
  qed
  have "num_val (cget (to_model_pricing c) ''multiplier'') = map_option dval (cd_multiplier c)"
    by (auto simp: to_model_pricing_def Let_def cget_def dget_def number_json_val num_val_CNull split: option.split)
  moreover have "num_val (cget block ''multiplier'') = map_option dval (cd_multiplier c)"
    using mu assms(2) num_field_val [of "cget block ''multiplier''"]
    by (cases "cd_multiplier c") (auto simp: optional_num_def res_simps parsed_block_def Let_def num_val_CNull split: if_splits)
  ultimately show ?thesis using 1 2 by simp
qed

subsection \<open>Loaded contracts\<close>

text \<open>C19: What a card built from loaded rate files under a loaded contract with a first day returns for a valid usage is
  consistent: whenever pricing returns, the figure obeys the construction rules and is the sum of its well-formed
  lines, or is an unpriced figure with its reason. (A contract without a first day loads too, but has no
  overlay here: pricing under it fails.)\<close>

theorem loaded_contract_prices:
  assumes "\<forall>l \<in> set ls. \<exists>promos name v. parse_layer promos name v = Inr l"
    and "load_contract stem doc = Inr d" "overlay_of d = Some con" "mk_rate_card ls (Some con) = Inr c"
    and "valid_usage u" "price_usage c brs u ctx ts bi src upper = Inr p"
  shows "priced_ok p"
proof -
  have "list_all nn_layer ls" using assms(1) rsatD [OF parse_layer_nn] by (fastforce simp: list_all_iff)
  moreover have "nn_contract con"
    using rsatD [OF load_contract_nn assms(2)] assms(3) by (auto simp: overlay_of_def nn_doc_def nn_contract_def)
  ultimately show ?thesis by (intro price_usage_consistent [OF assms(4) _ _ assms(5,6)]) simp_all
qed

text \<open>A contract without a first day is accepted, and the rate card has no overlay it could compare with a date.\<close>

lemma contract_without_start_loads:
  "case load_contract ''c'' (CObj [(''schema'', CStr CONTRACT_SCHEMA), (''name'', CStr ''acme'')]) of
     Inl _ \<Rightarrow> False | Inr d \<Rightarrow> cd_from d = None \<and> overlay_of d = None"
  by code_simp

text \<open>A contract with a multiplier below \<open>1E-6\<close> loads, and the document written for it is refused.\<close>

theorem tiny_contract_not_read_back:
  "case load_contract ''c'' (wit_contract ''0.0000001'') of Inl _ \<Rightarrow> False
     | Inr d \<Rightarrow> load_contract ''c'' (contract_json d) = Inl PricingError"
  by code_simp

lemma wit_contract_loads:
  "case load_contract ''c'' (wit_contract ''0.5'') of Inl _ \<Rightarrow> False | Inr d \<Rightarrow> cd_from d \<noteq> None"
  by code_simp

lemma wit_contract_price_returns: "case wit_contract_price of Inl _ \<Rightarrow> False | Inr p \<Rightarrow> basis (figure p) = CONTRACT"
  by code_simp

theorem loaded_contract_prices_witness: "\<exists>p. wit_contract_price = Inr p \<and> basis (figure p) = CONTRACT \<and> priced_ok p"
proof -
  obtain l d con c p where l: "parse_layer [] ''builtin'' wit_rate_file = Inr l" and d: "load_contract ''c'' (wit_contract ''0.5'') = Inr d"
    and o: "overlay_of d = Some con" and c: "mk_rate_card [l] (Some con) = Inr c"
    and p: "price_usage c [] wit_usage wit_ctx 1750000000000 (Some True) UsFinal None = Inr p"
    and w: "wit_contract_price = Inr p" "basis (figure p) = CONTRACT"
    using wit_contract_price_returns wit_contract_loads unfolding wit_contract_price_def
    by (auto simp: res_simps overlay_of_def split: sum.splits)
  have "priced_ok p" by (rule loaded_contract_prices [OF _ d o c wit_facts(2) p]) (use l in auto)
  with w show ?thesis by blast
qed

lemma wit_round_built: "case wit_round of Inl _ \<Rightarrow> False | Inr c \<Rightarrow> plain_doc c"
  by code_simp

theorem contract_round_trip_witness: "case wit_round of Inl _ \<Rightarrow> False | Inr c \<Rightarrow> load_contract ''c'' (contract_json c) = Inr c"
proof -
  obtain c where c: "wit_round = Inr c" "plain_doc c"
    using wit_round_built by (auto split: sum.splits)
  show ?thesis
    using contract_round_trip [OF c(1) [unfolded wit_round_def] c(2)] by (simp add: c(1))
qed

lemma wit_block_parsed: "parsed_block wit_block"
  by (simp add: parsed_block_def wit_block_def obj_of_def cget_def dget_def num_val_def)

lemma wit_block_imports: "case from_model_pricing wit_block (CStr ''x'') (CStr ''1970-01-01'') [] of Inl _ \<Rightarrow> False
    | Inr c \<Rightarrow> cd_assumed c = [''cache_write_1h@m'']"
  by code_simp

theorem model_pricing_round_trip_witness:
  "case from_model_pricing wit_block (CStr ''x'') (CStr ''1970-01-01'') [] of Inl _ \<Rightarrow> False
    | Inr c \<Rightarrow> mp_models (to_model_pricing c) = mp_models wit_block \<and>
         mp_rate (to_model_pricing c) ''m'' ''cacheWrite'' = mp_rate wit_block ''m'' ''cacheWrite'' \<and>
         num_val (cget (to_model_pricing c) ''multiplier'') = num_val (cget wit_block ''multiplier'')"
  using wit_block_imports model_pricing_round_trip [OF _ wit_block_parsed] by (auto split: sum.splits)

end
