(* ===== verification/Apportion.thy ===== *)
theory Apportion
  imports Records
begin

text \<open>
  Largest-remainder splits of an integer amount by integer weights: \<open>finops/allocation.py\<close>'s \<open>_apportion\<close>
  (amounts of a cost row over several targets) and \<open>copilot/summary.py\<close>'s \<open>apportion\<close>. The contract of
  a proportional split is the locale \<open>proportional_split\<close>; both functions are interpretations of it.
\<close>

definition bump :: "nat list \<Rightarrow> int list \<Rightarrow> int list" where
  "bump ixs ps = fold (\<lambda>i qs. qs[i := qs ! i + 1]) ixs ps"

definition remainder_order :: "int \<Rightarrow> int list \<Rightarrow> nat list" where
  "remainder_order tot ws = sort_key (\<lambda>i. (- ((tot * ws ! i) mod sum_list ws), i)) [0..<length ws]"

definition apportion :: "int \<Rightarrow> int list \<Rightarrow> int list" where
  "apportion tot ws =
     (let den = sum_list ws; parts = map (\<lambda>w. tot * w div den) ws; rest = tot - sum_list parts
      in bump (take (nat rest) (remainder_order tot ws)) parts)"

definition summary_apportion_nonneg :: "int \<Rightarrow> int list \<Rightarrow> int list" where
  "summary_apportion_nonneg tot weights =
     (let w = map (max 0) weights
      in if sum_list w = 0 then replicate (length w) 0 else apportion tot w)"

definition summary_apportion :: "int \<Rightarrow> int list \<Rightarrow> int list" where
  "summary_apportion tot weights =
     (if tot < 0 then map uminus (summary_apportion_nonneg (- tot) weights)
      else summary_apportion_nonneg tot weights)"

lemma length_bump [simp]: "length (bump is ps) = length ps"
  unfolding bump_def by (induction "is" arbitrary: ps) auto

lemma nth_bump:
  assumes "distinct is" "i < length ps"
  shows "bump is ps ! i = ps ! i + (if i \<in> set is then 1 else 0)"
  using assms unfolding bump_def
proof (induction "is" arbitrary: ps)
  case (Cons j js)
  then show ?case by (cases "j = i") (auto simp: nth_list_update)
qed simp

lemma sum_list_incr: "i < length ps \<Longrightarrow> sum_list (ps[i := ps ! i + 1]) = sum_list ps + (1::int)"
  by (induction ps arbitrary: i) (auto split: nat.splits)

lemma sum_bump:
  assumes "distinct is" "\<forall>i \<in> set is. i < length ps"
  shows "sum_list (bump is ps) = sum_list ps + int (length is)"
  using assms unfolding bump_def
  by (induction "is" arbitrary: ps) (auto simp: sum_list_incr)

text \<open>Of items with fractional parts that add up to \<open>d\<close>, taken in descending order of fractional part,
  the first \<open>d\<close> have a positive one: a unit is never given to a share that is already whole.\<close>

lemma top_fractions_positive:
  fixes f :: "'a \<Rightarrow> rat"
  assumes range: "\<forall>x \<in> set xs. 0 \<le> f x \<and> f x < 1" and desc: "sorted_wrt (\<lambda>x y. f y \<le> f x) xs"
    and sum: "sum_list (map f xs) = of_nat d" and x: "x \<in> set (take d xs)"
  shows "0 < f x"
proof (rule ccontr)
  assume "\<not> 0 < f x"
  moreover obtain m where m: "m < d" "m < length xs" "xs ! m = x"
    using x by (auto simp: in_set_conv_nth)
  moreover have "0 \<le> f (xs ! m)" using range m(2) by simp
  ultimately have zero: "f (xs ! m) = 0" by simp
  have "f y = 0" if "y \<in> set (drop m xs)" for y
  proof -
    from that obtain j where j: "j < length xs - m" "y = xs ! (m + j)" by (auto simp: in_set_conv_nth)
    have "f y \<le> f (xs ! m)"
      using desc j m by (cases "j = 0") (auto simp: sorted_wrt_iff_nth_less)
    moreover have "0 \<le> f y" using range j m by simp
    ultimately show ?thesis using zero by simp
  qed
  then have dz: "sum_list (map f (drop m xs)) = 0" by (simp add: sum_list_nonneg_eq_0_iff cong: map_cong)
  have "sum_list (map f (take m xs)) \<le> sum_list (map (\<lambda>_. 1) (take m xs))"
    using range by (intro sum_list_mono) (auto dest: in_set_takeD less_imp_le)
  also have "\<dots> = of_nat m" using m(2) by (simp add: sum_list_triv)
  finally have "sum_list (map f xs) \<le> of_nat m"
    using dz by (subst append_take_drop_id [symmetric, of xs m], simp only: map_append sum_list_append)
  with sum m(1) show False by simp
qed

lemma fraction_sum_bound:
  fixes f :: "'a \<Rightarrow> rat"
  assumes "\<forall>x \<in> set xs. 0 \<le> f x \<and> f x < 1"
  shows "0 \<le> sum_list (map f xs)" "xs \<noteq> [] \<Longrightarrow> sum_list (map f xs) < of_nat (length xs)"
proof -
  show "0 \<le> sum_list (map f xs)" using assms by (intro sum_list_nonneg) auto
  show "xs \<noteq> [] \<Longrightarrow> sum_list (map f xs) < of_nat (length xs)"
    using assms
  proof (induction xs)
    case (Cons a xs)
    then show ?case by (cases "xs = []") (auto simp: less_le_trans algebra_simps intro!: add_less_le_mono)
  qed simp
qed

lemma sorted_desc:
  fixes g :: "'a \<Rightarrow> 'b::{linordered_ab_group_add}" and h :: "'a \<Rightarrow> 'c::linorder"
  shows "sorted_wrt (\<lambda>x y. g y \<le> g x) (sort_key (\<lambda>x. (- g x, h x)) xs)"
proof -
  have "sorted (map (\<lambda>x. (- g x, h x)) (sort_key (\<lambda>x. (- g x, h x)) xs))" by simp
  then have "sorted_wrt (\<lambda>x y. (- g x, h x) \<le> (- g y, h y)) (sort_key (\<lambda>x. (- g x, h x)) xs)"
    by (simp add: sorted_wrt_map)
  then show ?thesis by (rule sorted_wrt_mono_rel [rotated]) (auto simp: less_eq_prod_def)
qed

text \<open>
  The contract of a proportional split: for non-negative weights with a positive sum, as many parts as
  weights, the parts add up to the total to the unit, and every part is within one unit of its exact
  proportion. The lemmas below are what the callers of a split rely on.
\<close>

locale proportional_split =
  fixes parts :: "int \<Rightarrow> int list \<Rightarrow> int list"
  assumes parts_length: "\<forall>w \<in> set ws. 0 \<le> w \<Longrightarrow> 0 < sum_list ws \<Longrightarrow> length (parts t ws) = length ws"
    and parts_sum: "\<forall>w \<in> set ws. 0 \<le> w \<Longrightarrow> 0 < sum_list ws \<Longrightarrow> sum_list (parts t ws) = t"
    and parts_quota: "\<forall>w \<in> set ws. 0 \<le> w \<Longrightarrow> 0 < sum_list ws \<Longrightarrow> i < length ws \<Longrightarrow>
       \<bar>parts t ws ! i * sum_list ws - t * ws ! i\<bar> < sum_list ws"
begin

lemma zero_weight_zero_part:
  assumes "\<forall>w \<in> set ws. 0 \<le> w" "0 < sum_list ws" "i < length ws" "ws ! i = 0"
  shows "parts t ws ! i = 0"
  using parts_quota [OF assms(1-3), of t] assms(2,4)
  by (simp add: abs_mult)

lemma part_nonneg:
  assumes "\<forall>w \<in> set ws. 0 \<le> w" "0 < sum_list ws" "i < length ws" "0 \<le> t"
  shows "0 \<le> parts t ws ! i"
proof (rule ccontr)
  assume "\<not> 0 \<le> parts t ws ! i"
  then have "parts t ws ! i * sum_list ws \<le> - sum_list ws"
    using assms(2) by (metis mult_minus1 mult_right_mono not_le zle_add1_eq_le add.commute less_imp_le minus_add_cancel zless_imp_add1_zle add.right_inverse)
  moreover have "0 \<le> t * ws ! i" using assms(1,3,4) by simp
  ultimately show False using parts_quota [OF assms(1-3), of t] by linarith
qed

end

lemma remainder_order_facts:
  "mset (remainder_order t ws) = mset [0..<length ws]" "distinct (remainder_order t ws)"
  "set (remainder_order t ws) = {..<length ws}" "length (remainder_order t ws) = length ws"
  by (auto simp: remainder_order_def)

lemma apportion_rest:
  fixes ws :: "int list" and t :: int
  shows "sum_list (map (\<lambda>w. t * w mod sum_list ws) ws) =
     sum_list ws * (t - sum_list (map (\<lambda>w. t * w div sum_list ws) ws))"
proof -
  have "t * sum_list xs = d * sum_list (map (\<lambda>w. t * w div d) xs) + sum_list (map (\<lambda>w. t * w mod d) xs)"
    for d :: int and xs
  proof (induction xs)
    case (Cons x xs)
    have "t * x = d * (t * x div d) + t * x mod d" by simp
    then show ?case using Cons.IH by (simp only: list.map sum_list.Cons distrib_left)
  qed simp
  from this [of ws "sum_list ws"] show ?thesis by (simp add: right_diff_distrib mult.commute)
qed

lemma sum_list_nth: "sum_list (map f xs) = sum_list (map (\<lambda>i. f (xs ! i)) [0..<length xs])"
proof -
  have "map f xs = map (\<lambda>i. f (xs ! i)) [0..<length xs]" by (rule nth_equalityI) simp_all
  then show ?thesis by (rule arg_cong)
qed

lemma sum_list_of_int_div: "sum_list (map (\<lambda>x. of_int (g x) / c) xs) = of_int (sum_list (map g xs)) / (c :: rat)"
  by (induction xs) (simp_all add: add_divide_distrib)

lemma order_fractions:
  fixes ws :: "int list" and t :: int
  assumes "0 < sum_list ws"
  defines "f \<equiv> \<lambda>i. of_int ((t * ws ! i) mod sum_list ws) / (of_int (sum_list ws) :: rat)"
  shows "\<forall>i \<in> set (remainder_order t ws). 0 \<le> f i \<and> f i < 1"
    "sorted_wrt (\<lambda>x y. f y \<le> f x) (remainder_order t ws)"
    "sum_list (map f (remainder_order t ws)) = of_int (t - sum_list (map (\<lambda>w. t * w div sum_list ws) ws))"
proof -
  have p: "(0::rat) < of_int (sum_list ws)" using assms(1) by simp
  show "\<forall>i \<in> set (remainder_order t ws). 0 \<le> f i \<and> f i < 1"
    using assms(1) by (auto simp: f_def divide_less_eq)
  have "sorted_wrt (\<lambda>x y. (t * ws ! y) mod sum_list ws \<le> (t * ws ! x) mod sum_list ws) (remainder_order t ws)"
    unfolding remainder_order_def by (rule sorted_desc)
  then show "sorted_wrt (\<lambda>x y. f y \<le> f x) (remainder_order t ws)"
    by (rule sorted_wrt_mono_rel [rotated]) (use p in \<open>simp add: f_def divide_right_mono\<close>)
  have "sum_list (map f (remainder_order t ws)) = sum_list (map f [0..<length ws])"
    by (rule sum_list_mset_eq) (rule remainder_order_facts(1))
  also have "\<dots> = sum_list (map (\<lambda>w. of_int (t * w mod sum_list ws) / of_int (sum_list ws)) ws)"
    by (subst (2) sum_list_nth) (simp add: f_def)
  also have "\<dots> = of_int (sum_list (map (\<lambda>w. t * w mod sum_list ws) ws)) / of_int (sum_list ws)"
    by (rule sum_list_of_int_div)
  finally show "sum_list (map f (remainder_order t ws)) = of_int (t - sum_list (map (\<lambda>w. t * w div sum_list ws) ws))"
    using p by (simp add: apportion_rest)
qed

lemma apportion_parts:
  fixes ws :: "int list" and t :: int
  assumes "0 < sum_list ws"
  shows "length (apportion t ws) = length ws" "sum_list (apportion t ws) = t"
    "i < length ws \<Longrightarrow> \<bar>apportion t ws ! i * sum_list ws - t * ws ! i\<bar> < sum_list ws"
proof -
  define d where "d = sum_list ws"
  define qs where "qs = map (\<lambda>w. t * w div d) ws"
  define rest where "rest = t - sum_list qs"
  define ord where "ord = remainder_order t ws"
  define f where "f i = of_int ((t * ws ! i) mod d) / (of_int d :: rat)" for i
  have d: "0 < d" using assms by (simp add: d_def)
  note fr = order_fractions [OF assms, of t, folded d_def, folded f_def qs_def rest_def ord_def]
  have "ws \<noteq> []" using assms by auto
  then have ne: "ord \<noteq> []" using remainder_order_facts(4) [of t ws] by (auto simp: ord_def)
  have rest0: "0 \<le> rest" using fraction_sum_bound(1) [OF fr(1)] fr(3) by simp
  have restn: "nat rest \<le> length ord"
    using fraction_sum_bound(2) [OF fr(1) ne] fr(3) rest0 by simp
  have ap: "apportion t ws = bump (take (nat rest) ord) qs"
    by (simp add: apportion_def Let_def rest_def qs_def d_def ord_def)
  have dist: "distinct (take (nat rest) ord)" by (simp add: ord_def remainder_order_facts(2))
  show "length (apportion t ws) = length ws" by (simp add: ap qs_def)
  have "\<forall>i \<in> set (take (nat rest) ord). i < length qs"
    using set_take_subset [of "nat rest" ord] by (auto simp: ord_def remainder_order_facts(3) qs_def)
  then show "sum_list (apportion t ws) = t"
    using sum_bump [OF dist] restn rest0 by (simp add: ap rest_def min_def)
  show "\<bar>apportion t ws ! i * sum_list ws - t * ws ! i\<bar> < sum_list ws" if i: "i < length ws"
  proof -
    have tw: "t * ws ! i = (t * ws ! i div d) * d + t * ws ! i mod d" by simp
    have m: "0 \<le> t * ws ! i mod d" "t * ws ! i mod d < d" using d by simp_all
    have q: "apportion t ws ! i = t * ws ! i div d + (if i \<in> set (take (nat rest) ord) then 1 else 0)"
      using i nth_bump [OF dist, of i qs] by (simp add: ap qs_def)
    show ?thesis
    proof (cases "i \<in> set (take (nat rest) ord)")
      case True
      then have "0 < f i" using top_fractions_positive [OF fr(1,2), of "nat rest" i] fr(3) rest0 by simp
      then have "0 < t * ws ! i mod d" using d m by (simp add: f_def zero_less_divide_iff)
      moreover have "apportion t ws ! i * d = t * ws ! i div d * d + d" using q True by (simp add: distrib_right)
      then have "apportion t ws ! i * d - t * ws ! i = d - t * ws ! i mod d" using tw by linarith
      ultimately show ?thesis using m unfolding d_def [symmetric] by linarith
    next
      case False
      then have "apportion t ws ! i * d = t * ws ! i div d * d" using q by simp
      then have "apportion t ws ! i * d - t * ws ! i = - (t * ws ! i mod d)" using tw by linarith
      then show ?thesis using m unfolding d_def [symmetric] by linarith
    qed
  qed
qed

interpretation fin: proportional_split apportion
  by unfold_locales (simp_all add: apportion_parts)

lemma sum_list_uminus: "sum_list (map uminus xs) = - sum_list (xs :: int list)"
  by (induction xs) simp_all

lemma map_max_id: "\<forall>w \<in> set ws. 0 \<le> w \<Longrightarrow> map (max 0) ws = (ws :: int list)"
  by (simp add: map_idI)

interpretation cop: proportional_split summary_apportion
proof
  fix ws :: "int list" and t i
  assume ws: "\<forall>w \<in> set ws. 0 \<le> w" "0 < sum_list ws"
  have e: "summary_apportion t ws = (if t < 0 then map uminus (apportion (- t) ws) else apportion t ws)" for t
    using ws(2) by (simp add: summary_apportion_def summary_apportion_nonneg_def Let_def map_max_id [OF ws(1)])
  show "length (summary_apportion t ws) = length ws" by (simp add: e apportion_parts(1) [OF ws(2)])
  show "sum_list (summary_apportion t ws) = t"
    by (simp add: e apportion_parts(2) [OF ws(2)] sum_list_uminus)
  show "\<bar>summary_apportion t ws ! i * sum_list ws - t * ws ! i\<bar> < sum_list ws" if "i < length ws"
    using apportion_parts(3) [OF ws(2) that, of t] apportion_parts(3) [OF ws(2) that, of "- t"] that
    by (auto simp: e apportion_parts(1) [OF ws(2)])
qed

text \<open>C40: Splitting a cost row by weights conserves the row: for non-negative weights with a positive sum there is
  one part per weight, the parts add up to the total to the unit, every part is less than one unit away from
  its exact proportion, and a zero weight gets nothing.\<close>

theorem apportion_conserves:
  assumes "\<forall>w \<in> set ws. 0 \<le> w" "0 < sum_list ws"
  shows "length (apportion t ws) = length ws \<and> sum_list (apportion t ws) = t \<and>
    (\<forall>i < length ws. \<bar>apportion t ws ! i * sum_list ws - t * ws ! i\<bar> < sum_list ws) \<and>
    (\<forall>i < length ws. ws ! i = 0 \<longrightarrow> apportion t ws ! i = 0)"
  using fin.parts_length fin.parts_sum fin.parts_quota fin.zero_weight_zero_part assms by blast

theorem apportion_conserves_witness: "sum_list (apportion (- 10) [1, 0, 2]) = - 10 \<and> apportion (- 10) [1, 0, 2] ! 1 = 0"
  using apportion_conserves [of "[1, 0, 2]" "- 10"] by simp

lemma positive_weights: "0 < sum_list (map (max 0) ws) \<longleftrightarrow> (\<exists>w \<in> set ws. 0 < (w::int))"
proof (induction ws)
  case (Cons w ws)
  have "0 \<le> sum_list (map (max 0) ws)" by (rule sum_list_nonneg) auto
  then have "0 < max 0 w + sum_list (map (max 0) ws) \<longleftrightarrow> 0 < w \<or> 0 < sum_list (map (max 0) ws)" by linarith
  then show ?case using Cons.IH by simp
qed simp

text \<open>The Copilot summary's split refuses nothing: it gives one part per weight for every list of weights, all
  zero when no weight is positive; otherwise the parts add up to the total exactly, the sign of the total is the
  sign of every part, and a non-positive weight gets nothing.\<close>

theorem summary_apportion_total:
  "length (summary_apportion t ws) = length ws \<and>
   sum_list (summary_apportion t ws) = (if \<exists>w \<in> set ws. 0 < w then t else 0) \<and>
   (\<forall>i < length ws. 0 \<le> summary_apportion t ws ! i * sgn t \<and> (ws ! i \<le> 0 \<longrightarrow> summary_apportion t ws ! i = 0))"
proof -
  define us where "us = map (max 0) ws"
  have nn: "\<forall>w \<in> set us. 0 \<le> w" and len: "length us = length ws" by (auto simp: us_def)
  have idem: "map (max 0) us = us" by (simp add: us_def comp_def)
  have eq: "summary_apportion t ws = summary_apportion t us"
    unfolding summary_apportion_def summary_apportion_nonneg_def Let_def idem by (simp add: us_def)
  have pos: "0 < sum_list us \<longleftrightarrow> (\<exists>w \<in> set ws. 0 < w)"
    unfolding us_def by (rule positive_weights)
  show ?thesis
  proof (cases "0 < sum_list us")
    case True
    have "0 \<le> summary_apportion t us ! i * sgn t" if "i < length us" for i
    proof (cases "t < 0")
      case True
      have "summary_apportion t us = map uminus (summary_apportion (- t) us)"
        using True by (simp add: summary_apportion_def)
      then show ?thesis
        using cop.part_nonneg [OF nn \<open>0 < sum_list us\<close> that, of "- t"] cop.parts_length [OF nn \<open>0 < sum_list us\<close>] True that
        by simp
    next
      case False
      then show ?thesis using cop.part_nonneg [OF nn \<open>0 < sum_list us\<close> that, of t] by (simp add: sgn_if)
    qed
    moreover have "us ! i = 0" if "ws ! i \<le> 0" "i < length ws" for i using that by (simp add: us_def)
    ultimately show ?thesis
      using True pos cop.parts_length [OF nn True] cop.parts_sum [OF nn True] cop.zero_weight_zero_part [OF nn True]
      by (simp add: eq len)
  next
    case False
    moreover have "0 \<le> sum_list us" using nn by (intro sum_list_nonneg) blast
    ultimately have "sum_list us = 0" by simp
    then have "summary_apportion t us = replicate (length us) 0"
      by (simp add: summary_apportion_def summary_apportion_nonneg_def idem)
    then show ?thesis using False pos by (simp add: eq len sum_list_replicate)
  qed
qed

theorem summary_apportion_total_witness: "sum_list (summary_apportion (- 7) [3, - 2, 1]) = - 7"
  using summary_apportion_total [of "- 7" "[3, - 2, 1]"] by simp

end
