(* ===== verification/Shapley.thy ===== *)
theory Shapley
  imports Apportion
begin

text \<open>
  Shapley credits of \<open>core/shapley.py\<close>: the largest-remainder rule, exact credits by enumeration of the
  coalitions, Monte Carlo credits with their standard errors, and the rescaling of credits. The value of a
  coalition is a function \<open>v\<close> on sets of players; the memo table of the code only saves repeated calls of it.
  The exact value \<open>shapley_value\<close> is the reference the rounded credits are compared with.
\<close>

definition largest_remainder :: "(string, rat) dict \<Rightarrow> int \<Rightarrow> (string, int) dict res" where
  "largest_remainder shares target =
     (let keys = sort (map fst shares);
          floors = map (\<lambda>k. (k, \<lfloor>dget shares k 0\<rfloor>)) keys;
          deficit = target - sum_list (map snd floors)
      in if \<not> (0 \<le> deficit \<and> deficit \<le> int (length keys)) then Inl UsageError
         else
          let order = sort_key (\<lambda>k. (- (dget shares k 0 - of_int (dget floors k 0)), k)) keys;
              bumped = fold (\<lambda>k d. dset k (dget d k 0 + 1) d) (take (nat deficit) order) floors
          in Inr (map (\<lambda>k. (k, dget bumped k 0)) keys))"

definition scale_credits :: "(string, int) dict \<Rightarrow> int \<Rightarrow> (string, int) dict res" where
  "scale_credits credits target =
     (let keys = sort (map fst credits)
      in if keys = [] then (if target \<noteq> 0 then Inl UsageError else Inr [])
         else
          let tot = sum_list (map (\<lambda>k. dget credits k 0) keys);
              shares = (if tot = 0 then map (\<lambda>k. (k, of_int target / of_nat (length keys))) keys
                        else map (\<lambda>k. (k, of_int (dget credits k 0 * target) / of_int tot)) keys)
          in largest_remainder shares target)"

definition MAX_EXACT_PLAYERS :: nat where "MAX_EXACT_PLAYERS = 10"

definition check_players :: "string list \<Rightarrow> string list res" where
  "check_players players = (if distinct players then Inr (sort players) else Inl UsageError)"

text \<open>The members a bit msk selects from a list: bit \<open>j\<close> selects the \<open>j\<close>-th.\<close>

fun members :: "nat \<Rightarrow> 'a list \<Rightarrow> 'a set" where
  "members msk [] = {}"
| "members msk (x # xs) = (if odd msk then insert x (members (msk div 2) xs) else members (msk div 2) xs)"

definition weight :: "nat \<Rightarrow> nat \<Rightarrow> rat" where
  "weight k s = of_nat (fact s * fact (k - s - 1)) / of_nat (fact k)"

definition marginal_sum :: "(string set \<Rightarrow> int) \<Rightarrow> string list \<Rightarrow> nat \<Rightarrow> rat" where
  "marginal_sum v ordered idx =
     (let k = length ordered; player = ordered ! idx; others = take idx ordered @ drop (Suc idx) ordered
      in sum_list (map (\<lambda>msk. let m = members msk others
           in weight k (card m) * of_int (v (insert player m) - v m)) [0..<2 ^ (k - 1)]))"

definition shapley_exact :: "string list \<Rightarrow> (string set \<Rightarrow> int) \<Rightarrow> (string, int) dict res" where
  "shapley_exact players v =
     rbind (check_players players) (\<lambda>ordered.
       let k = length ordered
       in if k > MAX_EXACT_PLAYERS then Inl UsageError
          else if k = 0 then Inr []
          else largest_remainder (map (\<lambda>i. (ordered ! i, marginal_sum v ordered i)) [0..<k])
                 (v (set ordered) - v {}))"

text \<open>The exact Shapley value of a player, as a sum over the coalitions without it.\<close>

definition shapley_value :: "(string set \<Rightarrow> int) \<Rightarrow> string set \<Rightarrow> string \<Rightarrow> rat" where
  "shapley_value v N p = (\<Sum>S \<in> Pow (N - {p}). weight (card N) (card S) * of_int (v (insert p S) - v S))"

text \<open>One permutation of \<open>shapley_mc\<close>: the marginal contribution of each player in the order.\<close>

fun marginals :: "(string set \<Rightarrow> int) \<Rightarrow> string set \<Rightarrow> int \<Rightarrow> string list \<Rightarrow> (string \<times> int) list" where
  "marginals v coalition before [] = []"
| "marginals v coalition before (p # ps) =
     (let after = v (insert p coalition) in (p, after - before) # marginals v (insert p coalition) after ps)"

definition add_marginal :: "(string, int) dict \<Rightarrow> string \<times> int \<Rightarrow> (string, int) dict" where
  "add_marginal d pm = (case pm of (p, m) \<Rightarrow> dset p (dget d p 0 + m) d)"

text \<open>\<open>isqrt\<close> and the correctly rounded square root of a decimal at a precision.\<close>

function isqrt :: "nat \<Rightarrow> nat" where
  "isqrt n = (if n = 0 then 0 else let r = 2 * isqrt (n div 4) in if (r + 1) * (r + 1) \<le> n then r + 1 else r)"
  by pat_completeness auto
termination
  by (relation "measure id") auto

definition SQRT_CTX :: dctx where
  "SQRT_CTX = \<lparr>prec = 50, emin = -999999, emax = 999999, trap_inexact = False\<rparr>"

definition dec_sqrt :: "dctx \<Rightarrow> dec \<Rightarrow> dec res" where
  "dec_sqrt ctx d =
     (if coef d = 0 then dec_fix ctx (sign d) 0 (expo d div 2)
      else if sign d then Inl DecInvalid
      else
       let e = expo d div 2;
           (c, l) = (if odd (expo d) then (coef d * 10, ndig (coef d) div 2 + 1) else (coef d, (ndig (coef d) + 1) div 2));
           shift = int (prec ctx) + 1 - int l;
           (c', ex) = (if 0 \<le> shift then (c * 100 ^ nat shift, True)
                       else (c div 100 ^ nat (- shift), c mod 100 ^ nat (- shift) = 0));
           n = isqrt c'; ex' = (ex \<and> n * n = c')
       in if ex' then dec_fix ctx False (if 0 \<le> shift then n div 10 ^ nat shift else n * 10 ^ nat (- shift)) e
          else dec_fix ctx False (if n mod 5 = 0 then n + 1 else n) (e - shift))"

definition to_integral_half_even :: "dec \<Rightarrow> int" where
  "to_integral_half_even d =
     (let n = (if 0 \<le> expo d then int (coef d) * 10 ^ nat (expo d) else div_half_even (int (coef d)) (10 ^ nat (- expo d)))
      in if sign d then - n else n)"

definition isqrt_fraction :: "rat \<Rightarrow> int res" where
  "isqrt_fraction x =
     (if x \<le> 0 then Inr 0
      else case quotient_of x of (num, den) \<Rightarrow>
        rbind (dec_div SQRT_CTX (dec_of_int num) (dec_of_int den)) (\<lambda>q.
        rbind (dec_sqrt SQRT_CTX q) (\<lambda>root. Inr (to_integral_half_even root))))"

text \<open>\<open>orders\<close> are the seeded shuffles of the sorted players, one per permutation.\<close>

definition shapley_mc ::
    "string list list \<Rightarrow> string list \<Rightarrow> (string set \<Rightarrow> int) \<Rightarrow> ((string, int) dict \<times> (string, int) dict) res" where
  "shapley_mc orders players v =
     rbind (check_players players) (\<lambda>ordered.
       if orders = [] then Inl UsageError
       else if ordered = [] then Inr ([], [])
       else
        let empty = v {}; n = length orders;
            ms = concat (map (marginals v {} empty) orders);
            tots = fold (\<lambda>pm d. add_marginal d pm) ms (map (\<lambda>p. (p, 0)) ordered);
            squares = fold (\<lambda>(p, m) d. add_marginal d (p, m * m)) ms (map (\<lambda>p. (p, 0)) ordered);
            means = map (\<lambda>p. (p, of_int (dget tots p 0) / of_nat n)) ordered
        in rbind (largest_remainder means (v (set ordered) - empty)) (\<lambda>vals.
           rbind (rmap (\<lambda>p. if n < 2 then Inr (p, 0)
               else rbind (isqrt_fraction ((of_int (dget squares p 0) - of_int (dget tots p 0 * dget tots p 0) / of_nat n) /
                            of_nat (n - 1) / of_nat n)) (\<lambda>s. Inr (p, s))) ordered) (\<lambda>errs.
           Inr (vals, errs))))"

lemma dget_bump_keys:
  assumes "distinct ks"
  shows "dget (fold (\<lambda>k d. dset k (dget d k 0 + 1) d) ks d) k 0 = dget d k 0 + (if k \<in> set ks then 1 else 0 :: int)"
  using assms by (induction ks arbitrary: d) auto

lemma dget_map_keys: "dget (map (\<lambda>k. (k, g k)) ks) k z = (if k \<in> set ks then g k else z)"
  unfolding dget_def by (induction ks) auto

text \<open>The rule on exact shares that add up to the target.\<close>

lemma largest_remainder_exact:
  assumes dist: "distinct (map fst sh)" and tot: "sum_list (map snd sh) = of_int target"
  shows "\<exists>r. largest_remainder sh target = Inr r \<and> map fst r = sort (map fst sh) \<and> sum_list (map snd r) = target \<and>
     (\<forall>k x. map_of sh k = Some x \<longrightarrow> \<bar>of_int (dget r k 0) - x\<bar> < 1)"
proof -
  define keys where "keys = sort (map fst sh)"
  define g where "g k = dget sh k 0" for k
  define fl where "fl = map (\<lambda>k. (k, \<lfloor>g k\<rfloor>)) keys"
  define deficit where "deficit = target - sum_list (map snd fl)"
  define order where "order = sort_key (\<lambda>k. (- (g k - of_int (dget fl k 0)), k)) keys"
  define f where "f k = g k - of_int \<lfloor>g k\<rfloor>" for k
  have dk: "distinct keys" using dist by (simp add: keys_def)
  have gf: "dget fl k 0 = (if k \<in> set keys then \<lfloor>g k\<rfloor> else 0)" for k by (simp add: fl_def dget_map_keys)
  have ord: "set order = set keys" "distinct order" "length order = length keys" using dk by (simp_all add: order_def)
  have fr: "\<forall>k \<in> set order. 0 \<le> f k \<and> f k < 1"
    by (simp add: f_def) (metis frac_def frac_ge_0 frac_lt_1)
  have "sorted_wrt (\<lambda>x y. g y - of_int (dget fl y 0) \<le> g x - of_int (dget fl x 0)) order"
    unfolding order_def by (rule sorted_desc)
  then have desc: "sorted_wrt (\<lambda>x y. f y \<le> f x) order"
    by (rule sorted_wrt_mono_rel [rotated]) (simp add: gf ord(1) f_def)
  have sg: "sum_list (map g keys) = of_int target"
  proof -
    have "sum_list (map g keys) = sum_list (map g (map fst sh))"
      unfolding keys_def by (rule sum_list_mset_eq) simp
    also have "map g (map fst sh) = map snd sh"
      using dist by (auto simp: g_def dget_def comp_def)
    finally show ?thesis by (simp add: tot)
  qed
  have sumf: "sum_list (map f order) = of_int deficit"
  proof -
    have "sum_list (map f order) = sum_list (map f keys)"
      by (rule sum_list_mset_eq) (simp add: order_def)
    also have "\<dots> = sum_list (map g keys) - of_int (sum_list (map snd fl))"
      unfolding f_def fl_def by (induction keys) simp_all
    finally show ?thesis using sg by (simp add: deficit_def)
  qed
  have d0: "0 \<le> deficit" using fraction_sum_bound(1) [OF fr] sumf by simp
  have dn: "deficit \<le> int (length keys)"
  proof (cases "order = []")
    case True
    then show ?thesis using sumf by simp
  next
    case False
    have "of_int deficit < (of_int (int (length keys)) :: rat)"
      using fraction_sum_bound(2) [OF fr False] sumf ord(3) by simp
    then show ?thesis by (simp only: of_int_less_iff)
  qed
  define tk where "tk = take (nat deficit) order"
  have tk: "distinct tk" "set tk \<subseteq> set keys" "length tk = nat deficit"
    using ord d0 dn set_take_subset [of "nat deficit" order] by (auto simp: tk_def)
  define r where "r = map (\<lambda>k. (k, \<lfloor>g k\<rfloor> + (if k \<in> set tk then 1 else 0))) keys"
  have "largest_remainder sh target = Inr r"
  proof -
    have "dget (fold (\<lambda>k d. dset k (dget d k 0 + 1) d) tk fl) k 0 = \<lfloor>g k\<rfloor> + (if k \<in> set tk then 1 else 0)"
      if "k \<in> set keys" for k
      using that dget_bump_keys [OF tk(1), of fl k] gf by simp
    then show ?thesis
      unfolding largest_remainder_def Let_def keys_def [symmetric] g_def [symmetric] fl_def [symmetric]
        deficit_def [symmetric] order_def [symmetric] tk_def [symmetric] r_def
      using d0 dn by simp
  qed
  moreover have "sum_list (map snd r) = target"
  proof -
    have "sum_list (map snd r) = sum_list (map snd fl) + int (length (filter (\<lambda>k. k \<in> set tk) keys))"
      unfolding r_def fl_def by (induction keys) auto
    moreover have "length (filter (\<lambda>k. k \<in> set tk) keys) = length tk"
    proof -
      have "set (filter (\<lambda>k. k \<in> set tk) keys) = set tk" using tk(2) by auto
      then show ?thesis using dk tk(1) by (metis distinct_card distinct_filter)
    qed
    ultimately show ?thesis using tk(3) d0 by (simp add: deficit_def)
  qed
  moreover have "\<bar>of_int (dget r k 0) - x\<bar> < 1" if x: "map_of sh k = Some x" for k x
  proof -
    have k: "k \<in> set keys" using x by (force simp: keys_def dest: map_of_SomeD)
    have gx: "g k = x" using x by (simp add: g_def dget_def)
    have "0 < f k" if "k \<in> set tk"
      using top_fractions_positive [OF fr desc, of "nat deficit" k] sumf d0 that by (simp add: tk_def)
    moreover have "0 \<le> f k" "f k < 1" using fr k ord(1) by auto
    ultimately show ?thesis
      using k gx by (auto simp: r_def dget_map_keys f_def)
  qed
  ultimately show ?thesis by (intro exI [of _ r]) (simp add: r_def keys_def comp_def)
qed

lemma members_subset: "members m xs \<subseteq> set xs"
  by (induction m xs rule: members.induct) auto

lemma sum_range_double: "sum_list (map f [0..<2 * n]) = sum_list (map (\<lambda>m. f (2 * m) + f (2 * m + 1)) [0..<n])"
  for f :: "nat \<Rightarrow> 'a::comm_monoid_add"
  by (induction n) (simp_all add: add.assoc)

lemma sum_members:
  fixes f :: "'a set \<Rightarrow> rat"
  assumes "distinct xs"
  shows "sum_list (map (\<lambda>msk. f (members msk xs)) [0..<2 ^ length xs]) = sum f (Pow (set xs))"
  using assms
proof (induction xs arbitrary: f)
  case (Cons x xs)
  have "sum_list (map (\<lambda>msk. f (members msk (x # xs))) [0..<2 ^ length (x # xs)]) =
      sum_list (map (\<lambda>m. f (members m xs) + f (insert x (members m xs))) [0..<2 ^ length xs])"
    by (simp add: sum_range_double)
  also have "\<dots> = sum (\<lambda>s. f s + f (insert x s)) (Pow (set xs))"
    using Cons.IH [of "\<lambda>s. f s + f (insert x s)"] Cons.prems by simp
  also have "\<dots> = sum f (Pow (set xs)) + sum f (insert x ` Pow (set xs))"
  proof -
    have "inj_on (insert x) (Pow (set xs))" using Cons.prems by (auto simp: inj_on_def insert_ident)
    then show ?thesis by (simp add: sum.distrib sum.reindex)
  qed
  also have "\<dots> = sum f (Pow (set (x # xs)))"
    using Cons.prems by (subst sum.union_disjoint [symmetric]) (auto simp: Pow_insert)
  finally show ?case .
qed simp

lemma marginal_sum_value:
  assumes "distinct xs" "i < length xs"
  shows "marginal_sum v xs i = shapley_value v (set xs) (xs ! i)"
proof -
  let ?o = "take i xs @ drop (Suc i) xs"
  have xs: "xs = take i xs @ xs ! i # drop (Suc i) xs" using assms(2) by (simp add: id_take_nth_drop)
  then have d: "distinct ?o" "xs ! i \<notin> set ?o" using assms(1) by (metis distinct.simps(2) distinct_append not_distinct_conv_prefix disjoint_insert(1) list.simps(15) Un_iff set_append)+
  have s: "set ?o = set xs - {xs ! i}" using xs d(2) by (metis Diff_insert_absorb Un_insert_right list.simps(15) set_append)
  have len: "length xs - 1 = length ?o" using assms(2) by simp
  have "marginal_sum v xs i = sum_list (map (\<lambda>msk. (\<lambda>m. weight (length xs) (card m) *
      of_int (v (insert (xs ! i) m) - v m)) (members msk ?o)) [0..<2 ^ length ?o])"
    unfolding marginal_sum_def Let_def len by simp
  also have "\<dots> = (\<Sum>S \<in> Pow (set ?o). weight (length xs) (card S) * of_int (v (insert (xs ! i) S) - v S))"
    by (rule sum_members [OF d(1)])
  finally show ?thesis unfolding shapley_value_def s using assms(1) by (simp add: distinct_card)
qed

lemma weight_cancel:
  assumes "0 < t" "t < k"
  shows "of_nat t * weight k (t - 1) = of_nat (k - t) * weight k t"
proof -
  obtain s where s: "t = Suc s" using assms(1) by (cases t) auto
  obtain m where m: "k - t = Suc m" using assms(2) by (cases "k - t") auto
  have "k - s - 1 = Suc m" "k - Suc s - 1 = m" using s m by simp_all
  then show ?thesis by (simp add: weight_def s m [unfolded s] algebra_simps)
qed

lemma weight_ends:
  assumes "0 < k"
  shows "of_nat k * weight k (k - 1) = 1" "of_nat k * weight k 0 = 1"
proof -
  obtain n where k: "k = Suc n" using assms by (cases k) auto
  have "(of_nat (fact (Suc n)) :: rat) = of_nat (Suc n) * of_nat (fact n)" by (simp only: fact_Suc of_nat_mult of_nat_id)
  moreover have "(of_nat (Suc n) :: rat) * of_nat (fact n) \<noteq> 0" by simp
  ultimately show "of_nat k * weight k (k - 1) = 1" "of_nat k * weight k 0 = 1"
    by (simp_all add: weight_def k del: of_nat_Suc fact_Suc)
qed

lemma insert_sums:
  fixes w :: "nat \<Rightarrow> rat" and u :: "'a set \<Rightarrow> rat"
  assumes "finite N"
  shows "(\<Sum>p\<in>N. \<Sum>S\<in>Pow (N - {p}). w (card S) * u (insert p S)) = (\<Sum>T\<in>Pow N. of_nat (card T) * w (card T - 1) * u T)"
proof -
  have "(\<Sum>p\<in>N. \<Sum>S\<in>Pow (N - {p}). w (card S) * u (insert p S)) =
      (\<Sum>(p, S) \<in> Sigma N (\<lambda>p. Pow (N - {p})). w (card S) * u (insert p S))"
    using assms by (intro sum.Sigma) auto
  also have "\<dots> = (\<Sum>(T, p) \<in> Sigma (Pow N) (\<lambda>T. T). w (card T - 1) * u T)"
  proof (rule sum.reindex_bij_witness [of _ "\<lambda>(T, p). (p, T - {p})" "\<lambda>(p, S). (insert p S, p)"])
    fix a assume "a \<in> Sigma N (\<lambda>p. Pow (N - {p}))"
    then obtain p S where a: "a = (p, S)" "p \<notin> S" "S \<subseteq> N" by auto
    have "finite S" using a(3) assms by (rule finite_subset)
    with a show "(case (case a of (p, S) \<Rightarrow> (insert p S, p)) of (T, p) \<Rightarrow> w (card T - 1) * u T) =
        (case a of (p, S) \<Rightarrow> w (card S) * u (insert p S))" by simp
  qed auto
  also have "\<dots> = (\<Sum>T\<in>Pow N. \<Sum>p\<in>T. w (card T - 1) * u T)"
    using assms by (intro sum.Sigma [symmetric]) (auto intro: finite_subset)
  finally show ?thesis by (simp add: mult.assoc)
qed

lemma omit_sums:
  fixes w :: "nat \<Rightarrow> rat" and u :: "'a set \<Rightarrow> rat"
  assumes "finite N"
  shows "(\<Sum>p\<in>N. \<Sum>S\<in>Pow (N - {p}). w (card S) * u S) = (\<Sum>S\<in>Pow N. of_nat (card N - card S) * w (card S) * u S)"
proof -
  have "(\<Sum>p\<in>N. \<Sum>S\<in>Pow (N - {p}). w (card S) * u S) =
      (\<Sum>(p, S) \<in> Sigma N (\<lambda>p. Pow (N - {p})). w (card S) * u S)"
    using assms by (intro sum.Sigma) auto
  also have "\<dots> = (\<Sum>(S, p) \<in> Sigma (Pow N) (\<lambda>S. N - S). w (card S) * u S)"
    by (rule sum.reindex_bij_witness [of _ "\<lambda>(S, p). (p, S)" "\<lambda>(p, S). (S, p)"]) auto
  also have "\<dots> = (\<Sum>S\<in>Pow N. \<Sum>p\<in>N - S. w (card S) * u S)"
    using assms by (intro sum.Sigma [symmetric]) auto
  also have "\<dots> = (\<Sum>S\<in>Pow N. of_nat (card N - card S) * w (card S) * u S)"
    using assms by (intro sum.cong) (auto simp: card_Diff_subset finite_subset)
  finally show ?thesis .
qed

lemma shapley_efficient:
  assumes "finite N" "N \<noteq> {}"
  shows "(\<Sum>p\<in>N. shapley_value v N p) = of_int (v N - v {})"
proof -
  define k where "k = card N"
  have k: "0 < k" using assms by (simp add: k_def card_gt_0_iff)
  define c where "c t = of_nat t * weight k (t - 1) - of_nat (k - t) * weight k t" for t
  have "(\<Sum>p\<in>N. shapley_value v N p) =
      (\<Sum>p\<in>N. \<Sum>S\<in>Pow (N - {p}). weight k (card S) * of_int (v (insert p S))) -
      (\<Sum>p\<in>N. \<Sum>S\<in>Pow (N - {p}). weight k (card S) * of_int (v S))"
    by (simp add: shapley_value_def k_def right_diff_distrib sum_subtractf)
  also have "\<dots> = (\<Sum>T\<in>Pow N. c (card T) * of_int (v T))"
    using insert_sums [OF assms(1), of "weight k" "\<lambda>T. of_int (v T)"] omit_sums [OF assms(1), of "weight k" "\<lambda>T. of_int (v T)"]
    by (simp add: c_def k_def [symmetric] left_diff_distrib sum_subtractf)
  also have "\<dots> = (\<Sum>T\<in>{{}, N}. c (card T) * of_int (v T))"
  proof (rule sum.mono_neutral_right)
    show "\<forall>T\<in>Pow N - {{}, N}. c (card T) * of_int (v T) = 0"
    proof
      fix T assume T: "T \<in> Pow N - {{}, N}"
      then have "T \<subset> N" "T \<noteq> {}" "finite T" using assms(1) by (auto intro: finite_subset)
      then have "0 < card T" "card T < k"
        using assms(1) by (auto simp: k_def card_gt_0_iff intro: psubset_card_mono)
      then show "c (card T) * of_int (v T) = 0" using weight_cancel [of "card T" k] by (simp add: c_def)
    qed
  qed (use assms in auto)
  also have "\<dots> = of_int (v N - v {})"
    using k weight_ends [of k] assms(2) by (simp add: c_def k_def [symmetric])
  finally show ?thesis .
qed

text \<open>C27: Exact Shapley credits are returned for at most ten distinct players, they add up to the value of
  the grand coalition minus the value of the empty one to the nano-USD, and every credit is within one
  nano-USD of the player's exact Shapley value.\<close>

theorem shapley_exact_efficient:
  assumes "distinct players" "length players \<le> MAX_EXACT_PLAYERS"
  shows "\<exists>r. shapley_exact players v = Inr r \<and> map fst r = sort players \<and>
     sum_list (map snd r) = (if players = [] then 0 else v (set players) - v {}) \<and>
     (\<forall>p \<in> set players. \<bar>of_int (dget r p 0) - shapley_value v (set players) p\<bar> < 1)"
proof (cases "players = []")
  case True
  then show ?thesis by (simp add: shapley_exact_def check_players_def)
next
  case False
  define ord where "ord = sort players"
  have ord: "distinct ord" "set ord = set players" "length ord = length players" using assms(1) by (simp_all add: ord_def)
  define sh where "sh = map (\<lambda>i. (ord ! i, marginal_sum v ord i)) [0..<length ord]"
  have fst: "map fst sh = ord" by (simp add: sh_def comp_def map_nth)
  have sh: "sh = map (\<lambda>p. (p, shapley_value v (set players) p)) ord"
    using ord(1,2) by (intro nth_equalityI) (simp_all add: sh_def marginal_sum_value)
  have "sum_list (map snd sh) = of_int (v (set players) - v {})"
    using ord False shapley_efficient [of "set players" v]
    by (simp add: sh comp_def sum_list_distinct_conv_sum_set)
  with fst ord(1) obtain r where r: "largest_remainder sh (v (set players) - v {}) = Inr r" "map fst r = sort (map fst sh)"
    "sum_list (map snd r) = v (set players) - v {}"
    "\<forall>k x. map_of sh k = Some x \<longrightarrow> \<bar>of_int (dget r k 0) - x\<bar> < 1"
    using largest_remainder_exact [of sh "v (set players) - v {}"] by auto
  have "map_of sh p = Some (shapley_value v (set players) p)" if "p \<in> set players" for p
    using that ord(2) by (simp add: sh map_of_map_restrict restrict_map_def)
  with r have "\<forall>p \<in> set players. \<bar>of_int (dget r p 0) - shapley_value v (set players) p\<bar> < 1" by blast
  moreover have "shapley_exact players v = Inr r"
    using assms False r(1) ord by (simp add: shapley_exact_def check_players_def sh_def ord_def [symmetric])
  moreover have "map fst r = sort players" using r(2) fst by (simp add: ord_def sorted_sort_id)
  ultimately show ?thesis using r(3) False by auto
qed

theorem shapley_exact_efficient_witness:
  "\<exists>r. shapley_exact [''b'', ''a''] (\<lambda>s. if ''a'' \<in> s \<and> ''b'' \<in> s then 11 else if ''a'' \<in> s then 4 else 0) = Inr r \<and>
     sum_list (map snd r) = 11"
  using shapley_exact_efficient [of "[''b'', ''a'']" "\<lambda>s. if ''a'' \<in> s \<and> ''b'' \<in> s then 11 else if ''a'' \<in> s then 4 else 0"]
  by (auto simp: MAX_EXACT_PLAYERS_def)

declare isqrt.simps [simp del]

lemma marginals_telescope:
  "sum_list (map snd (marginals v c (v c) ps)) = v (c \<union> set ps) - v c"
  by (induction ps arbitrary: c) (simp_all add: Let_def)

lemma marginals_players: "map fst (marginals v c b ps) = ps"
  by (induction ps arbitrary: c b) (simp_all add: Let_def)

lemma keys_dset_present: "k \<in> fst ` set d \<Longrightarrow> map fst (dset k v d) = map fst d"
  unfolding dset_def by (induction d) auto

lemma sum_add_marginals:
  assumes "distinct (map fst d)" "set (map fst ms) \<subseteq> set (map fst d)"
  shows "sum_list (map snd (fold (\<lambda>pm d. add_marginal d pm) ms d)) = sum_list (map snd d) + sum_list (map snd ms) \<and>
     map fst (fold (\<lambda>pm d. add_marginal d pm) ms d) = map fst d"
  using assms
proof (induction ms arbitrary: d)
  case (Cons pm ms)
  obtain p m where pm: "pm = (p, m)" by fastforce
  have p: "p \<in> fst ` set d" using Cons.prems(2) pm by auto
  then obtain x where x: "map_of d p = Some x" by (auto simp: map_of_eq_None_iff dest: weak_map_of_SomeI)
  have keys: "map fst (add_marginal d pm) = map fst d" using p by (simp add: pm add_marginal_def keys_dset_present)
  have "sum_list (map snd (add_marginal d pm)) = sum_list (map snd d) + m"
    using sum_list_dset [OF Cons.prems(1), of id p "x + m"] x by (simp add: pm add_marginal_def dget_def)
  moreover have "set (map fst ms) \<subseteq> set (map fst (add_marginal d pm))" unfolding keys using Cons.prems(2) by simp
  ultimately show ?case using Cons.IH [of "add_marginal d pm"] Cons.prems(1) keys by (simp add: pm)
qed simp

text \<open>Monte Carlo Shapley credits: for any shuffles that are permutations of the players, the credits that
  are returned add up to the value of the grand coalition minus the value of the empty one to the nano-USD,
  and with one permutation they are returned with zero standard errors.\<close>

theorem shapley_mc_efficient:
  assumes "distinct players" "players \<noteq> []" "orders \<noteq> []" "\<forall>ps \<in> set orders. mset ps = mset players"
  shows "(\<forall>vals errs. shapley_mc orders players v = Inr (vals, errs) \<longrightarrow>
       map fst vals = sort players \<and> sum_list (map snd vals) = v (set players) - v {}) \<and>
     (length orders = 1 \<longrightarrow> (\<exists>vals. shapley_mc orders players v = Inr (vals, map (\<lambda>p. (p, 0)) (sort players))))"
proof -
  define ord where "ord = sort players"
  define ms where "ms = concat (map (marginals v {} (v {})) orders)"
  define tots where "tots = fold (\<lambda>pm d. add_marginal d pm) ms (map (\<lambda>p. (p, 0)) ord)"
  define means where "means = map (\<lambda>p. (p, of_int (dget tots p 0) / of_nat (length orders) :: rat)) ord"
  have ord: "distinct ord" "set ord = set players" "ord \<noteq> []" using assms(1,2) by (simp_all add: ord_def) (metis set_empty set_sort)
  have so: "set x = set players" if "x \<in> set orders" for x using assms(4) that by (metis set_mset_mset)
  have msum: "sum_list (map snd (concat (map (marginals v {} (v {})) os))) = int (length os) * (v (set players) - v {})"
    if "set os \<subseteq> set orders" for os
    using that so by (induction os) (auto simp: marginals_telescope algebra_simps)
  have mkeys: "set (map fst ms) \<subseteq> set ord"
    using so ord(2) by (auto simp: ms_def) (metis fst_conv image_eqI list.set_map marginals_players)
  have t: "sum_list (map snd tots) = int (length orders) * (v (set players) - v {})" "map fst tots = ord"
    using sum_add_marginals [of "map (\<lambda>p. (p, 0)) ord" ms] ord(1) mkeys msum [of orders]
    by (simp_all add: tots_def comp_def ms_def)
  have tk: "map (\<lambda>p. dget tots p 0) ord = map snd tots"
    using t(2) ord(1) by (auto simp: dget_def intro!: nth_equalityI) (metis (no_types, lifting) length_map map_of_eq_Some_iff nth_map nth_mem option.simps(5) prod.collapse)
  have "sum_list (map snd means) = of_int (sum_list (map (\<lambda>p. dget tots p 0) ord)) / of_nat (length orders)"
    unfolding means_def by (simp add: comp_def sum_list_of_int_div)
  then have "sum_list (map snd means) = of_int (v (set players) - v {})" using assms(3) by (simp add: tk t(1))
  moreover have "distinct (map fst means)" using ord(1) by (simp add: means_def comp_def)
  ultimately obtain vals where vals: "largest_remainder means (v (set players) - v {}) = Inr vals"
    "map fst vals = sort (map fst means)" "sum_list (map snd vals) = v (set players) - v {}"
    using largest_remainder_exact by blast
  have k: "map fst vals = ord" using vals(2) by (simp add: means_def comp_def ord_def sorted_sort_id)
  have z: "rmap (\<lambda>p. Inr (p, 0)) xs = Inr (map (\<lambda>p. (p, 0 :: int)) xs)" for xs :: "string list" by (induction xs) simp_all
  define errs where "errs = rmap (\<lambda>p. if length orders < 2 then Inr (p, 0)
      else rbind (isqrt_fraction ((of_int (dget (fold (\<lambda>(p, m) d. add_marginal d (p, m * m)) ms (map (\<lambda>p. (p, 0)) ord)) p 0) -
             of_int (dget tots p 0 * dget tots p 0) / of_nat (length orders)) /
             of_nat (length orders - 1) / of_nat (length orders))) (\<lambda>s. Inr (p, s))) ord"
  have "shapley_mc orders players v = rbind errs (\<lambda>er. Inr (vals, er))"
    using assms(1,3) ord(3) vals(1)
    unfolding shapley_mc_def check_players_def Let_def errs_def means_def tots_def ms_def ord_def by simp
  moreover have "length orders = 1 \<longrightarrow> errs = Inr (map (\<lambda>p. (p, 0)) ord)" by (simp add: errs_def z)
  ultimately show ?thesis using k vals(3) by (auto simp: ord_def rbind_eq_Inr)
qed

theorem shapley_mc_efficient_witness:
  "\<exists>vals. shapley_mc [[''b'', ''a'']] [''a'', ''b''] (\<lambda>s. if ''a'' \<in> s \<and> ''b'' \<in> s then 11 else if ''a'' \<in> s then 4 else 0) =
     Inr (vals, [(''a'', 0), (''b'', 0)]) \<and> sum_list (map snd vals) = 11"
proof -
  let ?v = "\<lambda>s. if ''a'' \<in> s \<and> ''b'' \<in> s then 11 else if ''a'' \<in> s then 4 else (0::int)"
  have "sort [''a'', ''b''] = [''a'', ''b'']" by code_simp
  then show ?thesis
    using shapley_mc_efficient [of "[''a'', ''b'']" "[[''b'', ''a'']]" ?v] by auto
qed

text \<open>Rescaling credits with distinct players never fails on a non-empty mapping: the result has the same
  players in sorted order, adds up to the target total to the unit, and every scaled credit is within one unit
  of the exact proportion (of the equal share when the credits add up to zero).\<close>

theorem scale_credits_exact:
  assumes "distinct (map fst credits)" "credits \<noteq> []"
  shows "\<exists>r. scale_credits credits target = Inr r \<and> map fst r = sort (map fst credits) \<and>
     sum_list (map snd r) = target \<and>
     (\<forall>p c. map_of credits p = Some c \<longrightarrow>
        \<bar>of_int (dget r p 0) - (if sum_list (map snd credits) = 0 then of_int target / of_nat (length credits)
           else of_int (c * target) / of_int (sum_list (map snd credits)) :: rat)\<bar> < 1)"
proof -
  define keys where "keys = sort (map fst credits)"
  define tot where "tot = sum_list (map snd credits)"
  define g where "g k = (if tot = 0 then of_int target / of_nat (length credits)
      else of_int (dget credits k 0 * target) / of_int tot :: rat)" for k
  have k: "distinct keys" "keys \<noteq> []" "length keys = length credits" "set keys = set (map fst credits)"
    using assms by (simp_all add: keys_def) (metis length_0_conv length_map length_sort)
  have st: "sum_list (map (\<lambda>k. dget credits k 0) keys) = tot"
  proof -
    have "sum_list (map (\<lambda>k. dget credits k 0) keys) = sum_list (map (\<lambda>k. dget credits k 0) (map fst credits))"
      unfolding keys_def by (rule sum_list_mset_eq) simp
    also have "map (\<lambda>k. dget credits k 0) (map fst credits) = map snd credits"
      using assms(1) by (auto simp: dget_def comp_def)
    finally show ?thesis by (simp add: tot_def)
  qed
  have "sum_list (map g keys) = of_int target"
  proof (cases "tot = 0")
    case True
    then show ?thesis using k(2,3) assms(2) by (simp add: g_def [abs_def] sum_list_triv)
  next
    case False
    have "sum_list (map (\<lambda>k. dget credits k 0 * target) keys) = tot * target"
      using st by (simp add: sum_list_mult_const)
    then show ?thesis using False sum_list_of_int_div [of "\<lambda>k. dget credits k 0 * target" "of_int tot" keys] by (simp add: g_def [abs_def])
  qed
  then obtain r where r: "largest_remainder (map (\<lambda>k. (k, g k)) keys) target = Inr r"
    "map fst r = sort (map fst (map (\<lambda>k. (k, g k)) keys))" "sum_list (map snd r) = target"
    "\<forall>q x. map_of (map (\<lambda>k. (k, g k)) keys) q = Some x \<longrightarrow> \<bar>of_int (dget r q 0) - x\<bar> < 1"
    using largest_remainder_exact [of "map (\<lambda>k. (k, g k)) keys" target] k(1) by (auto simp: comp_def)
  have "scale_credits credits target = Inr r"
    using k(2,3) r(1) unfolding scale_credits_def Let_def keys_def [symmetric] st g_def by (cases "tot = 0") simp_all
  moreover have "\<bar>of_int (dget r p 0) - g p\<bar> < 1" if "map_of credits p = Some c" for p c
  proof -
    have "p \<in> set keys" using that k(4) by (force dest: map_of_SomeD)
    then show ?thesis using r(4) by (simp add: map_of_map_restrict restrict_map_def)
  qed
  moreover have "map fst r = keys" using r(2) by (simp add: comp_def keys_def sorted_sort_id)
  ultimately show ?thesis using r(3)
    by (intro exI [of _ r]) (fastforce simp: keys_def tot_def g_def dget_def)
qed

theorem scale_credits_exact_witness:
  "\<exists>r. scale_credits [(''b'', 2), (''a'', 1)] 10 = Inr r \<and> sum_list (map snd r) = 10 \<and>
     \<bar>of_int (dget r ''b'' 0) - 20 / 3 :: rat\<bar> < 1"
proof -
  let ?cs = "[(''b'', 2), (''a'', 1)] :: (string, int) dict"
  obtain r where r: "scale_credits ?cs 10 = Inr r" "sum_list (map snd r) = 10"
    "\<forall>p c. map_of ?cs p = Some c \<longrightarrow>
       \<bar>of_int (dget r p 0) - (if sum_list (map snd ?cs) = 0 then of_int 10 / of_nat (length ?cs)
          else of_int (c * 10) / of_int (sum_list (map snd ?cs)) :: rat)\<bar> < 1"
    using scale_credits_exact [of ?cs 10] by auto
  show ?thesis using r(1,2) r(3) [rule_format, of "''b''" 2] by simp
qed

end
