(* ===== verification/Allocation.thy ===== *)
theory Allocation
  imports Apportion
begin

text \<open>
  Allocation rules of \<open>finops/allocation.py\<close>: parsing and validation of a rules document, first-match
  application of the rules to a request's attribution, the proportional split of ledger cost rows over teams
  and the coverage figure. A decoded JSON document is a \<open>json\<close> value whose objects have distinct keys. The
  regular-expression engine is a parameter: \<open>re_ok\<close> says whether \<open>re.compile\<close> accepts a pattern and
  \<open>search p v\<close> whether pattern \<open>p\<close> is found in \<open>v\<close>; the safe-subset scan that guards it is modelled.
  \<open>digest\<close> is the SHA-256 of the canonical document text.
\<close>

section \<open>Definitions\<close>

definition SCHEMA :: string where "SCHEMA = ''tokenbill/allocation@1''"

definition UNALLOCATED :: string where "UNALLOCATED = ''(unallocated)''"

definition OPERATORS :: "string list" where "OPERATORS = [''eq'', ''in'', ''prefix'', ''regex'']"

definition TARGETS :: "string list" where "TARGETS = [''team'', ''cost_center'', ''project'', ''workload_class'']"

definition MATCH_FIELDS :: "string list" where
  "MATCH_FIELDS = [''team'', ''cost_center'', ''project'', ''repo'', ''workspace_id'', ''api_key_id'',
     ''agent_product'', ''agent_type'', ''query_source'', ''skill'', ''mcp_server'', ''plugin'',
     ''workload_class'', ''entrypoint'', ''client_version'', ''billing_path'', ''cwd_key'', ''arm'',
     ''wave'', ''model'', ''channel'', ''provider'']"

definition REGEX_FIELDS :: "string list" where
  "REGEX_FIELDS = [''repo'', ''workspace_id'', ''api_key_id'', ''agent_product'', ''agent_type'', ''entrypoint'',
     ''client_version'', ''cwd_key'', ''model'', ''channel'', ''provider''] @ map (\<lambda>k. ''extra.'' @ k) EXTRA_KEYS"

definition WORKLOAD_CLASSES :: "workload_class list" where
  "WORKLOAD_CLASSES = [WcInteractive, WcCi, WcScheduled, WcEval, WcBatch, WcService, WcUnknown]"

definition workload_of_value :: "string \<Rightarrow> workload_class option" where
  "workload_of_value s = List.find (\<lambda>w. workload_class_value w = s) WORKLOAD_CLASSES"

definition id_char :: "char \<Rightarrow> bool" where
  "id_char c = (is_upper c \<or> is_lower c \<or> is_digit c \<or> c \<in> set ''._-'')"

definition id_re :: "string \<Rightarrow> bool" where
  "id_re s = (1 \<le> length s \<and> length s \<le> 64 \<and> list_all id_char s)"

text \<open>\<open>_SPLIT_RE.match(s)\<close> and its group: the rule id inside a split marker.\<close>

definition split_re :: "string \<Rightarrow> string option" where
  "split_re s =
     (if startswith s ''(split:'' \<and> endswith s '')''
      then let rid = take (length s - 8) (drop 7 s) in if 8 \<le> length s \<and> id_re rid then Some rid else None
      else None)"

record condition =
  cond_field :: string
  cond_op :: string
  cond_values :: "string list"
  pattern :: "string option"

record split =
  split_method :: string
  split_by :: string
  targets :: "string list"

record alloc_rule =
  rule_id :: string
  conditions :: "condition list"
  sets :: "(string \<times> string) list"
  rule_split :: "split option"

record rule_set =
  rules :: "alloc_rule list"
  sha256 :: string

definition first_value :: "condition \<Rightarrow> string res" where
  "first_value c = (case cond_values c of [] \<Rightarrow> Inl IndexError | v # _ \<Rightarrow> Inr v)"

definition condition_test :: "(string \<Rightarrow> string \<Rightarrow> bool) \<Rightarrow> condition \<Rightarrow> string option \<Rightarrow> bool res" where
  "condition_test search c value = (case value of
      None \<Rightarrow> Inr False
    | Some v \<Rightarrow>
        if cond_op c = ''eq'' then rbind (first_value c) (\<lambda>x. Inr (v = x))
        else if cond_op c = ''in'' then Inr (v \<in> set (cond_values c))
        else if cond_op c = ''prefix'' then rbind (first_value c) (\<lambda>x. Inr (startswith v x))
        else case pattern c of None \<Rightarrow> Inl AssertionError | Some p \<Rightarrow> Inr (search p v))"

definition set_rule :: "rule_set \<Rightarrow> string \<Rightarrow> alloc_rule option" where
  "set_rule rs rid = List.find (\<lambda>r. rule_id r = rid) (rules rs)"

subsection \<open>Parsing\<close>

definition string_of :: "json \<Rightarrow> string res" where
  "string_of j = (case j of
      JStr s \<Rightarrow> if s = '''' \<or> length s > 256 then Inl UsageError
               else if list_ex (\<lambda>ch. (of_char ch :: nat) < 32 \<or> (of_char ch :: nat) = 127) s then Inl UsageError
               else Inr s
    | _ \<Rightarrow> Inl UsageError)"

text \<open>\<open>re.search(r"\\[1-9]|\\g<|\(\?P=|\(\?\(", pattern)\<close>.\<close>

definition backreference_here :: "string \<Rightarrow> bool" where
  "backreference_here s =
     ((startswith s [CHR 92] \<and> length s > 1 \<and> code_between (s ! 1) 49 57) \<or>
      startswith s (CHR 92 # ''g<'') \<or> startswith s ''(?P='' \<or> startswith s ''(?('')"

fun has_backreference :: "string \<Rightarrow> bool" where
  "has_backreference [] = False"
| "has_backreference (c # cs) = (backreference_here (c # cs) \<or> has_backreference cs)"

text \<open>The rest of the pattern from the \<open>]\<close> that closes a character class.\<close>

fun class_end :: "string \<Rightarrow> string" where
  "class_end [] = []"
| "class_end [c] = (if c = CHR '']'' then [c] else [])"
| "class_end (c # d # cs) = (if c = CHR '']'' then c # d # cs else if c = CHR 92 then class_end cs else class_end (d # cs))"

definition skip_char :: "char \<Rightarrow> string \<Rightarrow> string" where
  "skip_char c s = (if startswith s [c] then tl s else s)"

definition after_class :: "string \<Rightarrow> string" where
  "after_class s = drop 1 (class_end (skip_char (CHR '']'') (skip_char (CHR ''^'') s)))"

definition after_group_open :: "string \<Rightarrow> string" where
  "after_group_open s =
     (if startswith s ''?'' then
        let t = drop 1 s
        in if startswith t ''P<'' then drop 1 (dropWhile (\<lambda>c. c \<noteq> CHR ''>'') t)
           else let u = dropWhile (\<lambda>c. c \<notin> set '':=!)'') (skip_char (CHR ''<'') t)
                in if u \<noteq> [] \<and> hd u \<in> set '':=!'' then tl u else u
      else s)"

definition mark :: "bool list \<Rightarrow> bool list" where
  "mark st = (case st of [] \<Rightarrow> [] | _ # st' \<Rightarrow> True # st')"

lemma length_class_end: "length (class_end s) \<le> length s"
  by (induction s rule: class_end.induct) auto

lemma length_skip_char: "length (skip_char c s) \<le> length s"
  by (simp add: skip_char_def)

lemma length_after_class: "length (after_class s) \<le> length s"
  using length_class_end [of "skip_char (CHR '']'') (skip_char (CHR ''^'') s)"]
    length_skip_char [of "CHR '']''" "skip_char (CHR ''^'') s"] length_skip_char [of "CHR ''^''" s]
  by (simp add: after_class_def)

lemma length_after_group_open: "length (after_group_open s) \<le> length s"
proof -
  have a: "length (drop 1 (dropWhile P t)) \<le> length t" for P and t :: string
    using length_dropWhile_le [of P t] by simp
  have b: "length (tl (dropWhile P (skip_char c t))) \<le> length t" "length (dropWhile P (skip_char c t)) \<le> length t"
    for P c and t :: string
    using length_dropWhile_le [of P "skip_char c t"] length_skip_char [of c t] by simp_all
  have l: "length (drop 1 s) \<le> length s" by simp
  show ?thesis
    unfolding after_group_open_def Let_def
    by (simp only: split: if_split) (blast intro: order_trans [OF a l] order_trans [OF b(1) l] order_trans [OF b(2) l] order_refl)
qed

text \<open>The scan for nested unbounded quantifiers over the rest of a pattern; the list says for every open group
  whether it contains a quantifier. False: a quantified group with a quantifier inside.\<close>

function no_nested :: "bool list \<Rightarrow> string \<Rightarrow> bool" where
  "no_nested st [] = True"
| "no_nested st (ch # cs) =
     (if ch = CHR 92 then no_nested st (drop 1 cs)
      else if ch = CHR ''['' then no_nested st (after_class cs)
      else if ch = CHR ''('' then no_nested (False # st) (after_group_open cs)
      else if ch = CHR '')'' then
        let quantified = (st \<noteq> [] \<and> hd st); st' = (if quantified then mark (tl st) else tl st)
        in if quantified \<and> cs \<noteq> [] \<and> hd cs \<in> set ''*+{'' then False else no_nested st' cs
      else if ch \<in> set ''*+?{'' then no_nested (mark st) cs
      else no_nested st cs)"
  by pat_completeness auto
termination
  by (relation "measure (\<lambda>(st, s). length s)")
    (auto simp: le_imp_less_Suc length_after_class length_after_group_open)

text \<open>\<open>re_ok\<close>: \<open>re.compile\<close> accepts the pattern.\<close>

definition check_regex :: "(string \<Rightarrow> bool) \<Rightarrow> string \<Rightarrow> string res" where
  "check_regex re_ok p =
     (if length p > 200 then Inl UsageError
      else if has_backreference p then Inl UsageError
      else if \<not> no_nested [] p then Inl UsageError
      else if re_ok p then Inr p else Inl UsageError)"

definition match_field :: "string \<Rightarrow> string res" where
  "match_field name =
     (if startswith name ''extra.'' then (if drop 6 name \<in> set EXTRA_KEYS then Inr name else Inl UsageError)
      else if name \<in> set MATCH_FIELDS then Inr name else Inl UsageError)"

definition condition_of :: "(string \<Rightarrow> bool) \<Rightarrow> string \<Rightarrow> json \<Rightarrow> condition res" where
  "condition_of re_ok fld spec = (case spec of
      JObj [(opr, value)] \<Rightarrow>
        if opr \<notin> set OPERATORS then Inl UsageError
        else if opr = ''in'' then
          (case value of JList vs \<Rightarrow>
             if vs = [] \<or> length vs > 10000 then Inl UsageError
             else rbind (rmap string_of vs) (\<lambda>ss.
               Inr \<lparr>cond_field = fld, cond_op = opr, cond_values = ss, pattern = None\<rparr>)
           | _ \<Rightarrow> Inl UsageError)
        else rbind (string_of value) (\<lambda>txt.
          if opr = ''regex'' then
            if fld \<notin> set REGEX_FIELDS then Inl UsageError
            else rbind (check_regex re_ok txt) (\<lambda>p.
              Inr \<lparr>cond_field = fld, cond_op = opr, cond_values = [txt], pattern = Some p\<rparr>)
          else Inr \<lparr>cond_field = fld, cond_op = opr, cond_values = [txt], pattern = None\<rparr>)
    | _ \<Rightarrow> Inl UsageError)"

definition reserved_team :: "string \<Rightarrow> bool" where
  "reserved_team t = (t = UNALLOCATED \<or> split_re t \<noteq> None)"

definition split_of :: "json \<Rightarrow> split res" where
  "split_of j = (case j of
      JObj doc \<Rightarrow>
        if \<not> set (map fst doc) \<subseteq> {''method'', ''by'', ''targets''} then Inl UsageError
        else if dget doc ''method'' (JStr ''proportional'') \<noteq> JStr ''proportional'' then Inl UsageError
        else if dget doc ''by'' (JStr ''dev_days'') \<noteq> JStr ''dev_days'' then Inl UsageError
        else (case dget doc ''targets'' JNull of
            JList ts \<Rightarrow>
              if ts = [] \<or> length ts > 1000 then Inl UsageError
              else rbind (rmap string_of ts) (\<lambda>teams.
                if \<not> distinct teams then Inl UsageError
                else if list_ex reserved_team teams then Inl UsageError
                else Inr \<lparr>split_method = ''proportional'', split_by = ''dev_days'', targets = teams\<rparr>)
          | _ \<Rightarrow> Inl UsageError)
    | _ \<Rightarrow> Inl UsageError)"

definition set_pair :: "string \<times> json \<Rightarrow> (string \<times> string) res" where
  "set_pair tv = (case tv of (target, j) \<Rightarrow>
     if target \<notin> set TARGETS then Inl UsageError
     else rbind (string_of j) (\<lambda>value.
       if target = ''workload_class'' \<and> workload_of_value value = None then Inl UsageError
       else if target = ''team'' \<and> reserved_team value then Inl UsageError
       else Inr (target, value)))"

definition as_object :: "json \<Rightarrow> (string \<times> json) list res" where
  "as_object j = (case j of JObj kvs \<Rightarrow> Inr kvs | _ \<Rightarrow> Inl UsageError)"

definition rule_of :: "(string \<Rightarrow> bool) \<Rightarrow> json \<Rightarrow> nat \<Rightarrow> string list \<Rightarrow> alloc_rule res" where
  "rule_of re_ok j index seen =
     rbind (as_object j) (\<lambda>doc.
     if \<not> set (map fst doc) \<subseteq> {''id'', ''match'', ''set'', ''split'', ''description''} then Inl UsageError
     else case dget doc ''id'' (JStr (''r'' @ show_nat (index + 1))) of
       JStr rid \<Rightarrow>
         if \<not> id_re rid then Inl UsageError
         else if rid \<in> set seen then Inl UsageError
         else
          rbind (as_object (dget doc ''match'' (JObj []))) (\<lambda>mat.
          rbind (rmap (\<lambda>(f, spec). rbind (match_field f) (\<lambda>fld. condition_of re_ok fld spec)) (sort_key fst mat)) (\<lambda>conds.
          rbind (as_object (dget doc ''set'' (JObj []))) (\<lambda>sets_doc.
          rbind (rmap set_pair (sort_key fst sets_doc)) (\<lambda>ss.
          rbind (case map_of doc ''split'' of None \<Rightarrow> Inr None
                 | Some sj \<Rightarrow> rbind (split_of sj) (\<lambda>sp.
                     if list_ex (\<lambda>(t, _). t = ''team'') ss then Inl UsageError else Inr (Some sp))) (\<lambda>sp.
          if ss = [] \<and> sp = None then Inl UsageError
          else Inr \<lparr>rule_id = rid, conditions = conds, sets = ss, rule_split = sp\<rparr>)))))
     | _ \<Rightarrow> Inl UsageError)"

fun rules_of :: "(string \<Rightarrow> bool) \<Rightarrow> nat \<Rightarrow> string list \<Rightarrow> json list \<Rightarrow> alloc_rule list res" where
  "rules_of re_ok i seen [] = Inr []"
| "rules_of re_ok i seen (j # js) =
     rbind (rule_of re_ok j i seen) (\<lambda>r. rbind (rules_of re_ok (Suc i) (rule_id r # seen) js) (\<lambda>rs. Inr (r # rs)))"

text \<open>\<open>digest\<close>: the SHA-256 of the document's canonical JSON text.\<close>

definition parse_rules :: "(string \<Rightarrow> bool) \<Rightarrow> (json \<Rightarrow> string) \<Rightarrow> json \<Rightarrow> rule_set res" where
  "parse_rules re_ok digest j =
     rbind (as_object j) (\<lambda>doc.
     if \<not> set (map fst doc) \<subseteq> {''rules'', ''schema'', ''description''} then Inl UsageError
     else if (case map_of doc ''schema'' of None \<Rightarrow> False | Some s \<Rightarrow> s \<noteq> JStr SCHEMA) then Inl UsageError
     else case dget doc ''rules'' JNull of
       JList rs \<Rightarrow>
         if length rs > 10000 then Inl UsageError
         else rbind (rules_of re_ok 0 [] rs) (\<lambda>parsed. Inr \<lparr>rules = parsed, sha256 = digest j\<rparr>)
     | _ \<Rightarrow> Inl UsageError)"

subsection \<open>Applying\<close>

definition attr_field :: "attribution \<Rightarrow> string \<Rightarrow> string option" where
  "attr_field a f =
     (if f = ''team'' then team a else if f = ''cost_center'' then cost_center a
      else if f = ''project'' then project a else if f = ''repo'' then repo a
      else if f = ''workspace_id'' then workspace_id a else if f = ''api_key_id'' then api_key_id a
      else if f = ''agent_product'' then agent_product a else if f = ''agent_type'' then agent_type a
      else if f = ''query_source'' then query_source a else if f = ''skill'' then skill a
      else if f = ''mcp_server'' then mcp_server a else if f = ''plugin'' then plugin a
      else if f = ''workload_class'' then Some (workload_class_value (workload a))
      else if f = ''entrypoint'' then entrypoint a else if f = ''client_version'' then client_version a
      else if f = ''billing_path'' then attr_billing_path a else if f = ''cwd_key'' then cwd_key a
      else if f = ''arm'' then arm a else if f = ''wave'' then wave a else None)"

definition value_of :: "request \<Rightarrow> string \<Rightarrow> string option" where
  "value_of req f =
     (if startswith f ''extra.'' then map_of (rev (extra (attribution req))) (drop 6 f)
      else if f = ''model'' then (if req_model req = '''' then None else Some (req_model req))
      else if f = ''channel'' then map_option (\<lambda>i. ctx_channel (pricing i)) (serving_inference req)
      else if f = ''provider'' then map_option (\<lambda>i. ctx_provider (pricing i)) (serving_inference req)
      else attr_field (attribution req) f)"

fun all_hold :: "(string \<Rightarrow> string \<Rightarrow> bool) \<Rightarrow> request \<Rightarrow> condition list \<Rightarrow> bool res" where
  "all_hold search req [] = Inr True"
| "all_hold search req (c # cs) =
     rbind (condition_test search c (value_of req (cond_field c))) (\<lambda>b. if b then all_hold search req cs else Inr False)"

definition matches :: "(string \<Rightarrow> string \<Rightarrow> bool) \<Rightarrow> alloc_rule \<Rightarrow> request \<Rightarrow> bool res" where
  "matches search r req = all_hold search req (conditions r)"

definition split_marker :: "string \<Rightarrow> string" where
  "split_marker rid = ''(split:'' @ rid @ '')''"

definition take_settings :: "alloc_rule \<Rightarrow> (string, string) dict \<Rightarrow> (string, string) dict" where
  "take_settings r chosen =
     (let d = fold (\<lambda>(t, v) d. dsetdefault t v d) (sets r) chosen
      in case rule_split r of None \<Rightarrow> d | Some _ \<Rightarrow> dsetdefault ''team'' (split_marker (rule_id r)) d)"

fun choose_settings :: "(string \<Rightarrow> string \<Rightarrow> bool) \<Rightarrow> request \<Rightarrow> (string, string) dict \<Rightarrow> alloc_rule list \<Rightarrow> (string, string) dict res" where
  "choose_settings search req chosen [] = Inr chosen"
| "choose_settings search req chosen (r # rs) =
     rbind (matches search r req) (\<lambda>b.
       if \<not> b then choose_settings search req chosen rs
       else let chosen' = take_settings r chosen
            in if length chosen' = length TARGETS then Inr chosen' else choose_settings search req chosen' rs)"

definition override :: "(string, string) dict \<Rightarrow> string \<Rightarrow> string option \<Rightarrow> string option" where
  "override chosen t own = (case map_of chosen t of Some v \<Rightarrow> Some v | None \<Rightarrow> own)"

definition apply_rules :: "(string \<Rightarrow> string \<Rightarrow> bool) \<Rightarrow> request \<Rightarrow> rule_set \<Rightarrow> attribution res" where
  "apply_rules search req rs =
     rbind (choose_settings search req [] (rules rs)) (\<lambda>chosen.
     let a = attribution req in
     rbind (case map_of chosen ''workload_class'' of None \<Rightarrow> Inr (workload a)
            | Some v \<Rightarrow> (case workload_of_value v of Some w \<Rightarrow> Inr w | None \<Rightarrow> Inl ValueError)) (\<lambda>w.
     let tm = override chosen ''team'' (team a);
         tm' = (if tm = None \<or> tm = Some '''' then Some UNALLOCATED else tm)
     in if list_all (\<lambda>t. map_of chosen t = None) TARGETS \<and> tm' = team a then Inr a
        else mk_attribution (a\<lparr>team := tm', cost_center := override chosen ''cost_center'' (cost_center a),
               project := override chosen ''project'' (project a), workload := w\<rparr>)))"

record ledger_cost_row =
  row_date_utc :: string
  row_provider :: string
  row_channel :: string
  row_model :: string
  row_bucket :: string
  row_team :: "string option"
  row_cost_center :: "string option"
  row_project :: "string option"
  row_workspace_id :: "string option"
  row_lane_kind :: string
  row_workload_class :: string
  row_agent_product :: "string option"
  row_billing_path :: string
  quantity :: int
  priced_nano :: int
  estimated_low_nano :: int
  estimated_high_nano :: int
  row_basis :: basis
  row_rate_row_id :: "string option"
  n_users :: int

text \<open>A row of \<open>split_rows\<close>: a ledger row, or an \<open>AllocatedCostRow\<close> with its method id and details. The
  details are the JSON value whose text the code stores.\<close>

datatype cost_row = LedgerRow ledger_cost_row | AllocatedRow ledger_cost_row string json

fun base_row :: "cost_row \<Rightarrow> ledger_cost_row" where
  "base_row (LedgerRow r) = r"
| "base_row (AllocatedRow r m d) = r"

definition split_weights :: "(string, int) dict \<Rightarrow> string list \<Rightarrow> string \<times> int list" where
  "split_weights weights ts =
     (let w = map (\<lambda>t. max (dget weights t 0) 0) ts
      in if sum_list w \<noteq> 0 then (''dev_days'', w) else (''equal (no developer-days)'', replicate (length ts) 1))"

definition split_row :: "rule_set \<Rightarrow> (string, int) dict \<Rightarrow> ledger_cost_row \<Rightarrow> cost_row list" where
  "split_row rs weights row =
     (case Option.bind (split_re (case row_team row of None \<Rightarrow> '''' | Some t \<Rightarrow> t)) (set_rule rs) of
        None \<Rightarrow> [LedgerRow row]
      | Some r \<Rightarrow> (case rule_split r of
          None \<Rightarrow> [LedgerRow row]
        | Some sp \<Rightarrow>
           let (basis, w) = split_weights weights (targets sp);
               details = JObj [(''by'', JStr (split_by sp)), (''method'', JStr (split_method sp)), (''rule'', JStr (rule_id r)),
                 (''rule_set_sha256'', JStr (sha256 rs)),
                 (''weights'', JObj (sort_key fst (zip (targets sp) (map JInt w)))), (''weights_basis'', JStr basis)];
               method_id = ''tokenbill.split.'' @ split_method sp @ ''.'' @ split_by sp;
               qs = apportion (quantity row) w; ps = apportion (priced_nano row) w;
               ls = apportion (estimated_low_nano row) w; hs = apportion (estimated_high_nano row) w
           in map (\<lambda>i. AllocatedRow (row\<lparr>quantity := qs ! i, priced_nano := ps ! i, estimated_low_nano := ls ! i,
                  estimated_high_nano := hs ! i, row_team := Some (targets sp ! i)\<rparr>) method_id details)
                [0..<length (targets sp)]))"

definition split_rows :: "rule_set \<Rightarrow> (string, int) dict \<Rightarrow> ledger_cost_row list \<Rightarrow> cost_row list" where
  "split_rows rs weights rows = concat (map (split_row rs weights) rows)"

definition is_allocated :: "string option \<Rightarrow> bool" where
  "is_allocated t = (t \<noteq> None \<and> t \<noteq> Some '''' \<and> t \<noteq> Some UNALLOCATED)"

definition billed_rows :: "ledger_cost_row list \<Rightarrow> ledger_cost_row list" where
  "billed_rows rows = filter (\<lambda>r. row_basis r \<noteq> LIST_EQUIVALENT) rows"

definition coverage :: "ledger_cost_row list \<Rightarrow> string res" where
  "coverage rows =
     (let billed = billed_rows rows;
          tot = sum_list (map priced_nano billed);
          allocated = sum_list (map priced_nano (filter (\<lambda>r. is_allocated (row_team r)) billed))
      in rbind (ratio allocated tot) (\<lambda>v. case v of None \<Rightarrow> Inr ''1'' | Some d \<Rightarrow> Inr (format_f (dec_normalize d))))"

text \<open>What a parsed condition, rule and rule set satisfy.\<close>

definition wf_condition :: "(string \<Rightarrow> bool) \<Rightarrow> condition \<Rightarrow> bool" where
  "wf_condition re_ok c =
     (cond_op c \<in> set OPERATORS \<and> cond_values c \<noteq> [] \<and> match_field (cond_field c) = Inr (cond_field c) \<and>
      (cond_op c = ''regex'' \<longrightarrow> cond_field c \<in> set REGEX_FIELDS \<and>
         (\<exists>p. pattern c = Some p \<and> length p \<le> 200 \<and> \<not> has_backreference p \<and> no_nested [] p \<and> re_ok p)))"

definition wf_split :: "split \<Rightarrow> bool" where
  "wf_split sp = (targets sp \<noteq> [] \<and> distinct (targets sp) \<and> (\<forall>t \<in> set (targets sp). t \<noteq> '''' \<and> \<not> reserved_team t))"

definition wf_setting :: "string \<times> string \<Rightarrow> bool" where
  "wf_setting tv = (case tv of (t, v) \<Rightarrow> t \<in> set TARGETS \<and> v \<noteq> '''' \<and>
     (t = ''workload_class'' \<longrightarrow> workload_of_value v \<noteq> None) \<and> (t = ''team'' \<longrightarrow> \<not> reserved_team v))"

definition wf_rule :: "(string \<Rightarrow> bool) \<Rightarrow> alloc_rule \<Rightarrow> bool" where
  "wf_rule re_ok r =
     (id_re (rule_id r) \<and> list_all (wf_condition re_ok) (conditions r) \<and> list_all wf_setting (sets r) \<and>
      (case rule_split r of None \<Rightarrow> sets r \<noteq> [] | Some sp \<Rightarrow> wf_split sp \<and> ''team'' \<notin> fst ` set (sets r)))"

definition wf_rule_set :: "(string \<Rightarrow> bool) \<Rightarrow> rule_set \<Rightarrow> bool" where
  "wf_rule_set re_ok rs = (distinct (map rule_id (rules rs)) \<and> list_all (wf_rule re_ok) (rules rs))"

text \<open>The reference reading of a rule set: the setting of a target by a rule, and the setting of the first
  matching rule that has one.\<close>

definition rule_holds :: "(string \<Rightarrow> string \<Rightarrow> bool) \<Rightarrow> request \<Rightarrow> alloc_rule \<Rightarrow> bool" where
  "rule_holds search req r =
     list_all (\<lambda>c. condition_test search c (value_of req (cond_field c)) = Inr True) (conditions r)"

definition setting :: "alloc_rule \<Rightarrow> string \<Rightarrow> string option" where
  "setting r t = (case map_of (sets r) t of
      Some v \<Rightarrow> Some v
    | None \<Rightarrow> if t = ''team'' \<and> rule_split r \<noteq> None then Some (split_marker (rule_id r)) else None)"

fun first_setting :: "(string \<Rightarrow> string \<Rightarrow> bool) \<Rightarrow> request \<Rightarrow> alloc_rule list \<Rightarrow> string \<Rightarrow> string option" where
  "first_setting search req [] t = None"
| "first_setting search req (r # rs) t =
     (if rule_holds search req r \<and> setting r t \<noteq> None then setting r t else first_setting search req rs t)"

definition wit_doc :: json where
  "wit_doc = JObj [(''rules'', JList [JObj [(''id'', JStr ''s''), (''split'', JObj [(''targets'', JList [JStr ''a'', JStr ''b''])])],
     JObj [(''match'', JObj [(''model'', JObj [(''prefix'', JStr ''m'')])]), (''set'', JObj [(''team'', JStr ''t'')])]])]"

definition wit_rules :: rule_set where
  "wit_rules = \<lparr>rules =
     [\<lparr>rule_id = ''s'', conditions = [], sets = [],
       rule_split = Some \<lparr>split_method = ''proportional'', split_by = ''dev_days'', targets = [''a'', ''b'']\<rparr>\<rparr>,
      \<lparr>rule_id = ''r2'', conditions = [\<lparr>cond_field = ''model'', cond_op = ''prefix'', cond_values = [''m''], pattern = None\<rparr>],
       sets = [(''team'', ''t'')], rule_split = None\<rparr>], sha256 = ''''\<rparr>"

definition wit_request :: request where
  "wit_request = \<lparr>request_id = ''q'', req_session_key = ''s'', req_lane_key = ''l'', seq = 0,
     attribution = \<lparr>principal = None, team = None, cost_center = Some ''cc'', project = None, repo = None, workspace_id = None,
       api_key_id = None, agent_product = None, agent_type = None, query_source = None, skill = None, mcp_server = None,
       plugin = None, workload = WcCi, entrypoint = None, client_version = None, attr_billing_path = None, cwd_key = None,
       arm = None, wave = None, extra = []\<rparr>,
     params = \<lparr>model_requested = ''m'', max_tokens = None, stream = None, thinking = None, effort = None, session_effort = None,
       tool_choice = None, output_format = None, speed_requested = None, service_tier_requested = None,
       inference_geo_requested = None, betas = [], breakpoints = [], automatic_caching = None, context_management = None,
       task_budget = None, web_search_enabled = None, citations_enabled = None, has_images = None, advisor_model = None,
       disable_parallel_tool_use = None\<rparr>,
     attempts = [], fingerprint = None, appended = [], source = None\<rparr>"

text \<open>The amounts of a row.\<close>

definition amounts :: "ledger_cost_row \<Rightarrow> int list" where
  "amounts r = [quantity r, priced_nano r, estimated_low_nano r, estimated_high_nano r]"

definition add_amounts :: "int list \<Rightarrow> int list \<Rightarrow> int list" where
  "add_amounts xs ys = map2 (+) xs ys"

definition total_amounts :: "ledger_cost_row list \<Rightarrow> int list" where
  "total_amounts rows = [sum_list (map quantity rows), sum_list (map priced_nano rows),
     sum_list (map estimated_low_nano rows), sum_list (map estimated_high_nano rows)]"

definition wit_row :: ledger_cost_row where
  "wit_row = \<lparr>row_date_utc = ''2026-09-01'', row_provider = ''p'', row_channel = ''c'', row_model = ''m'', row_bucket = ''output'',
     row_team = Some ''(split:s)'', row_cost_center = None, row_project = None, row_workspace_id = None, row_lane_kind = ''main'',
     row_workload_class = ''ci'', row_agent_product = None, row_billing_path = ''api'', quantity = 7, priced_nano = 10,
     estimated_low_nano = 1, estimated_high_nano = 2, row_basis = LIST, row_rate_row_id = None, n_users = 1\<rparr>"

lemma rsat_if: "(b \<Longrightarrow> rsat P x) \<Longrightarrow> (\<not> b \<Longrightarrow> rsat P y) \<Longrightarrow> rsat P (if b then x else y)"
  by simp

lemma rsat_rmap_all: "(\<And>x. rsat P (f x)) \<Longrightarrow> rsat (list_all P) (rmap f xs)"
  by (induction xs) (auto intro!: rsat_bind)

lemma string_of_ok: "rsat (\<lambda>s. s \<noteq> '''') (string_of j)"
  by (simp add: string_of_def split: json.split)

lemma check_regex_ok:
  "rsat (\<lambda>p'. p' = p \<and> length p \<le> 200 \<and> \<not> has_backreference p \<and> no_nested [] p \<and> re_ok p) (check_regex re_ok p)"
  by (simp add: check_regex_def)

lemma match_field_ok: "rsat (\<lambda>g. g = f \<and> match_field f = Inr f) (match_field f)"
  by (auto simp: match_field_def)

lemma condition_of_ok:
  assumes "match_field fld = Inr fld"
  shows "rsat (wf_condition re_ok) (condition_of re_ok fld spec)"
proof (cases "\<exists>opr value. spec = JObj [(opr, value)]")
  case True
  then obtain opr val where s: "spec = JObj [(opr, val)]" by blast
  have r: "rsat (wf_condition re_ok) (rbind (string_of val) (\<lambda>txt.
          if opr = ''regex'' then
            if fld \<notin> set REGEX_FIELDS then Inl UsageError
            else rbind (check_regex re_ok txt) (\<lambda>p.
              Inr \<lparr>cond_field = fld, cond_op = opr, cond_values = [txt], pattern = Some p\<rparr>)
          else Inr \<lparr>cond_field = fld, cond_op = opr, cond_values = [txt], pattern = None\<rparr>))"
    if "opr \<in> set OPERATORS"
    using assms that by (auto intro!: rsat_bind [OF string_of_ok] rsat_bind [OF check_regex_ok] simp: wf_condition_def)
  have i: "rsat (wf_condition re_ok) (rbind (rmap string_of vs) (\<lambda>ss.
               Inr \<lparr>cond_field = fld, cond_op = ''in'', cond_values = ss, pattern = None\<rparr>))" if "vs \<noteq> []" for vs
  proof (rule rsat_bind [where P = "\<lambda>ss. length ss = length vs"])
    show "rsat (\<lambda>ss. length ss = length vs) (rmap string_of vs)" by (rule rsatI) (rule rmap_length)
    show "rsat (wf_condition re_ok) (Inr \<lparr>cond_field = fld, cond_op = ''in'', cond_values = ss, pattern = None\<rparr>)"
      if "length ss = length vs" for ss
      using assms that \<open>vs \<noteq> []\<close> by (auto simp: wf_condition_def OPERATORS_def)
  qed
  show ?thesis unfolding s condition_of_def using r i by (simp split: json.split)
next
  case False
  then show ?thesis by (auto simp: condition_of_def split: json.splits list.splits)
qed

lemma split_of_ok: "rsat wf_split (split_of j)"
proof -
  have "rsat wf_split (rbind (rmap string_of ts) (\<lambda>teams.
                if \<not> distinct teams then Inl UsageError
                else if list_ex reserved_team teams then Inl UsageError
                else Inr \<lparr>split_method = ''proportional'', split_by = ''dev_days'', targets = teams\<rparr>))" if "ts \<noteq> []" for ts
  proof (rule rsat_bind [where P = "\<lambda>ss. length ss = length ts \<and> list_all (\<lambda>s. s \<noteq> '''') ss"])
    have "rsat (list_all (\<lambda>s. s \<noteq> '''')) (rmap string_of ts)" by (rule rsat_rmap_all) (rule string_of_ok)
    then show "rsat (\<lambda>ss. length ss = length ts \<and> list_all (\<lambda>s. s \<noteq> '''') ss) (rmap string_of ts)"
      by (cases "rmap string_of ts") (auto dest: rmap_length)
    show "rsat wf_split (if \<not> distinct teams then Inl UsageError
                else if list_ex reserved_team teams then Inl UsageError
                else Inr \<lparr>split_method = ''proportional'', split_by = ''dev_days'', targets = teams\<rparr>)"
      if "length teams = length ts \<and> list_all (\<lambda>s. s \<noteq> '''') teams" for teams
      using that \<open>ts \<noteq> []\<close> by (auto simp: wf_split_def list_ex_iff list_all_iff)
  qed
  then show ?thesis by (auto simp: split_of_def split: json.split)
qed

lemma set_pair_ok: "rsat wf_setting (set_pair tv)"
  by (auto simp: set_pair_def wf_setting_def split: prod.split intro!: rsat_bind [OF string_of_ok])

lemma rule_of_ok: "rsat (\<lambda>r. wf_rule re_ok r \<and> rule_id r \<notin> set seen) (rule_of re_ok j i seen)"
proof -
  have cond: "rsat (list_all (wf_condition re_ok))
     (rmap (\<lambda>(f, spec). rbind (match_field f) (\<lambda>fld. condition_of re_ok fld spec)) ms)" for ms
    by (rule rsat_rmap_all) (auto split: prod.split intro!: rsat_bind [OF match_field_ok] condition_of_ok)
  have ss: "rsat (list_all wf_setting) (rmap set_pair ms)" for ms by (rule rsat_rmap_all) (rule set_pair_ok)
  have sp: "rsat (\<lambda>sp. case sp of None \<Rightarrow> True | Some s \<Rightarrow> wf_split s \<and> ''team'' \<notin> fst ` set ss)
      (case m of None \<Rightarrow> Inr None
       | Some sj \<Rightarrow> rbind (split_of sj) (\<lambda>sp. if list_ex (\<lambda>(t, _). t = ''team'') ss then Inl UsageError else Inr (Some sp)))"
    for m and ss :: "(string \<times> string) list"
    by (auto split: option.split intro!: rsat_bind [OF split_of_ok] simp: list_ex_iff case_prod_beta) force
  have top: "rsat (\<lambda>_. True) x" for x :: "'z res" by (cases x) simp_all
  show ?thesis
    unfolding rule_of_def
    by (rule rsat_bind [OF top])
      (auto split: json.split intro!: rsat_bind [OF top] rsat_bind [OF cond] rsat_bind [OF ss] rsat_bind [OF sp]
        simp: wf_rule_def split: option.splits)
qed

lemma rules_of_ok:
  "rsat (\<lambda>rs. list_all (wf_rule re_ok) rs \<and> distinct (map rule_id rs) \<and> set (map rule_id rs) \<inter> set seen = {})
     (rules_of re_ok i seen js)"
proof (induction js arbitrary: i seen)
  case (Cons j js)
  show ?case
    by (auto intro!: rsat_bind [OF rule_of_ok] rsat_bind [OF Cons.IH])
qed simp

lemma parse_rules_ok: "rsat (wf_rule_set re_ok) (parse_rules re_ok digest j)"
proof -
  have top: "rsat (\<lambda>_. True) x" for x :: "'z res" by (cases x) simp_all
  show ?thesis
    unfolding parse_rules_def
    by (rule rsat_bind [OF top])
      (auto intro!: rsat_bind [OF rules_of_ok] simp: wf_rule_set_def split: json.split)
qed

lemma condition_test_returns: "wf_condition re_ok c \<Longrightarrow> \<exists>b. condition_test search c v = Inr b"
  by (auto simp: wf_condition_def condition_test_def first_value_def OPERATORS_def split: option.split list.split)

lemma matches_holds:
  assumes "wf_rule re_ok r"
  shows "matches search r req = Inr (rule_holds search req r)"
proof -
  have "list_all (wf_condition re_ok) cs \<Longrightarrow>
     all_hold search req cs = Inr (list_all (\<lambda>c. condition_test search c (value_of req (cond_field c)) = Inr True) cs)" for cs
  proof (induction cs)
    case (Cons c cs)
    then obtain b where "condition_test search c (value_of req (cond_field c)) = Inr b"
      using condition_test_returns by force
    then show ?case using Cons by (cases b) simp_all
  qed simp
  then show ?thesis using assms by (simp add: matches_def rule_holds_def wf_rule_def)
qed

lemma map_of_setdefault: "map_of (dsetdefault k v d) t = (case map_of d t of Some x \<Rightarrow> Some x | None \<Rightarrow> if t = k then Some v else None)"
  by (auto simp: dsetdefault_def map_add_def split: option.splits)

lemma map_of_setdefaults:
  "map_of (fold (\<lambda>(t, v) d. dsetdefault t v d) ss d) t = (case map_of d t of Some x \<Rightarrow> Some x | None \<Rightarrow> map_of ss t)"
  by (induction ss arbitrary: d) (auto simp: map_of_setdefault split: option.splits)

lemma map_of_take_settings:
  "map_of (take_settings r d) t = (case map_of d t of Some x \<Rightarrow> Some x | None \<Rightarrow> setting r t)"
  by (auto simp: take_settings_def setting_def Let_def map_of_setdefaults map_of_setdefault split: option.splits)

lemma distinct_setdefault: "distinct (map fst d) \<Longrightarrow> distinct (map fst (dsetdefault k v d))"
  by (auto simp: dsetdefault_def map_of_eq_None_iff split: option.split)

lemma distinct_take_settings: "distinct (map fst d) \<Longrightarrow> distinct (map fst (take_settings r d))"
proof -
  have "distinct (map fst d) \<Longrightarrow> distinct (map fst (fold (\<lambda>(t, v) d. dsetdefault t v d) ss d))" for ss
    by (induction ss arbitrary: d) (auto simp: distinct_setdefault)
  then show "distinct (map fst d) \<Longrightarrow> distinct (map fst (take_settings r d))"
    by (auto simp: take_settings_def Let_def distinct_setdefault split: option.split)
qed

lemma wf_setting_target:
  assumes "wf_rule re_ok r" "setting r t = Some v"
  shows "t \<in> set TARGETS"
proof (cases "map_of (sets r) t")
  case None
  then show ?thesis using assms(2) by (simp add: setting_def TARGETS_def split: if_splits)
next
  case (Some x)
  then have "(t, x) \<in> set (sets r)" by (rule map_of_SomeD)
  then have "wf_setting (t, x)" using assms(1) by (simp only: wf_rule_def list_all_iff)
  then show ?thesis by (simp add: wf_setting_def)
qed

text \<open>With all targets taken the remaining rules cannot change anything: the early exit of the loop.\<close>

lemma all_targets_taken:
  assumes "distinct (map fst d)" "set (map fst d) \<subseteq> set TARGETS" "length d = length TARGETS" "t \<in> set TARGETS"
  shows "map_of d t \<noteq> None"
proof -
  have "card (set (map fst d)) = card (set TARGETS)"
    using assms(1,3) distinct_card [OF assms(1)] by (simp add: TARGETS_def)
  then have "set (map fst d) = set TARGETS" using assms(2) card_subset_eq [of "set TARGETS"] by blast
  then show ?thesis using assms(4) by (simp add: map_of_eq_None_iff)
qed

lemma choose_settings_first:
  assumes "list_all (wf_rule re_ok) rs" "distinct (map fst d)" "set (map fst d) \<subseteq> set TARGETS"
  shows "\<exists>d'. choose_settings search req d rs = Inr d' \<and>
     (\<forall>t \<in> set TARGETS. map_of d' t = (case map_of d t of Some x \<Rightarrow> Some x | None \<Rightarrow> first_setting search req rs t))"
  using assms
proof (induction rs arbitrary: d)
  case (Cons r rs)
  have wf: "wf_rule re_ok r" "list_all (wf_rule re_ok) rs" using Cons.prems(1) by simp_all
  define d1 where "d1 = take_settings r d"
  have m1: "map_of d1 t = (case map_of d t of Some x \<Rightarrow> Some x | None \<Rightarrow> setting r t)" for t
    by (simp add: d1_def map_of_take_settings)
  have dist: "distinct (map fst d1)" using Cons.prems(2) by (simp add: d1_def distinct_take_settings)
  have sub: "set (map fst d1) \<subseteq> set TARGETS"
  proof
    fix t assume "t \<in> set (map fst d1)"
    then obtain v where v: "map_of d1 t = Some v" by (auto simp: map_of_eq_None_iff dest: weak_map_of_SomeI)
    show "t \<in> set TARGETS"
    proof (cases "map_of d t")
      case None
      then show ?thesis using v m1 [of t] wf_setting_target [OF wf(1)] by simp
    next
      case (Some x)
      then have "t \<in> set (map fst d)" by (metis map_of_eq_None_iff option.distinct(1) list.set_map)
      then show ?thesis using Cons.prems(3) by blast
    qed
  qed
  show ?case
  proof (cases "rule_holds search req r")
    case False
    then show ?thesis using Cons.IH [OF wf(2) Cons.prems(2,3)] by (simp add: matches_holds [OF wf(1)] cong: option.case_cong)
  next
    case True
    show ?thesis
    proof (cases "length d1 = length TARGETS")
      case full: True
      have "map_of d1 t = (case map_of d t of Some x \<Rightarrow> Some x | None \<Rightarrow> first_setting search req (r # rs) t)"
        if "t \<in> set TARGETS" for t
        using all_targets_taken [OF dist sub full that] m1 [of t] True by (auto split: option.splits)
      then show ?thesis using True full by (simp add: matches_holds [OF wf(1)] d1_def [symmetric])
    next
      case False
      obtain d' where d': "choose_settings search req d1 rs = Inr d'"
        "\<forall>t \<in> set TARGETS. map_of d' t = (case map_of d1 t of Some x \<Rightarrow> Some x | None \<Rightarrow> first_setting search req rs t)"
        using Cons.IH [OF wf(2) dist sub] by blast
      have "map_of d' t = (case map_of d t of Some x \<Rightarrow> Some x | None \<Rightarrow> first_setting search req (r # rs) t)"
        if "t \<in> set TARGETS" for t
        using d'(2) that m1 [of t] True by (auto split: option.splits)
      then show ?thesis using True False d'(1) by (simp add: matches_holds [OF wf(1)] d1_def [symmetric])
    qed
  qed
qed (simp split: option.split)

text \<open>C39: A parsed rule set is well formed: rule ids are unique and of the id shape, every condition has an
  operator, a value and a known field, every accepted regular expression is short, free of backreferences and
  passes the nested-quantifier scan, settings name one of the four targets and no reserved team, workload
  settings are workload classes, and a split has distinct unreserved targets and does not also set the team.\<close>

theorem parsed_rules_well_formed:
  assumes "parse_rules re_ok digest j = Inr rs"
  shows "wf_rule_set re_ok rs"
  using rsatD [OF parse_rules_ok assms] .

lemma wit_parse: "parse_rules (\<lambda>_. True) (\<lambda>_. '''') wit_doc = Inr wit_rules"
  by code_simp

theorem parsed_rules_well_formed_witness: "wf_rule_set (\<lambda>_. True) wit_rules \<and> length (rules wit_rules) = 2"
  using parsed_rules_well_formed [OF wit_parse] by (simp add: wit_rules_def)

lemma setting_nonempty:
  assumes "wf_rule re_ok r" "setting r t = Some v"
  shows "v \<noteq> ''''" "t = ''workload_class'' \<Longrightarrow> workload_of_value v \<noteq> None"
proof -
  have "v \<noteq> '''' \<and> (t = ''workload_class'' \<longrightarrow> workload_of_value v \<noteq> None)"
  proof (cases "map_of (sets r) t")
    case None
    then show ?thesis using assms(2) by (auto simp: setting_def split_marker_def split: if_splits)
  next
    case (Some x)
    then have "(t, x) \<in> set (sets r)" by (rule map_of_SomeD)
    then have "wf_setting (t, x)" using assms(1) by (simp only: wf_rule_def list_all_iff)
    moreover have "x = v" using Some assms(2) by (simp add: setting_def)
    ultimately show ?thesis by (simp add: wf_setting_def)
  qed
  then show "v \<noteq> ''''" "t = ''workload_class'' \<Longrightarrow> workload_of_value v \<noteq> None" by blast+
qed

lemma first_setting_nonempty:
  assumes "list_all (wf_rule re_ok) rs" "first_setting search req rs t = Some v"
  shows "v \<noteq> ''''" "t = ''workload_class'' \<Longrightarrow> workload_of_value v \<noteq> None"
  using assms by (induction rs) (auto split: if_splits dest: setting_nonempty)

lemma mk_attribution_update:
  assumes "mk_attribution a = Inr a"
  shows "mk_attribution (a\<lparr>team := x, cost_center := y, project := z, workload := u\<rparr>) =
      Inr (a\<lparr>team := x, cost_center := y, project := z, workload := u\<rparr>)"
proof -
  define ok where "ok ex = (opt_ok principal_ok (principal a) \<and> opt_ok hashed_ok (api_key_id a) \<and> opt_ok hashed_ok (cwd_key a) \<and>
      opt_ok (one_of BILLING_PATHS) (attr_billing_path a) \<and>
      list_all (\<lambda>(k, v). one_of EXTRA_KEYS k \<and> length v \<le> 128) ex)"
    for ex :: "(string \<times> string) list"
  obtain ex where ex: "sorted_pairs (extra a) = Inr ex" "validated (ok ex) (a\<lparr>extra := ex\<rparr>) = Inr a"
    using assms unfolding mk_attribution_def rbind_eq_Inr ok_def by blast
  have "ok ex" and a: "a\<lparr>extra := ex\<rparr> = a" using ex(2) by (simp_all add: validated_def split: if_splits)
  from arg_cong [OF a, of extra] have "extra a = ex" by simp
  with ex(1) \<open>ok ex\<close> show ?thesis by (simp add: mk_attribution_def ok_def validated_def)
qed

text \<open>C25: Applying a parsed rule set: first match wins per target field. The team, cost centre, project and
  workload class are those of the first matching rule that sets the field (a split rule sets the team to its
  marker), else the request's own; a request left without a team is unallocated; every other attribution field
  is kept. The early exit of the loop and the re-validation change nothing.\<close>

theorem first_match_wins:
  assumes "parse_rules re_ok digest j = Inr rs" "mk_attribution (attribution req) = Inr (attribution req)"
  shows "apply_rules search req rs = Inr ((attribution req)\<lparr>
      team := (case first_setting search req (rules rs) ''team'' of Some v \<Rightarrow> Some v
         | None \<Rightarrow> if team (attribution req) \<in> {None, Some ''''} then Some UNALLOCATED else team (attribution req)),
      cost_center := (case first_setting search req (rules rs) ''cost_center'' of Some v \<Rightarrow> Some v | None \<Rightarrow> cost_center (attribution req)),
      project := (case first_setting search req (rules rs) ''project'' of Some v \<Rightarrow> Some v | None \<Rightarrow> project (attribution req)),
      workload := (case first_setting search req (rules rs) ''workload_class'' of
         Some v \<Rightarrow> the (workload_of_value v) | None \<Rightarrow> workload (attribution req))\<rparr>)"
proof -
  define a where "a = attribution req"
  define f where "f = first_setting search req (rules rs)"
  have wf: "list_all (wf_rule re_ok) (rules rs)" using rsatD [OF parse_rules_ok assms(1)] by (simp add: wf_rule_set_def)
  obtain d where d: "choose_settings search req [] (rules rs) = Inr d" "\<forall>t \<in> set TARGETS. map_of d t = f t"
    using choose_settings_first [OF wf, of "[]" search req] by (auto simp: f_def)
  have m: "map_of d ''team'' = f ''team''" "map_of d ''cost_center'' = f ''cost_center''"
    "map_of d ''project'' = f ''project''" "map_of d ''workload_class'' = f ''workload_class''"
    using d(2) by (simp_all add: TARGETS_def)
  have ne: "f ''team'' \<noteq> Some ''''" using first_setting_nonempty(1) [OF wf] by (force simp: f_def)
  obtain w where w: "(case f ''workload_class'' of None \<Rightarrow> Inr (workload a)
            | Some v \<Rightarrow> (case workload_of_value v of Some w \<Rightarrow> Inr w | None \<Rightarrow> Inl ValueError)) = Inr w"
    "w = (case f ''workload_class'' of Some v \<Rightarrow> the (workload_of_value v) | None \<Rightarrow> workload a)"
    using first_setting_nonempty(2) [OF wf, of search req "''workload_class''"]
    by (cases "f ''workload_class''") (auto simp: f_def)
  note upd = mk_attribution_update [OF assms(2), folded a_def]
  define tm where "tm = (case f ''team'' of Some v \<Rightarrow> Some v | None \<Rightarrow> if team a \<in> {None, Some ''''} then Some UNALLOCATED else team a)"
  define cc where "cc = (case f ''cost_center'' of Some v \<Rightarrow> Some v | None \<Rightarrow> cost_center a)"
  define pj where "pj = (case f ''project'' of Some v \<Rightarrow> Some v | None \<Rightarrow> project a)"
  have ov: "override d ''cost_center'' (cost_center a) = cc" "override d ''project'' (project a) = pj"
    by (simp_all add: override_def m cc_def pj_def)
  have tm: "(if override d ''team'' (team a) = None \<or> override d ''team'' (team a) = Some '''' then Some UNALLOCATED
      else override d ''team'' (team a)) = tm"
    using ne by (auto simp: override_def m tm_def split: option.splits)
  have keep: "a\<lparr>team := tm, cost_center := cc, project := pj, workload := w\<rparr> = a"
    if "list_all (\<lambda>t. map_of d t = None) TARGETS \<and> tm = team a"
    using that m w(2) by (simp add: TARGETS_def cc_def pj_def)
  have "apply_rules search req rs = Inr (a\<lparr>team := tm, cost_center := cc, project := pj, workload := w\<rparr>)"
    unfolding apply_rules_def a_def [symmetric] d(1) rbind_simps Let_def m(4) w(1) ov tm
    using upd by (metis keep)
  then show ?thesis unfolding tm_def cc_def pj_def w(2) a_def f_def .
qed

theorem first_match_wins_witness:
  "apply_rules (\<lambda>_ _. False) wit_request wit_rules = Inr ((attribution wit_request)\<lparr>team := Some ''(split:s)''\<rparr>)"
proof -
  have "mk_attribution (attribution wit_request) = Inr (attribution wit_request)" by code_simp
  from first_match_wins [OF wit_parse this, of "\<lambda>_ _. False"] show ?thesis
    by (simp add: wit_rules_def rule_holds_def setting_def split_marker_def wit_request_def)
qed

lemma split_re_marker: "id_re rid \<Longrightarrow> split_re (split_marker rid) = Some rid"
proof -
  assume i: "id_re rid"
  have "drop (7 + length rid) (''(split:'' @ rid @ '')'') = '')''" by (simp add: numeral_eq_Suc)
  then show ?thesis using i
    by (simp add: split_re_def split_marker_def startswith_def endswith_def numeral_eq_Suc)
qed

lemma split_weights_ok:
  assumes "ts \<noteq> []"
  shows "\<forall>w \<in> set (snd (split_weights weights ts)). 0 \<le> w" "0 < sum_list (snd (split_weights weights ts))"
    "length (snd (split_weights weights ts)) = length ts"
proof -
  have nn: "0 \<le> sum_list (map (\<lambda>t. max (dget weights t 0) 0) ts)" by (rule sum_list_nonneg) auto
  show "\<forall>w \<in> set (snd (split_weights weights ts)). 0 \<le> w" "length (snd (split_weights weights ts)) = length ts"
    by (auto simp: split_weights_def Let_def)
  show "0 < sum_list (snd (split_weights weights ts))"
    using nn assms by (auto simp: split_weights_def Let_def sum_list_replicate)
qed

lemma split_row_marker:
  assumes "set_rule rs rid = Some r" "row_team row = Some (split_marker rid)" "id_re rid" "rule_split r = Some sp" "wf_split sp"
  shows "\<exists>w m d. (\<forall>x \<in> set w. 0 \<le> x) \<and> 0 < sum_list w \<and> length w = length (targets sp) \<and>
    split_row rs weights row = map (\<lambda>i. AllocatedRow (row\<lparr>quantity := apportion (quantity row) w ! i,
        priced_nano := apportion (priced_nano row) w ! i, estimated_low_nano := apportion (estimated_low_nano row) w ! i,
        estimated_high_nano := apportion (estimated_high_nano row) w ! i, row_team := Some (targets sp ! i)\<rparr>) m d)
      [0..<length (targets sp)]"
proof -
  obtain b w where bw: "split_weights weights (targets sp) = (b, w)" by fastforce
  have "targets sp \<noteq> []" using assms(5) by (simp add: wf_split_def)
  from split_weights_ok [OF this, of weights] bw
  have "\<forall>x \<in> set w. 0 \<le> x" "0 < sum_list w" "length w = length (targets sp)" by simp_all
  moreover have "Option.bind (split_re (split_marker rid)) (set_rule rs) = Some r"
    using assms(1,3) by (simp add: split_re_marker)
  ultimately show ?thesis
    using assms(2,4) bw unfolding split_row_def by (auto simp: Let_def)
qed

lemma map_nth_upt: "length xs = n \<Longrightarrow> map (\<lambda>i. xs ! i) [0..<n] = xs"
  by (metis map_nth)

lemma apportion_column:
  assumes "\<forall>x \<in> set w. 0 \<le> x" "0 < sum_list w" "length w = n"
  shows "sum_list (map (\<lambda>i. apportion t w ! i) [0..<n]) = t"
  using fin.parts_sum [OF assms(1,2), of t] fin.parts_length [OF assms(1,2), of t] assms(3) by (simp add: map_nth_upt)

lemma set_rule_wf:
  assumes "wf_rule_set re_ok rs" "set_rule rs rid = Some r"
  shows "wf_rule re_ok r" "rule_id r = rid"
  using assms by (auto simp: set_rule_def wf_rule_set_def list_all_iff find_Some_iff)

lemma split_re_Some: "split_re s = Some rid \<Longrightarrow> s = split_marker rid \<and> id_re rid"
proof -
  assume h: "split_re s = Some rid"
  then have st: "take 7 s = ''(split:''" and en: "drop (length s - 1) s = '')''" and l: "8 \<le> length s"
    and rid: "rid = take (length s - 8) (drop 7 s)" "id_re rid"
    by (auto simp: split_re_def startswith_def endswith_def Let_def eval_nat_numeral split: if_splits)
  have "s = take 7 s @ take (length s - 8) (drop 7 s) @ drop (length s - 8) (drop 7 s)"
    by (simp only: append_take_drop_id)
  moreover have "drop (length s - 8) (drop 7 s) = drop (length s - 1) s" using l by simp
  ultimately show ?thesis using st en rid by (simp add: split_marker_def)
qed

lemma split_row_conserves:
  assumes "wf_rule_set re_ok rs"
  shows "total_amounts (map base_row (split_row rs weights row)) = amounts row"
proof (cases "Option.bind (split_re (case row_team row of None \<Rightarrow> '''' | Some t \<Rightarrow> t)) (set_rule rs)")
  case None
  then show ?thesis by (simp add: split_row_def total_amounts_def amounts_def)
next
  case (Some r)
  then obtain rid where rid: "split_re (case row_team row of None \<Rightarrow> '''' | Some t \<Rightarrow> t) = Some rid" "set_rule rs rid = Some r"
    by (auto simp: bind_eq_Some_conv)
  note m = split_re_Some [OF rid(1)] and wf = set_rule_wf [OF assms rid(2)]
  have t: "row_team row = Some (split_marker rid)" using m by (auto simp: split_marker_def split: option.splits)
  show ?thesis
  proof (cases "rule_split r")
    case None
    then show ?thesis using Some by (simp add: split_row_def total_amounts_def amounts_def)
  next
    case (Some sp)
    have "wf_split sp" using wf(1) Some by (simp add: wf_rule_def)
    from split_row_marker [OF rid(2) t _ Some this, of weights] m
    obtain w mi d where w: "\<forall>x \<in> set w. 0 \<le> x" "0 < sum_list w" "length w = length (targets sp)"
      and s: "split_row rs weights row = map (\<lambda>i. AllocatedRow (row\<lparr>quantity := apportion (quantity row) w ! i,
        priced_nano := apportion (priced_nano row) w ! i, estimated_low_nano := apportion (estimated_low_nano row) w ! i,
        estimated_high_nano := apportion (estimated_high_nano row) w ! i, row_team := Some (targets sp ! i)\<rparr>) mi d)
        [0..<length (targets sp)]" by blast
    show ?thesis by (simp add: s total_amounts_def amounts_def comp_def apportion_column [OF w])
  qed
qed

text \<open>C24: Splitting ledger rows with a parsed rule set conserves every amount: whatever the developer-day weights,
  the quantities, priced nano-USD and estimate bounds of the produced rows add up to those of the input rows to
  the unit.\<close>

theorem split_rows_conserve:
  assumes "parse_rules re_ok digest j = Inr rs"
  shows "total_amounts (map base_row (split_rows rs weights rows)) = total_amounts rows"
proof -
  have wf: "wf_rule_set re_ok rs" using rsatD [OF parse_rules_ok assms] .
  have app: "total_amounts (xs @ ys) = add_amounts (total_amounts xs) (total_amounts ys)" for xs ys
    by (simp add: total_amounts_def add_amounts_def)
  have one: "total_amounts (row # rows) = add_amounts (amounts row) (total_amounts rows)" for row rows
    by (simp add: total_amounts_def amounts_def add_amounts_def)
  show ?thesis
    by (induction rows) (simp_all add: split_rows_def total_amounts_def [of "[]"] app one split_row_conserves [OF wf])
qed

theorem split_rows_conserve_witness:
  "total_amounts (map base_row (split_rows wit_rules [(''a'', 1), (''b'', 2)] [wit_row])) = [7, 10, 1, 2]"
  using split_rows_conserve [OF wit_parse, of "[(''a'', 1), (''b'', 2)]" "[wit_row]"]
  by (simp add: total_amounts_def wit_row_def)

text \<open>The marker written by a split rule is read back: a ledger row whose team is the marker of a parsed split
  rule is replaced by one allocated row per target of that rule, in order, and each of these rows counts as
  allocated; a row whose team is not a marker of a split rule passes through unchanged.\<close>

theorem split_marker_round_trip:
  assumes "parse_rules re_ok digest j = Inr rs"
  shows "(\<forall>r \<in> set (rules rs). \<forall>sp. rule_split r = Some sp \<longrightarrow> row_team row = Some (split_marker (rule_id r)) \<longrightarrow>
       map (\<lambda>x. row_team (base_row x)) (split_row rs weights row) = map Some (targets sp) \<and>
       (\<forall>x \<in> set (split_row rs weights row). is_allocated (row_team (base_row x)))) \<and>
     ((\<nexists>r. r \<in> set (rules rs) \<and> rule_split r \<noteq> None \<and> row_team row = Some (split_marker (rule_id r))) \<longrightarrow>
       split_row rs weights row = [LedgerRow row])"
proof (intro conjI ballI allI impI)
  have wf: "wf_rule_set re_ok rs" using rsatD [OF parse_rules_ok assms] .
  fix r sp
  assume r: "r \<in> set (rules rs)" "rule_split r = Some sp" "row_team row = Some (split_marker (rule_id r))"
  have find: "set_rule rs (rule_id r) = Some r"
    using wf r(1) by (auto simp: set_rule_def wf_rule_set_def find_Some_iff distinct_map in_set_conv_nth inj_on_eq_iff)
      (metis nth_mem inj_onD nth_eq_iff_index_eq order.strict_trans nat_neq_iff)
  have w: "id_re (rule_id r)" "wf_split sp" using wf r(1,2) by (auto simp: wf_rule_set_def wf_rule_def list_all_iff)
  from split_row_marker [OF find r(3) w(1) r(2) w(2), of weights]
  show teams: "map (\<lambda>x. row_team (base_row x)) (split_row rs weights row) = map Some (targets sp)"
    by (auto simp: comp_def intro!: nth_equalityI)
  show "is_allocated (row_team (base_row x))" if "x \<in> set (split_row rs weights row)" for x
  proof -
    have "row_team (base_row x) \<in> set (map Some (targets sp))" using that unfolding teams [symmetric] by simp
    then show ?thesis using w(2) by (auto simp: is_allocated_def wf_split_def reserved_team_def)
  qed
next
  have wf: "wf_rule_set re_ok rs" using rsatD [OF parse_rules_ok assms] .
  assume none: "\<nexists>r. r \<in> set (rules rs) \<and> rule_split r \<noteq> None \<and> row_team row = Some (split_marker (rule_id r))"
  show "split_row rs weights row = [LedgerRow row]"
  proof (cases "Option.bind (split_re (case row_team row of None \<Rightarrow> '''' | Some t \<Rightarrow> t)) (set_rule rs)")
    case (Some r)
    then obtain rid where rid: "split_re (case row_team row of None \<Rightarrow> '''' | Some t \<Rightarrow> t) = Some rid" "set_rule rs rid = Some r"
      by (auto simp: bind_eq_Some_conv)
    have "row_team row = Some (split_marker (rule_id r))" "r \<in> set (rules rs)"
      using split_re_Some [OF rid(1)] set_rule_wf [OF wf rid(2)] rid(2)
      by (auto simp: split_marker_def set_rule_def find_Some_iff split: option.splits)
    then have "rule_split r = None" using none by blast
    then show ?thesis using Some by (simp add: split_row_def)
  qed (simp add: split_row_def)
qed

theorem split_marker_round_trip_witness:
  "map (\<lambda>x. row_team (base_row x)) (split_row wit_rules [(''a'', 1), (''b'', 2)] wit_row) = [Some ''a'', Some ''b'']"
  using split_marker_round_trip [OF wit_parse, of wit_row "[(''a'', 1), (''b'', 2)]"]
  by (simp add: wit_rules_def wit_row_def split_marker_def)

text \<open>The regular-expression scan refuses a group that contains a quantifier and is itself repeated without
  bound: for a group body and a prefix free of escapes, classes and groups, the pattern is refused as soon as the
  body has a quantifier and a star, plus or brace follows the group, whatever the rest is.\<close>

theorem nested_quantifier_refused:
  assumes "list_all (\<lambda>c. c \<noteq> CHR 92 \<and> c \<notin> set ''[()'') (pre @ body)"
    and "list_ex (\<lambda>c. c \<in> set ''*+?{'') body" "\<not> startswith body ''?''" "q \<in> set ''*+{''"
  shows "check_regex re_ok (pre @ ''('' @ body @ '')'' @ [q] @ post) = Inl UsageError"
proof -
  define plain where "plain = (\<lambda>c. c \<noteq> CHR 92 \<and> c \<notin> set ''[()'')"
  have body: "no_nested (b # st) (s @ CHR '')'' # q # post) = no_nested ((b \<or> list_ex (\<lambda>c. c \<in> set ''*+?{'') s) # st) (CHR '')'' # q # post)"
    if "list_all plain s" for b st s
    using that by (induction s arbitrary: b) (auto simp: plain_def mark_def)
  have pre: "no_nested [] (s @ t) = no_nested [] t" if "list_all plain s" for s t
    using that by (induction s) (auto simp: plain_def mark_def)
  have p: "list_all plain pre" "list_all plain body" using assms(1) by (simp_all add: plain_def)
  have g: "after_group_open (body @ '')'' @ [q] @ post) = body @ '')'' @ [q] @ post"
    using assms(2,3) by (cases body) (auto simp: after_group_open_def startswith_def)
  have "\<not> no_nested [] (pre @ ''('' @ body @ '')'' @ [q] @ post)"
    unfolding pre [OF p(1)] using assms(2,4) g body [OF p(2), of False "[]"] by auto
  then show ?thesis by (simp only: check_regex_def if_True not_False_eq_True split: if_split) simp
qed

theorem nested_quantifier_refused_witness: "check_regex (\<lambda>_. True) ''x(a+b)*c'' = Inl UsageError"
  using nested_quantifier_refused [of "''x''" "''a+b''" "CHR ''*''" "\<lambda>_. True" "''c''"] by (simp add: startswith_def)

end
