(* ===== verification/Residuals.thy ===== *)
theory Residuals
  imports Records
begin

text \<open>
  The reconciliation gate's line maps and residual classifier: \<open>recon/costmap.py\<close> (which bucket and model an
  invoice line joins) and \<open>recon/residuals.py\<close> (how the gap between invoice and ledger is explained). The SKU
  rules are a parameter, a list read from the packaged facts file, with the matcher \<open>fullmatch\<close> of their
  patterns. Token counts are non-negative, so the divisors of \<open>share\<close> are positive. The gate's invariant is
  that the signed claims and the unexplained amount always add up to the gap.
\<close>

section \<open>Definitions\<close>

subsection \<open>Invoice line maps\<close>

definition REPORT_ONLY_BUCKETS :: "string list" where "REPORT_ONLY_BUCKETS = [''code_execution'', ''session_usage'']"

definition COST_TYPE_MAP :: "((string option \<times> string option) \<times> string) list" where
  "COST_TYPE_MAP =
     [((Some ''tokens'', Some ''uncached_input_tokens''), ''uncached_input''),
      ((Some ''tokens'', Some ''cache_read_input_tokens''), ''cache_read''),
      ((Some ''tokens'', Some ''cache_creation.ephemeral_5m_input_tokens''), ''cache_write_5m''),
      ((Some ''tokens'', Some ''cache_creation.ephemeral_1h_input_tokens''), ''cache_write_1h''),
      ((Some ''tokens'', Some ''output_tokens''), ''output''),
      ((Some ''web_search'', None), ''web_search''),
      ((Some ''code_execution'', None), ''code_execution''),
      ((Some ''session_usage'', None), ''session_usage'')]"

definition COST_TYPE_VERIFIED_SOURCES :: "string list" where "COST_TYPE_VERIFIED_SOURCES = [''anthropic.cost_report'']"
definition SKU_SOURCES :: "string list" where "SKU_SOURCES = [''aws.cur2'', ''gcp.billing_export'']"
definition PRIORITY_TIERS :: "string list" where "PRIORITY_TIERS = [''priority'', ''priority_on_demand'']"
definition CREDIT_LINE_TYPES :: "string list" where "CREDIT_LINE_TYPES = [''Credit'', ''Refund'']"
definition CCU_CHANNELS :: "string list" where "CCU_CHANNELS = [''foundry'', ''claude_platform_aws'']"
definition NO_REPORTING_API_CHANNELS :: "string list" where "NO_REPORTING_API_CHANNELS = [''claude_platform_aws'']"
definition OPENAI_CHANNELS :: "string list" where "OPENAI_CHANNELS = [''openai_api'', ''azure_openai'']"
definition GCP_TOKEN_COST_TYPES :: "string list" where "GCP_TOKEN_COST_TYPES = ['''', ''regular'']"
definition CUR_USAGE_TYPES :: "string list" where
  "CUR_USAGE_TYPES = ['''', ''Usage'', ''DiscountedUsage'', ''SavingsPlanCoveredUsage'']"

definition channel_provider :: "string \<Rightarrow> string" where
  "channel_provider ch = (if ch \<in> set OPENAI_CHANNELS then ''openai'' else ''anthropic'')"

record line_mapping =
  lm_kind :: string
  lm_bucket :: "string option"
  lm_model :: "string option"
  lm_verified :: bool
  lm_service_tier :: "string option"
  lm_endpoint_scope :: "string option"

record sku_rule =
  sr_source_kind :: string
  sr_pattern :: string
  sr_model :: "string option"
  sr_bucket :: string
  sr_endpoint_scope :: "string option"
  sr_service_tier :: "string option"
  sr_unit_tokens :: int
  sr_verified :: bool
  sr_source :: string

text \<open>\<open>fullmatch p s\<close>: the pattern matches the whole SKU; \<open>skus\<close> is the packaged rule table.\<close>

definition sku_matches :: "(string \<Rightarrow> string \<Rightarrow> bool) \<Rightarrow> string \<Rightarrow> string \<Rightarrow> sku_rule \<Rightarrow> bool" where
  "sku_matches fullmatch kind s r = (sr_source_kind r = kind \<and> fullmatch (sr_pattern r) s)"

definition map_sku :: "(string \<Rightarrow> string \<Rightarrow> bool) \<Rightarrow> sku_rule list \<Rightarrow> string \<Rightarrow> string \<Rightarrow> sku_rule option" where
  "map_sku fullmatch skus kind s = List.find (\<lambda>r. sr_verified r \<and> sku_matches fullmatch kind s r) skus"

definition sku_rule_status ::
    "(string \<Rightarrow> string \<Rightarrow> bool) \<Rightarrow> sku_rule list \<Rightarrow> string \<Rightarrow> string option \<Rightarrow> sku_rule option \<times> bool" where
  "sku_rule_status fullmatch skus kind sk = (case sk of
      None \<Rightarrow> (None, False)
    | Some s \<Rightarrow>
        if s = '''' then (None, False)
        else case map_sku fullmatch skus kind s of
          Some r \<Rightarrow> (Some r, False)
        | None \<Rightarrow> (None, list_ex (\<lambda>r. \<not> sr_verified r \<and> sku_matches fullmatch kind s r) skus))"

definition plain_mapping :: "string \<Rightarrow> string option \<Rightarrow> string option \<Rightarrow> bool \<Rightarrow> line_mapping" where
  "plain_mapping kind bucket model ver = \<lparr>lm_kind = kind, lm_bucket = bucket, lm_model = model, lm_verified = ver,
     lm_service_tier = None, lm_endpoint_scope = None\<rparr>"

definition or_empty :: "string option \<Rightarrow> string" where
  "or_empty s = (case s of None \<Rightarrow> '''' | Some v \<Rightarrow> v)"

definition sku_line :: "(string \<Rightarrow> string \<Rightarrow> bool) \<Rightarrow> sku_rule list \<Rightarrow> cost_line \<Rightarrow> line_mapping" where
  "sku_line fullmatch skus line =
     (let ct = or_empty (cost_type line);
          token = (case fst (sku_rule_status fullmatch skus (cl_source_kind line) (sku line)) of
              None \<Rightarrow> plain_mapping ''unmappable'' None (cl_model line) False
            | Some r \<Rightarrow>
                let model = (if or_empty (cl_model line) \<noteq> '''' then cl_model line else sr_model r)
                in if or_empty model = '''' then plain_mapping ''unmappable'' (Some (sr_bucket r)) None False
                   else \<lparr>lm_kind = ''token'', lm_bucket = Some (sr_bucket r), lm_model = model, lm_verified = True,
                          lm_service_tier = sr_service_tier r, lm_endpoint_scope = sr_endpoint_scope r\<rparr>)
      in if cl_source_kind line = ''aws.cur2'' then
           if ct \<in> set CREDIT_LINE_TYPES then plain_mapping ''credit'' None None True
           else if ct \<notin> set CUR_USAGE_TYPES then plain_mapping ''unmapped'' None None True
           else token
         else if map lower ct \<notin> set GCP_TOKEN_COST_TYPES then plain_mapping ''unmapped'' None None True
         else token)"

definition map_line :: "(string \<Rightarrow> string \<Rightarrow> bool) \<Rightarrow> sku_rule list \<Rightarrow> cost_line \<Rightarrow> line_mapping" where
  "map_line fullmatch skus line =
     (if cl_source_kind line \<in> set SKU_SOURCES then sku_line fullmatch skus line
      else
        let ver = (cl_source_kind line \<in> set COST_TYPE_VERIFIED_SOURCES)
        in case map_of COST_TYPE_MAP (cost_type line, token_type line) of
             None \<Rightarrow>
               if cost_type line = Some ''tokens'' \<or> (cost_type line = None \<and> token_type line = None)
               then plain_mapping ''unmappable'' None (cl_model line) False
               else plain_mapping ''unmapped'' None (cl_model line) ver
           | Some bucket \<Rightarrow>
               if bucket \<in> set REPORT_ONLY_BUCKETS then plain_mapping ''report_only'' (Some bucket) None ver
               else if \<not> ver then plain_mapping ''unmappable'' (Some bucket) (cl_model line) False
               else if bucket = ''web_search'' then plain_mapping ''token'' (Some bucket) None True
               else if or_empty (cl_model line) = '''' then plain_mapping ''unmappable'' (Some bucket) None False
               else \<lparr>lm_kind = ''token'', lm_bucket = Some bucket, lm_model = cl_model line, lm_verified = True,
                      lm_service_tier = cl_service_tier line, lm_endpoint_scope = cl_endpoint_scope line\<rparr>)"

subsection \<open>Residual classification\<close>

type_synonym key = "(string \<times> string) list"

record recon_row =
  rr_key :: key
  ledger_tokens :: "int option"
  provider_tokens :: "int option"
  ledger_nano :: "int option"
  priced_provider_nano :: "int option"
  invoice_nano :: "int option"
  rate_card_error_pct :: "string option"
  coverage_pct :: "string option"
  rr_status :: string
  residual_code :: "string option"

definition RESIDUAL_CODES :: "string list" where
  "RESIDUAL_CODES = [''priority_excluded_from_cost_report'', ''code_execution_cost_report_only'', ''revision_window'',
     ''seat_allowance_unmetered'', ''unobserved_traffic'', ''implied_discount'', ''estimated_components'',
     ''ccu_single_line'', ''default_workspace_null_id'', ''no_reporting_api'', ''cents_rounding'',
     ''unmapped_cost_type'', ''cloud_credits'']"

definition DEFAULT_JOIN :: "string \<times> string" where "DEFAULT_JOIN = (''join'', ''default_workspace'')"
definition INFO_DIM :: string where "INFO_DIM = ''info''"
definition ROUNDING_NANO_PER_ROW :: int where "ROUNDING_NANO_PER_ROW = 1"

definition residual_order :: "string \<Rightarrow> nat \<times> string" where
  "residual_order code = (case index_of RESIDUAL_CODES code of Some i \<Rightarrow> i | None \<Rightarrow> length RESIDUAL_CODES, code)"

definition key_value :: "key \<Rightarrow> string \<Rightarrow> string option" where
  "key_value k d = map_option snd (List.find (\<lambda>p. fst p = d) k)"

definition claim :: "int \<Rightarrow> int \<Rightarrow> int" where
  "claim remaining cap =
     (if remaining > 0 then min remaining \<bar>cap\<bar> else if remaining < 0 then - min (- remaining) \<bar>cap\<bar> else 0)"

definition share :: "int \<Rightarrow> int \<Rightarrow> int \<Rightarrow> int" where
  "share amount num den =
     (let q = amount * num div den; r = amount * num mod den
      in if 2 * r > den \<or> (2 * r = den \<and> q mod 2 = 1) then q + 1 else q)"

record classification =
  codes :: "(string, int) dict"
  unexplained :: int
  row_codes :: "(key, string option) dict"
  row_status :: "(key, string) dict"
  row_unexplained :: "(key, int) dict"

definition add_code :: "string \<Rightarrow> int \<Rightarrow> classification \<Rightarrow> classification" where
  "add_code code n out = out\<lparr>codes := dset code (dget (codes out) code 0 + n) (codes out)\<rparr>"

definition residuals :: "classification \<Rightarrow> (string \<times> int) list" where
  "residuals out = sort_key (\<lambda>kv. residual_order (fst kv)) (codes out)"

definition group_key :: "key \<Rightarrow> key" where
  "group_key k = filter (\<lambda>p. fst p \<noteq> ''bucket'') k"

definition dominant :: "(string, int) dict \<Rightarrow> string option" where
  "dominant claims = (case sort_key (\<lambda>(c, n). (- \<bar>n\<bar>, residual_order c)) claims of [] \<Rightarrow> None | (c, _) # _ \<Rightarrow> Some c)"

definition missing_price :: "recon_row list \<Rightarrow> (key, int) dict \<Rightarrow> int" where
  "missing_price rows est =
     (let group_deficit = max 0 (sum_list (map (\<lambda>r. or0 (provider_tokens r)) rows) - sum_list (map (\<lambda>r. or0 (ledger_tokens r)) rows))
      in if group_deficit = 0 then 0
         else
          let short = filter (\<lambda>r. or0 (provider_tokens r) > or0 (ledger_tokens r) \<and> or0 (priced_provider_nano r) \<noteq> 0 \<and>
                        dget est (rr_key r) 0 = 0) rows;
              tot = sum_list (map (\<lambda>r. share (or0 (priced_provider_nano r)) (or0 (provider_tokens r) - or0 (ledger_tokens r))
                        (or0 (provider_tokens r))) short);
              deficit = sum_list (map (\<lambda>r. or0 (provider_tokens r) - or0 (ledger_tokens r)) short)
          in if deficit > group_deficit then share tot group_deficit deficit else tot)"

text \<open>One claim: record the amount under the code and take it off what remains.\<close>

definition take_claim :: "bool \<Rightarrow> string \<Rightarrow> int \<Rightarrow> (string, int) dict \<times> int \<Rightarrow> (string, int) dict \<times> int" where
  "take_claim b code amount s = (if b then (dset code amount (fst s), snd s - amount) else s)"

definition price_claims :: "recon_row list \<Rightarrow> (key, int) dict \<Rightarrow> int \<Rightarrow> int \<Rightarrow> int \<Rightarrow> (string, int) dict \<times> int" where
  "price_claims rows est invd led p =
     (let coverage = p - led; missing = missing_price rows est;
          (claims, remaining) = take_claim (missing \<noteq> 0 \<and> coverage > 0) ''unobserved_traffic'' (min coverage missing) ([], coverage);
          price = invd - p; invoiced_rows = int (length (filter (\<lambda>r. invoice_nano r \<noteq> None) rows))
      in if \<bar>price\<bar> > ROUNDING_NANO_PER_ROW * invoiced_rows then (dset ''implied_discount'' price claims, remaining)
         else (claims, remaining + price))"

definition group_claims :: "recon_row list \<Rightarrow> (key, int) dict \<Rightarrow> string option \<Rightarrow> (string, int) dict \<times> int" where
  "group_claims rows est channel =
     (let invd = sum_list (map (\<lambda>r. or0 (invoice_nano r)) rows); led = sum_list (map (\<lambda>r. or0 (ledger_nano r)) rows);
          has_inv = list_ex (\<lambda>r. invoice_nano r \<noteq> None) rows;
          lt = sum_list (map (\<lambda>r. or0 (ledger_tokens r)) rows); pt = sum_list (map (\<lambda>r. or0 (provider_tokens r)) rows);
          total_mode = list_ex (\<lambda>r. key_value (rr_key r) ''bucket'' = Some ''total'') rows;
          known = list_all (\<lambda>r. or0 (provider_tokens r) \<noteq> 0 \<longrightarrow> priced_provider_nano r \<noteq> None) rows;
          p = sum_list (map (\<lambda>r. or0 (priced_provider_nano r)) rows);
          estimated = sum_list (map (\<lambda>r. dget est (rr_key r) 0) rows)
      in if lt = 0 \<and> led = 0 \<and> (pt > 0 \<or> has_inv) then ([(''unobserved_traffic'', invd - led)], 0)
         else
          let s1 = (if \<not> total_mode \<and> known \<and> has_inv \<and> p > 0 then price_claims rows est invd led p
                    else take_claim (pt > lt \<and> invd - led > 0 \<and> pt > 0) ''unobserved_traffic''
                           (min (invd - led) (share invd (pt - lt) pt)) ([], invd - led));
              s2 = take_claim (estimated \<noteq> 0) ''estimated_components'' (claim (snd s1) estimated) s1;
              s3 = take_claim ((case channel of Some c \<Rightarrow> c \<in> set CCU_CHANNELS | None \<Rightarrow> False) \<and> has_inv) ''ccu_single_line'' (snd s2) s2;
              s4 = take_claim (list_ex (\<lambda>r. DEFAULT_JOIN \<in> set (rr_key r)) rows) ''default_workspace_null_id'' (snd s3) s3
          in take_claim ((case channel of Some c \<Rightarrow> c \<in> set NO_REPORTING_API_CHANNELS | None \<Rightarrow> False) \<and> \<not> has_inv)
               ''no_reporting_api'' (snd s4) s4)"

definition gap :: "recon_row \<Rightarrow> int" where
  "gap r = or0 (invoice_nano r) - or0 (ledger_nano r)"

definition is_member :: "string option \<Rightarrow> string list \<Rightarrow> bool" where
  "is_member v xs = (case v of None \<Rightarrow> False | Some x \<Rightarrow> x \<in> set xs)"

definition row_claim :: "string list \<Rightarrow> recon_row \<Rightarrow> (string \<times> int) option" where
  "row_claim prov row =
     (let bucket = key_value (rr_key row) ''bucket''; provisional = is_member (key_value (rr_key row) ''date'') prov
      in if is_member (key_value (rr_key row) ''service_tier'') PRIORITY_TIERS \<and> invoice_nano row = None
         then Some (''priority_excluded_from_cost_report'',
                (case priced_provider_nano row of Some n \<Rightarrow> n | None \<Rightarrow> or0 (ledger_nano row)))
         else if is_member bucket REPORT_ONLY_BUCKETS then Some (''code_execution_cost_report_only'', gap row)
         else if bucket = Some ''unmapped'' \<or> bucket = Some ''credits''
         then Some (if provisional then ''revision_window''
                    else if bucket = Some ''unmapped'' then ''unmapped_cost_type'' else ''cloud_credits'', gap row)
         else None)"

definition set_row :: "key \<Rightarrow> string option \<Rightarrow> string \<Rightarrow> int \<Rightarrow> classification \<Rightarrow> classification" where
  "set_row k code status rest out =
     out\<lparr>row_codes := dset k code (row_codes out), row_status := dset k status (row_status out),
         row_unexplained := dset k rest (row_unexplained out)\<rparr>"

definition row_step ::
    "(key, int) dict \<Rightarrow> string list \<Rightarrow> recon_row \<Rightarrow> classification \<times> (key, recon_row list) dict \<Rightarrow>
     classification \<times> (key, recon_row list) dict" where
  "row_step allowance prov row s =
     (if key_value (rr_key row) INFO_DIM \<noteq> None then s
      else
        let al = dget allowance (rr_key row) 0;
            out = (if al \<noteq> 0 then add_code ''seat_allowance_unmetered'' al (fst s) else fst s);
            provisional = is_member (key_value (rr_key row) ''date'') prov
        in case row_claim prov row of
             Some (code, n) \<Rightarrow>
               (set_row (rr_key row) (Some code) (if provisional then ''provisional'' else ''explained'') 0 (add_code code n out), snd s)
           | None \<Rightarrow> (out, dappend (group_key (rr_key row)) row (snd s)))"

fun set_group_rows ::
    "(key, int) dict \<Rightarrow> string option \<Rightarrow> string \<Rightarrow> int \<Rightarrow> recon_row list \<Rightarrow> classification \<Rightarrow> classification" where
  "set_group_rows allowance code status rest [] out = out"
| "set_group_rows allowance code status rest (r # rs) out =
     (let al = dget allowance (rr_key r) 0
      in set_group_rows allowance code status 0 rs
           (set_row (rr_key r) (if code \<noteq> None then code else if al \<noteq> 0 then Some ''seat_allowance_unmetered'' else None)
              (if status \<noteq> ''match'' \<or> al = 0 then status else ''explained'') rest out))"

definition group_status :: "recon_row list \<Rightarrow> (string, int) dict \<Rightarrow> int \<Rightarrow> string" where
  "group_status members claims rest =
     (if rest \<noteq> 0 \<and> \<bar>rest\<bar> > ROUNDING_NANO_PER_ROW * max 1 (int (length members)) then ''unexplained''
      else if rest \<noteq> 0 then ''within_tolerance''
      else if list_ex (\<lambda>c. snd c \<noteq> 0) claims then ''explained'' else ''match'')"

definition group_code :: "(string, int) dict \<Rightarrow> string option" where
  "group_code claims = (case dominant (filter (\<lambda>c. snd c \<noteq> 0) claims) of Some c \<Rightarrow> Some c | None \<Rightarrow> dominant claims)"

definition group_step ::
    "(key, int) dict \<Rightarrow> (key, int) dict \<Rightarrow> string list \<Rightarrow> key \<times> recon_row list \<Rightarrow> classification \<times> int \<Rightarrow> classification \<times> int" where
  "group_step est allowance prov g s =
     (let (gkey, members) = g; (out, unexpl) = s
      in if is_member (key_value gkey ''date'') prov then
           (set_group_rows allowance (Some ''revision_window'') ''provisional'' 0 members
              (add_code ''revision_window'' (sum_list (map gap members)) out), unexpl)
         else
           let (claims, rest) = group_claims members est (key_value gkey ''channel'');
               out' = fold (\<lambda>(c, n). add_code c n) claims out
           in (set_group_rows allowance (group_code claims) (group_status members claims rest) rest members out', unexpl + rest))"

definition empty_classification :: classification where
  "empty_classification = \<lparr>codes = [], unexplained = 0, row_codes = [], row_status = [], row_unexplained = []\<rparr>"

definition classify_rows ::
    "recon_row list \<Rightarrow> (key, int) dict \<Rightarrow> (key, int) dict \<Rightarrow> string list \<Rightarrow> int \<Rightarrow> classification" where
  "classify_rows rows est allowance prov remainders =
     (let (out, groups) = fold (row_step allowance prov) (sort_key rr_key rows) (empty_classification, []);
          (out', unexpl) = fold (group_step est allowance prov) (sort_key fst groups) (out, 0)
      in if remainders \<noteq> 0
         then let c = claim unexpl remainders in (add_code ''cents_rounding'' c out')\<lparr>unexplained := unexpl - c\<rparr>
         else out'\<lparr>unexplained := unexpl\<rparr>)"

definition classify ::
    "recon_row list \<Rightarrow> (key, int) dict \<Rightarrow> (key, int) dict \<Rightarrow> string list \<Rightarrow> int \<Rightarrow> (string \<times> int) list \<times> int" where
  "classify rows est allowance prov remainders =
     (let r = classify_rows rows est allowance prov remainders in (residuals r, unexplained r))"

definition INFORMATIONAL :: "string list" where
  "INFORMATIONAL = [''priority_excluded_from_cost_report'', ''seat_allowance_unmetered'']"

text \<open>The signed claims: every code but the two informational magnitudes.\<close>

definition signed_total :: "(string, int) dict \<Rightarrow> int" where
  "signed_total d = sum_list (map (\<lambda>(c, n). if c \<in> set INFORMATIONAL then 0 else n) d)"

text \<open>A step of the group classification keeps the claims and what remains in balance.\<close>

definition balanced :: "int \<Rightarrow> string list \<Rightarrow> (string, int) dict \<times> int \<Rightarrow> bool" where
  "balanced g cs s = (signed_total (fst s) + snd s = g \<and> set (map fst (fst s)) \<subseteq> set cs)"

text \<open>A row counts in the balance unless it is informational or left out of the cost report by its tier.\<close>

definition counted :: "recon_row \<Rightarrow> bool" where
  "counted r = (key_value (rr_key r) INFO_DIM = None \<and>
     \<not> (is_member (key_value (rr_key r) ''service_tier'') PRIORITY_TIERS \<and> invoice_nano r = None))"

definition group_total :: "(key, recon_row list) dict \<Rightarrow> int" where
  "group_total gs = sum_list (map gap (concat (map snd gs)))"

definition rest_total :: "classification \<Rightarrow> int" where
  "rest_total out = sum_list (map snd (row_unexplained out))"

definition wit_recon :: "string \<Rightarrow> int option \<Rightarrow> int option \<Rightarrow> int \<Rightarrow> recon_row" where
  "wit_recon b led invd n = \<lparr>rr_key = [(''channel'', ''anthropic_api''), (''date'', ''2026-08-01''), (''bucket'', b)],
     ledger_tokens = Some n, provider_tokens = Some n, ledger_nano = led, priced_provider_nano = None, invoice_nano = invd,
     rate_card_error_pct = None, coverage_pct = None, rr_status = ''match'', residual_code = None\<rparr>"

definition wit_recon_rows :: "recon_row list" where
  "wit_recon_rows = [wit_recon ''output'' (Some 100) (Some 130) 5, wit_recon ''cache_read'' (Some 20) (Some 20) 7]"

definition wit_sku_rule :: sku_rule where
  "wit_sku_rule = \<lparr>sr_source_kind = ''aws.cur2'', sr_pattern = ''k'', sr_model = Some ''m'', sr_bucket = ''output'',
     sr_endpoint_scope = None, sr_service_tier = None, sr_unit_tokens = 1000, sr_verified = True, sr_source = ''doc''\<rparr>"

definition wit_cost_line :: cost_line where
  "wit_cost_line = \<lparr>line_id = ''i'', cl_source_kind = ''aws.cur2'', cl_date_utc = ''2026-08-01'', cl_channel = ''bedrock'',
     cl_workspace_id = None, description = '''', cl_model = None, cost_type = Some ''Usage'', token_type = None, sku = Some ''k'',
     cl_service_tier = None, cl_inference_geo = None, cl_endpoint_scope = None, cl_amount_nano = 5, list_amount_nano = None,
     currency = ''USD'', cl_finality = ''final'', cl_principal = None, cl_fetched_ms = 0, cl_quantity = None, cl_unit = None,
     cl_cost_center = None, cl_team = None, cl_repo = None, cl_workload = None, cl_workflow = None, cl_routing = None,
     cl_speed = None, pseudo = None\<rparr>"

interpretation sh: half_even "\<lambda>n d. share n 1 d"
  by unfold_locales (use divmod_rounds_half_even in \<open>simp add: share_def Let_def\<close>)

lemma signed_total_add:
  "signed_total (dset c (dget d c 0 + n) d) = signed_total d + (if c \<in> set INFORMATIONAL then 0 else n)"
  by (induction d) (auto simp: signed_total_def dset_def dget_def split: if_splits)

lemma signed_total_new:
  "map_of d c = None \<Longrightarrow> c \<notin> set INFORMATIONAL \<Longrightarrow> signed_total (dset c n d) = signed_total d + n"
  using signed_total_add [of c d n] by (simp add: dget_def)

lemma claim_bounds: "\<bar>claim r c\<bar> \<le> \<bar>r\<bar>" "\<bar>claim r c\<bar> \<le> \<bar>c\<bar>" "0 \<le> claim r c * r" "\<bar>r - claim r c\<bar> \<le> \<bar>r\<bar>"
  by (auto simp: claim_def min_def abs_if zero_le_mult_iff)

lemma balanced_take_claim:
  assumes "balanced g cs s" "code \<notin> set cs" "code \<notin> set INFORMATIONAL"
  shows "balanced g (code # cs) (take_claim b code amount s)"
proof -
  have "map_of (fst s) code = None" using assms(1,2) by (auto simp: balanced_def map_of_eq_None_iff)
  moreover have "set (map fst (dset code amount (fst s))) \<subseteq> set (code # cs)"
    using assms(1) by (auto simp: balanced_def dset_def dom_update)
  ultimately show ?thesis
    using assms signed_total_new [of "fst s" code amount] by (auto simp: balanced_def take_claim_def)
qed

lemma balanced_start: "balanced g [] ([], g)"
  by (simp add: balanced_def signed_total_def)

lemma balanced_price: "balanced (invd - led) [''implied_discount'', ''unobserved_traffic''] (price_claims rows est invd led p)"
proof -
  define s where "s = take_claim (missing_price rows est \<noteq> 0 \<and> p - led > 0) ''unobserved_traffic''
     (min (p - led) (missing_price rows est)) ([], p - led)"
  have s: "balanced (p - led) [''unobserved_traffic''] s"
    unfolding s_def by (rule balanced_take_claim [OF balanced_start]) (simp_all add: INFORMATIONAL_def)
  have d: "balanced (invd - led) [''unobserved_traffic''] (fst s, snd s + (invd - p))" using s by (simp add: balanced_def)
  have pr: "price_claims rows est invd led p =
     (if \<bar>invd - p\<bar> > ROUNDING_NANO_PER_ROW * int (length (filter (\<lambda>r. invoice_nano r \<noteq> None) rows))
      then (dset ''implied_discount'' (invd - p) (fst s), snd s) else (fst s, snd s + (invd - p)))"
    by (simp add: price_claims_def Let_def s_def case_prod_beta)
  have "balanced (invd - led) [''implied_discount'', ''unobserved_traffic'']
      (take_claim True ''implied_discount'' (invd - p) (fst s, snd s + (invd - p)))"
    by (rule balanced_take_claim [OF d]) (simp_all add: INFORMATIONAL_def)
  with d show ?thesis unfolding pr by (auto simp: take_claim_def balanced_def)
qed

lemma balanced_weaken: "balanced g cs s \<Longrightarrow> set cs \<subseteq> set ds \<Longrightarrow> balanced g ds s"
  by (auto simp: balanced_def)

lemma balanced_if: "balanced g cs x \<Longrightarrow> balanced g cs y \<Longrightarrow> balanced g cs (if b then x else y)"
  by simp

lemma group_claims_balanced:
  "balanced (sum_list (map gap rows)) RESIDUAL_CODES (group_claims rows est channel)"
proof -
  define invd where "invd = sum_list (map (\<lambda>r. or0 (invoice_nano r)) rows)"
  define led where "led = sum_list (map (\<lambda>r. or0 (ledger_nano r)) rows)"
  have g: "sum_list (map gap rows) = invd - led" by (simp add: gap_def [abs_def] sum_list_subtractf invd_def led_def)
  let ?u = "[''implied_discount'', ''unobserved_traffic'']"
  have s1: "balanced (invd - led) ?u (if b then price_claims rows est invd led p
      else take_claim b' ''unobserved_traffic'' m ([], invd - led))" for b b' p m
    using balanced_price balanced_weaken [OF balanced_take_claim [OF balanced_start, of "''unobserved_traffic''" "invd - led" b' m], of ?u]
    by (simp add: INFORMATIONAL_def)
  have chain: "balanced (invd - led) RESIDUAL_CODES (take_claim b5 ''no_reporting_api'' a5
      (take_claim b4 ''default_workspace_null_id'' a4 (take_claim b3 ''ccu_single_line'' a3
      (take_claim b2 ''estimated_components'' a2 s))))" if "balanced (invd - led) ?u s" for s a2 a3 a4 a5 b2 b3 b4 b5
    by (rule balanced_weaken [OF balanced_take_claim [OF balanced_take_claim [OF balanced_take_claim [OF balanced_take_claim [OF that]]]]])
      (simp_all add: INFORMATIONAL_def RESIDUAL_CODES_def)
  have first: "balanced (invd - led) RESIDUAL_CODES ([(''unobserved_traffic'', invd - led)], 0)"
    by (simp add: balanced_def signed_total_def INFORMATIONAL_def RESIDUAL_CODES_def)
  show ?thesis
    unfolding g group_claims_def Let_def invd_def [symmetric] led_def [symmetric]
    by (rule balanced_if [OF first chain [OF s1]])
qed

lemma codes_add_code: "signed_total (codes (add_code c n out)) = signed_total (codes out) + (if c \<in> set INFORMATIONAL then 0 else n)"
  by (simp add: add_code_def signed_total_add)

lemma codes_set_row [simp]: "codes (set_row k c st r out) = codes out"
  by (simp add: set_row_def)

lemma codes_set_group_rows [simp]: "codes (set_group_rows al c st r rows out) = codes out"
  by (induction al c st r rows out rule: set_group_rows.induct) (simp_all add: Let_def)

lemma codes_add_codes: "signed_total (codes (fold (\<lambda>(c, n). add_code c n) cs out)) = signed_total (codes out) + signed_total cs"
  by (induction cs arbitrary: out) (auto simp: codes_add_code, auto simp: signed_total_def)

lemma row_claim_gap:
  assumes "key_value (rr_key row) INFO_DIM = None"
  shows "row_claim prov row = None \<Longrightarrow> counted row"
    "row_claim prov row = Some (c, n) \<Longrightarrow> (if c \<in> set INFORMATIONAL then 0 else n) = (if counted row then gap row else 0)"
proof -
  define pr where "pr = (is_member (key_value (rr_key row) ''service_tier'') PRIORITY_TIERS \<and> invoice_nano row = None)"
  have cnt: "counted row = (\<not> pr)" using assms by (simp add: counted_def pr_def)
  show "row_claim prov row = None \<Longrightarrow> counted row"
    unfolding cnt by (rule notI) (simp add: row_claim_def Let_def pr_def)
  show "(if c \<in> set INFORMATIONAL then 0 else n) = (if counted row then gap row else 0)" if c: "row_claim prov row = Some (c, n)"
  proof (cases pr)
    case True
    then have "c = ''priority_excluded_from_cost_report''" using c by (simp add: row_claim_def Let_def pr_def)
    then show ?thesis using True cnt by (simp add: INFORMATIONAL_def)
  next
    case False
    then have "n = gap row" "c \<notin> set INFORMATIONAL"
      using c unfolding row_claim_def Let_def pr_def [symmetric]
      by (simp_all add: INFORMATIONAL_def split: if_split_asm) (auto split: if_splits)
    then show ?thesis using False cnt by simp
  qed
qed

lemma group_total_dappend: "group_total (dappend k r gs) = group_total gs + gap r"
proof -
  have "sum_list (map gap (concat (map snd (dappend k r gs)))) = sum_list (map gap (r # concat (map snd gs)))"
    by (rule sum_list_mset_eq) (simp add: mset_dappend)
  then show ?thesis by (simp add: group_total_def)
qed

lemma row_step_total:
  "signed_total (codes (fst (row_step al prov row s))) + group_total (snd (row_step al prov row s)) =
     signed_total (codes (fst s)) + group_total (snd s) + (if counted row then gap row else 0)"
proof (cases "key_value (rr_key row) INFO_DIM")
  case (Some v)
  then show ?thesis by (simp add: row_step_def counted_def)
next
  case None
  define out where "out = (if dget al (rr_key row) 0 \<noteq> 0 then add_code ''seat_allowance_unmetered'' (dget al (rr_key row) 0) (fst s) else fst s)"
  have out: "signed_total (codes out) = signed_total (codes (fst s))"
    by (simp add: out_def codes_add_code INFORMATIONAL_def)
  show ?thesis
  proof (cases "row_claim prov row")
    case c: None
    then show ?thesis
      using None row_claim_gap(1) [OF None c] by (simp add: row_step_def Let_def out_def [symmetric] out group_total_dappend)
  next
    case (Some cn)
    obtain c n where cn: "cn = (c, n)" by fastforce
    show ?thesis
      using None row_claim_gap(2) [OF None, of prov c n] Some
      by (simp add: row_step_def Let_def out_def [symmetric] cn codes_add_code out)
  qed
qed

lemma row_steps_total:
  "signed_total (codes (fst (fold (row_step al prov) rows s))) + group_total (snd (fold (row_step al prov) rows s)) =
     signed_total (codes (fst s)) + group_total (snd s) + sum_list (map gap (filter counted rows))"
  by (induction rows arbitrary: s) (simp_all add: row_step_total)

lemma group_step_total:
  "signed_total (codes (fst (group_step est al prov g s))) + snd (group_step est al prov g s) =
     signed_total (codes (fst s)) + snd s + sum_list (map gap (snd g))"
  using group_claims_balanced [of "snd g" est "key_value (fst g) ''channel''"]
  by (auto simp: group_step_def Let_def case_prod_beta codes_add_code codes_add_codes INFORMATIONAL_def [symmetric] balanced_def)
    (simp add: INFORMATIONAL_def)

lemma group_steps_total:
  "signed_total (codes (fst (fold (group_step est al prov) gs s))) + snd (fold (group_step est al prov) gs s) =
     signed_total (codes (fst s)) + snd s + group_total gs"
  by (induction gs arbitrary: s) (simp_all add: group_step_total group_total_def)

lemma group_total_sort: "group_total (sort_key f gs) = group_total gs"
proof -
  have t: "group_total gs = sum_list (map (\<lambda>g. sum_list (map gap (snd g))) gs)" for gs :: "(key, recon_row list) dict"
    by (induction gs) (simp_all add: group_total_def)
  show ?thesis unfolding t by (rule sum_list_mset_eq) simp
qed

lemma empty_totals: "signed_total (codes empty_classification) = 0" "group_total [] = 0"
  by (simp_all add: empty_classification_def signed_total_def group_total_def)

text \<open>C10: The residual classification conserves the gap: over all rows but the informational ones and the Priority
  Tier rows the cost report leaves out, invoice minus ledger equals the sum of the signed residual codes plus the
  unexplained amount, to the nano-USD, for every input.\<close>

theorem classify_conserves:
  "sum_list (map gap (filter counted rows)) =
     signed_total (fst (classify rows est allowance prov remainders)) + snd (classify rows est allowance prov remainders)"
proof -
  obtain out gs where og: "fold (row_step allowance prov) (sort_key rr_key rows) (empty_classification, []) = (out, gs)" by fastforce
  obtain out' u where ou: "fold (group_step est allowance prov) (sort_key fst gs) (out, 0) = (out', u)" by fastforce
  have a: "signed_total (codes out) + group_total gs = sum_list (map gap (filter counted (sort_key rr_key rows)))"
    using row_steps_total [of allowance prov "sort_key rr_key rows" "(empty_classification, [])"]
    by (simp add: og empty_totals)
  have "sum_list (map gap (filter counted (sort_key rr_key rows))) = sum_list (map gap (filter counted rows))"
    by (rule sum_list_mset_eq) (simp add: mset_filter)
  moreover have "signed_total (codes out') + u = signed_total (codes out) + group_total gs"
    using group_steps_total [of est allowance prov "sort_key fst gs" "(out, 0)"] by (simp add: ou group_total_sort)
  moreover have res: "signed_total (residuals c) = signed_total (codes c)" for c
    unfolding residuals_def signed_total_def by (rule sum_list_mset_eq) simp
  ultimately show ?thesis
    using a by (simp add: classify_def classify_rows_def og ou Let_def codes_add_code res)
      (simp add: INFORMATIONAL_def)
qed

subsection \<open>Per-row results\<close>

lemma row_unexplained_add_code [simp]: "row_unexplained (add_code c n out) = row_unexplained out"
  by (simp add: add_code_def)

lemma row_unexplained_add_codes [simp]: "row_unexplained (fold (\<lambda>(c, n). add_code c n) cs out) = row_unexplained out"
  by (induction cs arbitrary: out) auto

lemma sum_snd_dset: "dget d k 0 = 0 \<Longrightarrow> sum_list (map snd (dset k n d)) = sum_list (map snd d) + (n :: int)"
  by (induction d) (auto simp: dset_def dget_def)

lemma set_row_rest:
  "row_unexplained (set_row k c st n out) = dset k n (row_unexplained out)"
  "dget (row_unexplained out) k 0 = 0 \<Longrightarrow> rest_total (set_row k c st n out) = rest_total out + n"
  by (simp_all add: set_row_def rest_total_def sum_snd_dset)

lemma dget_dset_other: "dget (dset k n d) k' z = (if k' = k then n else dget d k' z)"
  by (simp add: dget_def dset_def update_conv')

lemma set_group_rows_rest:
  assumes "distinct (map rr_key ms)" "\<forall>r \<in> set ms. dget (row_unexplained out) (rr_key r) 0 = 0" "ms \<noteq> []"
  shows "rest_total (set_group_rows al c st n ms out) = rest_total out + n \<and>
     (\<forall>k. k \<notin> rr_key ` set ms \<longrightarrow> dget (row_unexplained (set_group_rows al c st n ms out)) k 0 = dget (row_unexplained out) k 0)"
proof -
  have z: "rest_total (set_group_rows al c st m ms out) = rest_total out + (if ms = [] then 0 else m) \<and>
     (\<forall>k. k \<notin> rr_key ` set ms \<longrightarrow> dget (row_unexplained (set_group_rows al c st m ms out)) k 0 = dget (row_unexplained out) k 0)"
    if "distinct (map rr_key ms)" "\<forall>r \<in> set ms. dget (row_unexplained out) (rr_key r) 0 = 0" for ms m out
    using that
  proof (induction ms arbitrary: m out)
    case (Cons r ms)
    define nx where "nx = set_row (rr_key r) (if c \<noteq> None then c else if dget al (rr_key r) 0 \<noteq> 0 then Some ''seat_allowance_unmetered'' else None)
              (if st \<noteq> ''match'' \<or> dget al (rr_key r) 0 = 0 then st else ''explained'') m out"
    have other: "dget (row_unexplained nx) k 0 = (if k = rr_key r then m else dget (row_unexplained out) k 0)" for k
      by (simp add: nx_def set_row_rest(1) dget_dset_other)
    have nk: "rr_key x \<noteq> rr_key r" if "x \<in> set ms" for x using Cons.prems(1) that by (auto simp: image_iff)
    have ms: "distinct (map rr_key ms)" "\<forall>x \<in> set ms. dget (row_unexplained nx) (rr_key x) 0 = 0"
      using Cons.prems nk by (simp_all add: other)
    have tot: "rest_total nx = rest_total out + m" using Cons.prems(2) by (simp add: nx_def set_row_rest(2))
    have "set_group_rows al c st m (r # ms) out = set_group_rows al c st 0 ms nx" by (simp add: Let_def nx_def)
    then show ?case using Cons.IH [OF ms, of 0] tot by (simp add: other)
  qed simp
  show ?thesis using z [OF assms(1,2), of n] assms(3) by simp
qed

lemma group_steps_rest:
  assumes "distinct (map rr_key (concat (map snd gs)))" "\<forall>g \<in> set gs. snd g \<noteq> []"
    "\<forall>r \<in> set (concat (map snd gs)). dget (row_unexplained (fst s)) (rr_key r) 0 = 0"
  shows "rest_total (fst (fold (group_step est al prov) gs s)) - snd (fold (group_step est al prov) gs s) =
     rest_total (fst s) - snd s"
  using assms
proof (induction gs arbitrary: s)
  case (Cons g gs)
  obtain k ms where g: "g = (k, ms)" by fastforce
  obtain out u where s: "s = (out, u)" by fastforce
  have ms: "distinct (map rr_key ms)" "\<forall>r \<in> set ms. dget (row_unexplained out) (rr_key r) 0 = 0" "ms \<noteq> []"
    using Cons.prems by (auto simp: g s)
  define c where "c = group_claims ms est (key_value k ''channel'')"
  have step: "rest_total (fst (group_step est al prov g s)) - snd (group_step est al prov g s) = rest_total out - u \<and>
      (\<forall>k. k \<notin> rr_key ` set ms \<longrightarrow> dget (row_unexplained (fst (group_step est al prov g s))) k 0 = dget (row_unexplained out) k 0)"
  proof (cases "is_member (key_value k ''date'') prov")
    case True
    have "rest_total (add_code c n out) = rest_total out" for c n by (simp add: rest_total_def)
    then show ?thesis using True set_group_rows_rest [OF ms(1) _ ms(3), of "add_code ''revision_window'' (sum_list (map gap ms)) out" al "Some ''revision_window''" "''provisional''" 0] ms(2)
      by (simp add: group_step_def g s)
  next
    case False
    let ?o = "fold (\<lambda>(c, n). add_code c n) (fst c) out"
    have "rest_total ?o = rest_total out" by (simp add: rest_total_def)
    then show ?thesis
      using False set_group_rows_rest [OF ms(1) _ ms(3), of ?o al "group_code (fst c)" "group_status ms (fst c) (snd c)" "snd c"] ms(2)
      by (simp add: group_step_def g s Let_def c_def [symmetric] case_prod_beta)
  qed
  have dis: "distinct (map rr_key (concat (map snd gs)))" "rr_key ` set ms \<inter> rr_key ` set (concat (map snd gs)) = {}"
    using Cons.prems(1) by (auto simp: g)
  have "\<forall>r \<in> set (concat (map snd gs)). dget (row_unexplained (fst (group_step est al prov g s))) (rr_key r) 0 = 0"
  proof
    fix r assume r: "r \<in> set (concat (map snd gs))"
    then have "rr_key r \<notin> rr_key ` set ms" using dis(2) by blast
    moreover have "dget (row_unexplained out) (rr_key r) 0 = 0" using Cons.prems(3) r by (auto simp: g s)
    ultimately show "dget (row_unexplained (fst (group_step est al prov g s))) (rr_key r) 0 = 0" using step by simp
  qed
  then show ?case using Cons.IH [OF dis(1)] Cons.prems(2) step by (simp add: s)
qed simp

text \<open>After the row pass no row has an unexplained amount, and the groups hold a sub-multiset of the rows.\<close>

lemma row_steps_groups:
  assumes "list_all (\<lambda>kn. snd kn = 0) (row_unexplained (fst s))" "\<forall>g \<in> set (snd s). snd g \<noteq> []"
  shows "list_all (\<lambda>kn. snd kn = 0) (row_unexplained (fst (fold (row_step al prov) rows s))) \<and>
     (\<forall>g \<in> set (snd (fold (row_step al prov) rows s)). snd g \<noteq> []) \<and>
     mset (concat (map snd (snd (fold (row_step al prov) rows s)))) \<subseteq># mset (concat (map snd (snd s))) + mset rows"
  using assms
proof (induction rows arbitrary: s)
  case (Cons r rows)
  have z: "list_all (\<lambda>kn. snd kn = 0) d \<Longrightarrow> list_all (\<lambda>kn. snd kn = 0) (dset k (0::int) d)" for k and d :: "(key, int) dict"
    by (induction d) (auto simp: dset_def)
  have ne: "\<forall>g \<in> set gs. snd g \<noteq> [] \<Longrightarrow> \<forall>g \<in> set (dappend k r gs). snd g \<noteq> []" for k and gs :: "(key, recon_row list) dict"
  proof -
    have "\<forall>g \<in> set gs. snd g \<noteq> [] \<Longrightarrow> v \<noteq> [] \<Longrightarrow> \<forall>g \<in> set (dset k v gs). snd g \<noteq> []" for v
      unfolding dset_def by (induction gs) auto
    then show "\<forall>g \<in> set gs. snd g \<noteq> [] \<Longrightarrow> \<forall>g \<in> set (dappend k r gs). snd g \<noteq> []" unfolding dappend_def by blast
  qed
  have st: "list_all (\<lambda>kn. snd kn = 0) (row_unexplained (fst (row_step al prov r s)))"
    "\<forall>g \<in> set (snd (row_step al prov r s)). snd g \<noteq> []"
    "mset (concat (map snd (snd (row_step al prov r s)))) \<subseteq># mset (concat (map snd (snd s))) + {#r#}"
    using Cons.prems z ne
    by (auto simp: row_step_def Let_def set_row_rest(1) mset_dappend split: option.split)
  show ?case
    using Cons.IH [OF st(1,2)] subset_mset.order_trans [OF _ subset_mset.add_mono [OF st(3) subset_mset.order_refl [of "mset rows"]]]
    by (simp add: add.assoc)
qed simp

lemma sum_list_zero: "\<forall>x \<in> set xs. x = 0 \<Longrightarrow> sum_list xs = (0::int)"
  by (induction xs) auto

lemma distinct_submset:
  assumes "mset xs \<subseteq># mset ys" "distinct ys"
  shows "distinct xs"
proof -
  obtain zs where "mset ys = mset (xs @ zs)"
    using assms(1) by (metis ex_mset mset_append subset_mset.add_diff_inverse)
  then have "distinct (xs @ zs)" using assms(2) by (metis mset_eq_imp_distinct_iff)
  then show ?thesis by simp
qed

lemma claim_zero [simp]: "claim u 0 = 0"
  by (simp add: claim_def)

text \<open>The per-row results add up: when the row keys are distinct, the unexplained amounts recorded for the rows
  sum to the unexplained total before rounding remainders, and the reported total is that sum less what the
  source remainders can explain; it never grows, and never changes sign.\<close>

theorem row_unexplained_total:
  fixes est :: "(key, int) dict" and prov :: "string list"
  assumes "distinct (map rr_key rows)" "c = classify_rows rows est allowance prov remainders"
  shows "unexplained c = rest_total c - claim (rest_total c) remainders \<and>
     \<bar>unexplained c\<bar> \<le> \<bar>rest_total c\<bar> \<and> \<bar>rest_total c - unexplained c\<bar> \<le> \<bar>remainders\<bar>"
proof -
  obtain out gs where og: "fold (row_step allowance prov) (sort_key rr_key rows) (empty_classification, []) = (out, gs)" by fastforce
  obtain out' u where ou: "fold (group_step est allowance prov) (sort_key fst gs) (out, 0) = (out', u)" by fastforce
  have g: "list_all (\<lambda>kn. snd kn = 0) (row_unexplained out)" "\<forall>g \<in> set gs. snd g \<noteq> []"
    "mset (concat (map snd gs)) \<subseteq># mset rows"
    using row_steps_groups [of "(empty_classification, [])" allowance prov "sort_key rr_key rows"]
    by (simp_all add: og) (simp_all add: empty_classification_def)
  have zero: "dget (row_unexplained out) k 0 = 0" for k
    using g(1) by (auto simp: dget_def list_all_iff split: option.split dest!: map_of_SomeD)
  have perm: "mset (concat (map snd (sort_key fst gs))) = mset (concat (map snd gs))"
    by (simp add: mset_concat comp_def flip: sum_mset_sum_list)
  have dist: "distinct (map rr_key (concat (map snd (sort_key fst gs))))"
  proof -
    have "mset (map rr_key (concat (map snd (sort_key fst gs)))) \<subseteq># mset (map rr_key rows)"
      using image_mset_subseteq_mono [OF g(3), of rr_key] perm by (metis mset_map)
    then show ?thesis using assms(1) by (rule distinct_submset)
  qed
  have "rest_total out = 0"
    using g(1) by (auto simp: rest_total_def list_all_iff intro!: sum_list_zero)
  then have "rest_total out' = u"
    using group_steps_rest [OF dist, of "(out, 0)" est allowance prov] g(2) zero by (simp add: ou)
  moreover have "unexplained c = u - claim u remainders" "rest_total c = rest_total out'"
    by (simp_all add: assms(2) classify_rows_def og ou Let_def rest_total_def)
  ultimately show ?thesis using claim_bounds [of u remainders] by simp
qed

theorem row_unexplained_total_witness:
  "unexplained (classify_rows wit_recon_rows [] [] [] 4) = 26 \<and> rest_total (classify_rows wit_recon_rows [] [] [] 4) = 30"
proof -
  have d: "distinct (map rr_key wit_recon_rows)" by code_simp
  have r: "rest_total (classify_rows wit_recon_rows [] [] [] 4) = 30" by code_simp
  show ?thesis using row_unexplained_total [OF d refl, of "[]" "[]" "[]" 4] r by (simp add: claim_def)
qed

lemma sku_line_token:
  assumes "lm_kind (sku_line fullmatch skus line) = ''token''"
  shows "\<exists>r s. r \<in> set skus \<and> sr_verified r \<and> sku line = Some s \<and> sku_matches fullmatch (cl_source_kind line) s r \<and>
     lm_verified (sku_line fullmatch skus line) \<and> lm_bucket (sku_line fullmatch skus line) = Some (sr_bucket r) \<and>
     or_empty (lm_model (sku_line fullmatch skus line)) \<noteq> ''''"
proof -
  obtain r where r: "fst (sku_rule_status fullmatch skus (cl_source_kind line) (sku line)) = Some r"
    using assms by (cases "fst (sku_rule_status fullmatch skus (cl_source_kind line) (sku line))")
      (auto simp: sku_line_def plain_mapping_def Let_def split: if_splits)
  then obtain s where s: "sku line = Some s" "map_sku fullmatch skus (cl_source_kind line) s = Some r"
    by (auto simp: sku_rule_status_def split: option.splits if_splits)
  have "r \<in> set skus" "sr_verified r" "sku_matches fullmatch (cl_source_kind line) s r"
    using s(2) by (auto simp: map_sku_def find_Some_iff)
  moreover have "lm_verified (sku_line fullmatch skus line) \<and> lm_bucket (sku_line fullmatch skus line) = Some (sr_bucket r) \<and>
     or_empty (lm_model (sku_line fullmatch skus line)) \<noteq> ''''"
    using assms r unfolding sku_line_def plain_mapping_def Let_def by (simp split: if_split_asm)
  ultimately show ?thesis using s(1) by blast
qed

text \<open>An invoice line is joined to token usage only through a verified rule: a mapping of kind token is
  verified, names a bucket, and names a model unless the bucket is web search; for the sources priced by SKU it
  comes from a verified SKU rule of that source whose pattern matches the whole SKU, and for the others the source
  is one whose cost types are verified.\<close>

theorem token_lines_verified:
  assumes "map_line fullmatch skus line = m" "lm_kind m = ''token''"
  shows "lm_verified m \<and> lm_bucket m \<noteq> None \<and> (or_empty (lm_model m) \<noteq> '''' \<or> lm_bucket m = Some ''web_search'') \<and>
     (if cl_source_kind line \<in> set SKU_SOURCES
      then \<exists>r s. r \<in> set skus \<and> sr_verified r \<and> sku line = Some s \<and> sku_matches fullmatch (cl_source_kind line) s r
      else cl_source_kind line \<in> set COST_TYPE_VERIFIED_SOURCES)"
proof (cases "cl_source_kind line \<in> set SKU_SOURCES")
  case True
  then have "m = sku_line fullmatch skus line" using assms(1) by (simp add: map_line_def)
  then show ?thesis using True sku_line_token [of fullmatch skus line] assms(2) by auto
next
  case False
  then show ?thesis
    using assms unfolding map_line_def plain_mapping_def Let_def by (auto split: option.splits if_splits)
qed

theorem token_lines_verified_witness: "lm_verified (map_line (=) [wit_sku_rule] wit_cost_line)"
proof -
  have "lm_kind (map_line (=) [wit_sku_rule] wit_cost_line) = ''token''" by code_simp
  then show ?thesis using token_lines_verified [of "(=)" "[wit_sku_rule]" wit_cost_line, OF refl] by blast
qed

end
