(* ===== verification/Realization.thy ===== *)
theory Realization
  imports Labels
begin

text \<open>
  Projections of \<open>plan/realization.py\<close>: the realization-rate priors (\<open>core/catalog.py\<close>), half-even rounding of
  an exact fraction, the monthly projection of a credit as a labelled figure, and the observed rates computed
  from receipts. Rounding is an interpretation of \<open>half_even\<close>; the projection builds its figures with
  \<open>mk_figure\<close>, so the range rules of figures are what its bounds must meet.
\<close>

section \<open>Definitions\<close>

definition DAYS_PER_MONTH :: int where "DAYS_PER_MONTH = 30"
definition MIN_RECEIPTS :: nat where "MIN_RECEIPTS = 3"
definition BEHAVIORAL :: string where "BEHAVIORAL = ''behavioral''"
definition TRAJECTORY_P50_NOTE :: string where
  "TRAJECTORY_P50_NOTE = ''trajectory p50 0.5 is a design judgment, not a measurement''"
definition ZERO_NOTE :: string where "ZERO_NOTE = ''range crosses zero: the lever may cost more than it saves''"

definition RR_PRIORS :: "(string \<times> (dec \<times> dec \<times> dec) option) list" where
  "RR_PRIORS =
     [(''rate'', Some (mkdec False 10 (-1), mkdec False 10 (-1), mkdec False 10 (-1))),
      (''cache_transform'', Some (mkdec False 8 (-1), mkdec False 9 (-1), mkdec False 10 (-1))),
      (''trajectory'', Some (mkdec True 2 (-1), mkdec False 5 (-1), mkdec False 10 (-1))),
      (''behavioral'', None)]"

definition prior_of :: "string \<Rightarrow> (dec \<times> dec \<times> dec) option" where
  "prior_of cls = (case map_of RR_PRIORS cls of Some p \<Rightarrow> p | None \<Rightarrow> None)"

definition round_half_even :: "rat \<Rightarrow> int" where
  "round_half_even value =
     (let fl = (case quotient_of value of (n, d) \<Rightarrow> n div d); rest = value - of_int fl
      in if rest > 1 / 2 \<or> (rest = 1 / 2 \<and> fl mod 2 = 1) then fl + 1 else fl)"

definition check_days :: "int \<Rightarrow> int res" where
  "check_days d = (if d < 1 then Inl UsageError else Inr d)"

definition monthly_nano :: "int \<Rightarrow> int \<Rightarrow> rat res" where
  "monthly_nano n window_days = rbind (check_days window_days) (\<lambda>d. Inr (of_int (n * DAYS_PER_MONTH) / of_int d))"

definition prior_text :: "dec \<times> dec \<times> dec \<Rightarrow> string" where
  "prior_text p = (case p of (a, b, c) \<Rightarrow> join ''/'' (map (\<lambda>x. format_f (dec_normalize x)) [a, b, c]))"

definition prior_note :: "string \<Rightarrow> string" where
  "prior_note cls = (case prior_of cls of
      None \<Rightarrow> cls @ '' lever: not projected''
    | Some p \<Rightarrow> ''realization-rate prior p10/p50/p90 '' @ prior_text p @ '' ('' @ cls @ '')'' @
        (if cls = ''trajectory'' then ''; '' @ TRAJECTORY_P50_NOTE else ''''))"

definition crosses_zero :: "figure \<Rightarrow> bool" where
  "crosses_zero f = (case (low_nano f, high_nano f) of (Some lo, Some hi) \<Rightarrow> lo < 0 \<and> 0 < hi | _ \<Rightarrow> False)"

text \<open>\<open>Figure(...)\<close> with the arguments \<open>project\<close> passes and the defaults of the others.\<close>

definition projected :: "figure \<Rightarrow> calibration \<Rightarrow> bool \<Rightarrow> int option \<Rightarrow> int option \<Rightarrow> int option \<Rightarrow> string \<Rightarrow> figure" where
  "projected s cal upper n lo hi txt = \<lparr>nano = n, evidence = ESTIMATED, basis = basis s, finality = FinalityNA, low_nano = lo,
     high_nano = hi, ci_level_pct = None, calibration = cal, upper_bound = upper, provenance = provenance s, fig_note = txt\<rparr>"

definition project :: "figure \<Rightarrow> string \<Rightarrow> int \<Rightarrow> bool \<Rightarrow> calibration \<Rightarrow> figure option res" where
  "project s cls window_days ub cal =
     (if cls = BEHAVIORAL then Inr None
      else case prior_of cls of
        None \<Rightarrow> Inl UsageError
      | Some (p10, p50, p90) \<Rightarrow>
          rbind (check_days window_days) (\<lambda>days.
          let txt = prior_note cls @ ''; monthly (x'' @ show_int DAYS_PER_MONTH @ ''/'' @ show_int days @ '' days)'';
              upper = (ub \<or> upper_bound s)
          in case nano s of
               None \<Rightarrow>
                 let reason = (if startswith (fig_note s) ''unpriced:'' then fig_note s else ''unpriced: credit'')
                 in rbind (mk_figure (projected s cal upper None None None (reason @ ''; '' @ txt))) (\<lambda>f. Inr (Some f))
             | Some n \<Rightarrow>
                 let bs = n # (case (low_nano s, high_nano s) of (Some lo, Some hi) \<Rightarrow> [lo, hi] | _ \<Rightarrow> []);
                     proj = (\<lambda>b rr. rbind (monthly_nano b days) (\<lambda>m. Inr (round_half_even (m * dval rr))))
                 in rbind (proj n p50) (\<lambda>point.
                    rbind (rmap (\<lambda>(b, rr). proj b rr) (concat (map (\<lambda>b. [(b, p10), (b, p90)]) bs))) (\<lambda>ends.
                    let low = fold min ends point; high = fold max ends point
                    in rbind (mk_figure (projected s cal upper (Some point) (Some low) (Some high) txt)) (\<lambda>f.
                       if crosses_zero f
                       then rbind (mk_figure (projected s cal upper (Some point) (Some low) (Some high) (txt @ ''; '' @ ZERO_NOTE)))
                              (\<lambda>g. Inr (Some g))
                       else Inr (Some f))))))"

subsection \<open>Observed rates\<close>

record receipt_row =
  receipt_id :: string
  lever_id :: string
  lever_class :: string
  receipt_label :: string
  realization_rate :: "string option"
  receipt_created_ms :: int
  receipt_json :: string
  receipt_dsse :: "string option"

definition digits_1_12 :: "string \<Rightarrow> bool" where
  "digits_1_12 s = (1 \<le> length s \<and> length s \<le> 12 \<and> list_all is_digit s)"

text \<open>\<open>_rr_value\<close>: the pattern of a plain decimal, and its value.\<close>

definition rr_value :: "string \<Rightarrow> rat option" where
  "rr_value text =
     (let t = strip text; neg = startswith t ''-''; u = (if neg then tl t else t);
          sg = (if neg then - 1 else 1 :: rat)
      in case split_on (CHR ''.'') u of
           [w] \<Rightarrow> if digits_1_12 w then Some (sg * of_nat (read_nat w)) else None
         | [w, f] \<Rightarrow> if (w = '''' \<or> digits_1_12 w) \<and> digits_1_12 f
                    then Some (sg * (of_nat (read_nat w) + of_nat (read_nat f) / 10 ^ length f)) else None
         | _ \<Rightarrow> None)"

definition decimal_str :: "rat \<Rightarrow> nat \<Rightarrow> string" where
  "decimal_str value places =
     (let scaled = round_half_even (value * 10 ^ places); sg = (if scaled < 0 then ''-'' else '''');
          whole = nat \<bar>scaled\<bar> div 10 ^ places; fraction = nat \<bar>scaled\<bar> mod 10 ^ places;
          txt = rstrip_char (CHR ''.'') (rstrip_char (CHR ''0'') (show_nat whole @ ''.'' @ rjust places (CHR ''0'') (show_nat fraction)))
      in sg @ (if txt = '''' then ''0'' else txt))"

definition observed_rr :: "receipt_row list \<Rightarrow> int \<Rightarrow> (string, string \<times> nat) dict res" where
  "observed_rr receipts min_receipts =
     (if min_receipts < 1 then Inl UsageError
      else
        let vals = List.map_filter (\<lambda>row. case realization_rate row of None \<Rightarrow> None
                     | Some t \<Rightarrow> map_option (\<lambda>v. (lever_class row, v)) (rr_value t)) receipts;
            groups = fold (\<lambda>(c, v) d. dappend c v d) vals []
        in Inr (map (\<lambda>(c, vs). (c, decimal_str (sum_list vs / of_nat (length vs)) 4, length vs))
                 (filter (\<lambda>(c, vs). min_receipts \<le> int (length vs)) (sort_key fst groups))))"

definition parse_observed_rr :: "(string, string \<times> int) dict \<Rightarrow> (string \<times> string \<times> int) list res" where
  "parse_observed_rr observed =
     rbind (rmap (\<lambda>(cls, rate, n).
         if cls = '''' then Inl UsageError else if n < 0 then Inl UsageError
         else if rr_value rate = None then Inl UsageError else Inr (cls, strip rate, n)) (sort_key fst observed)) (\<lambda>es.
     Inr (filter (\<lambda>(c, r, n). int MIN_RECEIPTS \<le> n) es))"

text \<open>The amount of a credit \<open>n\<close> over a window, at a realization rate.\<close>

definition monthly_at :: "int \<Rightarrow> int \<Rightarrow> dec \<Rightarrow> int" where
  "monthly_at n days rr = round_half_even (of_int (n * DAYS_PER_MONTH) / of_int days * dval rr)"

text \<open>The values a credit stands for: its point and, when it has a range, both ends of it.\<close>

definition credit_values :: "figure \<Rightarrow> int \<Rightarrow> int list" where
  "credit_values s n = n # (case (low_nano s, high_nano s) of (Some lo, Some hi) \<Rightarrow> [lo, hi] | _ \<Rightarrow> [])"

definition wit_credit :: figure where
  "wit_credit = \<lparr>nano = Some 1000, evidence = ESTIMATED, basis = LIST, finality = FinalityNA, low_nano = None, high_nano = None,
     ci_level_pct = None, calibration = UNCALIBRATED, upper_bound = False, provenance = [], fig_note = ''credit''\<rparr>"

lemma quotient_floor: "(case quotient_of x of (n, d) \<Rightarrow> n div d) = \<lfloor>x\<rfloor>"
  by (cases "quotient_of x") (metis case_prod_conv floor_divide_of_int_eq quotient_of_div)

lemma round_half_even_rounds: "rounds_half_even x (round_half_even x)"
proof -
  define t where "t = x - of_int \<lfloor>x\<rfloor>"
  have t: "0 \<le> t" "t < 1" "x = of_int \<lfloor>x\<rfloor> + t" by (simp_all add: t_def) linarith+
  have r: "round_half_even x = (if t > 1 / 2 \<or> (t = 1 / 2 \<and> \<lfloor>x\<rfloor> mod 2 = 1) then \<lfloor>x\<rfloor> + 1 else \<lfloor>x\<rfloor>)"
    by (simp add: round_half_even_def quotient_floor Let_def t_def)
  show ?thesis
  proof (cases "t > 1 / 2 \<or> (t = 1 / 2 \<and> \<lfloor>x\<rfloor> mod 2 = 1)")
    case True
    then have q: "round_half_even x = \<lfloor>x\<rfloor> + 1" using r by simp
    have "\<bar>x - of_int (round_half_even x)\<bar> = 1 - t" using q t by simp
    then show ?thesis using True q t by (auto simp: rounds_half_even_def odd_iff_mod_2_eq_one)
  next
    case False
    then have q: "round_half_even x = \<lfloor>x\<rfloor>" using r by simp
    have "\<bar>x - of_int (round_half_even x)\<bar> = t" using q t by simp
    then show ?thesis using False q t by (auto simp: rounds_half_even_def odd_iff_mod_2_eq_one)
  qed
qed

interpretation rz: half_even "\<lambda>n d. round_half_even (of_int n / of_int d)"
  by unfold_locales (rule round_half_even_rounds)

lemma round_half_even_mono: "x \<le> y \<Longrightarrow> round_half_even x \<le> round_half_even y"
  by (rule rounds_half_even_mono [OF round_half_even_rounds round_half_even_rounds])

lemma prior_order: "prior_of cls = Some (p10, p50, p90) \<Longrightarrow> dval p10 \<le> dval p50 \<and> dval p50 \<le> dval p90 \<and> 0 < dval p90"
  by (auto simp: prior_of_def RR_PRIORS_def dval_mkdec power_int_minus split: if_splits)

lemma fold_min_le: "fold min xs a \<le> (a :: int)" "x \<in> set xs \<Longrightarrow> fold min xs a \<le> x"
proof -
  show le: "fold min xs a \<le> a" for xs and a :: int
    by (induction xs arbitrary: a) (simp, metis fold_simps(2) min.bounded_iff)
  show "x \<in> set xs \<Longrightarrow> fold min xs a \<le> x"
    by (induction xs arbitrary: a) (auto intro: order_trans [OF le])
qed

lemma fold_max_ge: "(a :: int) \<le> fold max xs a" "x \<in> set xs \<Longrightarrow> x \<le> fold max xs a"
proof -
  show le: "a \<le> fold max xs a" for xs and a :: int
    by (induction xs arbitrary: a) (simp, metis fold_simps(2) max.bounded_iff)
  show "x \<in> set xs \<Longrightarrow> x \<le> fold max xs a"
    by (induction xs arbitrary: a) (auto intro: order_trans [OF _ le])
qed

lemma rmap_total: "rmap (\<lambda>x. Inr (f x)) xs = Inr (map f xs)"
  by (induction xs) simp_all

lemma endswith_last: "endswith s t \<Longrightarrow> t \<noteq> '''' \<Longrightarrow> last s = last t"
  unfolding endswith_def by (metis append_take_drop_id last_appendR)

lemma prior_note_nonempty: "prior_note cls \<noteq> ''''"
  by (simp add: prior_note_def split: option.split)

text \<open>C29: A projection of a priced credit: for a class with a prior, a positive window and a basis other than the
  invoice's, a valid ESTIMATED figure is returned whose point is the half-even rounding of the credit times
  30/days times the p50 rate. The range is exactly the least and the greatest of that point and the p10 and p90 amounts of the
  credit and of both ends of its own range; for a credit without a range it runs from the p10 to the p90 amount when the
  credit is not negative and from the p90 to the p10 amount when it is not positive. A range that crosses zero says so
  in its note.\<close>

theorem projection_is_valid:
  assumes "prior_of cls = Some (p10, p50, p90)" "1 \<le> days" "nano s = Some n" "basis s \<noteq> INVOICE"
  shows "\<exists>f lo hi. project s cls days ub cal = Inr (Some f) \<and> valid_figure f \<and> evidence f = ESTIMATED \<and>
     nano f = Some (monthly_at n days p50) \<and> low_nano f = Some lo \<and> high_nano f = Some hi \<and>
     lo = Min (insert (monthly_at n days p50) (\<Union>v\<in>set (credit_values s n). {monthly_at v days p10, monthly_at v days p90})) \<and>
     hi = Max (insert (monthly_at n days p50) (\<Union>v\<in>set (credit_values s n). {monthly_at v days p10, monthly_at v days p90})) \<and>
     (low_nano s = None \<and> 0 \<le> n \<longrightarrow> lo = monthly_at n days p10 \<and> hi = monthly_at n days p90) \<and>
     (low_nano s = None \<and> n \<le> 0 \<longrightarrow> lo = monthly_at n days p90 \<and> hi = monthly_at n days p10) \<and>
     (lo < 0 \<and> 0 < hi \<longleftrightarrow> endswith (fig_note f) ZERO_NOTE)"
proof -
  have nb: "cls \<noteq> BEHAVIORAL" using assms(1) by (auto simp: prior_of_def RR_PRIORS_def BEHAVIORAL_def)
  define bs where "bs = credit_values s n"
  define ends where "ends = map (\<lambda>(b, rr). monthly_at b days rr) (concat (map (\<lambda>b. [(b, p10), (b, p90)]) bs))"
  define point where "point = monthly_at n days p50"
  define lo hi where "lo = fold min ends point" and "hi = fold max ends point"
  define up where "up = (ub \<or> upper_bound s)"
  define label where "label = prior_note cls @ ''; monthly (x'' @ show_int DAYS_PER_MONTH @ ''/'' @ show_int days @ '' days)''"
  define f where "f = projected s cal up (Some point) (Some lo) (Some hi) (if lo < 0 \<and> 0 < hi then label @ ''; '' @ ZERO_NOTE else label)"
  have pm: "monthly_nano b days = Inr (of_int (b * DAYS_PER_MONTH) / of_int days)" for b
    using assms(2) by (simp add: monthly_nano_def check_days_def)
  have tn: "label \<noteq> ''''" by (simp add: label_def prior_note_nonempty)
  have lh: "lo \<le> point" "point \<le> hi" by (simp_all add: lo_def hi_def fold_min_le fold_max_ge)
  have mk: "mk_figure (projected s cal up (Some point) (Some lo) (Some hi) t) =
      Inr (projected s cal up (Some point) (Some lo) (Some hi) t)" if "t \<noteq> ''''" for t
    using lh assms(4) that by (simp add: mk_figure_def projected_def)
  have cz: "crosses_zero (projected s cal up (Some point) (Some lo) (Some hi) t) = (lo < 0 \<and> 0 < hi)" for t
    by (simp add: crosses_zero_def projected_def)
  have rm: "rmap (\<lambda>(b, rr). Inr (monthly_at b days rr)) xs = Inr (map (\<lambda>(b, rr). monthly_at b days rr) xs)" for xs
    by (induction xs) auto
  have bs: "n # (case low_nano s of None \<Rightarrow> [] | Some lo \<Rightarrow> (case high_nano s of None \<Rightarrow> [] | Some hi \<Rightarrow> [lo, hi])) = bs"
    by (simp add: bs_def credit_values_def split: option.split)
  have cd: "check_days days = Inr days" using assms(2) by (simp add: check_days_def)
  have pr: "project s cls days ub cal = Inr (Some f)"
    unfolding project_def Let_def assms(1,3) option.case prod.case cd rbind_simps pm bs
    unfolding monthly_at_def [symmetric] rm
    unfolding ends_def [symmetric] point_def [symmetric] rbind_simps
    unfolding lo_def [symmetric] hi_def [symmetric] label_def [symmetric] up_def [symmetric]
    using nb tn by (simp add: mk cz f_def)
  have ends: "set ends = (\<Union>v\<in>set bs. {monthly_at v days p10, monthly_at v days p90})"
    by (auto simp: ends_def)
  have mm: "lo = Min (insert point (set ends))" "hi = Max (insert point (set ends))"
    using Min.set_eq_fold [of point ends] Max.set_eq_fold [of point ends] by (simp_all add: lo_def hi_def)
  have mono: "monthly_at n days p10 \<le> point" "point \<le> monthly_at n days p90" if "0 \<le> n"
  proof -
    have m0: "(0::rat) \<le> of_int (n * DAYS_PER_MONTH) / of_int days" using that assms(2) by (simp add: DAYS_PER_MONTH_def)
    note pm = prior_order [OF assms(1)]
    show "monthly_at n days p10 \<le> point" "point \<le> monthly_at n days p90"
      unfolding point_def monthly_at_def
      by (rule round_half_even_mono, rule mult_left_mono [OF _ m0], use pm in blast)+
  qed
  have anti: "monthly_at n days p90 \<le> point" "point \<le> monthly_at n days p10" if "n \<le> 0"
  proof -
    have m0: "of_int (n * DAYS_PER_MONTH) / of_int days \<le> (0::rat)"
      using that assms(2) by (simp add: DAYS_PER_MONTH_def divide_nonpos_pos mult_nonpos_nonneg)
    note pm = prior_order [OF assms(1)]
    show "monthly_at n days p90 \<le> point" "point \<le> monthly_at n days p10"
      unfolding point_def monthly_at_def
      by (rule round_half_even_mono, rule mult_left_mono_neg [OF _ m0], use pm in blast)+
  qed
  have two: "ends = [monthly_at n days p10, monthly_at n days p90]" if "low_nano s = None"
    using that by (simp add: ends_def bs_def credit_values_def)
  have pt: "lo = monthly_at n days p10 \<and> hi = monthly_at n days p90" if "low_nano s = None" "0 \<le> n"
    using mono [OF that(2)] by (simp add: lo_def hi_def min_def max_def two [OF that(1)])
  have nt: "lo = monthly_at n days p90 \<and> hi = monthly_at n days p10" if "low_nano s = None" "n \<le> 0"
    using anti [OF that(2)] by (simp add: lo_def hi_def min_def max_def two [OF that(1)])
  have "endswith (fig_note f) ZERO_NOTE \<longleftrightarrow> lo < 0 \<and> 0 < hi"
  proof -
    have "\<not> endswith label ZERO_NOTE"
    proof
      assume "endswith label ZERO_NOTE"
      then have "last label = last ZERO_NOTE" by (rule endswith_last) (simp add: ZERO_NOTE_def)
      then show False by (simp add: label_def ZERO_NOTE_def)
    qed
    moreover have "endswith (label @ ''; '' @ ZERO_NOTE) ZERO_NOTE" by (simp add: endswith_def)
    ultimately show ?thesis by (simp add: f_def projected_def)
  qed
  moreover have "valid_figure f" "evidence f = ESTIMATED" "nano f = Some point" "low_nano f = Some lo" "high_nano f = Some hi"
    using mk [of "fig_note f"] tn by (auto simp: valid_figure_def f_def projected_def)
  ultimately show ?thesis
    using pr pt nt mm unfolding ends bs_def point_def by (intro exI [of _ f] exI [of _ lo] exI [of _ hi]) auto
qed

theorem projection_is_valid_witness:
  "\<exists>f. project wit_credit ''trajectory'' 7 False UNCALIBRATED = Inr (Some f) \<and> valid_figure f \<and> nano f = Some 2143 \<and>
     low_nano f = Some (- 857) \<and> high_nano f = Some 4286 \<and> endswith (fig_note f) ZERO_NOTE"
proof -
  have p: "prior_of ''trajectory'' = Some (mkdec True 2 (-1), mkdec False 5 (-1), mkdec False 10 (-1))"
    by (simp add: prior_of_def RR_PRIORS_def)
  have m: "monthly_at 1000 7 (mkdec False 5 (-1)) = 2143" "monthly_at 1000 7 (mkdec True 2 (-1)) = - 857"
    "monthly_at 1000 7 (mkdec False 10 (-1)) = 4286"
    unfolding monthly_at_def DAYS_PER_MONTH_def
    by (rule rounds_half_even_unique [OF round_half_even_rounds], simp add: rounds_half_even_def dval_mkdec power_int_minus)+
  show ?thesis
    using projection_is_valid [OF p, of 7 wit_credit 1000 False UNCALIBRATED]
    by (auto simp: wit_credit_def m)
qed

end
