(* ===== verification/Merge.thy ===== *)
theory Merge
  imports Records
begin

text \<open>
  The cross-source merge of \<open>store/merge.py\<close>: contributions to one logical request are joined by request ids,
  provider message ids and non-colliding request hints with a union-find, each group is merged field by field,
  and provider records keep one version. The text encodings that values are compared by (canonical JSON, SHA-256,
  Python's \<open>str\<close> of tuples) are the parameter \<open>codec\<close>. \<open>uf_find\<close> is a partial function, so that a walk that
  does not end would be \<open>None\<close>; the lemmas show it always ends in the root of its class, that the groups refine
  the reflexive-transitive closure of sharing a key, and that nothing depends on the order of arrival. The
  choice between versions is the locale \<open>version_choice\<close>.
\<close>

text \<open>\<open>_UnionFind\<close>: the parent list; \<open>find\<close> halves the path it walks, \<open>None\<close> stands for a walk that does not end.\<close>

partial_function (option) uf_find :: "nat list \<Rightarrow> nat \<Rightarrow> (nat list \<times> nat) option" where
  "uf_find p i = (if p ! i = i then Some (p, i) else (let p' = p[i := p ! (p ! i)] in uf_find p' (p' ! i)))"

definition uf_init :: "nat \<Rightarrow> nat list" where
  "uf_init n = [0..<n]"

definition uf_union :: "nat list \<Rightarrow> nat \<Rightarrow> nat \<Rightarrow> nat list option" where
  "uf_union p a b =
     Option.bind (uf_find p a) (\<lambda>(p1, ra). Option.bind (uf_find p1 b) (\<lambda>(p2, rb).
       Some (if ra \<noteq> rb then p2[max ra rb := min ra rb] else p2)))"

text \<open>The invariant: a parent is never larger than its child, so every walk ends in a root.\<close>

definition uf_ok :: "nat list \<Rightarrow> bool" where
  "uf_ok p = (\<forall>i < length p. p ! i \<le> i)"

function uf_root :: "nat list \<Rightarrow> nat \<Rightarrow> nat" where
  "uf_root p i = (if p ! i < i then uf_root p (p ! i) else i)"
  by pat_completeness auto
termination
  by (relation "measure snd") auto

text \<open>The joining loop of \<open>merge_contributions\<close> over the occurrences of join keys, in order: the first
  contribution with a key is remembered, every later one is united with it.\<close>

fun link :: "(nat \<times> 'k) list \<Rightarrow> ('k, nat) dict \<Rightarrow> nat list \<Rightarrow> nat list option" where
  "link [] first_by p = Some p"
| "link ((i, k) # occ) first_by p = (case map_of first_by k of
      Some f \<Rightarrow> Option.bind (uf_union p f i) (link occ first_by)
    | None \<Rightarrow> link occ (dset k i first_by) p)"

text \<open>The specification: contributions are joined when they share a key.\<close>

definition shares :: "(nat \<times> 'k) set \<Rightarrow> (nat \<times> nat) set" where
  "shares occ = {(i, j). \<exists>k. (i, k) \<in> occ \<and> (j, k) \<in> occ}"

definition link_inv :: "nat \<Rightarrow> (nat \<times> 'k) set \<Rightarrow> ('k, nat) dict \<Rightarrow> nat list \<Rightarrow> bool" where
  "link_inv n done first_by p =
     (uf_ok p \<and> length p = n \<and> (\<forall>(i, k) \<in> done. i < n) \<and>
      (\<forall>k f. map_of first_by k = Some f \<longrightarrow> (f, k) \<in> done) \<and>
      (\<forall>(i, k) \<in> done. \<exists>f. map_of first_by k = Some f \<and> uf_root p f = uf_root p i) \<and>
      (\<forall>i < n. \<forall>j < n. uf_root p i = uf_root p j \<longrightarrow> (i, j) \<in> (shares done)\<^sup>*))"

unbundle bit_operations_syntax

text \<open>The text encodings the merge rules compare: the canonical JSON of a record (\<open>to_json\<close> printed with sorted
  keys), the SHA-256 in hexadecimal, and Python's \<open>str\<close> of the two tuple-valued parameters.\<close>

record codec =
  canon_request :: "request \<Rightarrow> string"
  canon_usage :: "usage_buckets \<Rightarrow> string"
  canon_diagnostic :: "cache_diagnostic \<Rightarrow> string"
  sha_hex :: "string \<Rightarrow> string"
  betas_str :: "string list \<Rightarrow> string"
  breakpoints_str :: "breakpoint list \<Rightarrow> string"

definition SOURCES_MASK_BITS :: "(string \<times> nat) list" where
  "SOURCES_MASK_BITS = [(''claude-code'', 1), (''trace@1'', 2), (''trace@2'', 4), (''otlp'', 8), (''openai'', 16), (''bedrock'', 32),
     (''anthropic-responses'', 64), (''claude-code-headless'', 128), (''copilot-cli'', 256), (''copilot-otel'', 512),
     (''copilot-vscode-traces'', 1024), (''gh-aw-token-usage'', 2048), (''copilot-export'', 4096)]"

definition DEFAULT_PRIORITY :: int where "DEFAULT_PRIORITY = 10"

definition sources_mask :: "string list \<Rightarrow> nat" where
  "sources_mask adapters = fold (\<lambda>a m. m OR dget SOURCES_MASK_BITS a 0) adapters 0"

record contribution =
  c_request :: request
  c_adapter :: string
  c_fidelity :: fidelity
  c_priority :: int
  c_source_id :: string

definition contribution_of :: "request \<Rightarrow> string \<Rightarrow> string \<Rightarrow> contribution" where
  "contribution_of req default_adapter sid = (case source req of
      Some ref \<Rightarrow> \<lparr>c_request = req, c_adapter = adapter ref, c_fidelity = src_fidelity ref, c_priority = priority ref, c_source_id = sid\<rparr>
    | None \<Rightarrow> \<lparr>c_request = req, c_adapter = default_adapter, c_fidelity = FdFull, c_priority = DEFAULT_PRIORITY, c_source_id = sid\<rparr>)"

definition c_canon :: "codec \<Rightarrow> contribution \<Rightarrow> string" where
  "c_canon cx c = canon_request cx (c_request c)"

definition c_key :: "codec \<Rightarrow> contribution \<Rightarrow> string" where
  "c_key cx c = c_adapter c @ '':'' @ sha_hex cx (c_canon cx c)"

definition serving_output :: "contribution \<Rightarrow> int" where
  "serving_output c = (case serving_inference (c_request c) of Some i \<Rightarrow> u_output (usage i) | None \<Rightarrow> 0)"

definition c_rank :: "codec \<Rightarrow> contribution \<Rightarrow> int \<times> int \<times> int \<times> string" where
  "c_rank cx c = (- fidelity_rank (c_fidelity c), - c_priority c, - serving_output c, c_canon cx c)"

definition nonempty :: "string option list \<Rightarrow> string list" where
  "nonempty xs = List.map_filter (\<lambda>v. if v = Some '''' then None else v) xs"

definition message_ids :: "contribution \<Rightarrow> string list" where
  "message_ids c = sorted_set (nonempty (map provider_message_id (attempts (c_request c))))"

definition request_hints :: "contribution \<Rightarrow> string list" where
  "request_hints c = sorted_set (nonempty (map provider_request_id (attempts (c_request c))))"

definition hint_pairs :: "contribution \<Rightarrow> (string \<times> string) list" where
  "hint_pairs c = List.map_filter (\<lambda>a. case (provider_request_id a, provider_message_id a) of
      (Some r, Some m) \<Rightarrow> if r \<noteq> '''' \<and> m \<noteq> '''' then Some (r, m) else None | _ \<Rightarrow> None) (attempts (c_request c))"

datatype join_key = JId string | JMsg string | JRq string

definition join_keys :: "string list \<Rightarrow> contribution \<Rightarrow> join_key list" where
  "join_keys bad c = JId (request_id (c_request c)) # map JMsg (message_ids c) @
     map JRq (filter (\<lambda>q. q \<notin> set bad) (request_hints c))"

text \<open>\<open>_pick\<close>: the highest priority, then the first value with the smallest key.\<close>

definition pick :: "('a \<Rightarrow> string) \<Rightarrow> (int \<times> 'a) list \<Rightarrow> (int \<times> 'a) option" where
  "pick value_key cands = (if cands = [] then None
     else let best = Max (set (map fst cands))
          in Some (best, hd (sort_key value_key (map snd (filter (\<lambda>pv. fst pv = best) cands)))))"

definition candidates :: "(request \<Rightarrow> 'a option) \<Rightarrow> contribution list \<Rightarrow> (int \<times> 'a) list" where
  "candidates getter grp = List.map_filter (\<lambda>c. map_option (\<lambda>v. (c_priority c, v)) (getter (c_request c))) grp"

definition attr_getters :: "(string \<times> (attribution \<Rightarrow> string option)) list" where
  "attr_getters = [(''principal'', principal), (''team'', team), (''cost_center'', cost_center), (''project'', project), (''repo'', repo),
     (''workspace_id'', workspace_id), (''api_key_id'', api_key_id), (''agent_product'', agent_product), (''agent_type'', agent_type),
     (''query_source'', query_source), (''skill'', skill), (''mcp_server'', mcp_server), (''plugin'', plugin),
     (''workload_class'', \<lambda>a. if workload a = WcUnknown then None else Some (workload_class_value (workload a))),
     (''entrypoint'', entrypoint), (''client_version'', client_version), (''billing_path'', attr_billing_path), (''cwd_key'', cwd_key),
     (''arm'', arm), (''wave'', wave)]"

definition workload_getter :: "attribution \<Rightarrow> workload_class option" where
  "workload_getter a = (if workload a = WcUnknown then None else Some (workload a))"

definition merged_field :: "contribution list \<Rightarrow> (attribution \<Rightarrow> string option) \<Rightarrow> string option" where
  "merged_field grp g = map_option snd (pick (\<lambda>s. s) (candidates (\<lambda>r. g (attribution r)) grp))"

definition extra_candidates :: "contribution list \<Rightarrow> (string, (int \<times> string) list) dict" where
  "extra_candidates grp = fold (\<lambda>(k, pv) d. dappend k pv d)
     (concat (map (\<lambda>c. map (\<lambda>(k, v). (k, c_priority c, v)) (extra (attribution (c_request c)))) grp)) []"

definition merge_attribution :: "contribution list \<Rightarrow> (attribution \<times> (string \<times> int) list) res" where
  "merge_attribution grp =
     (let prio = List.map_filter (\<lambda>(name, g). map_option (\<lambda>pv. (name, fst pv)) (pick (\<lambda>s. s) (candidates (\<lambda>r. g (attribution r)) grp)))
                   attr_getters;
          ex = map (\<lambda>(k, cs). (k, the (pick (\<lambda>s. s) cs))) (sort_key fst (extra_candidates grp));
          f = merged_field grp
      in rbind (mk_attribution \<lparr>principal = f principal, team = f team, cost_center = f cost_center, project = f project, repo = f repo,
           workspace_id = f workspace_id, api_key_id = f api_key_id, agent_product = f agent_product, agent_type = f agent_type,
           query_source = f query_source, skill = f skill, mcp_server = f mcp_server, plugin = f plugin,
           workload = (case pick workload_class_value (candidates (\<lambda>r. workload_getter (attribution r)) grp) of
               Some pv \<Rightarrow> snd pv | None \<Rightarrow> WcUnknown),
           entrypoint = f entrypoint, client_version = f client_version, attr_billing_path = f attr_billing_path, cwd_key = f cwd_key,
           arm = f arm, wave = f wave, extra = map (\<lambda>(k, pv). (k, snd pv)) ex\<rparr>) (\<lambda>a.
         Inr (a, prio @ map (\<lambda>(k, pv). (''extra.'' @ k, fst pv)) ex)))"

definition fill :: "('a \<Rightarrow> string) \<Rightarrow> (request_params \<Rightarrow> 'a option) \<Rightarrow> request_params \<Rightarrow> contribution list \<Rightarrow> 'a option" where
  "fill value_key getter base grp = (case getter base of
      Some v \<Rightarrow> Some v
    | None \<Rightarrow> map_option snd (pick value_key (candidates (\<lambda>r. getter (params r)) grp)))"

definition non_nil :: "'a list \<Rightarrow> 'a list option" where
  "non_nil xs = (if xs = [] then None else Some xs)"

definition from_option :: "'a list option \<Rightarrow> 'a list" where
  "from_option v = (case v of None \<Rightarrow> [] | Some xs \<Rightarrow> xs)"

definition bool_str :: "bool \<Rightarrow> string" where
  "bool_str b = (if b then ''True'' else ''False'')"

definition merge_params :: "codec \<Rightarrow> contribution \<Rightarrow> contribution list \<Rightarrow> request_params res" where
  "merge_params cx winner grp =
     (let base = params (c_request winner);
          s = (\<lambda>g. fill (\<lambda>x. x) g base grp); i = (\<lambda>g. fill show_int g base grp); b = (\<lambda>g. fill bool_str g base grp);
          p = \<lparr>model_requested = model_requested base, max_tokens = i max_tokens, stream = b stream, thinking = s thinking,
            effort = s effort, session_effort = s session_effort, tool_choice = s tool_choice, output_format = s output_format,
            speed_requested = s speed_requested, service_tier_requested = s service_tier_requested,
            inference_geo_requested = s inference_geo_requested,
            betas = from_option (fill (betas_str cx) (\<lambda>q. non_nil (betas q)) base grp),
            breakpoints = from_option (fill (breakpoints_str cx) (\<lambda>q. non_nil (breakpoints q)) base grp),
            automatic_caching = b automatic_caching, context_management = s context_management, task_budget = i task_budget,
            web_search_enabled = b web_search_enabled, citations_enabled = b citations_enabled, has_images = b has_images,
            advisor_model = s advisor_model, disable_parallel_tool_use = b disable_parallel_tool_use\<rparr>
      in if p = base then Inr base else mk_request_params p)"

definition fill_diagnostics :: "codec \<Rightarrow> contribution \<Rightarrow> contribution list \<Rightarrow> attempt list" where
  "fill_diagnostics cx winner grp =
     (let as = attempts (c_request winner)
      in if diagnostics (last as) \<noteq> None then as
         else case pick (canon_diagnostic cx) (candidates (\<lambda>r. diagnostics (last (attempts r))) grp) of
           None \<Rightarrow> as
         | Some pv \<Rightarrow> butlast as @ [(last as)\<lparr>diagnostics := Some (snd pv)\<rparr>])"

definition first_by_priority :: "codec \<Rightarrow> contribution list \<Rightarrow> (request \<Rightarrow> 'a option) \<Rightarrow> 'a option" where
  "first_by_priority cx grp getter =
     (case List.map_filter (\<lambda>c. getter (c_request c)) (sort_key (\<lambda>c. (- c_priority c, c_canon cx c)) grp) of
        [] \<Rightarrow> None | v # _ \<Rightarrow> Some v)"

record merged_group =
  m_request :: request
  m_winner :: contribution
  m_members :: "contribution list"
  m_sources_mask :: nat
  m_attr_prio :: "(string \<times> int) list"
  m_usage_mismatch :: bool

definition merge_group :: "codec \<Rightarrow> contribution list \<Rightarrow> merged_group res" where
  "merge_group cx grp =
     (if length grp = 1 then
        rbind (merge_attribution grp) (\<lambda>(_, prio).
          Inr \<lparr>m_request = c_request (hd grp), m_winner = hd grp, m_members = grp,
               m_sources_mask = sources_mask [c_adapter (hd grp)], m_attr_prio = prio, m_usage_mismatch = False\<rparr>)
      else
        let winner = hd (sort_key (c_rank cx) grp); w = c_request winner;
            with_msg = filter (\<lambda>c. message_ids c \<noteq> []) grp;
            rid = Min (set (map (\<lambda>c. request_id (c_request c)) (if with_msg \<noteq> [] then with_msg else grp)));
            usages = remdups (List.map_filter (\<lambda>c. map_option (\<lambda>i. canon_usage cx (usage i)) (serving_inference (c_request c))) grp)
        in rbind (merge_attribution grp) (\<lambda>(attrs, prio).
           rbind (merge_params cx winner grp) (\<lambda>ps.
           rbind (mk_request (w\<lparr>request_id := rid, attribution := attrs, params := ps, attempts := fill_diagnostics cx winner grp,
               fingerprint := (if fingerprint w \<noteq> None then fingerprint w else first_by_priority cx grp fingerprint),
               appended := (if appended w \<noteq> [] then appended w
                            else from_option (first_by_priority cx grp (\<lambda>r. non_nil (appended r))))\<rparr>)) (\<lambda>m.
           Inr \<lparr>m_request = m, m_winner = winner, m_members = sort_key (c_key cx) grp,
                m_sources_mask = sources_mask (map c_adapter grp), m_attr_prio = prio, m_usage_mismatch = length usages > 1\<rparr>))))"

definition unique_items :: "codec \<Rightarrow> contribution list \<Rightarrow> contribution list" where
  "unique_items cx cs =
     sort_key (\<lambda>c. (request_id (c_request c), c_adapter c, c_canon cx c))
       (map snd (fold (\<lambda>c d. dsetdefault (c_key cx c) c d) cs []))"

definition collided_hints :: "contribution list \<Rightarrow> string list" where
  "collided_hints items =
     (let pairs = concat (map hint_pairs items)
      in filter (\<lambda>rq. list_ex (\<lambda>(r, m). r = rq \<and> list_ex (\<lambda>(r', m'). r' = rq \<and> m' \<noteq> m) pairs) pairs) (remdups (map fst pairs)))"

definition occurrences :: "string list \<Rightarrow> contribution list \<Rightarrow> (nat \<times> join_key) list" where
  "occurrences bad items = concat (map (\<lambda>(i, c). map (\<lambda>k. (i, k)) (join_keys bad c)) (enumerate 0 items))"

fun collect :: "nat list \<Rightarrow> (nat \<times> contribution) list \<Rightarrow> (nat, contribution list) dict \<Rightarrow> (nat, contribution list) dict option" where
  "collect p [] groups = Some groups"
| "collect p ((i, c) # ics) groups = Option.bind (uf_find p i) (\<lambda>(p', r). collect p' ics (dappend r c groups))"

definition contribution_groups :: "codec \<Rightarrow> contribution list \<Rightarrow> string list \<Rightarrow> contribution list list option" where
  "contribution_groups cx cs collided =
     (let items = unique_items cx cs; bad = collided @ collided_hints items
      in Option.bind (link (occurrences bad items) [] (uf_init (length items))) (\<lambda>p.
         map_option (map snd) (collect p (enumerate 0 items) [])))"

definition merge_contributions :: "codec \<Rightarrow> contribution list \<Rightarrow> string list \<Rightarrow> merged_group list res option" where
  "merge_contributions cx cs collided =
     map_option (\<lambda>groups. rbind (rmap (merge_group cx) groups) (\<lambda>ms. Inr (sort_key (\<lambda>m. request_id (m_request m)) ms)))
       (contribution_groups cx cs collided)"

definition dedup :: "codec \<Rightarrow> contribution list \<Rightarrow> (string, contribution) dict" where
  "dedup cx cs = fold (\<lambda>c d. dsetdefault (c_key cx c) c d) cs []"

text \<open>Two contributions are joined when they have a join key in common.\<close>

definition joined :: "string list \<Rightarrow> contribution list \<Rightarrow> (contribution \<times> contribution) set" where
  "joined bad items = {(c, d). c \<in> set items \<and> d \<in> set items \<and> set (join_keys bad c) \<inter> set (join_keys bad d) \<noteq> {}}"

definition COPILOT_CHANNELS :: "string list" where
  "COPILOT_CHANNELS = [''github_copilot'', ''github_actions'', ''github_sandbox'']"

definition COPILOT_AGG_SOURCE_KINDS :: "string list" where
  "COPILOT_AGG_SOURCE_KINDS = [''github.ai_usage_report'', ''github.ai_usage_report.coverage'', ''github.agent_tasks'',
     ''copilot.cli_rollup'', ''gh_aw.run'']"

datatype provider_record = ProvCost cost_line | ProvUsage usage_aggregate | ProvOutcome outcome_aggregate

definition latest_fetch_wins :: "provider_record \<Rightarrow> bool" where
  "latest_fetch_wins r = (case r of
      ProvCost c \<Rightarrow> cl_channel c \<in> set COPILOT_CHANNELS
    | ProvUsage a \<Rightarrow> agg_source_kind a \<in> set COPILOT_AGG_SOURCE_KINDS \<or>
        (case map_of (rev (dims a)) ''channel'' of Some ch \<Rightarrow> ch \<in> set COPILOT_CHANNELS | None \<Rightarrow> False)
    | ProvOutcome oa \<Rightarrow> oa_source_kind oa = ''github.copilot_metrics'')"

definition record_fetched :: "provider_record \<Rightarrow> int" where
  "record_fetched r = (case r of ProvCost c \<Rightarrow> cl_fetched_ms c | ProvUsage a \<Rightarrow> agg_fetched_ms a | ProvOutcome _ \<Rightarrow> 0)"

definition record_final :: "provider_record \<Rightarrow> bool" where
  "record_final r = (case r of ProvCost c \<Rightarrow> cl_finality c = ''final'' | ProvUsage a \<Rightarrow> agg_finality a = ''final'' | ProvOutcome _ \<Rightarrow> False)"

definition version_key :: "(provider_record \<Rightarrow> string) \<Rightarrow> provider_record \<Rightarrow> bool \<Rightarrow> bool \<times> int \<times> string" where
  "version_key canon r copilot = (if copilot then (False, record_fetched r, canon r) else (record_final r, record_fetched r, canon r))"

definition choose_version :: "(provider_record \<Rightarrow> string) \<Rightarrow> provider_record \<Rightarrow> provider_record \<Rightarrow> provider_record" where
  "choose_version canon existing incoming =
     (let copilot = latest_fetch_wins existing \<or> latest_fetch_wins incoming
      in if version_key canon existing copilot < version_key canon incoming copilot then incoming else existing)"

definition shell_rank :: "(lane \<Rightarrow> string) \<Rightarrow> lane \<Rightarrow> bool \<times> bool \<times> string" where
  "shell_rank canon shell = (lane_kind shell = LkUnknown, cache_scope_key shell = ''unknown'', canon shell)"

text \<open>The versions of one provider record: one kind of record (all with or all without the fetch rule), told apart
  by their canonical text.\<close>

definition versions :: "bool \<Rightarrow> (provider_record \<Rightarrow> string) \<Rightarrow> provider_record set \<Rightarrow> bool" where
  "versions copilot canon rs = ((\<forall>r \<in> rs. latest_fetch_wins r = copilot) \<and> inj_on canon rs)"

definition wit_codec :: codec where
  "wit_codec = \<lparr>canon_request = request_id, canon_usage = (\<lambda>_. ''''), canon_diagnostic = (\<lambda>_. ''''), sha_hex = (\<lambda>s. s),
     betas_str = (\<lambda>_. ''''), breakpoints_str = (\<lambda>_. '''')\<rparr>"

definition wit_attempt :: "string \<Rightarrow> attempt" where
  "wit_attempt m = \<lparr>attempt_id = ''a'', attempt_no = 0, att_ts_start_ms = 0, ttft_ms = None, duration_ms = None, att_outcome = OcOk,
     http_status = None, error_type = None, retry_layer = None, retry_after_ms = None, should_retry = None,
     provider_request_id = None, provider_message_id = Some m, model_served = None, stop_reason = None, inferences = [],
     diagnostics = None, applied_edits = [], thinking_dropped = 0, sdk_retry_count = None, raw_usage_json = None,
     convention_id = None\<rparr>"

definition wit_contribution :: "string \<Rightarrow> string \<Rightarrow> contribution" where
  "wit_contribution rid tm = contribution_of \<lparr>request_id = rid, req_session_key = ''s'', req_lane_key = ''l'', seq = 0,
     attribution = \<lparr>principal = None, team = Some tm, cost_center = None, project = None, repo = None, workspace_id = None,
       api_key_id = None, agent_product = None, agent_type = None, query_source = None, skill = None, mcp_server = None,
       plugin = None, workload = WcCi, entrypoint = None, client_version = None, attr_billing_path = None, cwd_key = None,
       arm = None, wave = None, extra = []\<rparr>,
     params = \<lparr>model_requested = ''m'', max_tokens = None, stream = None, thinking = None, effort = None, session_effort = None,
       tool_choice = None, output_format = None, speed_requested = None, service_tier_requested = None,
       inference_geo_requested = None, betas = [], breakpoints = [], automatic_caching = None, context_management = None,
       task_budget = None, web_search_enabled = None, citations_enabled = None, has_images = None, advisor_model = None,
       disable_parallel_tool_use = None\<rparr>,
     attempts = [wit_attempt ''msg''], fingerprint = None, appended = [], source = None\<rparr> ''otlp'' ''x''"

definition wit_version :: "int \<Rightarrow> string \<Rightarrow> provider_record" where
  "wit_version fetched k = ProvOutcome \<lparr>oa_date_utc = ''2026-08-01'', oa_team = k, n_users = fetched, sessions = 0, commits = 0,
     pull_requests = 0, lines_added = 0, lines_removed = 0, edits_accepted = 0, edits_rejected = 0,
     oa_source_kind = ''anthropic.cc_analytics'', oa_extra = []\<rparr>"

definition valid_contribution :: "contribution \<Rightarrow> bool" where
  "valid_contribution c =
     (let r = c_request c in mk_request r = Inr r \<and> mk_attribution (attribution r) = Inr (attribution r) \<and>
        mk_request_params (params r) = Inr (params r))"

subsection \<open>Union-find\<close>

declare uf_find.simps [code] uf_root.simps [simp del]

lemma root_le: "uf_root p i \<le> i"
proof (induction p i rule: uf_root.induct)
  case (1 p i)
  then show ?case by (subst uf_root.simps) (auto intro: order_trans less_imp_le)
qed

lemma uf_ok_less: "uf_ok p \<Longrightarrow> i < length p \<Longrightarrow> p ! i \<noteq> i \<Longrightarrow> p ! i < i"
  by (force simp: uf_ok_def le_less)

lemma root_root: "p ! i = i \<Longrightarrow> uf_root p i = i"
  by (simp add: uf_root.simps)

lemma root_step: "uf_ok p \<Longrightarrow> i < length p \<Longrightarrow> uf_root p (p ! i) = uf_root p i"
  by (cases "p ! i = i") (auto simp: uf_ok_def uf_root.simps [of p i] le_less)

lemma root_fix:
  assumes "uf_ok p" "i < length p"
  shows "p ! uf_root p i = uf_root p i"
  using assms
proof (induction i rule: less_induct)
  case (less i)
  show ?case
  proof (cases "p ! i = i")
    case False
    then have "p ! i < i" using uf_ok_less less.prems by blast
    then show ?thesis using less.IH [of "p ! i"] less.prems root_step by simp
  qed (simp add: root_root)
qed

lemma root_less: "i < length p \<Longrightarrow> uf_root p i < length p"
  using root_le [of p i] by simp

lemma root_idem: "uf_ok p \<Longrightarrow> i < length p \<Longrightarrow> uf_root p (uf_root p i) = uf_root p i"
  by (simp add: root_fix root_root)

text \<open>Redirecting a non-root to a node of the same class that is not larger keeps every class.\<close>

lemma root_redirect:
  assumes ok: "uf_ok p" and i: "i < length p" and k: "k < i" "uf_root p k = uf_root p i" and j: "j < length p"
  shows "uf_root (p[i := k]) j = uf_root p j"
  using j
proof (induction j rule: less_induct)
  case (less j)
  have ok': "uf_ok (p[i := k])" using ok k(1) i by (auto simp: uf_ok_def nth_list_update)
  show ?case
  proof (cases "j = i")
    case True
    have "uf_root (p[i := k]) i = uf_root (p[i := k]) k" using root_step [OF ok', of i] i by simp
    also have "\<dots> = uf_root p k" using less.IH [of k] True k(1) i by simp
    finally show ?thesis using True k(2) by simp
  next
    case False
    show ?thesis
    proof (cases "p ! j = j")
      case True
      then show ?thesis using False by (simp add: root_root)
    next
      case nj: False
      then have "p ! j < j" using uf_ok_less [OF ok] less.prems by blast
      then show ?thesis
        using less.IH [of "p ! j"] less.prems root_step [OF ok' , of j] root_step [OF ok, of j] False by simp
    qed
  qed
qed

lemma uf_find_root:
  assumes "uf_ok p" "i < length p"
  shows "\<exists>p'. uf_find p i = Some (p', uf_root p i) \<and> uf_ok p' \<and> length p' = length p \<and> (\<forall>j < length p. uf_root p' j = uf_root p j)"
  using assms
proof (induction i arbitrary: p rule: less_induct)
  case (less i)
  show ?case
  proof (cases "p ! i = i")
    case True
    then show ?thesis using less.prems by (subst uf_find.simps) (simp add: root_root)
  next
    case False
    define k where "k = p ! (p ! i)"
    have pi: "p ! i < i" using uf_ok_less False less.prems by blast
    have k: "k \<le> p ! i" "uf_root p k = uf_root p i"
      using less.prems pi root_step [of p "p ! i"] root_step [of p i] by (simp_all add: k_def uf_ok_def)
    have ki: "k < i" using k(1) pi by simp
    have ok': "uf_ok (p[i := k])" using less.prems ki by (auto simp: uf_ok_def nth_list_update)
    note rr = root_redirect [OF less.prems ki k(2)]
    obtain p' where p': "uf_find (p[i := k]) k = Some (p', uf_root (p[i := k]) k)" "uf_ok p'" "length p' = length p"
      "\<forall>j < length p. uf_root p' j = uf_root (p[i := k]) j"
      using less.IH [OF ki, of "p[i := k]"] ok' ki less.prems(2) by auto
    have "uf_find p i = uf_find (p[i := k]) k"
      using False less.prems(2) by (subst uf_find.simps) (simp add: k_def Let_def)
    then show ?thesis using p' rr k ki less.prems(2) by simp
  qed
qed

lemma uf_union_root:
  assumes "uf_ok p" "a < length p" "b < length p"
  shows "\<exists>p'. uf_union p a b = Some p' \<and> uf_ok p' \<and> length p' = length p \<and>
     (\<forall>j < length p. uf_root p' j = (if uf_root p j = uf_root p a \<or> uf_root p j = uf_root p b then min (uf_root p a) (uf_root p b) else uf_root p j))"
proof -
  obtain p1 where p1: "uf_find p a = Some (p1, uf_root p a)" "uf_ok p1" "length p1 = length p" "\<forall>j < length p. uf_root p1 j = uf_root p j"
    using uf_find_root [OF assms(1,2)] by blast
  obtain p2 where p2: "uf_find p1 b = Some (p2, uf_root p b)" "uf_ok p2" "length p2 = length p" "\<forall>j < length p. uf_root p2 j = uf_root p j"
    using uf_find_root [OF p1(2), of b] p1(3,4) assms(3) by auto
  define ra rb where "ra = uf_root p a" and "rb = uf_root p b"
  define hi lo where "hi = max ra rb" and "lo = min ra rb"
  have un: "uf_union p a b = Some (if ra \<noteq> rb then p2[hi := lo] else p2)"
    by (simp add: uf_union_def p1(1) p2(1) ra_def rb_def hi_def lo_def)
  have fixr: "p2 ! ra = ra" "p2 ! rb = rb" "ra < length p" "rb < length p"
    using root_fix [OF p2(2), of a] root_fix [OF p2(2), of b] p2(3,4) assms(2,3) root_less [of a p] root_less [of b p]
    by (simp_all add: ra_def rb_def)
  show ?thesis
  proof (cases "ra = rb")
    case True
    then show ?thesis using un p2 by (auto simp: ra_def rb_def)
  next
    case False
    then have lt: "lo < hi" "hi < length p" "p2 ! lo = lo" "p2 ! hi = hi" using fixr by (auto simp: lo_def hi_def min_def max_def)
    have ok': "uf_ok (p2[hi := lo])" using p2(2,3) lt by (auto simp: uf_ok_def nth_list_update)
    have "uf_root (p2[hi := lo]) j = (if uf_root p2 j = hi then lo else uf_root p2 j)" if "j < length p" for j
      using that
    proof (induction j rule: less_induct)
      case (less j)
      show ?case
      proof (cases "j = hi")
        case True
        have "uf_root (p2[hi := lo]) hi = uf_root (p2[hi := lo]) lo" using root_step [OF ok', of hi] lt p2(3) by simp
        also have "\<dots> = lo" using lt by (intro root_root) simp
        finally show ?thesis using True lt by (simp add: root_root)
      next
        case nh: False
        show ?thesis
        proof (cases "p2 ! j = j")
          case True
          then show ?thesis using nh by (simp add: root_root)
        next
          case False
          then have pj: "p2 ! j < j" using uf_ok_less [OF p2(2)] p2(3) less.prems by simp
          have "uf_root (p2[hi := lo]) j = uf_root (p2[hi := lo]) (p2 ! j)"
            using root_step [OF ok', of j] nh less.prems p2(3) by simp
          then show ?thesis using less.IH [OF pj] pj less.prems root_step [OF p2(2), of j] p2(3) by simp
        qed
      qed
    qed
    then show ?thesis
      using un False ok' p2(3,4) by (auto simp: ra_def rb_def hi_def lo_def min_def max_def)
  qed
qed

lemma shares_mono: "A \<subseteq> B \<Longrightarrow> shares A \<subseteq> shares B"
  by (auto simp: shares_def)

lemma shares_sym: "sym ((shares A)\<^sup>*)"
  by (rule sym_rtrancl) (auto simp: shares_def sym_def)

lemma link_invD:
  assumes "link_inv n D first_by p" "(i, k) \<in> D"
  shows "\<exists>f. map_of first_by k = Some f \<and> uf_root p f = uf_root p i \<and> (f, k) \<in> D \<and> f < n \<and> i < n"
proof -
  obtain f where f: "map_of first_by k = Some f" "uf_root p f = uf_root p i"
    using assms unfolding link_inv_def by blast
  have "(f, k) \<in> D" using assms(1) f(1) unfolding link_inv_def by blast
  moreover have "f < n" "i < n" using assms calculation unfolding link_inv_def by blast+
  ultimately show ?thesis using f by blast
qed

lemma link_inv_new:
  assumes "link_inv n D first_by p" "map_of first_by k = None" "i < n"
  shows "link_inv n (insert (i, k) D) (dset k i first_by) p"
proof -
  have no: "(j, k) \<notin> D" for j using assms(1,2) by (fastforce simp: link_inv_def)
  have mono: "(shares D)\<^sup>* \<subseteq> (shares (insert (i, k) D))\<^sup>*" by (intro rtrancl_mono shares_mono) blast
  show ?thesis
    using assms(1,3) mono no unfolding link_inv_def by auto
qed

lemma link_inv_old:
  assumes inv: "link_inv n D first_by p" and f: "map_of first_by k = Some f" and i: "i < n"
  shows "\<exists>p'. uf_union p f i = Some p' \<and> link_inv n (insert (i, k) D) first_by p'"
proof -
  have fD: "(f, k) \<in> D" and fn: "f < n" using inv f by (auto simp: link_inv_def)
  obtain p' where p': "uf_union p f i = Some p'" "uf_ok p'" "length p' = n"
    "\<forall>j < n. uf_root p' j = (if uf_root p j = uf_root p f \<or> uf_root p j = uf_root p i then min (uf_root p f) (uf_root p i) else uf_root p j)"
    using uf_union_root [of p f i] inv fn i by (auto simp: link_inv_def)
  let ?S = "(shares (insert (i, k) D))\<^sup>*"
  have mono: "(shares D)\<^sup>* \<subseteq> ?S" by (intro rtrancl_mono shares_mono) blast
  have old: "(a, b) \<in> ?S" if "a < n" "b < n" "uf_root p a = uf_root p b" for a b
    using inv that mono by (auto simp: link_inv_def)
  have fi: "(f, i) \<in> ?S" "(i, f) \<in> ?S" using fD by (auto simp: shares_def intro!: r_into_rtrancl)
  have keep: "uf_root p' a = uf_root p' b" if "a < n" "b < n" "uf_root p a = uf_root p b" for a b using that p'(4) by simp
  have sound: "(a, b) \<in> ?S" if ab: "a < n" "b < n" "uf_root p' a = uf_root p' b" for a b
  proof (cases "uf_root p a = uf_root p b")
    case True
    then show ?thesis using old ab by blast
  next
    case False
    have cls: "(c, f) \<in> ?S \<and> (f, c) \<in> ?S" if "c < n" "uf_root p c = uf_root p f \<or> uf_root p c = uf_root p i" for c
      using that old [of c f] old [of f c] old [of c i] old [of i c] fn i fi by (metis rtrancl_trans)
    have mem: "uf_root p c = uf_root p f \<or> uf_root p c = uf_root p i"
      if "c < n" "d < n" "uf_root p' c = uf_root p' d" "uf_root p c \<noteq> uf_root p d" for c d
      using that p'(4) by (auto simp: min_def split: if_splits)
    have "uf_root p a = uf_root p f \<or> uf_root p a = uf_root p i" "uf_root p b = uf_root p f \<or> uf_root p b = uf_root p i"
      using mem [of a b] mem [of b a] ab False by auto
    then show ?thesis using cls ab by (meson rtrancl_trans)
  qed
  have "uf_root p' f = uf_root p' i" using p'(4) fn i by simp
  then have comp: "\<exists>g. map_of first_by q = Some g \<and> uf_root p' g = uf_root p' j" if "(j, q) \<in> insert (i, k) D" for j q
  proof (cases "(j, q) \<in> D")
    case True
    then show ?thesis using link_invD [OF inv True] keep by blast
  next
    case False
    then show ?thesis using that f \<open>uf_root p' f = uf_root p' i\<close> by simp
  qed
  show ?thesis
    using p'(1,2,3) sound comp inv i unfolding link_inv_def by (intro exI [of _ p']) auto
qed

lemma link_ok:
  assumes "link_inv n D first_by p" "\<forall>(i, k) \<in> set occ. i < n"
  shows "\<exists>p' fb. link occ first_by p = Some p' \<and> link_inv n (set occ \<union> D) fb p'"
  using assms
proof (induction occ arbitrary: D first_by p)
  case (Cons ik occ)
  obtain i k where ik: "ik = (i, k)" by fastforce
  show ?case
  proof (cases "map_of first_by k")
    case None
    then show ?thesis
      using Cons.IH [OF link_inv_new [OF Cons.prems(1) None]] Cons.prems(2) by (auto simp: ik)
  next
    case (Some f)
    obtain p1 where p1: "uf_union p f i = Some p1" "link_inv n (insert (i, k) D) first_by p1"
      using link_inv_old [OF Cons.prems(1) Some] Cons.prems(2) by (auto simp: ik)
    then show ?thesis using Cons.IH [OF p1(2)] Cons.prems(2) Some by (auto simp: ik)
  qed
qed auto

lemma uf_init_ok: "uf_ok (uf_init n)" "length (uf_init n) = n" "i < n \<Longrightarrow> uf_root (uf_init n) i = i"
  by (auto simp: uf_init_def uf_ok_def uf_root.simps)

text \<open>The loop ends, and two contributions have one representative exactly when a chain of shared keys connects them.\<close>

lemma link_components:
  assumes "\<forall>(i, k) \<in> set occ. i < n"
  shows "\<exists>p. link occ [] (uf_init n) = Some p \<and> uf_ok p \<and> length p = n \<and>
     (\<forall>i < n. \<forall>j < n. uf_root p i = uf_root p j \<longleftrightarrow> (i, j) \<in> (shares (set occ))\<^sup>*)"
proof -
  have "link_inv n {} [] (uf_init n)" by (simp add: link_inv_def uf_init_ok)
  from link_ok [OF this assms] obtain p fb where p: "link occ [] (uf_init n) = Some p" "link_inv n (set occ) fb p" by auto
  have one: "uf_root p i = uf_root p j" if "(i, j) \<in> shares (set occ)" for i j
  proof -
    obtain k where "(i, k) \<in> set occ" "(j, k) \<in> set occ" using \<open>(i, j) \<in> shares (set occ)\<close> by (auto simp: shares_def)
    then show ?thesis using link_invD [OF p(2)] by (metis option.inject)
  qed
  have "uf_root p i = uf_root p j" if "(i, j) \<in> (shares (set occ))\<^sup>*" for i j
    using that by (rule rtrancl_induct) (auto simp: one)
  then show ?thesis using p unfolding link_inv_def by blast
qed

subsection \<open>Contributions\<close>

subsection \<open>Merging one group\<close>

subsection \<open>Merging\<close>

subsection \<open>The groups\<close>

lemma dedup_facts:
  "distinct (map fst (dedup cx cs))" "\<forall>(k, c) \<in> set (dedup cx cs). k = c_key cx c \<and> c \<in> set cs"
  "fst ` set (dedup cx cs) = c_key cx ` set cs"
proof -
  have "distinct (map fst (dedup cx cs)) \<and> (\<forall>(k, c) \<in> set (dedup cx cs). k = c_key cx c \<and> c \<in> set cs) \<and>
    fst ` set (dedup cx cs) = c_key cx ` set cs"
  proof (induction cs rule: rev_induct)
    case (snoc c cs)
    have s: "dedup cx (cs @ [c]) = dsetdefault (c_key cx c) c (dedup cx cs)" by (simp add: dedup_def)
    show ?case
    proof (cases "map_of (dedup cx cs) (c_key cx c)")
      case None
      then have "c_key cx c \<notin> fst ` set (dedup cx cs)" by (simp add: map_of_eq_None_iff)
      then show ?thesis using snoc None by (auto simp: s dsetdefault_def)
    next
      case (Some x)
      then have "c_key cx c \<in> fst ` set (dedup cx cs)" by (force dest: map_of_SomeD)
      then show ?thesis using snoc Some by (auto simp: s dsetdefault_def)
    qed
  qed (simp add: dedup_def)
  then show "distinct (map fst (dedup cx cs))" "\<forall>(k, c) \<in> set (dedup cx cs). k = c_key cx c \<and> c \<in> set cs"
    "fst ` set (dedup cx cs) = c_key cx ` set cs" by blast+
qed

lemma unique_items_eq: "unique_items cx cs = sort_key (\<lambda>c. (request_id (c_request c), c_adapter c, c_canon cx c)) (map snd (dedup cx cs))"
  by (simp add: unique_items_def dedup_def)

lemma distinct_unique_items: "distinct (unique_items cx cs)" "inj_on (c_key cx) (set (unique_items cx cs))"
proof -
  have k: "map fst (dedup cx cs) = map (c_key cx) (map snd (dedup cx cs))"
    using dedup_facts(2) [of cx cs] by (auto intro!: map_cong)
  then have "distinct (map (c_key cx) (map snd (dedup cx cs)))" using dedup_facts(1) [of cx cs] by (simp only:)
  then show "distinct (unique_items cx cs)" "inj_on (c_key cx) (set (unique_items cx cs))"
    by (simp_all add: unique_items_eq distinct_map del: map_map list.map_comp)
qed

lemma set_unique_items: "set (unique_items cx cs) \<subseteq> set cs" "c_key cx ` set (unique_items cx cs) = c_key cx ` set cs"
proof -
  show "set (unique_items cx cs) \<subseteq> set cs" using dedup_facts(2) [of cx cs] by (auto simp: unique_items_eq)
  have "c_key cx ` snd ` set (dedup cx cs) = fst ` set (dedup cx cs)"
    using dedup_facts(2) [of cx cs] by (force simp: image_iff)
  then show "c_key cx ` set (unique_items cx cs) = c_key cx ` set cs"
    by (simp add: unique_items_eq dedup_facts(3))
qed

lemma collect_groups:
  assumes "uf_ok p" "\<forall>(i, c) \<in> set ics. i < length p \<and> f c = uf_root p i"
  shows "collect p ics g = Some (fold (\<lambda>c d. dappend (f c) c d) (map snd ics) g)"
  using assms
proof (induction ics arbitrary: p g)
  case (Cons ic ics)
  obtain i c where ic: "ic = (i, c)" by fastforce
  obtain p' where p': "uf_find p i = Some (p', uf_root p i)" "uf_ok p'" "length p' = length p" "\<forall>j < length p. uf_root p' j = uf_root p j"
    using uf_find_root [OF Cons.prems(1), of i] Cons.prems(2) by (auto simp: ic)
  have "\<forall>(i, c) \<in> set ics. i < length p' \<and> f c = uf_root p' i" using Cons.prems(2) p'(3,4) by (auto simp: ic)
  then show ?case using Cons.IH [OF p'(2)] p'(1) Cons.prems(2) by (simp add: ic)
qed simp

lemma index_of_nth: "distinct xs \<Longrightarrow> i < length xs \<Longrightarrow> index_of xs (xs ! i) = Some i"
  by (induction xs arbitrary: i) (auto simp: nth_Cons split: nat.split)

lemma occurrences_iff: "(i, k) \<in> set (occurrences bad items) \<longleftrightarrow> i < length items \<and> k \<in> set (join_keys bad (items ! i))"
  by (force simp: occurrences_def in_set_enumerate_eq)

lemma shares_joined:
  assumes "distinct items" "i < length items" "j < length items"
  shows "(i, j) \<in> (shares (set (occurrences bad items)))\<^sup>* \<longleftrightarrow> (items ! i, items ! j) \<in> (joined bad items)\<^sup>*"
proof
  have st: "(a, b) \<in> shares (set (occurrences bad items)) \<longleftrightarrow>
      a < length items \<and> b < length items \<and> (items ! a, items ! b) \<in> joined bad items" for a b
    by (auto simp: shares_def occurrences_iff joined_def)
  show "(items ! i, items ! j) \<in> (joined bad items)\<^sup>*" if "(i, j) \<in> (shares (set (occurrences bad items)))\<^sup>*"
    using that by (induction rule: rtrancl_induct) (auto simp: st intro: rtrancl_into_rtrancl)
  assume "(items ! i, items ! j) \<in> (joined bad items)\<^sup>*"
  then have "\<exists>b < length items. items ! b = items ! j \<and> (i, b) \<in> (shares (set (occurrences bad items)))\<^sup>*"
  proof (induction rule: rtrancl_induct)
    case base
    then show ?case using assms(2) by blast
  next
    case (step y z)
    then obtain b where b: "b < length items" "items ! b = y" "(i, b) \<in> (shares (set (occurrences bad items)))\<^sup>*" by blast
    obtain e where e: "e < length items" "items ! e = z" using step.hyps(2) by (auto simp: joined_def in_set_conv_nth)
    have "(b, e) \<in> shares (set (occurrences bad items))" using st b e step.hyps(2) by simp
    then show ?case using b e by (blast intro: rtrancl_into_rtrancl)
  qed
  then show "(i, j) \<in> (shares (set (occurrences bad items)))\<^sup>*" using assms by (metis nth_eq_iff_index_eq)
qed

lemma contribution_groups_group:
  assumes "items = unique_items cx cs" "bad = collided @ collided_hints items"
  shows "\<exists>f :: contribution \<Rightarrow> nat. contribution_groups cx cs collided = Some (map snd (group_by_key f items)) \<and>
     (\<forall>c \<in> set items. \<forall>d \<in> set items. f c = f d \<longleftrightarrow> (c, d) \<in> (joined bad items)\<^sup>*)"
proof -
  have dist: "distinct items" by (simp add: assms distinct_unique_items)
  have "\<forall>(i, k) \<in> set (occurrences bad items). i < length items" by (auto simp: occurrences_iff)
  from link_components [OF this] obtain p where p: "link (occurrences bad items) [] (uf_init (length items)) = Some p"
    "uf_ok p" "length p = length items"
    "\<forall>i < length items. \<forall>j < length items. uf_root p i = uf_root p j \<longleftrightarrow> (i, j) \<in> (shares (set (occurrences bad items)))\<^sup>*"
    by blast
  define f where "f c = uf_root p (the (index_of items c))" for c
  have fi: "f (items ! i) = uf_root p i" if "i < length items" for i using that dist by (simp add: f_def index_of_nth)
  have "\<forall>(i, c) \<in> set (enumerate 0 items). i < length p \<and> f c = uf_root p i"
    by (auto simp: in_set_enumerate_eq p(3) fi)
  from collect_groups [OF p(2) this, of "[]"]
  have "collect p (enumerate 0 items) [] = Some (group_by_key f items)" by (simp add: group_by_key_def)
  then have gs: "contribution_groups cx cs collided = Some (map snd (group_by_key f items))"
    using p(1) by (simp add: contribution_groups_def Let_def assms)
  have "f c = f d \<longleftrightarrow> (c, d) \<in> (joined bad items)\<^sup>*" if cd: "c \<in> set items" "d \<in> set items" for c d
  proof -
    obtain i j where ij: "i < length items" "items ! i = c" "j < length items" "items ! j = d"
      using cd by (auto simp: in_set_conv_nth)
    have "f c = f d \<longleftrightarrow> uf_root p i = uf_root p j" using ij fi by metis
    also have "\<dots> \<longleftrightarrow> (i, j) \<in> (shares (set (occurrences bad items)))\<^sup>*" using p(4) ij by blast
    finally show ?thesis using shares_joined [OF dist ij(1,3), of bad] ij by simp
  qed
  then show ?thesis using gs by (intro exI [of _ f]) simp
qed

lemma contribution_groups_facts:
  "\<exists>gs. contribution_groups cx cs collided = Some gs \<and> mset (concat gs) = mset (unique_items cx cs) \<and> (\<forall>g \<in> set gs. g \<noteq> [])"
proof -
  obtain f :: "contribution \<Rightarrow> nat" where "contribution_groups cx cs collided = Some (map snd (group_by_key f (unique_items cx cs)))"
    using contribution_groups_group [OF refl refl] by blast
  then show ?thesis using mset_group_by_key [of f "unique_items cx cs"] by (auto dest: group_by_key_member(2))
qed

text \<open>C9: The merge groups are exactly the connected components of the contributions under shared join keys: the
  union-find loop ends for every input, its groups are a partition of the distinct contributions, and two
  contributions are in one group exactly when a chain of shared request ids, message ids or non-colliding request
  hints connects them.\<close>

theorem merge_groups_are_components:
  shows "\<exists>gs. contribution_groups cx cs collided = Some gs \<and> mset (concat gs) = mset (unique_items cx cs) \<and>
    {(c, d). \<exists>g \<in> set gs. c \<in> set g \<and> d \<in> set g} =
      (joined (collided @ collided_hints (unique_items cx cs)) (unique_items cx cs))\<^sup>* \<inter>
        (set (unique_items cx cs) \<times> set (unique_items cx cs))"
proof -
  define items where "items = unique_items cx cs"
  define bad where "bad = collided @ collided_hints items"
  obtain f :: "contribution \<Rightarrow> nat" where f: "contribution_groups cx cs collided = Some (map snd (group_by_key f items))"
    "\<forall>c \<in> set items. \<forall>d \<in> set items. f c = f d \<longleftrightarrow> (c, d) \<in> (joined bad items)\<^sup>*"
    using contribution_groups_group [OF items_def bad_def] by blast
  have same: "(\<exists>g \<in> set (map snd (group_by_key f items)). c \<in> set g \<and> d \<in> set g) \<longleftrightarrow> f c = f d"
    if "c \<in> set items" "d \<in> set items" for c d
  proof
    assume "\<exists>g \<in> set (map snd (group_by_key f items)). c \<in> set g \<and> d \<in> set g"
    then show "f c = f d" by (auto dest!: group_by_key_member(1))
  next
    assume e: "f c = f d"
    have "map_of (group_by_key f items) (f c) = Some (filter (\<lambda>x. f x = f c) items)" using that by (simp add: map_of_group_by_key)
    then have "(f c, filter (\<lambda>x. f x = f c) items) \<in> set (group_by_key f items)" by (rule map_of_SomeD)
    then show "\<exists>g \<in> set (map snd (group_by_key f items)). c \<in> set g \<and> d \<in> set g" using that e by force
  qed
  have inside: "c \<in> set items" if "g \<in> set (map snd (group_by_key f items))" "c \<in> set g" for c g
    using that mset_eq_setD [OF mset_group_by_key [of f items]] by auto
  have "(\<exists>g \<in> set (map snd (group_by_key f items)). c \<in> set g \<and> d \<in> set g) \<longleftrightarrow>
      (c, d) \<in> (joined bad items)\<^sup>* \<and> c \<in> set items \<and> d \<in> set items" for c d
    using same inside f(2) by blast
  then have "{(c, d). \<exists>g \<in> set (map snd (group_by_key f items)). c \<in> set g \<and> d \<in> set g} =
      (joined bad items)\<^sup>* \<inter> (set items \<times> set items)"
    unfolding set_eq_iff split_paired_All mem_Collect_eq prod.case Int_iff mem_Sigma_iff by blast
  then show ?thesis
    using f(1) mset_group_by_key [of f items]
    by (intro exI [of _ "map snd (group_by_key f items)"]) (simp add: items_def [symmetric] bad_def [symmetric] comp_def)
qed

subsection \<open>Order independence\<close>

lemma sort_key_unique:
  assumes "distinct xs" "distinct ys" "set xs = set ys" "inj_on f (set xs)"
  shows "sort_key f xs = sort_key f ys"
proof -
  have "mset (map f xs) = mset (map f ys)" using assms(1-3) by (metis mset_map set_eq_iff_mset_eq_distinct)
  then have "map f (sort_key f xs) = map f (sort_key f ys)"
    by (metis (no_types, lifting) mset_map mset_sort properties_for_sort sorted_sort_key)
  then show ?thesis by (rule map_inj_on) (use assms in simp)
qed

text \<open>C8: Merging is idempotent and order-independent: two lists with the same contributions, in any order and with
  any repetitions, give the same merged requests with the same metadata, provided that contributions with one key
  (adapter and digest of the canonical JSON) are the same contribution.\<close>

theorem merge_order_independent:
  assumes "set cs = set cs'" "inj_on (c_key cx) (set cs)"
  shows "merge_contributions cx cs collided = merge_contributions cx cs' collided"
proof -
  have sk: "inj_on (\<lambda>c. (request_id (c_request c), c_adapter c, c_canon cx c)) (set cs)"
    using assms(2) unfolding inj_on_def c_key_def by simp
  have u: "set (unique_items cx ds) = set ds" if "inj_on (c_key cx) (set ds)" for ds
    using set_unique_items [of cx ds] that by (metis inj_on_image_eq_iff order_refl)
  have "set (map snd (dedup cx cs)) = set (map snd (dedup cx cs'))"
    using u [of cs] u [of cs'] assms by (simp add: unique_items_eq)
  moreover have "distinct (map snd (dedup cx ds))" for ds
    using distinct_unique_items(1) [of cx ds] by (simp add: unique_items_eq)
  moreover have "set (map snd (dedup cx cs)) = set cs" using u [OF assms(2)] by (simp add: unique_items_eq)
  ultimately have "unique_items cx cs = unique_items cx cs'"
    unfolding unique_items_eq using sk by (intro sort_key_unique) simp_all
  then show ?thesis by (simp add: merge_contributions_def contribution_groups_def)
qed

subsection \<open>Versions of a provider record\<close>

text \<open>The choice between two versions: a join of the versions of one record under its version order.\<close>

locale version_choice =
  fixes choice :: "'r \<Rightarrow> 'r \<Rightarrow> 'r" and vkey :: "'r \<Rightarrow> 'k::linorder" and vs :: "'r set"
  assumes choice_later: "a \<in> vs \<Longrightarrow> b \<in> vs \<Longrightarrow> choice a b = (if vkey a < vkey b then b else a)"
    and vkey_inj: "inj_on vkey vs"
begin

lemma closed: "a \<in> vs \<Longrightarrow> b \<in> vs \<Longrightarrow> choice a b \<in> vs"
  by (simp add: choice_later)

lemma commutative: "a \<in> vs \<Longrightarrow> b \<in> vs \<Longrightarrow> choice a b = choice b a"
  using vkey_inj by (auto simp: choice_later inj_on_def)

lemma associative: "a \<in> vs \<Longrightarrow> b \<in> vs \<Longrightarrow> c \<in> vs \<Longrightarrow> choice (choice a b) c = choice a (choice b c)"
  by (auto simp: choice_later)

lemma idempotent: "a \<in> vs \<Longrightarrow> choice a a = a"
  by (simp add: choice_later)

lemma fold_order:
  assumes "a \<in> vs" "set xs \<subseteq> vs" "set (a # xs) = set (b # ys)"
  shows "fold (\<lambda>x acc. choice acc x) xs a = fold (\<lambda>x acc. choice acc x) ys b"
proof -
  have best: "fold (\<lambda>x acc. choice acc x) zs z \<in> set (z # zs) \<and> (\<forall>y \<in> set (z # zs). vkey y \<le> vkey (fold (\<lambda>x acc. choice acc x) zs z))"
    if "z \<in> vs" "set zs \<subseteq> vs" for z zs
    using that
  proof (induction zs arbitrary: z)
    case (Cons y zs)
    have "choice z y \<in> vs" "choice z y = (if vkey z < vkey y then y else z)" using Cons.prems by (simp_all add: choice_later)
    then show ?case using Cons.IH [of "choice z y"] Cons.prems(2) by (auto simp: not_less split: if_splits)
  qed simp
  let ?x = "fold (\<lambda>x acc. choice acc x) xs a" and ?y = "fold (\<lambda>x acc. choice acc x) ys b"
  have bd: "b \<in> vs" "set ys \<subseteq> vs" using assms by auto
  note x = best [OF assms(1,2)] and y = best [OF bd]
  have m: "?x \<in> set (b # ys)" "?y \<in> set (a # xs)" using x y assms(3) by blast+
  then have "vkey ?x = vkey ?y" using x y by (blast intro: antisym)
  moreover have "?x \<in> vs" "?y \<in> vs" using m bd assms(1,2) by auto
  ultimately show ?thesis using vkey_inj by (auto simp: inj_on_def)
qed

end

interpretation vc: version_choice "choose_version canon" "\<lambda>r. version_key canon r copilot"
    "if versions copilot canon rs then rs else {}" for canon copilot rs
proof
  show "choose_version canon a b = (if version_key canon a copilot < version_key canon b copilot then b else a)"
    if "a \<in> (if versions copilot canon rs then rs else {})" "b \<in> (if versions copilot canon rs then rs else {})" for a b
    using that by (auto simp: choose_version_def versions_def Let_def split: if_splits)
  show "inj_on (\<lambda>r. version_key canon r copilot) (if versions copilot canon rs then rs else {})"
    by (auto simp: inj_on_def versions_def version_key_def split: if_splits)
qed

text \<open>The version kept of a provider record does not depend on the order in which its versions arrive, nor on
  repetitions: folding the pairwise choice over any two arrangements of the same versions gives the same record.\<close>

theorem choose_version_order_independent:
  assumes "versions copilot canon (set (a # xs))" "set (a # xs) = set (b # ys)"
  shows "fold (\<lambda>x acc. choose_version canon acc x) xs a = fold (\<lambda>x acc. choose_version canon acc x) ys b"
  using vc.fold_order [of a copilot canon "set (a # xs)" xs b ys] assms by auto

theorem merge_order_independent_witness:
  "merge_contributions wit_codec [wit_contribution ''q1'' ''b'', wit_contribution ''q2'' ''a''] [] =
   merge_contributions wit_codec [wit_contribution ''q2'' ''a'', wit_contribution ''q1'' ''b'', wit_contribution ''q2'' ''a''] [] \<and>
   map_option (\<lambda>r. case r of Inl _ \<Rightarrow> [] | Inr ms \<Rightarrow> map (\<lambda>m. (request_id (m_request m), team (attribution (m_request m)))) ms)
     (merge_contributions wit_codec [wit_contribution ''q1'' ''b'', wit_contribution ''q2'' ''a''] []) = Some [(''q1'', Some ''a'')]"
proof
  have k: "inj_on (c_key wit_codec) (set [wit_contribution ''q1'' ''b'', wit_contribution ''q2'' ''a''])"
    by (simp add: inj_on_def c_key_def c_canon_def wit_codec_def wit_contribution_def contribution_of_def)
  show "merge_contributions wit_codec [wit_contribution ''q1'' ''b'', wit_contribution ''q2'' ''a''] [] =
   merge_contributions wit_codec [wit_contribution ''q2'' ''a'', wit_contribution ''q1'' ''b'', wit_contribution ''q2'' ''a''] []"
    by (rule merge_order_independent [OF _ k]) auto
  show "map_option (\<lambda>r. case r of Inl _ \<Rightarrow> [] | Inr ms \<Rightarrow> map (\<lambda>m. (request_id (m_request m), team (attribution (m_request m)))) ms)
     (merge_contributions wit_codec [wit_contribution ''q1'' ''b'', wit_contribution ''q2'' ''a''] []) = Some [(''q1'', Some ''a'')]"
    by code_simp
qed

theorem choose_version_order_independent_witness:
  "choose_version (\<lambda>r. case r of ProvOutcome oa \<Rightarrow> oa_team oa | _ \<Rightarrow> '''') (wit_version 1 ''x'') (wit_version 2 ''y'') =
   choose_version (\<lambda>r. case r of ProvOutcome oa \<Rightarrow> oa_team oa | _ \<Rightarrow> '''') (wit_version 2 ''y'') (wit_version 1 ''x'')"
  using choose_version_order_independent [of False "\<lambda>r. case r of ProvOutcome oa \<Rightarrow> oa_team oa | _ \<Rightarrow> ''''"
      "wit_version 1 ''x''" "[wit_version 2 ''y'']" "wit_version 2 ''y''" "[wit_version 1 ''x'']"]
  by (auto simp: versions_def wit_version_def latest_fetch_wins_def)

subsection \<open>Merging never fails on valid requests\<close>

lemma pick_mem: "pick k cands = Some pv \<Longrightarrow> pv \<in> set cands"
proof -
  assume h: "pick k cands = Some pv"
  then have ne: "cands \<noteq> []" by (auto simp: pick_def)
  define best where "best = Max (set (map fst cands))"
  have "best \<in> set (map fst cands)" unfolding best_def using ne by (intro Max_in) auto
  then have f: "filter (\<lambda>pv. fst pv = best) cands \<noteq> []" by (auto simp: filter_empty_conv)
  define vs where "vs = sort_key k (map snd (filter (\<lambda>pv. fst pv = best) cands))"
  have "vs \<noteq> []" using f by (simp add: vs_def) (metis length_0_conv length_map length_sort list.size(3))
  then have "hd vs \<in> set vs" by simp
  then have "(best, hd vs) \<in> set cands" by (auto simp: vs_def)
  moreover have "pv = (best, hd vs)" using h ne by (simp add: pick_def Let_def best_def vs_def)
  ultimately show ?thesis by simp
qed

lemma pick_nonempty: "cands \<noteq> [] \<Longrightarrow> \<exists>pv. pick k cands = Some pv"
  by (simp add: pick_def Let_def)

lemma merged_candidate_mem: "(p, v) \<in> set (candidates g grp) \<Longrightarrow> \<exists>c \<in> set grp. g (c_request c) = Some v"
  by (induction grp) (auto simp: candidates_def List.map_filter_simps split: option.splits)

lemma merged_field_from: "merged_field grp g = Some v \<Longrightarrow> \<exists>c \<in> set grp. g (attribution (c_request c)) = Some v"
  unfolding merged_field_def using pick_mem merged_candidate_mem by (fastforce simp: map_option_case split: option.splits)

lemma merged_field_ok:
  "(\<And>c. c \<in> set grp \<Longrightarrow> opt_ok P (g (attribution (c_request c)))) \<Longrightarrow> opt_ok P (merged_field grp g)"
  by (cases "merged_field grp g") (auto simp: opt_ok_def dest!: merged_field_from, metis option.simps(5))

lemma fill_ok:
  assumes "opt_ok P (g base)" "\<And>c. c \<in> set grp \<Longrightarrow> opt_ok P (g (params (c_request c)))"
  shows "opt_ok P (fill k g base grp)"
proof (cases "fill k g base grp")
  case (Some v)
  then have "g base = Some v \<or> (\<exists>c \<in> set grp. g (params (c_request c)) = Some v)"
    unfolding fill_def using pick_mem merged_candidate_mem by (fastforce simp: map_option_case split: option.splits)
  then show ?thesis using assms Some by (metis opt_ok_def option.simps(5))
qed (simp add: opt_ok_def)

lemma extra_candidates_facts:
  "distinct (map fst (extra_candidates grp))"
  "(k, cs) \<in> set (extra_candidates grp) \<Longrightarrow> cs \<noteq> [] \<and> (\<forall>pv \<in> set cs. \<exists>c \<in> set grp. (k, snd pv) \<in> set (extra (attribution (c_request c))))"
proof -
  define f where "f ys = fold (\<lambda>(k, pv) d. dappend k pv d) ys ([] :: (string, (int \<times> string) list) dict)" for ys
  have inv: "distinct (map fst (f ys)) \<and> (\<forall>k cs. map_of (f ys) k = Some cs \<longrightarrow> cs \<noteq> [] \<and> (\<forall>pv \<in> set cs. (k, pv) \<in> set ys))" for ys
  proof (induction ys rule: rev_induct)
    case (snoc y ys)
    obtain k pv where y: "y = (k, pv)" by (cases y)
    have "f (ys @ [y]) = dset k (dget (f ys) k [] @ [pv]) (f ys)" by (simp add: f_def y dappend_def)
    moreover have "distinct (map fst d) \<Longrightarrow> distinct (map fst (dset k v d))" for v and d :: "(string, (int \<times> string) list) dict"
      by (simp add: dset_def distinct_update)
    ultimately show ?case
      using snoc by (auto simp: dget_def y split: option.splits)
  qed (simp add: f_def)
  define xs where "xs = concat (map (\<lambda>c. map (\<lambda>(k, v). (k, c_priority c, v)) (extra (attribution (c_request c)))) grp)"
  have e: "extra_candidates grp = f xs" by (simp add: extra_candidates_def f_def xs_def)
  show "distinct (map fst (extra_candidates grp))" using inv by (simp add: e)
  show "cs \<noteq> [] \<and> (\<forall>pv \<in> set cs. \<exists>c \<in> set grp. (k, snd pv) \<in> set (extra (attribution (c_request c))))"
    if "(k, cs) \<in> set (extra_candidates grp)"
  proof -
    have "map_of (f xs) k = Some cs" using that inv [of xs] by (simp add: e)
    then have "cs \<noteq> []" "\<forall>pv \<in> set cs. (k, pv) \<in> set xs" using inv [of xs] by blast+
    moreover have "\<exists>c \<in> set grp. (k, snd pv) \<in> set (extra (attribution (c_request c)))" if "(k, pv) \<in> set xs" for pv
      using that by (auto simp: xs_def)
    ultimately show ?thesis by blast
  qed
qed

lemma sorted_pairs_returns: "distinct (map fst ps) \<Longrightarrow> \<exists>qs. sorted_pairs ps = Inr qs \<and> set qs = set ps"
proof -
  assume d: "distinct (map fst ps)"
  have "mset (map fst (sort_key fst ps)) = mset (map fst ps)" by simp
  then have "distinct (map fst (sort_key fst ps))" using d by (metis mset_eq_imp_distinct_iff)
  then show ?thesis by (simp add: sorted_pairs_def)
qed

lemma mk_attribution_facts:
  assumes "mk_attribution a = Inr a"
  shows "opt_ok principal_ok (principal a)" "opt_ok hashed_ok (api_key_id a)" "opt_ok hashed_ok (cwd_key a)"
    "opt_ok (one_of BILLING_PATHS) (attr_billing_path a)" "\<forall>(k, v) \<in> set (extra a). one_of EXTRA_KEYS k \<and> length v \<le> 128"
proof -
  obtain ex where ex: "sorted_pairs (extra a) = Inr ex"
    "validated (opt_ok principal_ok (principal a) \<and> opt_ok hashed_ok (api_key_id a) \<and> opt_ok hashed_ok (cwd_key a) \<and>
      opt_ok (one_of BILLING_PATHS) (attr_billing_path a) \<and> list_all (\<lambda>(k, v). one_of EXTRA_KEYS k \<and> length v \<le> 128) ex) (a\<lparr>extra := ex\<rparr>) = Inr a"
    using assms unfolding mk_attribution_def rbind_eq_Inr by blast
  have "set ex = set (extra a)" using ex(1) by (auto simp: sorted_pairs_def Let_def split: if_splits)
  with ex(2) show "opt_ok principal_ok (principal a)" "opt_ok hashed_ok (api_key_id a)" "opt_ok hashed_ok (cwd_key a)"
    "opt_ok (one_of BILLING_PATHS) (attr_billing_path a)" "\<forall>(k, v) \<in> set (extra a). one_of EXTRA_KEYS k \<and> length v \<le> 128"
    by (auto simp: validated_def list_all_iff split: if_splits)
qed

lemma mk_attribution_returns:
  assumes "opt_ok principal_ok (principal a)" "opt_ok hashed_ok (api_key_id a)" "opt_ok hashed_ok (cwd_key a)"
    "opt_ok (one_of BILLING_PATHS) (attr_billing_path a)" "\<forall>(k, v) \<in> set (extra a). one_of EXTRA_KEYS k \<and> length v \<le> 128"
    "distinct (map fst (extra a))"
  shows "\<exists>b. mk_attribution a = Inr b"
proof -
  obtain qs where "sorted_pairs (extra a) = Inr qs" "set qs = set (extra a)" using sorted_pairs_returns [OF assms(6)] by blast
  then show ?thesis using assms(1-5) by (simp add: mk_attribution_def validated_def list_all_iff)
qed

lemma merge_attribution_returns:
  assumes "\<forall>c \<in> set grp. valid_contribution c"
  shows "\<exists>x. merge_attribution grp = Inr x"
proof -
  have va: "mk_attribution (attribution (c_request c)) = Inr (attribution (c_request c))" if "c \<in> set grp" for c
    using assms that by (auto simp: valid_contribution_def Let_def)
  define ex where "ex = map (\<lambda>(k, cs). (k, the (pick (\<lambda>s. s) cs))) (sort_key fst (extra_candidates grp))"
  have keys: "map fst (map (\<lambda>(k, pv). (k, snd pv)) ex) = map fst (sort_key fst (extra_candidates grp))"
    by (simp add: ex_def case_prod_beta comp_def)
  have "mset (map fst (sort_key fst (extra_candidates grp))) = mset (map fst (extra_candidates grp))" by simp
  then have dist: "distinct (map fst (map (\<lambda>(k, pv). (k, snd pv)) ex))"
    unfolding keys using extra_candidates_facts(1) [of grp] by (metis mset_eq_imp_distinct_iff)
  have ok: "one_of EXTRA_KEYS k \<and> length v \<le> 128" if "(k, v) \<in> set (map (\<lambda>(k, pv). (k, snd pv)) ex)" for k v
  proof -
    note kv = that
    obtain q where q: "(k, q) \<in> set ex" "v = snd q" using kv by auto
    then obtain cs where cs: "(k, cs) \<in> set (extra_candidates grp)" "v = snd (the (pick (\<lambda>s. s) cs))"
      unfolding ex_def by auto
    from extra_candidates_facts(2) [OF cs(1)] obtain pv where pv: "pick (\<lambda>s. s) cs = Some pv" using pick_nonempty by blast
    then have "pv \<in> set cs" by (rule pick_mem)
    then obtain c where "c \<in> set grp" "(k, snd pv) \<in> set (extra (attribution (c_request c)))"
      using extra_candidates_facts(2) [OF cs(1)] by blast
    then show ?thesis using mk_attribution_facts(5) [OF va] cs(2) pv by fastforce
  qed
  have okx: "\<forall>(k, v) \<in> set (map (\<lambda>(k, pv). (k, snd pv)) ex). one_of EXTRA_KEYS k \<and> length v \<le> 128"
    using ok by blast
  define m where "m = \<lparr>principal = merged_field grp principal, team = merged_field grp team, cost_center = merged_field grp cost_center,
       project = merged_field grp project, repo = merged_field grp repo, workspace_id = merged_field grp workspace_id,
       api_key_id = merged_field grp api_key_id, agent_product = merged_field grp agent_product, agent_type = merged_field grp agent_type,
       query_source = merged_field grp query_source, skill = merged_field grp skill, mcp_server = merged_field grp mcp_server,
       plugin = merged_field grp plugin,
       workload = (case pick workload_class_value (candidates (\<lambda>r. workload_getter (attribution r)) grp) of Some pv \<Rightarrow> snd pv | None \<Rightarrow> WcUnknown),
       entrypoint = merged_field grp entrypoint, client_version = merged_field grp client_version,
       attr_billing_path = merged_field grp attr_billing_path, cwd_key = merged_field grp cwd_key, arm = merged_field grp arm,
       wave = merged_field grp wave, extra = map (\<lambda>(k, pv). (k, snd pv)) ex\<rparr>"
  have "\<exists>b. mk_attribution m = Inr b"
  proof (rule mk_attribution_returns)
    show "opt_ok principal_ok (principal m)" "opt_ok hashed_ok (api_key_id m)" "opt_ok hashed_ok (cwd_key m)"
      "opt_ok (one_of BILLING_PATHS) (attr_billing_path m)"
      unfolding m_def attribution.simps by (rule merged_field_ok, erule mk_attribution_facts [OF va])+
    show "\<forall>(k, v) \<in> set (extra m). one_of EXTRA_KEYS k \<and> length v \<le> 128" "distinct (map fst (extra m))"
      using okx dist unfolding m_def attribution.simps by blast+
  qed
  then show ?thesis
    unfolding merge_attribution_def Let_def ex_def [symmetric] m_def [symmetric] by auto
qed

lemma merge_params_returns:
  assumes "\<forall>c \<in> set grp. valid_contribution c" "valid_contribution w"
  shows "\<exists>x. merge_params cx w grp = Inr x"
proof -
  have vp: "opt_ok count_ok (max_tokens (params (c_request c))) \<and> opt_ok count_ok (task_budget (params (c_request c)))"
    if "valid_contribution c" for c
    using that by (auto simp: valid_contribution_def Let_def mk_request_params_def validated_def split: if_splits)
  have "opt_ok count_ok (fill show_int max_tokens (params (c_request w)) grp)"
    "opt_ok count_ok (fill show_int task_budget (params (c_request w)) grp)"
    using vp assms by (auto intro!: fill_ok)
  then show ?thesis unfolding merge_params_def Let_def by (simp add: mk_request_params_def validated_def)
qed

lemma merge_group_returns:
  assumes "\<forall>c \<in> set grp. valid_contribution c" "grp \<noteq> []"
  shows "\<exists>m. merge_group cx grp = Inr m"
proof -
  define w where "w = hd (sort_key (c_rank cx) grp)"
  have "sort_key (c_rank cx) grp \<noteq> []" using assms(2) by (metis length_0_conv length_sort)
  then have w: "w \<in> set grp" unfolding w_def using hd_in_set by fastforce
  then have v: "valid_contribution w" using assms(1) by blast
  obtain ma pr where a: "merge_attribution grp = Inr (ma, pr)" using merge_attribution_returns [OF assms(1)] by fastforce
  obtain ps where p: "merge_params cx w grp = Inr ps" using merge_params_returns [OF assms(1) v] by blast
  have q: "count_ok (seq (c_request w))" "attempts (c_request w) \<noteq> []"
    using v by (auto simp: valid_contribution_def Let_def mk_request_def validated_def split: if_splits)
  have d: "fill_diagnostics cx w grp \<noteq> []" using q(2) by (simp add: fill_diagnostics_def Let_def split: option.split)
  show ?thesis
    using a p q d by (simp add: merge_group_def Let_def w_def [symmetric] mk_request_def validated_def)
qed

text \<open>C31: Merging never fails: for valid requests the merge returns one merged request per group, for any codec and
  any collision set, and the requests come out in the order of their ids.\<close>

theorem merge_returns:
  assumes "\<forall>c \<in> set cs. valid_contribution c"
  shows "\<exists>gs ms. contribution_groups cx cs collided = Some gs \<and> merge_contributions cx cs collided = Some (Inr ms) \<and>
     length ms = length gs \<and> sorted (map (\<lambda>m. request_id (m_request m)) ms) \<and>
     (\<forall>m \<in> set ms. \<exists>g \<in> set gs. merge_group cx g = Inr m)"
proof -
  obtain gs where gs: "contribution_groups cx cs collided = Some gs" "mset (concat gs) = mset (unique_items cx cs)" "\<forall>g \<in> set gs. g \<noteq> []"
    using contribution_groups_facts by blast
  have mem: "c \<in> set cs" if "g \<in> set gs" "c \<in> set g" for g c
  proof -
    have "c \<in> set (concat gs)" using that by auto
    then have "c \<in> set (unique_items cx cs)" using gs(2) by (metis set_mset_mset)
    then show ?thesis using set_unique_items(1) by blast
  qed
  have one: "\<exists>m. merge_group cx g = Inr m" if "g \<in> set gs" for g
    using merge_group_returns [of g cx] mem that assms gs(3) by blast
  have "\<exists>ys. rmap (merge_group cx) xs = Inr ys \<and> length ys = length xs \<and> (\<forall>y \<in> set ys. \<exists>x \<in> set xs. merge_group cx x = Inr y)"
    if "set xs \<subseteq> set gs" for xs
    using that
  proof (induction xs)
    case (Cons x xs)
    then obtain ys where "rmap (merge_group cx) xs = Inr ys" "length ys = length xs" "\<forall>y \<in> set ys. \<exists>x \<in> set xs. merge_group cx x = Inr y" by auto
    moreover obtain m where "merge_group cx x = Inr m" using one [of x] Cons.prems by auto
    ultimately show ?case by simp
  qed simp
  then obtain ys where ys: "rmap (merge_group cx) gs = Inr ys" "length ys = length gs" "\<forall>y \<in> set ys. \<exists>x \<in> set gs. merge_group cx x = Inr y" by blast
  then show ?thesis using gs(1) by (auto simp: merge_contributions_def)
qed

theorem merge_returns_witness:
  "\<exists>ms. merge_contributions wit_codec [wit_contribution ''q1'' ''b'', wit_contribution ''q2'' ''a''] [] = Some (Inr ms) \<and>
     sorted (map (\<lambda>m. request_id (m_request m)) ms)"
proof -
  have "list_all valid_contribution [wit_contribution ''q1'' ''b'', wit_contribution ''q2'' ''a'']" by code_simp
  then have "\<forall>c \<in> set [wit_contribution ''q1'' ''b'', wit_contribution ''q2'' ''a'']. valid_contribution c" by (simp only: list_all_iff)
  from merge_returns [OF this, of wit_codec "[]"] show ?thesis by blast
qed

end
