(* ===== verification/Kanon.thy ===== *)
theory Kanon
  imports Pricing
begin

text \<open>
  k-anonymity of published aggregates, \<open>core/kanon.py\<close>: \<open>publish\<close> (merging of small rows level by level with
  complementary suppression), the ingest-time team aggregation \<open>merge_small_groups\<close> and the grouping guard. A
  row's \<open>dims\<close> are its named group values (\<open>None\<close> where a row has none); a \<open>cell\<close> is a row together with the
  indexes of the raw rows merged into it. The lemmas show that the published rows are merged from disjoint
  groups of raw rows, that nothing is withheld once one row reaches \<open>k\<close>, and that a published row carries at
  least \<open>k\<close> people.
\<close>

section \<open>Definitions\<close>

subsection \<open>Rows and cells\<close>

type_synonym row_dims = "(string \<times> string option) list"

record agg_row =
  ag_dims :: row_dims
  ag_users :: int
  ag_requests :: int
  ag_usage :: usage_buckets
  ag_priced :: priced_total

record cell = agg_row +
  members :: "nat list"

record raw_aggregate =
  group_by :: "string list"
  agg_rows :: "agg_row list"
  window :: "int \<times> int"

record published_aggregate =
  pub_group_by :: "string list"
  pub_rows :: "agg_row list"
  pub_window :: "int \<times> int"
  pub_k :: int
  suppressed_rows :: nat
  suppressed_users :: int

definition PERSON_DIMS :: "string list" where
  "PERSON_DIMS = [''principal'', ''session'', ''session_key'']"

definition PERSON_PROXY_DIMS :: "string list" where
  "PERSON_PROXY_DIMS = [''principal'', ''session'', ''session_key'', ''api_key_id'', ''api_key'', ''cwd_key'']"

definition USERS_UNKNOWN :: string where "USERS_UNKNOWN = ''users_unknown''"
definition AUDIENCES :: "string list" where "AUDIENCES = [''org'', ''self'']"

definition other_label :: "int \<Rightarrow> string" where
  "other_label k = ''(other: <'' @ show_int k @ '' users)''"

definition check_k :: "int \<Rightarrow> int res" where
  "check_k k = (if k < 1 then Inl UsageError else Inr k)"

subsection \<open>Arithmetic of merged rows\<close>

definition kanon_add_usage :: "usage_buckets \<Rightarrow> usage_buckets \<Rightarrow> usage_buckets res" where
  "kanon_add_usage a b = (case (cache_write_other_ttl_s a, cache_write_other_ttl_s b) of
      (Some x, Some y) \<Rightarrow>
        if x \<noteq> y then
          rbind (mk_usage (a\<lparr>cache_write_other_ttl_s := Some (min x y)\<rparr>)) (\<lambda>a'.
          rbind (mk_usage (b\<lparr>cache_write_other_ttl_s := Some (min x y)\<rparr>)) (\<lambda>b'. add_usage a' b'))
        else add_usage a b
    | _ \<Rightarrow> add_usage a b)"

definition add_opt :: "figure option \<Rightarrow> figure option \<Rightarrow> figure option res" where
  "add_opt a b = (case (a, b) of
      (None, _) \<Rightarrow> Inr b
    | (_, None) \<Rightarrow> Inr a
    | (Some x, Some y) \<Rightarrow> rbind (add x y) (\<lambda>f. Inr (Some f)))"

definition usage_tokens :: "usage_buckets \<Rightarrow> int" where
  "usage_tokens u = total_input u + u_output u"

definition add_priced :: "priced_total \<Rightarrow> priced_total \<Rightarrow> usage_buckets \<Rightarrow> usage_buckets \<Rightarrow> priced_total res" where
  "add_priced a b usage_a usage_b =
     (let all_tokens = usage_tokens usage_a + usage_tokens usage_b;
          unpr = unpriced_tokens a + unpriced_tokens b
      in rbind (add (pt_exact a) (pt_exact b)) (\<lambda>ex.
         rbind (add_opt (pt_estimated a) (pt_estimated b)) (\<lambda>est.
         rbind (add_opt (pt_allowance a) (pt_allowance b)) (\<lambda>al.
         rbind (coverage_of (all_tokens - unpr) all_tokens) (\<lambda>cov.
         rbind (add_opt (pt_pool a) (pt_pool b)) (\<lambda>po.
         Inr \<lparr>pt_exact = ex, pt_estimated = est, pt_allowance = al,
              priced_inferences = priced_inferences a + priced_inferences b,
              unpriced_inferences = unpriced_inferences a + unpriced_inferences b,
              unpriced_tokens = unpr, coverage = cov, pt_pool = po\<rparr>))))))"

definition merge_dims :: "string \<Rightarrow> cell list \<Rightarrow> row_dims" where
  "merge_dims label cells = map (\<lambda>(i, (nm, v)).
       (nm, if list_all (\<lambda>c. i < length (ag_dims c) \<and> ag_dims c ! i = (nm, v)) cells then v else Some label))
     (enumerate 0 (ag_dims (hd cells)))"

definition merge_amounts :: "usage_buckets \<times> priced_total \<Rightarrow> cell \<Rightarrow> (usage_buckets \<times> priced_total) res" where
  "merge_amounts acc c = (case acc of (u, p) \<Rightarrow>
     rbind (add_priced p (ag_priced c) u (ag_usage c)) (\<lambda>p'.
     rbind (kanon_add_usage u (ag_usage c)) (\<lambda>u'. Inr (u', p'))))"

definition merge_cells :: "string \<Rightarrow> cell list \<Rightarrow> cell res" where
  "merge_cells label cells =
     rbind (rfold merge_amounts (ag_usage (hd cells), ag_priced (hd cells)) (tl cells)) (\<lambda>(u, p).
     Inr \<lparr>ag_dims = merge_dims label cells, ag_users = Max (set (map ag_users cells)),
          ag_requests = sum_list (map ag_requests cells), ag_usage = u, ag_priced = p,
          members = sort (concat (map members cells))\<rparr>)"

definition dims_key :: "string \<Rightarrow> row_dims \<Rightarrow> (nat \<times> string \<times> string) list" where
  "dims_key label ds = map (\<lambda>(nm, v).
     ((if v = Some label then 2 else if v = None then 1 else 0), (case v of None \<Rightarrow> '''' | Some s \<Rightarrow> s), nm)) ds"

definition value_key :: "cell \<Rightarrow> int \<times> int \<times> int \<times> int" where
  "value_key c = (ag_users c, (case nano (pt_exact (ag_priced c)) of Some n \<Rightarrow> n | None \<Rightarrow> -1),
     ag_requests c, usage_tokens (ag_usage c))"

definition users_unknown_ok :: "string list \<Rightarrow> bool" where
  "users_unknown_ok gb = (set gb \<inter> set PERSON_PROXY_DIMS = {})"

definition row_notes :: "agg_row \<Rightarrow> string list \<Rightarrow> string list" where
  "row_notes r gb = (if ag_users r = 0 \<and> users_unknown_ok gb then [USERS_UNKNOWN] else [])"

text \<open>\<open>repr\<close> of a tuple of dimension pairs, the order in which parent groups are visited.\<close>

definition repr_tuple :: "string list \<Rightarrow> string" where
  "repr_tuple xs = (case xs of [x] \<Rightarrow> ''('' @ x @ '',)'' | _ \<Rightarrow> ''('' @ join '', '' xs @ '')'')"

definition repr_dims :: "row_dims \<Rightarrow> string" where
  "repr_dims ds = repr_tuple (map (\<lambda>(nm, v).
     repr_tuple [repr_attr (AStr nm), repr_attr (case v of None \<Rightarrow> ANone | Some s \<Rightarrow> AStr s)]) ds)"

definition min_by :: "('a \<Rightarrow> 'b::linorder) \<Rightarrow> 'a \<Rightarrow> 'a list \<Rightarrow> 'a" where
  "min_by f x xs = fold (\<lambda>y m. if f y < f m then y else m) xs x"

subsection \<open>Publication\<close>

definition publish_parent :: "int \<Rightarrow> string \<Rightarrow> cell list \<Rightarrow> cell list res" where
  "publish_parent k label cs =
     (let g = sort_key (\<lambda>c. dims_key label (ag_dims c)) cs;
          small = filter (\<lambda>c. ag_users c < k) g;
          big = filter (\<lambda>c. k \<le> ag_users c) g
      in if small = [] then Inr g
         else rbind (merge_cells label small) (\<lambda>merged.
           if ag_users merged < k \<and> big \<noteq> [] then
             let complement = min_by (\<lambda>c. (value_key c, dims_key label (ag_dims c))) (hd big) (tl big)
             in rbind (merge_cells label [merged, complement]) (\<lambda>m. Inr (remove1 complement big @ [m]))
           else Inr (big @ [merged])))"

definition publish_level :: "int \<Rightarrow> string \<Rightarrow> cell list \<Rightarrow> (row_dims \<Rightarrow> row_dims) \<Rightarrow> cell list res" where
  "publish_level k label cells parent =
     (if list_all (\<lambda>c. k \<le> ag_users c) cells then Inr cells
      else rbind (rmap (\<lambda>kg. publish_parent k label (snd kg))
             (sort_key (\<lambda>kg. repr_dims (fst kg)) (group_by_key (\<lambda>c. parent (ag_dims c)) cells)))
           (\<lambda>css. Inr (concat css)))"

definition publish_levels :: "(row_dims \<Rightarrow> row_dims) option \<Rightarrow> nat \<Rightarrow> (row_dims \<Rightarrow> row_dims) list" where
  "publish_levels parent_of depth = (case parent_of of
      Some f \<Rightarrow> [f, take 0]
    | None \<Rightarrow> map take (rev [0..<depth]))"

definition raw_cells :: "(agg_row \<Rightarrow> bool) \<Rightarrow> agg_row list \<Rightarrow> cell list" where
  "raw_cells keep rws = map (\<lambda>(i, r). agg_row.extend r (cell.fields [i]))
     (filter (\<lambda>(i, r). keep r) (enumerate 0 rws))"

definition publish ::
    "raw_aggregate \<Rightarrow> int \<Rightarrow> (row_dims \<Rightarrow> row_dims) option \<Rightarrow> string \<Rightarrow> published_aggregate res" where
  "publish raw k parent_of audience =
     rbind (check_k k) (\<lambda>_.
     if audience \<notin> set AUDIENCES then Inl UsageError
     else if audience = ''self'' then
       Inr \<lparr>pub_group_by = group_by raw, pub_rows = agg_rows raw, pub_window = window raw, pub_k = k,
            suppressed_rows = 0, suppressed_users = 0\<rparr>
     else
       let label = other_label k;
           rws = agg_rows raw;
           unknown = (\<lambda>r. users_unknown_ok (group_by raw) \<and> ag_users r = 0);
           kept_unknown = raw_cells unknown rws;
           cells = raw_cells (\<lambda>r. \<not> unknown r) rws;
           depth = (if cells = [] then length (group_by raw) else Max (set (map (length \<circ> ag_dims) cells)))
       in rbind (rfold (publish_level k label) cells (publish_levels parent_of depth)) (\<lambda>final.
          let published = sort_key (\<lambda>c. dims_key label (ag_dims c))
                (filter (\<lambda>c. k \<le> ag_users c) final @ kept_unknown);
              shown = map (hd \<circ> members) (filter (\<lambda>c. length (members c) = 1) published);
              suppressed = filter (\<lambda>i. i \<notin> set shown) [0..<length rws]
          in Inr \<lparr>pub_group_by = group_by raw, pub_rows = map agg_row.truncate published,
                  pub_window = window raw, pub_k = k, suppressed_rows = length suppressed,
                  suppressed_users = sum_list (map (\<lambda>i. ag_users (rws ! i)) suppressed)\<rparr>))"

subsection \<open>Grouping by person, ingest-time aggregation\<close>

text \<open>The group-by keys as the caller gives them: a list, or a comma-separated string.\<close>

datatype group_keys = Keys "string list" | KeyText string

definition require_self_or_aggregate :: "group_keys \<Rightarrow> string option \<Rightarrow> unit res" where
  "require_self_or_aggregate gb self_principal =
     (let ks = (case gb of Keys ks \<Rightarrow> ks | KeyText s \<Rightarrow> filter (\<lambda>p. p \<noteq> '''') (split_on (CHR '','') s));
          person = filter (\<lambda>g. g \<in> set PERSON_DIMS) (map strip ks)
      in guard (person = [] \<or> (self_principal \<noteq> None \<and> self_principal \<noteq> Some '''')) PrivacyError)"

text \<open>
  Payloads: \<open>None\<close>, booleans, numbers, sequences, mappings, usage buckets and strings; what has no addition
  raises. Decimal sums are rounded by the default context of the \<open>decimal\<close> module.
\<close>

datatype payload = PNone | PBool bool | PInt int | PDec dec | PTuple "payload list" | PList "payload list"
  | PMap "(string \<times> payload) list" | PUsage usage_buckets | PStr string

definition DEFAULT_CTX :: dctx where
  "DEFAULT_CTX = \<lparr>prec = 28, emin = -999999, emax = 999999, trap_inexact = False\<rparr>"

definition num_of :: "payload \<Rightarrow> dec option" where
  "num_of p = (case p of PInt i \<Rightarrow> Some (dec_of_int i) | PDec d \<Rightarrow> Some d | _ \<Rightarrow> None)"

definition seq_of :: "payload \<Rightarrow> payload list option" where
  "seq_of p = (case p of PTuple xs \<Rightarrow> Some xs | PList xs \<Rightarrow> Some xs | _ \<Rightarrow> None)"

definition add_scalars :: "payload \<Rightarrow> payload \<Rightarrow> payload res" where
  "add_scalars a b = (case (a, b) of
      (PInt x, PInt y) \<Rightarrow> Inr (PInt (x + y))
    | (PUsage u, PUsage v) \<Rightarrow> rbind (kanon_add_usage u v) (\<lambda>w. Inr (PUsage w))
    | (PStr s, PStr t) \<Rightarrow> Inr (PStr (s @ t))
    | _ \<Rightarrow> (case (num_of a, num_of b) of
        (Some x, Some y) \<Rightarrow> rbind (dec_add DEFAULT_CTX x y) (\<lambda>d. Inr (PDec d))
      | _ \<Rightarrow> Inl UsageError))"

lemma size_dget_payload: "size (dget f key PNone) \<le> size_list (size_prod (\<lambda>_. 0) size) f"
  by (induction f) (auto simp: dget_def)

lemma size_zip_payload:
  "(x, y) \<in> set (zip xs ys) \<Longrightarrow> size x + size y \<le> size_list size xs + size_list size (ys :: payload list)"
  for xs :: "payload list"
  by (intro add_mono size_list_estimation' [of x xs] size_list_estimation' [of y ys])
    (auto dest: set_zip_leftD set_zip_rightD)

function combine_payload :: "payload \<Rightarrow> payload \<Rightarrow> payload res" where
  "combine_payload a b =
     (if a = PNone then Inr b
      else if b = PNone then Inr a
      else case (a, b) of
        (PBool _, _) \<Rightarrow> Inl UsageError
      | (_, PBool _) \<Rightarrow> Inl UsageError
      | (PTuple xs, _) \<Rightarrow> (case seq_of b of
            Some ys \<Rightarrow> if length xs \<noteq> length ys then Inl UsageError
              else rbind (rmap (\<lambda>(x, y). combine_payload x y) (zip xs ys)) (\<lambda>zs. Inr (PTuple zs))
          | None \<Rightarrow> Inl UsageError)
      | (PList xs, _) \<Rightarrow> (case seq_of b of
            Some ys \<Rightarrow> if length xs \<noteq> length ys then Inl UsageError
              else rbind (rmap (\<lambda>(x, y). combine_payload x y) (zip xs ys)) (\<lambda>zs. Inr (PList zs))
          | None \<Rightarrow> Inl UsageError)
      | (PMap f, PMap g) \<Rightarrow>
          rbind (rmap (\<lambda>key. rbind (combine_payload (dget f key PNone) (dget g key PNone)) (\<lambda>v. Inr (key, v)))
                   (sorted_set (map fst f @ map fst g))) (\<lambda>h. Inr (PMap h))
      | _ \<Rightarrow> add_scalars a b)"
  by pat_completeness auto
termination
proof (relation "measure (\<lambda>(a, b). size a + size b)")
qed (auto simp: seq_of_def less_Suc_eq_le split: payload.splits dest!: size_zip_payload
      intro!: le_SucI [OF add_mono [OF size_dget_payload size_dget_payload]])

declare combine_payload.simps [simp del]

type_synonym small_groups = "(string, int \<times> payload) dict \<times> (string \<times> int \<times> payload) list"

definition small_group_step :: "int \<Rightarrow> string \<Rightarrow> small_groups \<Rightarrow> string \<times> int \<times> payload \<Rightarrow> small_groups res" where
  "small_group_step k other acc row = (case (acc, row) of ((big, small), (label, n, q)) \<Rightarrow>
     if n < 0 then Inl UsageError
     else if k \<le> n \<and> label \<noteq> other then
       (case map_of big label of
          Some (m, prev) \<Rightarrow> rbind (combine_payload prev q) (\<lambda>q'. Inr (dset label (m + n, q') big, small))
        | None \<Rightarrow> Inr (dset label (n, q) big, small))
     else Inr (big, small @ [row]))"

definition merge_small_groups ::
    "(string \<times> int \<times> payload) list \<Rightarrow> int \<Rightarrow> string \<Rightarrow> ((string \<times> int \<times> payload) list \<times> nat) res" where
  "merge_small_groups rws k other =
     rbind (check_k k) (\<lambda>_. rbind (rfold (small_group_step k other) ([], []) rws) (\<lambda>(big, small).
       let out = sort_key fst big;
           total = sum_list (map (\<lambda>(_, n, _). n) small)
       in if small = [] then Inr (out, 0)
          else if k \<le> total then
            rbind (rfold (\<lambda>a (_, _, q). combine_payload a q) PNone small) (\<lambda>q. Inr (out @ [(other, total, q)], 0))
          else Inr (out, length small)))"

section \<open>Specification\<close>

text \<open>\<open>merged_from ms r\<close>: row \<open>r\<close> carries the totals of the raw rows \<open>ms\<close> and the largest of their user counts.\<close>

definition opt_total :: "int option list \<Rightarrow> int option" where
  "opt_total xs = (if None \<in> set xs then None else Some (sum_list (map or0 xs)))"

definition merged_from :: "agg_row list \<Rightarrow> ('a) agg_row_scheme \<Rightarrow> bool" where
  "merged_from ms r \<longleftrightarrow> ms \<noteq> [] \<and> ag_users r = Max (set (map ag_users ms)) \<and>
     ag_requests r = sum_list (map ag_requests ms) \<and>
     usage_tokens (ag_usage r) = sum_list (map (usage_tokens \<circ> ag_usage) ms) \<and>
     priced_inferences (ag_priced r) = sum_list (map (priced_inferences \<circ> ag_priced) ms) \<and>
     unpriced_tokens (ag_priced r) = sum_list (map (unpriced_tokens \<circ> ag_priced) ms) \<and>
     nano (pt_exact (ag_priced r)) = opt_total (map (nano \<circ> pt_exact \<circ> ag_priced) ms)"

definition cell_ok :: "agg_row list \<Rightarrow> cell \<Rightarrow> bool" where
  "cell_ok rws c \<longleftrightarrow> (\<forall>i \<in> set (members c). i < length rws) \<and> merged_from (map ((!) rws) (members c)) c"

text \<open>Cells cover the raw rows \<open>M\<close>: each cell is merged from its members, and the members are \<open>M\<close>.\<close>

definition cells_cover :: "agg_row list \<Rightarrow> nat multiset \<Rightarrow> cell list \<Rightarrow> bool" where
  "cells_cover rws M cs \<longleftrightarrow> (\<forall>c \<in> set cs. cell_ok rws c) \<and> mset (concat (map members cs)) = M"

definition USAGE_FIELDS :: "(usage_buckets \<Rightarrow> int) list" where
  "USAGE_FIELDS = [uncached_input, cache_read, cache_write_5m, cache_write_1h, cache_write_other,
     cache_write_unknown, u_output, web_search_requests, web_fetch_requests]"

definition amounts_ok :: "basis \<Rightarrow> agg_row list \<Rightarrow> nat list \<Rightarrow> usage_buckets \<times> priced_total \<Rightarrow> bool" where
  "amounts_ok b rws ms up \<longleftrightarrow> (case up of (u, p) \<Rightarrow>
     valid_usage u \<and> 0 \<le> unpriced_tokens p \<and> unpriced_tokens p \<le> usage_tokens u \<and>
     addable b (pt_exact p) \<and> opt_ok (addable b) (pt_estimated p) \<and>
     opt_ok (addable LIST_EQUIVALENT) (pt_allowance p) \<and> opt_ok (addable LIST_EQUIVALENT) (pt_pool p) \<and>
     (\<forall>f \<in> set USAGE_FIELDS. f u = sum_list (map (\<lambda>i. f (ag_usage (rws ! i))) ms)))"

definition agg_rows_ok :: "basis \<Rightarrow> agg_row list \<Rightarrow> bool" where
  "agg_rows_ok b rws \<longleftrightarrow>
     (\<forall>i < length rws. amounts_ok b rws [i] (ag_usage (rws ! i), ag_priced (rws ! i))) \<and>
     (\<forall>f \<in> set USAGE_FIELDS. sum_list (map (f \<circ> ag_usage) rws) \<le> MAX_TOKENS)"

text \<open>Every stage keeps cells that can be merged further.\<close>

definition cells_fit :: "basis \<Rightarrow> agg_row list \<Rightarrow> nat multiset \<Rightarrow> cell list \<Rightarrow> bool" where
  "cells_fit b rws M cs \<longleftrightarrow> agg_rows_ok b rws \<and> mset (concat (map members cs)) \<subseteq># mset [0..<length rws] \<and>
     (\<forall>c \<in> set cs. amounts_ok b rws (members c) (ag_usage c, ag_priced c))"

definition wit_k_usage :: "int \<Rightarrow> usage_buckets" where
  "wit_k_usage n = \<lparr>uncached_input = n, cache_read = 0, cache_write_5m = 0, cache_write_1h = 0,
     cache_write_other = 0, cache_write_other_ttl_s = None, cache_write_unknown = 0, u_output = 1,
     output_reasoning = None, web_search_requests = 0, web_fetch_requests = 0\<rparr>"

definition wit_k_figure :: "int \<Rightarrow> figure" where
  "wit_k_figure n = \<lparr>nano = Some n, evidence = EXACT, basis = LIST, finality = FinalityNA, low_nano = None,
     high_nano = None, ci_level_pct = None, calibration = CalibrationNA, upper_bound = False,
     provenance = [], fig_note = ''''\<rparr>"

definition wit_k_row :: "string \<Rightarrow> string \<Rightarrow> int \<Rightarrow> agg_row" where
  "wit_k_row t m n = \<lparr>ag_dims = [(''team'', Some t), (''model'', Some m)], ag_users = n, ag_requests = 2 * n,
     ag_usage = wit_k_usage (10 * n), ag_priced = \<lparr>pt_exact = wit_k_figure (1000 * n), pt_estimated = None,
       pt_allowance = None, priced_inferences = n, unpriced_inferences = 0, unpriced_tokens = 0,
       coverage = ''1'', pt_pool = None\<rparr>\<rparr>"

text \<open>A team with one large and one small row, and a team of small rows only.\<close>

definition wit_raw :: raw_aggregate where
  "wit_raw = \<lparr>group_by = [''team'', ''model''], agg_rows =
     [wit_k_row ''a'' ''x'' 7, wit_k_row ''a'' ''y'' 2, wit_k_row ''b'' ''x'' 3, wit_k_row ''b'' ''y'' 1,
      wit_k_row ''c'' ''x'' 9], window = (0, 1)\<rparr>"

definition wit_groups :: "(string \<times> int \<times> payload) list" where
  "wit_groups = [(''b'', 4, PInt 5), (''a'', 7, PInt 30), (''c'', 2, PInt 4)]"

definition wit_groups_out :: "(string \<times> int \<times> payload) list" where
  "wit_groups_out = [(''a'', 7, PInt 30), (''(other)'', 6, PInt 9)]"

section \<open>Merging\<close>

lemma opt_total_append: "opt_total (xs @ ys) =
    (case (opt_total xs, opt_total ys) of (Some a, Some b) \<Rightarrow> Some (a + b) | _ \<Rightarrow> None)"
  by (simp add: opt_total_def)

lemma opt_total_perm: "mset xs = mset ys \<Longrightarrow> opt_total xs = opt_total ys"
  using sum_list_mset_eq [of xs ys or0] mset_eq_setD [of xs ys] by (simp add: opt_total_def)

lemma merged_from_perm: "mset ms = mset ms' \<Longrightarrow> merged_from ms r = merged_from ms' r"
proof -
  assume m: "mset ms = mset ms'"
  have o: "opt_total (map f ms) = opt_total (map f ms')" for f
    using m by (intro opt_total_perm) simp
  show ?thesis
    unfolding merged_from_def set_map using m mset_eq_setD [OF m] mset_eq_length [OF m] o
    by (auto simp: sum_list_mset_eq [OF m])
qed

lemma merged_from_append:
  assumes "merged_from xs a" "merged_from ys b"
    and "ag_users r = max (ag_users a) (ag_users b)" "ag_requests r = ag_requests a + ag_requests b"
    and "usage_tokens (ag_usage r) = usage_tokens (ag_usage a) + usage_tokens (ag_usage b)"
    and "priced_inferences (ag_priced r) = priced_inferences (ag_priced a) + priced_inferences (ag_priced b)"
    and "unpriced_tokens (ag_priced r) = unpriced_tokens (ag_priced a) + unpriced_tokens (ag_priced b)"
    and "nano (pt_exact (ag_priced r)) = opt_total [nano (pt_exact (ag_priced a)), nano (pt_exact (ag_priced b))]"
  shows "merged_from (xs @ ys) r"
proof -
  have "Max (set (map ag_users xs) \<union> set (map ag_users ys)) = max (Max (set (map ag_users xs))) (Max (set (map ag_users ys)))"
    using assms(1,2) by (intro Max_Un) (auto simp: merged_from_def)
  with assms show ?thesis
    by (auto simp: merged_from_def opt_total_append opt_total_def [of "[_, _]"] or0_def split: option.splits)
qed

lemma mk_usage_same: "mk_usage u = Inr v \<Longrightarrow> v = u"
  by (simp add: mk_usage_def)

lemma add_usage_tokens: "add_usage a b = Inr c \<Longrightarrow> usage_tokens c = usage_tokens a + usage_tokens b"
  using add_usage_sums(2,3) [of a b c] by (simp add: usage_tokens_def)

lemma usage_tokens_ttl [simp]: "usage_tokens (u\<lparr>cache_write_other_ttl_s := t\<rparr>) = usage_tokens u"
  by (simp add: usage_tokens_def total_input_def cache_write_def)

lemma kanon_add_usage_tokens:
  "kanon_add_usage a b = Inr c \<Longrightarrow> usage_tokens c = usage_tokens a + usage_tokens b"
  by (auto simp: kanon_add_usage_def rbind_eq_Inr dest!: mk_usage_same dest: add_usage_tokens
      split: option.splits if_splits)

lemma add_nano: "add a b = Inr f \<Longrightarrow> nano f = opt_total [nano a, nano b]"
  by (auto simp: add_def combine_def Let_def opt_total_def or0_def mk_figure_valid split: if_splits option.splits)

lemma add_priced_sums:
  assumes "add_priced a b u v = Inr p"
  shows "priced_inferences p = priced_inferences a + priced_inferences b"
    "unpriced_tokens p = unpriced_tokens a + unpriced_tokens b"
    "nano (pt_exact p) = opt_total [nano (pt_exact a), nano (pt_exact b)]"
  using assms by (auto simp: add_priced_def Let_def rbind_eq_Inr dest: add_nano)

text \<open>Merging the cells \<open>c # cs\<close> one after the other accumulates the totals of all their raw rows.\<close>

lemma merge_amounts_from:
  assumes "rfold merge_amounts (u, p) cs = Inr (u', p')"
    and "merged_from xs \<lparr>ag_dims = d, ag_users = n, ag_requests = q, ag_usage = u, ag_priced = p\<rparr>"
    and "\<forall>c \<in> set cs. cell_ok rws c"
  shows "merged_from (xs @ map ((!) rws) (concat (map members cs)))
     \<lparr>ag_dims = d', ag_users = Max (insert n (set (map ag_users cs))),
      ag_requests = q + sum_list (map ag_requests cs), ag_usage = u', ag_priced = p'\<rparr>"
  using assms
proof (induction cs arbitrary: xs n q u p d)
  case Nil
  then show ?case by (simp add: merged_from_def)
next
  case (Cons c cs)
  from Cons.prems(1) obtain u1 p1 where p1: "add_priced p (ag_priced c) u (ag_usage c) = Inr p1"
    and u1: "kanon_add_usage u (ag_usage c) = Inr u1" and r: "rfold merge_amounts (u1, p1) cs = Inr (u', p')"
    by (auto simp: merge_amounts_def [of "(u, p)"] rbind_eq_Inr)
  have c: "merged_from (map ((!) rws) (members c)) c" using Cons.prems(3) by (simp add: cell_ok_def)
  have "merged_from (xs @ map ((!) rws) (members c))
      \<lparr>ag_dims = d, ag_users = max n (ag_users c), ag_requests = q + ag_requests c, ag_usage = u1, ag_priced = p1\<rparr>"
    by (rule merged_from_append [OF Cons.prems(2) c])
      (use p1 u1 in \<open>simp_all add: kanon_add_usage_tokens add_priced_sums\<close>)
  from Cons.IH [OF r this] Cons.prems(3)
  have "merged_from (xs @ map ((!) rws) (members c) @ map ((!) rws) (concat (map members cs)))
     \<lparr>ag_dims = d', ag_users = Max (insert (max n (ag_users c)) (set (map ag_users cs))),
      ag_requests = q + ag_requests c + sum_list (map ag_requests cs), ag_usage = u', ag_priced = p'\<rparr>"
    by simp
  moreover have "Max (insert (max n (ag_users c)) (set (map ag_users cs))) =
      Max (insert n (insert (ag_users c) (set (map ag_users cs))))"
    by (cases "cs = []") (simp_all add: max.assoc)
  ultimately show ?case by (simp add: add.assoc)
qed

lemma merge_cells_ok:
  assumes m: "merge_cells label cs = Inr m" and ne: "cs \<noteq> []" and ok: "\<forall>c \<in> set cs. cell_ok rws c"
  shows "cell_ok rws m" and "mset (members m) = mset (concat (map members cs))"
    and "ag_users m = Max (set (map ag_users cs))"
proof -
  obtain c ds where cs: "cs = c # ds" using ne by (cases cs) auto
  from m obtain u p where r: "rfold merge_amounts (ag_usage c, ag_priced c) ds = Inr (u, p)"
    and m': "m = \<lparr>ag_dims = merge_dims label cs, ag_users = Max (set (map ag_users cs)),
          ag_requests = sum_list (map ag_requests cs), ag_usage = u, ag_priced = p,
          members = sort (concat (map members cs))\<rparr>"
    by (auto simp: merge_cells_def cs rbind_eq_Inr)
  show u: "ag_users m = Max (set (map ag_users cs))" and mem: "mset (members m) = mset (concat (map members cs))"
    by (simp_all add: m')
  have "merged_from (map ((!) rws) (members c)) \<lparr>ag_dims = [], ag_users = ag_users c, ag_requests = ag_requests c,
      ag_usage = ag_usage c, ag_priced = ag_priced c\<rparr>"
    using ok by (simp add: cs cell_ok_def merged_from_def)
  from merge_amounts_from [OF r this, of rws "[]"] ok
  have "merged_from (map ((!) rws) (concat (map members cs)))
     \<lparr>ag_dims = [], ag_users = ag_users m, ag_requests = ag_requests m, ag_usage = u, ag_priced = p\<rparr>"
    by (simp add: cs m')
  then have "merged_from (map ((!) rws) (concat (map members cs))) m"
    unfolding merged_from_def by (simp add: m')
  moreover have "mset (map ((!) rws) (members m)) = mset (map ((!) rws) (concat (map members cs)))"
    by (simp only: mset_map mem)
  ultimately have "merged_from (map ((!) rws) (members m)) m" using merged_from_perm by blast
  moreover have "set (members m) = set (concat (map members cs))" using mem by (rule mset_eq_setD)
  ultimately show "cell_ok rws m" using ok by (auto simp: cell_ok_def)
qed

section \<open>Levels\<close>

lemma min_by_mem: "min_by f x xs \<in> set (x # xs)"
  unfolding min_by_def by (induction xs arbitrary: x) fastforce+

lemma min_by_in: "xs \<noteq> [] \<Longrightarrow> min_by f (hd xs) (tl xs) \<in> set xs"
  using min_by_mem [of f "hd xs" "tl xs"] by simp

text \<open>
  An invariant of the cells of a table over the raw rows \<open>M\<close>: it does not depend on the order of the cells and
  survives the merging of some of them. With \<open>strict\<close> merging also returns.
\<close>

locale cell_invariant =
  fixes strict :: bool and inv_of :: "nat multiset \<Rightarrow> cell list \<Rightarrow> bool"
  assumes perm: "mset xs = mset ys \<Longrightarrow> inv_of M xs = inv_of M ys"
    and merge: "inv_of M (xs @ ys) \<Longrightarrow> xs \<noteq> [] \<Longrightarrow> psat strict (\<lambda>m. inv_of M (m # ys)) (merge_cells label xs)"
begin

lemma parent:
  assumes i: "inv_of M (cs @ ys)"
  shows "psat strict (\<lambda>rs. inv_of M (rs @ ys)) (publish_parent k label cs)"
proof -
  define g where "g = sort_key (\<lambda>c. dims_key label (ag_dims c)) cs"
  define small big where "small = filter (\<lambda>c. ag_users c < k) g" and "big = filter (\<lambda>c. k \<le> ag_users c) g"
  define complement where "complement = min_by (\<lambda>c. (value_key c, dims_key label (ag_dims c))) (hd big) (tl big)"
  have comp: "complement \<in> set big" if "big \<noteq> []" unfolding complement_def by (rule min_by_in [OF that])
  have "mset g = mset small + mset big"
    using multiset_partition [of "mset g" "\<lambda>c. ag_users c < k"] by (simp add: small_def big_def not_less)
  moreover have gc: "mset g = mset cs" by (simp add: g_def)
  ultimately have sb: "inv_of M (small @ big @ ys)" and ig: "inv_of M (g @ ys)"
    using i perm [of "small @ big @ ys" "cs @ ys"] perm [of "g @ ys" "cs @ ys"] gc by simp_all
  have one: "psat strict (\<lambda>m. inv_of M (m # big @ ys)) (merge_cells label small)" if "small \<noteq> []"
    by (rule merge [OF sb that])
  have two: "psat strict (\<lambda>m'. inv_of M (m' # remove1 complement big @ ys)) (merge_cells label [m, complement])"
    if "inv_of M (m # big @ ys)" "big \<noteq> []" for m
  proof (rule merge)
    have "mset ([m, complement] @ remove1 complement big @ ys) = mset (m # big @ ys)" using comp [OF that(2)] by simp
    then show "inv_of M ([m, complement] @ remove1 complement big @ ys)" using that(1) perm by blast
  qed simp
  have p: "inv_of M (m # xs @ ys) \<Longrightarrow> inv_of M ((xs @ [m]) @ ys)" for m xs
    using perm [of "(xs @ [m]) @ ys" "m # xs @ ys"] by simp
  show ?thesis
  proof (cases "small = []")
    case True
    with ig show ?thesis
      unfolding publish_parent_def Let_def g_def [symmetric] small_def [symmetric] by simp
  next
    case False
    have "psat strict (\<lambda>rs. inv_of M (rs @ ys)) (rbind (merge_cells label small) (\<lambda>merged.
       if ag_users merged < k \<and> big \<noteq> [] then
         rbind (merge_cells label [merged, complement]) (\<lambda>m. Inr (remove1 complement big @ [m]))
       else Inr (big @ [merged])))"
    proof (rule psat_bind [OF one [OF False]])
      fix m assume m: "inv_of M (m # big @ ys)"
      show "psat strict (\<lambda>rs. inv_of M (rs @ ys)) (if ag_users m < k \<and> big \<noteq> [] then
         rbind (merge_cells label [m, complement]) (\<lambda>m. Inr (remove1 complement big @ [m])) else Inr (big @ [m]))"
      proof (cases "ag_users m < k \<and> big \<noteq> []")
        case True
        then have "psat strict (\<lambda>rs. inv_of M (rs @ ys))
            (rbind (merge_cells label [m, complement]) (\<lambda>m. Inr (remove1 complement big @ [m])))"
          by (intro psat_bind [OF two [OF m]]) (auto dest: p)
        with True show ?thesis by simp
      next
        case False
        then show ?thesis using p [OF m] by (simp only: if_False psat_simps)
      qed
    qed
    with False show ?thesis
      unfolding publish_parent_def Let_def g_def [symmetric] small_def [symmetric] big_def [symmetric]
        complement_def [symmetric] by simp
  qed
qed

lemma parents:
  assumes "inv_of M (concat (map snd gs) @ ys)"
  shows "psat strict (\<lambda>css. inv_of M (concat css @ ys)) (rmap (\<lambda>kg. publish_parent k label (snd kg)) gs)"
  using assms
proof (induction gs arbitrary: ys)
  case (Cons g gs)
  have "inv_of M (snd g @ concat (map snd gs) @ ys)" using Cons.prems by simp
  from parent [OF this]
  show ?case
  proof (simp, rule psat_bind)
    fix rs assume "inv_of M (rs @ concat (map snd gs) @ ys)"
    then have "inv_of M (concat (map snd gs) @ rs @ ys)"
      using perm [of "concat (map snd gs) @ rs @ ys" "rs @ concat (map snd gs) @ ys"] by simp
    from Cons.IH [OF this]
    show "psat strict (\<lambda>css. inv_of M (concat css @ ys))
       (rbind (rmap (\<lambda>kg. publish_parent k label (snd kg)) gs) (\<lambda>css. Inr (rs # css)))"
    proof (rule psat_bind)
      fix css assume "inv_of M (concat css @ rs @ ys)"
      then show "psat strict (\<lambda>css. inv_of M (concat css @ ys)) (Inr (rs # css))"
        using perm [of "rs @ concat css @ ys" "concat css @ rs @ ys"] by simp
    qed
  qed
qed simp

lemma level:
  assumes i: "inv_of M cs"
  shows "psat strict (inv_of M) (publish_level k label cs parent)"
proof (cases "list_all (\<lambda>c. k \<le> ag_users c) cs")
  case False
  define gs where "gs = sort_key (\<lambda>kg. repr_dims (fst kg)) (group_by_key (\<lambda>c. parent (ag_dims c)) cs)"
  have "mset (concat (map snd gs)) = mset cs"
    using mset_group_by_key [of "\<lambda>c. parent (ag_dims c)" cs]
    by (simp add: gs_def mset_concat_snd)
  then have "inv_of M (concat (map snd gs) @ [])" using i perm by (metis append_Nil2)
  have "psat strict (inv_of M) (rbind (rmap (\<lambda>kg. publish_parent k label (snd kg)) gs) (\<lambda>css. Inr (concat css)))"
    by (rule psat_bind [OF parents [OF \<open>inv_of M (concat (map snd gs) @ [])\<close>]]) simp
  with False show ?thesis
    unfolding publish_level_def gs_def [symmetric] by simp
qed (use i in \<open>simp add: publish_level_def\<close>)

lemma levels: "inv_of M cs \<Longrightarrow> psat strict (inv_of M) (rfold (publish_level k label) cs ls)"
  by (rule psat_rfold) (simp_all add: level)

end

lemma cells_cover_append:
  "cells_cover rws (M + N) (xs @ ys)" if "cells_cover rws M xs" "cells_cover rws N ys"
  using that by (auto simp: cells_cover_def)

lemma mset_members: "mset (concat (map members xs)) = \<Sum>\<^sub># (image_mset (mset \<circ> members) (mset xs))"
  by (induction xs) auto

lemma cells_cover_perm: "mset xs = mset ys \<Longrightarrow> cells_cover rws M xs = cells_cover rws M ys"
  using mset_eq_setD [of xs ys] by (simp add: cells_cover_def mset_members)

lemma cells_cover_merge:
  assumes "cells_cover rws M (xs @ ys)" "xs \<noteq> []" "merge_cells label xs = Inr m"
  shows "cells_cover rws M (m # ys)"
  using assms merge_cells_ok [OF assms(3,2), of rws] by (auto simp: cells_cover_def)

interpretation cover: cell_invariant False "cells_cover rws" for rws
proof
  show "mset xs = mset ys \<Longrightarrow> cells_cover rws M xs = cells_cover rws M ys" for xs ys M by (rule cells_cover_perm)
  show "cells_cover rws M (xs @ ys) \<Longrightarrow> xs \<noteq> [] \<Longrightarrow> psat False (\<lambda>m. cells_cover rws M (m # ys)) (merge_cells label xs)"
    for M xs ys label by (auto simp: psat_partial cells_cover_merge)
qed

lemma cell_ok_users:
  assumes "cell_ok rws c"
  shows "k \<le> ag_users c \<longleftrightarrow> (\<exists>i \<in> set (members c). k \<le> ag_users (rws ! i))"
  using assms by (auto simp: cell_ok_def merged_from_def Max_ge_iff)

lemma cells_cover_users:
  assumes "cells_cover rws M cs"
  shows "(\<exists>c \<in> set cs. k \<le> ag_users c) \<longleftrightarrow> (\<exists>i \<in># M. k \<le> ag_users (rws ! i))"
proof -
  have "set_mset M = (\<Union>c \<in> set cs. set (members c))"
    using assms by (auto simp: cells_cover_def)
  moreover have "\<forall>c \<in> set cs. k \<le> ag_users c \<longleftrightarrow> (\<exists>i \<in> set (members c). k \<le> ag_users (rws ! i))"
    using assms cell_ok_users by (auto simp: cells_cover_def)
  ultimately show ?thesis by auto
qed

lemma publish_levels_cover:
  "rfold (publish_level k label) cs ls = Inr rs \<Longrightarrow> cells_cover rws M cs \<Longrightarrow> cells_cover rws M rs"
  using cover.levels [of rws M cs k label ls] by simp

subsection \<open>One large row saves its parent group\<close>

lemma merge_cells_users: "merge_cells label cs = Inr m \<Longrightarrow> ag_users m = Max (set (map ag_users cs))"
  by (auto simp: merge_cells_def rbind_eq_Inr)

lemma publish_parent_large:
  assumes p: "publish_parent k label cs = Inr rs" and ex: "\<exists>c \<in> set cs. k \<le> ag_users c"
  shows "list_all (\<lambda>c. k \<le> ag_users c) rs"
proof -
  define g where "g = sort_key (\<lambda>c. dims_key label (ag_dims c)) cs"
  define small big where "small = filter (\<lambda>c. ag_users c < k) g" and "big = filter (\<lambda>c. k \<le> ag_users c) g"
  define complement where "complement = min_by (\<lambda>c. (value_key c, dims_key label (ag_dims c))) (hd big) (tl big)"
  have big: "big \<noteq> []" "list_all (\<lambda>c. k \<le> ag_users c) big"
    using ex by (auto simp: big_def g_def filter_empty_conv list_all_iff)
  have comp: "k \<le> ag_users complement"
    using min_by_in [OF big(1)] big(2) unfolding complement_def list_all_iff by blast
  show ?thesis
  proof (cases "small = []")
    case True
    then have "rs = g" using p by (simp add: publish_parent_def Let_def small_def g_def)
    with True show ?thesis by (simp add: small_def filter_empty_conv list_all_iff not_less)
  next
    case False
    then obtain m where m: "merge_cells label small = Inr m"
      using p by (auto simp: publish_parent_def Let_def small_def g_def rbind_eq_Inr split: if_splits)
    have rest: "(if ag_users m < k then rbind (merge_cells label [m, complement]) (\<lambda>m. Inr (remove1 complement big @ [m]))
        else Inr (big @ [m])) = Inr rs"
      using p False m big(1) unfolding publish_parent_def Let_def g_def [symmetric] small_def [symmetric]
        big_def [symmetric] complement_def [symmetric] by simp
    have "list_all (\<lambda>c. k \<le> ag_users c) (remove1 complement big)"
      using big(2) by (auto simp: list_all_iff dest: notin_set_remove1)
    moreover have "k \<le> ag_users m'" if "merge_cells label [m, complement] = Inr m'" for m'
      using merge_cells_users [OF that] comp by simp
    ultimately show ?thesis using rest big(2) by (auto simp: rbind_eq_Inr split: if_splits)
  qed
qed

text \<open>At the top level all cells share one parent, so one row of \<open>k\<close> people saves every other row.\<close>

lemma publish_top_level:
  assumes p: "publish_level k label cs (take 0) = Inr rs" and k: "\<exists>c \<in> set cs. k \<le> ag_users c"
  shows "list_all (\<lambda>c. k \<le> ag_users c) rs"
proof (cases "list_all (\<lambda>c. k \<le> ag_users c) cs")
  case False
  have "group_by_key (\<lambda>c. take 0 (ag_dims c)) cs = [([], cs)]"
    using k by (intro group_by_key_const) auto
  then have "publish_parent k label cs = Inr rs"
    using p False by (auto simp: publish_level_def rbind_eq_Inr)
  then show ?thesis using publish_parent_large k by blast
qed (use p in \<open>simp add: publish_level_def\<close>)

lemma publish_levels_top:
  assumes r: "rfold (publish_level k label) cs (ls @ [take 0]) = Inr rs" and c: "cells_cover rws M cs"
    and k: "\<exists>c \<in> set cs. k \<le> ag_users c"
  shows "list_all (\<lambda>c. k \<le> ag_users c) rs"
proof -
  obtain mid where mid: "rfold (publish_level k label) cs ls = Inr mid" "publish_level k label mid (take 0) = Inr rs"
    using r by (auto simp: rfold_append rbind_eq_Inr)
  have cm: "cells_cover rws M mid" using publish_levels_cover [OF mid(1) c] .
  have "\<exists>c \<in> set mid. k \<le> ag_users c" using k cells_cover_users [OF c] cells_cover_users [OF cm] by simp
  with publish_top_level [OF mid(2)] show ?thesis by blast
qed

section \<open>Publication\<close>

lemma raw_cells_eq:
  "raw_cells keep rws = map (\<lambda>i. agg_row.extend (rws ! i) (cell.fields [i]))
     (filter (\<lambda>i. keep (rws ! i)) [0..<length rws])"
  by (simp add: raw_cells_def enumerate_upt filter_map comp_def)

lemma raw_cells_cover:
  "cells_cover rws (mset (filter (\<lambda>i. keep (rws ! i)) [0..<length rws])) (raw_cells keep rws)"
proof -
  have "concat (map (members \<circ> (\<lambda>i. agg_row.extend (rws ! i) (cell.fields [i]))) is') = is'" for is'
    by (induction is') (simp_all add: agg_row.defs cell.defs)
  moreover have "cell_ok rws (agg_row.extend (rws ! i) (cell.fields [i]))" if "i < length rws" for i
    using that by (simp add: cell_ok_def merged_from_def agg_row.defs cell.defs opt_total_def or0_def split: option.split)
  ultimately show ?thesis by (auto simp: cells_cover_def raw_cells_eq)
qed

lemma truncate_raw:
  "agg_row.truncate (agg_row.extend r (cell.fields ms)) = r" "members (agg_row.extend r (cell.fields ms)) = ms"
  by (simp_all add: agg_row.defs cell.defs)

lemma raw_fields:
  "ag_dims (agg_row.extend r (cell.fields ms)) = ag_dims r" "ag_users (agg_row.extend r (cell.fields ms)) = ag_users r"
  "ag_usage (agg_row.extend r (cell.fields ms)) = ag_usage r" "ag_priced (agg_row.extend r (cell.fields ms)) = ag_priced r"
  by (simp_all add: agg_row.defs cell.defs)

lemma merged_from_truncate [simp]: "merged_from ms (agg_row.truncate c) = merged_from ms c"
  by (simp add: merged_from_def agg_row.defs)

text \<open>The pieces of a returned publication for the organisation.\<close>

lemma publish_orgE:
  assumes "publish raw k parent_of ''org'' = Inr p"
    and "unknown = (\<lambda>r. users_unknown_ok (group_by raw) \<and> ag_users r = 0)"
    and "cells = raw_cells (\<lambda>r. \<not> unknown r) (agg_rows raw)" "kept = raw_cells unknown (agg_rows raw)"
  obtains depth final published where "1 \<le> k"
    "depth = (if cells = [] then length (group_by raw) else Max (set (map (length \<circ> ag_dims) cells)))"
    "rfold (publish_level k (other_label k)) cells (publish_levels parent_of depth) = Inr final"
    "published = sort_key (\<lambda>c. dims_key (other_label k) (ag_dims c)) (filter (\<lambda>c. k \<le> ag_users c) final @ kept)"
    "pub_rows p = map agg_row.truncate published"
  using assms by (auto simp: publish_def check_k_def AUDIENCES_def Let_def rbind_eq_Inr split: if_splits)

lemma publish_groups:
  assumes "publish raw k parent_of ''org'' = Inr p"
  shows "\<exists>gs held. mset (concat gs @ held) = mset (agg_rows raw) \<and> list_all2 merged_from gs (pub_rows p) \<and>
     list_all (\<lambda>r. ag_users r < k) held \<and>
     ((\<exists>r \<in> set (agg_rows raw). k \<le> ag_users r \<and> (ag_dims r \<noteq> [] \<or> parent_of \<noteq> None)) \<longrightarrow> held = []) \<and>
     list_all2 (\<lambda>g r. k \<le> ag_users r \<and> (\<exists>s \<in> set g. k \<le> ag_users s) \<or>
        g = [r] \<and> ag_users r = 0 \<and> users_unknown_ok (group_by raw)) gs (pub_rows p)"
proof -
  define rws where "rws = agg_rows raw"
  define unknown where "unknown = (\<lambda>r :: agg_row. users_unknown_ok (group_by raw) \<and> ag_users r = 0)"
  define cells where "cells = raw_cells (\<lambda>r. \<not> unknown r) rws"
  define kept where "kept = raw_cells unknown rws"
  obtain depth final published where k1: "1 \<le> k"
    and dp: "depth = (if cells = [] then length (group_by raw) else Max (set (map (length \<circ> ag_dims) cells)))"
    and f: "rfold (publish_level k (other_label k)) cells (publish_levels parent_of depth) = Inr final"
    and pub: "published = sort_key (\<lambda>c. dims_key (other_label k) (ag_dims c)) (filter (\<lambda>c. k \<le> ag_users c) final @ kept)"
    and rp: "pub_rows p = map agg_row.truncate published"
    by (rule publish_orgE [OF assms unknown_def cells_def [unfolded rws_def] kept_def [unfolded rws_def]]) blast
  define Mc Mk where "Mc = mset (filter (\<lambda>i. \<not> unknown (rws ! i)) [0..<length rws])"
    and "Mk = mset (filter (\<lambda>i. unknown (rws ! i)) [0..<length rws])"
  have cf: "cells_cover rws Mc final"
    unfolding Mc_def by (rule publish_levels_cover [OF f [unfolded cells_def] raw_cells_cover])
  have ck: "cells_cover rws Mk kept" unfolding kept_def Mk_def by (rule raw_cells_cover)
  define rs where "rs = (\<lambda>c :: cell. map ((!) rws) (members c))"
  define gs where "gs = map rs published"
  define held where "held = concat (map rs (filter (\<lambda>c. \<not> k \<le> ag_users c) final))"
  have "mset published + mset (filter (\<lambda>c. \<not> k \<le> ag_users c) final) = mset final + mset kept"
    using multiset_partition [of "mset final" "\<lambda>c. k \<le> ag_users c"] by (simp add: pub ac_simps)
  then have all: "mset (published @ filter (\<lambda>c. \<not> k \<le> ag_users c) final) = mset (final @ kept)" by simp
  have "cells_cover rws (Mc + Mk) (final @ kept)" by (rule cells_cover_append [OF cf ck])
  then have cov: "cells_cover rws (Mc + Mk) (published @ filter (\<lambda>c. \<not> k \<le> ag_users c) final)"
    using cells_cover_perm [OF all] by simp
  have ix: "Mc + Mk = mset [0..<length rws]"
    using multiset_partition [of "mset [0..<length rws]" "\<lambda>i. unknown (rws ! i)"]
    by (simp add: Mc_def Mk_def ac_simps)
  have im: "mset (concat (map rs cs)) = image_mset ((!) rws) (mset (concat (map members cs)))" for cs
    by (induction cs) (simp_all add: rs_def)
  have "mset (concat gs @ held) = image_mset ((!) rws) (Mc + Mk)"
    using cov im by (simp add: cells_cover_def gs_def held_def flip: image_mset_union)
  also have "\<dots> = mset rws" by (simp only: ix mset_map [symmetric] map_nth)
  finally have part: "mset (concat gs @ held) = mset rws" .
  have ok: "\<forall>c \<in> set published. cell_ok rws c" "\<forall>c \<in> set final. cell_ok rws c"
    using cov cf by (auto simp: cells_cover_def)
  have heldk: "list_all (\<lambda>r. ag_users r < k) held"
    using ok(2) cell_ok_users [of rws _ k] by (fastforce simp: list_all_iff held_def rs_def not_le)
  have kept_row: "rs c = [agg_row.truncate c] \<and> unknown (agg_row.truncate c)" if "c \<in> set kept" for c
    using that by (auto simp: kept_def raw_cells_eq rs_def truncate_raw)
  have "k \<le> ag_users c \<and> (\<exists>s \<in> set (rs c). k \<le> ag_users s) \<or>
        rs c = [agg_row.truncate c] \<and> ag_users c = 0 \<and> users_unknown_ok (group_by raw)" if "c \<in> set published" for c
  proof (cases "c \<in> set kept")
    case True
    with kept_row show ?thesis by (simp add: unknown_def agg_row.defs)
  next
    case False
    with that have "k \<le> ag_users c" by (simp add: pub)
    moreover have "\<exists>s \<in> set (rs c). k \<le> ag_users s"
      using calculation cell_ok_users [of rws c k] ok(1) that by (auto simp: rs_def)
    ultimately show ?thesis by blast
  qed
  then have users: "list_all2 (\<lambda>g r. k \<le> ag_users r \<and> (\<exists>s \<in> set g. k \<le> ag_users s) \<or>
        g = [r] \<and> ag_users r = 0 \<and> users_unknown_ok (group_by raw)) gs (pub_rows p)"
    by (simp add: rp gs_def list_all2_map1 list_all2_map2 list.rel_refl_strong list_all2_same agg_row.defs)
  have "list_all2 merged_from gs (pub_rows p)"
    using ok(1) by (simp add: rp gs_def list_all2_map1 list_all2_map2 list_all2_same rs_def cell_ok_def)
  moreover have "held = []"
    if r: "r \<in> set rws" "k \<le> ag_users r" "ag_dims r \<noteq> [] \<or> parent_of \<noteq> None" for r
  proof -
    obtain i where i: "i < length rws" "rws ! i = r" using r(1) by (auto simp: in_set_conv_nth)
    define c where "c = agg_row.extend r (cell.fields [i])"
    have "\<not> unknown r" using r(2) k1 by (simp add: unknown_def)
    then have c: "c \<in> set cells" using i by (auto simp: cells_def raw_cells_eq c_def)
    have "\<exists>ls. publish_levels parent_of depth = ls @ [take 0]"
    proof (cases parent_of)
      case None
      have "length (ag_dims c) \<le> depth" using c by (auto simp: dp intro: Max_ge)
      then have "0 < depth" using r(3) None by (cases "ag_dims r") (auto simp: c_def raw_fields)
      then have "[0..<depth] = 0 # [1..<depth]" by (simp add: upt_rec [of 0])
      then show ?thesis using None by (simp add: publish_levels_def)
    qed (simp add: publish_levels_def)
    then obtain ls where ls: "publish_levels parent_of depth = ls @ [take 0]" ..
    have cc: "cells_cover rws Mc cells" unfolding Mc_def cells_def by (rule raw_cells_cover)
    have "list_all (\<lambda>c. k \<le> ag_users c) final"
      by (rule publish_levels_top [OF f [unfolded ls] cc]) (use c r(2) in \<open>auto simp: c_def raw_fields intro!: bexI [of _ c]\<close>)
    then show ?thesis by (auto simp: held_def list_all_iff filter_empty_conv)
  qed
  ultimately show ?thesis using part heldk users by (intro exI [of _ gs] exI [of _ held]) (auto simp: rws_def)
qed


text \<open>C5: Publication for the organisation partitions the raw rows: every raw row is merged into exactly one
  published row or withheld, a published row carries the request, token, inference and cost totals of its raw
  rows and the largest of their user counts, and withheld rows are below \<open>k\<close>. A published row either has at least
  \<open>k\<close> people, so that a row below \<open>k\<close> only appears merged with a row of \<open>k\<close> people, or is one raw row of unknown
  user count in a grouping without a person dimension.\<close>

theorem publish_partitions:
  assumes "publish raw k parent_of ''org'' = Inr p"
  shows "\<exists>gs held. mset (concat gs @ held) = mset (agg_rows raw) \<and> list_all2 merged_from gs (pub_rows p) \<and>
     list_all (\<lambda>r. ag_users r < k) held \<and>
     list_all2 (\<lambda>g r. k \<le> ag_users r \<and> (\<exists>s \<in> set g. k \<le> ag_users s) \<or>
        g = [r] \<and> ag_users r = 0 \<and> users_unknown_ok (group_by raw)) gs (pub_rows p)"
  using publish_groups [OF assms] by blast

subsection \<open>Publication returns\<close>

lemma usage_fields_nonneg: "valid_usage u \<Longrightarrow> f \<in> set USAGE_FIELDS \<Longrightarrow> 0 \<le> f u"
  by (auto simp: USAGE_FIELDS_def valid_usage_iff count_ok_iff)

lemma sub_sum_le:
  fixes g :: "'a \<Rightarrow> int"
  assumes "mset xs \<subseteq># mset ys" "\<forall>y \<in> set ys. 0 \<le> g y"
  shows "sum_list (map g xs) \<le> sum_list (map g ys)"
proof -
  obtain N where N: "mset ys = mset xs + N" using assms(1) by (metis mset_subset_eq_exists_conv)
  have "\<forall>y \<in># N. 0 \<le> g y" using N assms(2) by (metis set_mset_mset union_iff)
  then have "0 \<le> \<Sum>\<^sub># (image_mset g N)" by (induction N) auto
  then show ?thesis unfolding sum_mset_sum_list [symmetric] mset_map N by simp
qed

lemma fields_fit:
  assumes "agg_rows_ok b rws" "mset ms \<subseteq># mset [0..<length rws]" "f \<in> set USAGE_FIELDS"
  shows "sum_list (map (\<lambda>i. f (ag_usage (rws ! i))) ms) \<le> MAX_TOKENS"
proof -
  have "sum_list (map (\<lambda>i. f (ag_usage (rws ! i))) ms) \<le> sum_list (map (\<lambda>i. f (ag_usage (rws ! i))) [0..<length rws])"
    using assms by (intro sub_sum_le) (auto simp: agg_rows_ok_def amounts_ok_def intro: usage_fields_nonneg)
  also have "map (\<lambda>i. f (ag_usage (rws ! i))) [0..<length rws] = map (f \<circ> ag_usage) rws"
    by (rule nth_equalityI) simp_all
  finally show ?thesis using assms(1,3) by (auto simp: agg_rows_ok_def)
qed

lemma mk_usage_ttl:
  assumes "valid_usage u" "0 < t" "t \<le> MAX_TOKENS"
  shows "mk_usage (u\<lparr>cache_write_other_ttl_s := Some t\<rparr>) = Inr (u\<lparr>cache_write_other_ttl_s := Some t\<rparr>)"
  using assms by (simp add: mk_usage_def valid_usage_iff opt_ok_def)

lemma add_usage_fields:
  assumes "valid_usage a" "valid_usage b" "\<forall>f \<in> set USAGE_FIELDS. f a + f b \<le> MAX_TOKENS"
    and "\<not> (\<exists>x y. cache_write_other_ttl_s a = Some x \<and> cache_write_other_ttl_s b = Some y \<and> x \<noteq> y)"
  shows "\<exists>c. add_usage a b = Inr c \<and> valid_usage c \<and> (\<forall>f \<in> set USAGE_FIELDS. f c = f a + f b)"
proof -
  have "\<exists>c. add_usage a b = Inr c"
    using assms
    by (cases "output_reasoning a"; cases "output_reasoning b";
        cases "cache_write_other_ttl_s a"; cases "cache_write_other_ttl_s b")
      (simp_all add: add_usage_def mk_usage_def valid_usage_iff count_ok_iff opt_ok_def USAGE_FIELDS_def)
  then obtain c where c: "add_usage a b = Inr c" ..
  then have "\<forall>f \<in> set USAGE_FIELDS. f c = f a + f b"
    by (auto simp: add_usage_def mk_usage_def rbind_eq_Inr USAGE_FIELDS_def)
  with c add_usage_sums(1) [OF c] show ?thesis by blast
qed

lemma kanon_add_usage_returns:
  assumes v: "valid_usage a" "valid_usage b" and s: "\<forall>f \<in> set USAGE_FIELDS. f a + f b \<le> MAX_TOKENS"
  shows "\<exists>c. kanon_add_usage a b = Inr c \<and> valid_usage c \<and> (\<forall>f \<in> set USAGE_FIELDS. f c = f a + f b)"
proof (cases "\<exists>x y. cache_write_other_ttl_s a = Some x \<and> cache_write_other_ttl_s b = Some y \<and> x \<noteq> y")
  case True
  then obtain x y where xy: "cache_write_other_ttl_s a = Some x" "cache_write_other_ttl_s b = Some y" "x \<noteq> y" by blast
  define a' b' where "a' = a\<lparr>cache_write_other_ttl_s := Some (min x y)\<rparr>"
    and "b' = b\<lparr>cache_write_other_ttl_s := Some (min x y)\<rparr>"
  have t: "0 < min x y" "min x y \<le> MAX_TOKENS" using v xy by (auto simp: valid_usage_iff opt_ok_def)
  have m: "mk_usage a' = Inr a'" "mk_usage b' = Inr b'"
    unfolding a'_def b'_def by (rule mk_usage_ttl [OF v(1) t], rule mk_usage_ttl [OF v(2) t])
  have same: "\<forall>f \<in> set USAGE_FIELDS. f a' = f a \<and> f b' = f b" by (simp add: USAGE_FIELDS_def a'_def b'_def)
  have "\<exists>c. add_usage a' b' = Inr c \<and> valid_usage c \<and> (\<forall>f \<in> set USAGE_FIELDS. f c = f a' + f b')"
    using m s same by (intro add_usage_fields) (auto simp: valid_usage_def a'_def b'_def)
  then obtain c where c: "add_usage a' b' = Inr c" "valid_usage c" "\<forall>f \<in> set USAGE_FIELDS. f c = f a' + f b'" by blast
  have "\<forall>f \<in> set USAGE_FIELDS. f c = f a + f b" using c(3) same by metis
  then show ?thesis using xy m c(1,2) by (simp add: kanon_add_usage_def a'_def [symmetric] b'_def [symmetric])
next
  case False
  then have "kanon_add_usage a b = add_usage a b" by (auto simp: kanon_add_usage_def split: option.splits)
  with add_usage_fields [OF v s False] show ?thesis by simp
qed

lemma add_opt_returns:
  assumes "opt_ok (addable b) x" "opt_ok (addable b) y"
  shows "\<exists>z. add_opt x y = Inr z \<and> opt_ok (addable b) z"
  using assms add_addable by (cases x; cases y) (fastforce simp: add_opt_def opt_ok_def)+

lemma usage_tokens_fields: "usage_tokens u = sum_list (map (\<lambda>f. f u) (take 7 USAGE_FIELDS))"
  by (simp add: usage_tokens_def total_input_def cache_write_def USAGE_FIELDS_def)

lemma usage_tokens_bound: "valid_usage u \<Longrightarrow> 0 \<le> usage_tokens u \<and> usage_tokens u \<le> 7 * MAX_TOKENS"
  by (auto simp: valid_usage_iff count_ok_iff usage_tokens_def total_input_def cache_write_def)

lemma merge_amounts_returns:
  assumes r: "agg_rows_ok b rws" and c: "amounts_ok b rws (members c) (ag_usage c, ag_priced c)"
    and a: "amounts_ok b rws ms (u, p)" and m: "mset (ms @ members c) \<subseteq># mset [0..<length rws]"
  shows "\<exists>up. merge_amounts (u, p) c = Inr up \<and> amounts_ok b rws (ms @ members c) up"
proof -
  define v q where "v = ag_usage c" and "q = ag_priced c"
  have s: "\<forall>f \<in> set USAGE_FIELDS. f u + f v \<le> MAX_TOKENS"
    using a c fields_fit [OF r m] by (auto simp: amounts_ok_def v_def)
  have v: "valid_usage u" "valid_usage v" using a c by (simp_all add: amounts_ok_def v_def)
  obtain w where w: "kanon_add_usage u v = Inr w" "valid_usage w" "\<forall>f \<in> set USAGE_FIELDS. f w = f u + f v"
    using kanon_add_usage_returns [OF v s] by blast
  have tw: "usage_tokens w = usage_tokens u + usage_tokens v" using kanon_add_usage_tokens [OF w(1)] .
  have b: "0 \<le> unpriced_tokens p + unpriced_tokens q" "unpriced_tokens p + unpriced_tokens q \<le> usage_tokens u + usage_tokens v"
    using a c by (simp_all add: amounts_ok_def v_def q_def)
  have "usage_tokens u + usage_tokens v < 10 ^ 60"
    using usage_tokens_bound [OF v(1)] usage_tokens_bound [OF v(2)] by (simp add: MAX_TOKENS_def)
  from coverage_returns [OF b this] obtain cov where
    cov: "coverage_of (usage_tokens u + usage_tokens v - (unpriced_tokens p + unpriced_tokens q))
      (usage_tokens u + usage_tokens v) = Inr cov"
    by (auto simp: returns_iff)
  have pf: "addable b (pt_exact p)" "opt_ok (addable b) (pt_estimated p)"
      "opt_ok (addable LIST_EQUIVALENT) (pt_allowance p)" "opt_ok (addable LIST_EQUIVALENT) (pt_pool p)"
    using a by (simp_all add: amounts_ok_def)
  have qf: "addable b (pt_exact q)" "opt_ok (addable b) (pt_estimated q)"
      "opt_ok (addable LIST_EQUIVALENT) (pt_allowance q)" "opt_ok (addable LIST_EQUIVALENT) (pt_pool q)"
    using c by (simp_all add: amounts_ok_def q_def)
  obtain ex where ex: "add (pt_exact p) (pt_exact q) = Inr ex" "addable b ex"
    using add_addable [OF pf(1) qf(1)] by blast
  obtain est where est: "add_opt (pt_estimated p) (pt_estimated q) = Inr est" "opt_ok (addable b) est"
    using add_opt_returns [OF pf(2) qf(2)] by blast
  obtain al where al: "add_opt (pt_allowance p) (pt_allowance q) = Inr al" "opt_ok (addable LIST_EQUIVALENT) al"
    using add_opt_returns [OF pf(3) qf(3)] by blast
  obtain po where po: "add_opt (pt_pool p) (pt_pool q) = Inr po" "opt_ok (addable LIST_EQUIVALENT) po"
    using add_opt_returns [OF pf(4) qf(4)] by blast
  have "merge_amounts (u, p) c = Inr (w, \<lparr>pt_exact = ex, pt_estimated = est, pt_allowance = al,
              priced_inferences = priced_inferences p + priced_inferences q,
              unpriced_inferences = unpriced_inferences p + unpriced_inferences q,
              unpriced_tokens = unpriced_tokens p + unpriced_tokens q, coverage = cov, pt_pool = po\<rparr>)"
    using w(1) ex(1) est(1) al(1) po(1) cov
    by (simp add: merge_amounts_def add_priced_def Let_def v_def [symmetric] q_def [symmetric])
  moreover have "\<forall>f \<in> set USAGE_FIELDS. f w = sum_list (map (\<lambda>i. f (ag_usage (rws ! i))) (ms @ members c))"
    using w(3) a c by (simp add: amounts_ok_def v_def)
  ultimately show ?thesis using w(2) b tw ex(2) est(2) al(2) po(2) by (simp add: amounts_ok_def)
qed

lemma rfold_amounts_returns:
  assumes r: "agg_rows_ok b rws" and "\<forall>c \<in> set cs. amounts_ok b rws (members c) (ag_usage c, ag_priced c)"
    and "amounts_ok b rws ms up" "mset (ms @ concat (map members cs)) \<subseteq># mset [0..<length rws]"
  shows "\<exists>up'. rfold merge_amounts up cs = Inr up' \<and> amounts_ok b rws (ms @ concat (map members cs)) up'"
  using assms(2-)
proof (induction cs arbitrary: ms up)
  case (Cons c cs)
  obtain u p where up: "up = (u, p)" by (cases up)
  have "mset (ms @ members c) \<subseteq># mset [0..<length rws]"
    using Cons.prems(3) by (auto intro: subset_mset.order_trans [rotated])
  then obtain up1 where u1: "merge_amounts up c = Inr up1" "amounts_ok b rws (ms @ members c) up1"
    using merge_amounts_returns [OF r, of c ms u p] Cons.prems(1,2) unfolding up by auto
  from Cons.IH [OF _ u1(2)] Cons.prems u1(1) show ?case by simp
qed simp

lemma merge_cells_returns:
  assumes r: "agg_rows_ok b rws" and cs: "\<forall>c \<in> set cs. amounts_ok b rws (members c) (ag_usage c, ag_priced c)"
    and m: "mset (concat (map members cs)) \<subseteq># mset [0..<length rws]" and ne: "cs \<noteq> []"
  shows "\<exists>c. merge_cells label cs = Inr c \<and> amounts_ok b rws (members c) (ag_usage c, ag_priced c)"
proof -
  obtain d ds where d: "cs = d # ds" using ne by (cases cs) auto
  obtain u p where up: "rfold merge_amounts (ag_usage d, ag_priced d) ds = Inr (u, p)"
    "amounts_ok b rws (concat (map members cs)) (u, p)"
    using rfold_amounts_returns [OF r, of ds "members d" "(ag_usage d, ag_priced d)"] cs m by (auto simp: d)
  define ms where "ms = concat (map members cs)"
  have "sum_list (map g (sort ms)) = sum_list (map g ms)" for g :: "nat \<Rightarrow> int" by (rule sum_list_mset_eq) simp
  then have "amounts_ok b rws (sort ms) (u, p)"
    using up(2) by (simp add: amounts_ok_def ms_def [symmetric])
  with up(1) show ?thesis by (simp add: merge_cells_def d ms_def)
qed

lemma merge_cells_members: "merge_cells label cs = Inr m \<Longrightarrow> mset (members m) = mset (concat (map members cs))"
  by (auto simp: merge_cells_def rbind_eq_Inr)

interpretation fit: cell_invariant True "cells_fit b rws" for b rws
proof
  show "mset xs = mset ys \<Longrightarrow> cells_fit b rws M xs = cells_fit b rws M ys" for xs ys M
    using mset_eq_setD [of xs ys] by (simp only: cells_fit_def mset_members)
next
  fix M xs ys label
  assume f: "cells_fit b rws M (xs @ ys)" and ne: "xs \<noteq> []"
  have "mset (concat (map members xs)) \<subseteq># mset [0..<length rws]"
    using f by (auto simp: cells_fit_def intro: subset_mset.order_trans [rotated])
  with merge_cells_returns [of b rws xs label] f ne obtain m where
    m: "merge_cells label xs = Inr m" "amounts_ok b rws (members m) (ag_usage m, ag_priced m)"
    by (auto simp: cells_fit_def)
  with f merge_cells_members [OF m(1)]
  show "psat True (\<lambda>m. cells_fit b rws M (m # ys)) (merge_cells label xs)"
    by (simp add: cells_fit_def)
qed

lemma publish_total:
  assumes "1 \<le> k" "agg_rows_ok b (agg_rows raw)" "audience \<in> set AUDIENCES"
  shows "\<exists>p. publish raw k parent_of audience = Inr p"
proof (cases "audience = ''self''")
  case False
  define unknown where "unknown = (\<lambda>r :: agg_row. users_unknown_ok (group_by raw) \<and> ag_users r = 0)"
  define cells where "cells = raw_cells (\<lambda>r. \<not> unknown r) (agg_rows raw)"
  have mem: "map members (raw_cells keep rws) = map (\<lambda>i. [i]) (filter (\<lambda>i. keep (rws ! i)) [0..<length rws])" for keep rws
    by (simp add: raw_cells_eq comp_def truncate_raw)
  have "mset (concat (map members cells)) \<subseteq># mset [0..<length (agg_rows raw)]"
    unfolding cells_def mem concat_map_singleton mset_filter by auto
  moreover have "\<forall>c \<in> set cells. amounts_ok b (agg_rows raw) (members c) (ag_usage c, ag_priced c)"
    using assms(2) by (auto simp: agg_rows_ok_def cells_def raw_cells_eq truncate_raw raw_fields)
  ultimately have "cells_fit b (agg_rows raw) {#} cells" using assms(2) by (simp add: cells_fit_def)
  then have r: "\<exists>final. rfold (publish_level k (other_label k)) cells ls = Inr final" for ls
    using fit.levels [of b "agg_rows raw" "{#}" cells k "other_label k" ls] by (auto simp: psat_total)
  define depth where "depth = (if cells = [] then length (group_by raw) else Max (set (map (length \<circ> ag_dims) cells)))"
  obtain final where "rfold (publish_level k (other_label k)) cells (publish_levels parent_of depth) = Inr final"
    using r by blast
  then show ?thesis
    using assms(1,3) False unfolding publish_def Let_def check_k_def unknown_def [symmetric] cells_def [symmetric]
      depth_def [symmetric] by simp
qed (use assms in \<open>simp add: publish_def check_k_def AUDIENCES_def\<close>)

text \<open>C23: Publication never fails on a table whose rows can be added up: for every threshold of at least 1, every
  parent function and both audiences, rows with valid figures on one basis and usages whose column sums stay
  within the token range are published, and no merge on the way raises.\<close>

theorem publish_returns:
  assumes "1 \<le> k" "agg_rows_ok b (agg_rows raw)" "audience \<in> set AUDIENCES"
  shows "\<exists>p. publish raw k parent_of audience = Inr p"
  using publish_total [OF assms] .

text \<open>C22: Nothing is lost to suppression once one row reaches \<open>k\<close>: if some row with a dimension (or under a given
  parent function) has at least \<open>k\<close> people, the published rows carry all requests, tokens, priced inferences and
  unpriced tokens of the raw table, and its exact cost.\<close>

theorem publish_withholds_nothing:
  assumes "publish raw k parent_of ''org'' = Inr p"
    and "r \<in> set (agg_rows raw)" "k \<le> ag_users r" "ag_dims r \<noteq> [] \<or> parent_of \<noteq> None"
  shows "sum_list (map ag_requests (pub_rows p)) = sum_list (map ag_requests (agg_rows raw)) \<and>
     sum_list (map (usage_tokens \<circ> ag_usage) (pub_rows p)) = sum_list (map (usage_tokens \<circ> ag_usage) (agg_rows raw)) \<and>
     sum_list (map (priced_inferences \<circ> ag_priced) (pub_rows p)) =
       sum_list (map (priced_inferences \<circ> ag_priced) (agg_rows raw)) \<and>
     sum_list (map (unpriced_tokens \<circ> ag_priced) (pub_rows p)) =
       sum_list (map (unpriced_tokens \<circ> ag_priced) (agg_rows raw)) \<and>
     opt_total (map (nano \<circ> pt_exact \<circ> ag_priced) (pub_rows p)) =
       opt_total (map (nano \<circ> pt_exact \<circ> ag_priced) (agg_rows raw))"
proof -
  obtain gs where gs: "mset (concat gs) = mset (agg_rows raw)" "list_all2 merged_from gs (pub_rows p)"
    using publish_groups [OF assms(1)] assms(2-4) by fastforce
  have sums: "sum_list (map f rs) = sum_list (map f (concat gs))"
    if "list_all2 merged_from gs rs" "\<And>ms r :: agg_row. merged_from ms r \<Longrightarrow> f r = sum_list (map f ms)"
    for f :: "agg_row \<Rightarrow> int" and gs rs
    using that(1) by (induction rule: list_all2_induct) (auto dest: that(2))
  have cost: "opt_total (map f rs) = opt_total (map f (concat gs))"
    if "list_all2 merged_from gs rs" "\<And>ms r :: agg_row. merged_from ms r \<Longrightarrow> f r = opt_total (map f ms)"
    for f :: "agg_row \<Rightarrow> int option" and gs rs
    using that(1)
  proof (induction rule: list_all2_induct)
    case (Cons ms gs r rs)
    have one: "opt_total [x] = x" for x by (cases x) (simp_all add: opt_total_def or0_def)
    have "opt_total (map f (r # rs)) = opt_total ([f r] @ map f rs)" by simp
    also have "\<dots> = opt_total (map f ms @ map f (concat gs))"
      unfolding opt_total_append one that(2) [OF Cons.hyps(1)] Cons.IH ..
    finally show ?case by simp
  qed simp
  have total: "sum_list (map f (pub_rows p)) = sum_list (map f (agg_rows raw))"
    if "\<And>ms r :: agg_row. merged_from ms r \<Longrightarrow> f r = sum_list (map f ms)" for f :: "agg_row \<Rightarrow> int"
    using sums [OF gs(2) that] sum_list_mset_eq [OF gs(1), of f] by simp
  have ctotal: "opt_total (map f (pub_rows p)) = opt_total (map f (agg_rows raw))"
    if "\<And>ms r :: agg_row. merged_from ms r \<Longrightarrow> f r = opt_total (map f ms)" for f :: "agg_row \<Rightarrow> int option"
    using cost [OF gs(2) that] opt_total_perm [of "map f (concat gs)" "map f (agg_rows raw)"] gs(1) by simp
  show ?thesis by (intro conjI total ctotal) (simp_all add: merged_from_def comp_def)
qed

section \<open>Ingest-time aggregation\<close>

lemma small_groups_inv:
  assumes "rfold (small_group_step k other) (big, small) rws = Inr (big', small')"
    and "distinct (map fst big)" "list_all (\<lambda>(label, n, q). k \<le> n \<and> label \<noteq> other) big"
    and "list_all (\<lambda>(label, n, q). 0 \<le> n) small" "1 \<le> k"
  shows "distinct (map fst big') \<and> list_all (\<lambda>(label, n, q). k \<le> n \<and> label \<noteq> other) big' \<and>
     list_all (\<lambda>(label, n, q). 0 \<le> n) small' \<and>
     sum_list (map (fst \<circ> snd) big') + sum_list (map (fst \<circ> snd) small') =
       sum_list (map (fst \<circ> snd) big) + sum_list (map (fst \<circ> snd) small) + sum_list (map (fst \<circ> snd) rws)"
  using assms
proof (induction rws arbitrary: big small)
  case (Cons row rws)
  obtain label n q where row: "row = (label, n, q)" by (cases row) auto
  obtain b1 s1 where st: "small_group_step k other (big, small) row = Inr (b1, s1)"
      and r: "rfold (small_group_step k other) (b1, s1) rws = Inr (big', small')"
    using Cons.prems(1) by (auto simp: rbind_eq_Inr)
  have b1: "distinct (map fst b1) \<and> list_all (\<lambda>(label, n, q). k \<le> n \<and> label \<noteq> other) b1 \<and>
      list_all (\<lambda>(label, n, q). 0 \<le> n) s1 \<and>
      sum_list (map (fst \<circ> snd) b1) + sum_list (map (fst \<circ> snd) s1) =
        sum_list (map (fst \<circ> snd) big) + sum_list (map (fst \<circ> snd) small) + n"
  proof (cases "k \<le> n \<and> label \<noteq> other")
    case True
    have "list_all (\<lambda>(label, n, q). k \<le> n \<and> label \<noteq> other) (dset label (m, q') big)" if "k \<le> m" for m q'
      using Cons.prems(3) True that by (induction big) (auto simp: dset_def split: if_splits)
    moreover have "k \<le> m" if "map_of big label = Some (m, q')" for m q'
      using map_of_SomeD [OF that] Cons.prems(3) by (auto simp: list_all_iff)
    ultimately show ?thesis
      using st True Cons.prems(2,4,5) sum_list_dset [OF Cons.prems(2), of fst label _]
      by (fastforce simp: small_group_step_def row rbind_eq_Inr split: option.splits if_splits)
  next
    case False
    with st Cons.prems show ?thesis by (auto simp: small_group_step_def row split: if_splits)
  qed
  from Cons.IH [OF r] b1 Cons.prems(5) show ?case by (simp add: row comp_def)
qed simp

text \<open>Ingest-time team aggregation never publishes a group below \<open>k\<close> and drops people only when all small groups
  together stay below \<open>k\<close>: every output row has at least \<open>k\<close> users, labels are unique, and the user counts of the
  output and of what is dropped add up to those of the input.\<close>

theorem small_groups_conserve:
  assumes "merge_small_groups rws k other = Inr (out, dropped)"
  shows "list_all (\<lambda>(label, n, q). k \<le> n) out \<and> distinct (map fst out) \<and>
     (\<exists>lost. sum_list (map (fst \<circ> snd) out) + lost = sum_list (map (fst \<circ> snd) rws) \<and>
        0 \<le> lost \<and> lost < k \<and> (dropped = 0 \<longrightarrow> lost = 0))"
proof -
  obtain big small where k: "1 \<le> k" and f: "rfold (small_group_step k other) ([], []) rws = Inr (big, small)"
    using assms by (auto simp: merge_small_groups_def check_k_def rbind_eq_Inr split: if_splits)
  define total where "total = sum_list (map (fst \<circ> snd) small)"
  have inv: "distinct (map fst big)" "list_all (\<lambda>(label, n, q). k \<le> n \<and> label \<noteq> other) big"
      "list_all (\<lambda>(label, n, q). 0 \<le> n) small" "sum_list (map (fst \<circ> snd) big) + total = sum_list (map (fst \<circ> snd) rws)"
    using small_groups_inv [OF f] k by (simp_all add: total_def)
  have t: "sum_list (map (\<lambda>(_, n, _). n) small) = total" unfolding total_def by (induction small) auto
  have big: "distinct (map fst (sort_key fst big))" "other \<notin> fst ` set big"
      "sum_list (map (fst \<circ> snd) (sort_key fst big)) = sum_list (map (fst \<circ> snd) big)"
    using inv(1,2) mset_eq_imp_distinct_iff [of "map fst (sort_key fst big)" "map fst big"]
    by (auto simp: list_all_iff intro!: sum_list_mset_eq)
  have nn: "0 \<le> total" using inv(3) unfolding total_def by (induction small) auto
  consider "small = []" "out = sort_key fst big" "dropped = 0" "total = 0"
    | q where "k \<le> total" "out = sort_key fst big @ [(other, total, q)]" "dropped = 0"
    | "small \<noteq> []" "total < k" "out = sort_key fst big" "dropped = length small"
    using assms k f t by (auto simp: merge_small_groups_def check_k_def rbind_eq_Inr total_def Let_def split: if_splits)
  then show ?thesis
    using inv big nn k by cases (auto simp: list_all_iff)
qed

section \<open>Examples\<close>

lemma wit_raw_ok: "agg_rows_ok LIST (agg_rows wit_raw)"
proof -
  have "0 \<le> n \<Longrightarrow> n \<le> 1000 \<Longrightarrow> i < length rws \<Longrightarrow> rws ! i = wit_k_row t m n \<Longrightarrow>
      amounts_ok LIST rws [i] (ag_usage (rws ! i), ag_priced (rws ! i))" for t m n i rws
    by (simp add: amounts_ok_def wit_k_row_def wit_k_usage_def wit_k_figure_def valid_usage_iff count_ok_iff
        MAX_TOKENS_def opt_ok_def usage_tokens_def total_input_def cache_write_def addable_def valid_figure_iff
        named_note_def USAGE_FIELDS_def)
  then have "\<forall>i < length (agg_rows wit_raw).
      amounts_ok LIST (agg_rows wit_raw) [i] (ag_usage (agg_rows wit_raw ! i), ag_priced (agg_rows wit_raw ! i))"
    by (simp add: wit_raw_def less_Suc_eq All_less_Suc)
  then show ?thesis
    by (simp add: agg_rows_ok_def wit_raw_def wit_k_row_def wit_k_usage_def USAGE_FIELDS_def MAX_TOKENS_def)
qed

lemma wit_publishes: "\<exists>p. publish wit_raw 5 None ''org'' = Inr p"
  by (rule publish_total [OF _ wit_raw_ok]) (simp_all add: AUDIENCES_def)

theorem publish_partitions_witness:
  "\<exists>p gs held. publish wit_raw 5 None ''org'' = Inr p \<and> mset (concat gs @ held) = mset (agg_rows wit_raw) \<and>
     list_all2 merged_from gs (pub_rows p) \<and> list_all (\<lambda>r. ag_users r < 5) held \<and>
     list_all2 (\<lambda>g r. 5 \<le> ag_users r \<and> (\<exists>s \<in> set g. 5 \<le> ag_users s) \<or>
        g = [r] \<and> ag_users r = 0 \<and> users_unknown_ok (group_by wit_raw)) gs (pub_rows p)"
  using wit_publishes publish_partitions [of wit_raw 5 None] by blast

theorem publish_returns_witness: "\<exists>p. publish wit_raw 5 None ''org'' = Inr p"
  by (rule publish_returns [OF _ wit_raw_ok]) (simp_all add: AUDIENCES_def)

theorem publish_withholds_nothing_witness:
  "\<exists>p. publish wit_raw 5 None ''org'' = Inr p \<and>
     sum_list (map ag_requests (pub_rows p)) = sum_list (map ag_requests (agg_rows wit_raw))"
proof -
  obtain p where p: "publish wit_raw 5 None ''org'' = Inr p" using wit_publishes by blast
  have "wit_k_row ''a'' ''x'' 7 \<in> set (agg_rows wit_raw)" by (simp add: wit_raw_def)
  from publish_withholds_nothing [OF p this] p show ?thesis by (simp add: wit_k_row_def)
qed

theorem small_groups_conserve_witness:
  "list_all (\<lambda>(label, n, q). 5 \<le> n) wit_groups_out \<and> distinct (map fst wit_groups_out) \<and>
   (\<exists>lost. sum_list (map (fst \<circ> snd) wit_groups_out) + lost = sum_list (map (fst \<circ> snd) wit_groups) \<and>
      0 \<le> lost \<and> lost < 5 \<and> ((0 :: nat) = 0 \<longrightarrow> lost = 0))"
  by (rule small_groups_conserve [of wit_groups 5 "''(other)''"]) code_simp

end
