(* ===== verification/Rescope.thy ===== *)
theory Rescope
  imports Kanon
begin

text \<open>
  Re-scoping of findings for the organisation, the second half of \<open>core/kanon.py\<close>: which findings are exempt, the
  parent scopes, the merge of findings with the scrubbing of names and the fitting of the summary, the walk up the
  levels with complementary suppression, and the counting of people per scope. The ellipsis (U+2026) is a
  parameter \<open>ell\<close>, since strings are 8-bit; SHA-256 (\<open>sha\<close>) and the counting queries of the stores are
  parameters too. The lemmas show that every published finding is exempt or has at least \<open>k\<close> people and names
  none, and that a merged summary fits its limit.
\<close>

section \<open>Definitions\<close>

subsection \<open>Findings\<close>

type_synonym scope = "(string \<times> string) list"

record evidence_item =
  ev_item_kind :: string
  ev_item_ref :: string
  ev_item_attrs :: "(string \<times> attr) list"

record finding_fix =
  fix_text :: string
  config_patch :: "(string \<times> string) list option"
  fix_target :: "string option"
  doc_url :: "string option"
  gates :: "string list"

record finding =
  finding_id :: string
  detector_id :: string
  f_kind :: string
  detector_version :: string
  category :: string
  lever_class :: string
  audience :: string
  f_title :: string
  f_summary :: string
  f_scope :: scope
  n_events :: int
  n_lanes :: int
  f_users :: int
  first_seen_ms :: int
  cost_observed :: figure
  recoverable :: "figure option"
  recoverable_shapley :: "figure option"
  projected_monthly :: "figure option"
  lever_ids :: "string list"
  evidence :: "evidence_item list"
  f_fix :: "finding_fix option"
  confidence :: string
  validated_against :: "string option"
  needs_eval :: bool
  references :: "string list"
  headroom :: "figure option"

definition RESCOPE_LEVELS :: "string list list" where
  "RESCOPE_LEVELS =
    [[''team'', ''cost_center'', ''lane_kind'', ''billing_class''],
     [''team'', ''cost_center'', ''billing_class''],
     [''cost_center'', ''billing_class''],
     [''billing_class'']]"

definition KEY_DIMS :: "string list" where "KEY_DIMS = [''api_key_id'', ''api_key'']"

definition CONFIDENCE_RANK :: "(string \<times> int) list" where
  "CONFIDENCE_RANK = [(''low'', 0), (''medium'', 1), (''high'', 2)]"

definition COPILOT_ROOT_DIMS :: "string list" where
  "COPILOT_ROOT_DIMS = [''product'', ''entity'', ''org'', ''plan_scenario'', ''billing_class'']"

definition COPILOT_RESCOPE_LEVELS :: "string list list" where
  "COPILOT_RESCOPE_LEVELS =
    [COPILOT_ROOT_DIMS @ [''team'', ''bucket'', ''plan'', ''model'', ''cost_center''],
     COPILOT_ROOT_DIMS @ [''bucket'', ''plan'', ''model'', ''cost_center''],
     COPILOT_ROOT_DIMS @ [''plan'', ''model'', ''cost_center''],
     COPILOT_ROOT_DIMS @ [''model'', ''cost_center''],
     COPILOT_ROOT_DIMS @ [''cost_center''],
     COPILOT_ROOT_DIMS]"

definition ENTITY_EXEMPT_DIMS :: "string list" where
  "ENTITY_EXEMPT_DIMS = [''product'', ''entity'', ''org'', ''model'', ''sku'', ''plan_scenario'']"

subsection \<open>Count sources\<close>

definition SEATS :: string where "SEATS = ''copilot.seats-budgets''"
definition ORG :: string where "ORG = ''copilot.org-scan''"
definition LANES :: string where "LANES = ''copilot.lanes''"

definition COUNT_SOURCE :: "((string \<times> string) \<times> string) list" where
  "COUNT_SOURCE =
     map (\<lambda>k. ((SEATS, k), ''entity'')) [''plan-status'', ''pool-regime'', ''overage-forecast'', ''promo-cliff'',
       ''budget-paid-usage-uncapped'', ''budget-stop-usage-off'', ''budget-ulb-gap'', ''budget-org-multi-org-seats'',
       ''budget-enterprise-misread'', ''dq.skipped-kinds''] @
     map (\<lambda>k. ((SEATS, k), ''licenses'')) [''idle-seat'', ''seat-auto-assign'', ''completions-only-seat'', ''plan-mix'',
       ''duplicate-seat'', ''budget-zero-user-budget''] @
     [((SEATS, ''budget-no-cost-center-pool''), ''cost_lines'')] @
     map (\<lambda>k. ((ORG, k), ''cost_lines'')) [''premium-model-share'', ''fast-mode'', ''auto-adoption'', ''cache-health''] @
     map (\<lambda>k. ((ORG, k), ''entity'')) [''forced-migration'', ''compliance-uplift'', ''review-cost'',
       ''review-default-balanced'', ''review-drivers'', ''direct-org-usage'', ''agentic-workflow-cost'',
       ''larger-runner'', ''cloud-agent-cost'', ''agent-failed-sessions'', ''unattributed-spend'', ''dq.skipped-kinds''] @
     map (\<lambda>k. ((ORG, k), ''activity'')) [''mcp-sprawl'', ''context-heavy-cli'', ''editor-mix''] @
     map (\<lambda>k. ((LANES, k), ''requests'')) [''long-context-band'', ''compaction-cost'', ''static-overhead'',
       ''subagent-share'', ''ci-uncapped'']"

definition count_source :: "string \<Rightarrow> string \<Rightarrow> string" where
  "count_source d k = dget COUNT_SOURCE (d, k) ''requests''"

subsection \<open>Exemption\<close>

definition scope_names :: "scope \<Rightarrow> string list" where
  "scope_names sc = map fst sc"

definition is_product_scoped :: "finding \<Rightarrow> bool" where
  "is_product_scoped f = list_ex (\<lambda>n. n = ''product'') (scope_names (f_scope f))"

definition exempt_at :: "finding \<Rightarrow> scope \<Rightarrow> bool" where
  "exempt_at f sc =
     (if category f = ''data-quality'' \<or> startswith (f_kind f) ''dq.'' then True
      else if ''product'' \<in> set (scope_names sc) then
        count_source (detector_id f) (f_kind f) = ''entity'' \<and>
        list_all (\<lambda>n. n \<in> set ENTITY_EXEMPT_DIMS) (scope_names sc)
      else category f = ''aggregate'' \<and> list_all (\<lambda>n. n \<notin> set (PERSON_DIMS @ KEY_DIMS)) (scope_names sc))"

definition exempt :: "finding \<Rightarrow> bool" where
  "exempt f = exempt_at f (f_scope f)"

definition check_budget_privacy :: "finding \<Rightarrow> unit res" where
  "check_budget_privacy f =
     guard (\<not> (startswith (f_kind f) ''budget-'' \<and>
       list_ex (\<lambda>(n, v). n \<in> set PERSON_DIMS \<or> store_principal_ok v) (f_scope f))) PrivacyError"

definition names_person :: "scope \<Rightarrow> bool" where
  "names_person sc = list_ex (\<lambda>n. n \<in> set PERSON_DIMS) (scope_names sc)"

definition needs_rescope :: "finding \<Rightarrow> int \<Rightarrow> bool" where
  "needs_rescope f k = (f_users f < k \<or> names_person (f_scope f))"

subsection \<open>Ids and parents\<close>

definition stable_id :: "(string \<Rightarrow> string) \<Rightarrow> string \<Rightarrow> string list \<Rightarrow> string" where
  "stable_id sha prefix parts = prefix @ ''_'' @ take 24 (sha (join [CHR 0x1F] parts))"

definition make_finding_id :: "(string \<Rightarrow> string) \<Rightarrow> string \<Rightarrow> string \<Rightarrow> scope \<Rightarrow> string" where
  "make_finding_id sha d k sc = stable_id sha ''fd'' ([d, k] @ map (\<lambda>(n, v). n @ ''='' @ v) (sort sc))"

definition parent_scope :: "scope \<Rightarrow> string list \<Rightarrow> scope" where
  "parent_scope sc keep = sort (filter (\<lambda>(n, v). n \<in> set keep) sc)"

definition aggregate_parent :: "scope \<Rightarrow> scope" where
  "aggregate_parent sc = sort (filter (\<lambda>(n, v). n \<notin> set PERSON_DIMS \<and> n \<notin> set KEY_DIMS) sc)"

definition sum_opt :: "figure option list \<Rightarrow> figure option res" where
  "sum_opt figs = rfold add_opt None figs"

subsection \<open>Scrubbing\<close>

definition SCRUBBED :: string where "SCRUBBED = ''(other)''"

text \<open>\<open>\w\<close> on 8-bit characters.\<close>

definition word_char :: "char \<Rightarrow> bool" where
  "word_char c = (let n = (of_char c :: int) in
     (48 \<le> n \<and> n \<le> 57) \<or> (65 \<le> n \<and> n \<le> 90) \<or> n = 95 \<or> (97 \<le> n \<and> n \<le> 122) \<or>
     n \<in> {170, 178, 179, 181, 185, 186, 188, 189, 190} \<or> (192 \<le> n \<and> n \<noteq> 215 \<and> n \<noteq> 247))"

definition starts_token :: "char option \<Rightarrow> bool" where
  "starts_token prev = (case prev of None \<Rightarrow> True | Some c \<Rightarrow> \<not> (word_char c \<or> c = CHR ''.'' \<or> c = CHR ''-''))"

definition ends_token :: "string \<Rightarrow> bool" where
  "ends_token rest = (case rest of
      [] \<Rightarrow> True
    | c # cs \<Rightarrow> \<not> (word_char c \<or> c = CHR ''-'' \<or> (c = CHR ''.'' \<and> cs \<noteq> [] \<and> word_char (hd cs))))"

text \<open>\<open>pattern.sub(SCRUBBED, text)\<close>: at each position the first alternative that matches a whole token.\<close>

function scrub_tokens :: "string list \<Rightarrow> char option \<Rightarrow> string \<Rightarrow> string" where
  "scrub_tokens vals prev [] = []"
| "scrub_tokens vals prev (c # cs) =
     (case (if starts_token prev
            then List.find (\<lambda>v. v \<noteq> [] \<and> startswith (c # cs) v \<and> ends_token (drop (length v) (c # cs))) vals
            else None) of
        Some v \<Rightarrow> SCRUBBED @ scrub_tokens vals (Some (last v)) (drop (length v - 1) cs)
      | None \<Rightarrow> c # scrub_tokens vals (Some c) cs)"
  by pat_completeness auto
termination
  by (relation "measure (\<lambda>(vals, prev, s). length s)") auto

definition dropped_values :: "finding list \<Rightarrow> scope \<Rightarrow> string list" where
  "dropped_values children sc =
     (let kept = map snd sc;
          vals = map snd (filter (\<lambda>(n, v). (n, v) \<notin> set sc \<and> v \<noteq> '''' \<and> v \<notin> set kept)
                   (concat (map f_scope children)))
      in sort_key (\<lambda>v. (- int (length v), v)) (remdups vals))"

definition scrubber :: "finding list \<Rightarrow> scope \<Rightarrow> string \<Rightarrow> string" where
  "scrubber children sc txt =
     (let vals = dropped_values children sc in if vals = [] then txt else scrub_tokens vals None txt)"

definition scrub_evidence :: "(string \<Rightarrow> string) \<Rightarrow> evidence_item \<Rightarrow> evidence_item" where
  "scrub_evidence scrub item = item\<lparr>ev_item_attrs :=
     map (\<lambda>(n, v). (n, case v of AStr s \<Rightarrow> AStr (scrub s) | _ \<Rightarrow> v)) (ev_item_attrs item)\<rparr>"

subsection \<open>Summaries\<close>

definition LABEL_MARKERS :: "string list" where
  "LABEL_MARKERS = [''list-equivalent'', ''not invoice'', ''estimated'', ''upper bound'', ''unpriced'',
     ''provider estimate'', ''no mechanical fix'', ''if business'', ''if enterprise'', ''scenario'']"

definition SUMMARY_MAX :: int where "SUMMARY_MAX = 400"

text \<open>\<open>_SENTENCE_SPLIT_RE.split\<close>: at white space that follows a full stop, an exclamation mark, a semicolon or a
  question mark; \<open>cur\<close> is the current part, reversed.\<close>

function split_sentences :: "string \<Rightarrow> string \<Rightarrow> string list" where
  "split_sentences cur [] = [rev cur]"
| "split_sentences cur (c # cs) =
     (if is_space c \<and> cur \<noteq> [] \<and> hd cur \<in> set ''.;!?'' then rev cur # split_sentences [] (dropWhile is_space cs)
      else split_sentences (c # cur) cs)"
  by pat_completeness auto
termination
  by (relation "measure (\<lambda>(cur, s). length s)") (auto simp: le_imp_less_Suc length_dropWhile_le)

definition sentences :: "string \<Rightarrow> string list" where
  "sentences txt = filter (\<lambda>p. p \<noteq> '''') (split_sentences [] (strip txt))"

definition rstrip_chars :: "string \<Rightarrow> string \<Rightarrow> string" where
  "rstrip_chars cs s = rev (dropWhile (\<lambda>c. c \<in> set cs) (rev s))"

text \<open>\<open>head[:head.rindex(" ")]\<close>.\<close>

definition before_last_space :: "string \<Rightarrow> string" where
  "before_last_space s = rev (tl (dropWhile (\<lambda>c. c \<noteq> CHR '' '') (rev s)))"

definition cut_words :: "char \<Rightarrow> string \<Rightarrow> int \<Rightarrow> string" where
  "cut_words ell txt limit =
     (if int (length txt) \<le> limit then txt
      else let h = take (nat (max (limit - 1) 0)) txt
           in rstrip_chars '' ,;:'' (if CHR '' '' \<in> set h then before_last_space h else h) @ [ell])"

definition cut_at_word :: "char \<Rightarrow> string \<Rightarrow> int \<Rightarrow> string option" where
  "cut_at_word ell txt limit =
     (if int (length txt) + 2 \<le> limit then Some (txt @ [CHR '' '', ell])
      else let h = take (nat (max (limit - 1) 0)) txt;
               h' = (if length h < length txt \<and> txt ! length h \<noteq> CHR '' ''
                     then (if CHR '' '' \<in> set h then before_last_space h else []) else h);
               r = rstrip_chars '' ,;:.'' h'
           in if r \<noteq> [] then Some (r @ [ell]) else None)"

definition SHORT_PREFIXES :: "string list" where
  "SHORT_PREFIXES = [''[re-scoped for k-anonymity] '', ''[re-scoped] '']"

text \<open>The inner \<open>text(sel)\<close>: the chosen sentences, with an ellipsis when some are left out.\<close>

definition chosen_text :: "char \<Rightarrow> string list \<Rightarrow> bool list \<Rightarrow> string" where
  "chosen_text ell parts sel =
     (let body = join '' '' (map fst (filter snd (zip parts sel)))
      in if list_all id sel then body else strip (body @ [CHR '' '', ell]))"

definition choose_more :: "char \<Rightarrow> string list \<Rightarrow> int \<Rightarrow> bool list \<Rightarrow> nat \<Rightarrow> bool list" where
  "choose_more ell parts budget chosen i =
     (if chosen ! i then chosen
      else if int (length (chosen_text ell parts (chosen[i := True]))) \<le> budget then chosen[i := True] else chosen)"

definition fit_summary :: "char \<Rightarrow> string \<Rightarrow> string \<Rightarrow> int \<Rightarrow> string" where
  "fit_summary ell prefix summary limit =
     (let prefixes = prefix # SHORT_PREFIXES
      in case List.find (\<lambda>pre. int (length pre + length summary) \<le> limit) prefixes of
           Some pre \<Rightarrow> pre @ summary
         | None \<Rightarrow>
           let pre = last prefixes; budget = limit - int (length pre); parts = sentences summary;
               chosen = map (\<lambda>p. list_ex (\<lambda>m. contains (map lower p) m) LABEL_MARKERS) parts
           in if budget < int (length (chosen_text ell parts chosen))
              then pre @ cut_words ell (if chosen_text ell parts chosen \<noteq> '''' then chosen_text ell parts chosen else summary) budget
              else let chosen = foldl (choose_more ell parts budget) chosen [0..<length parts]
                   in if list_all id chosen then pre @ chosen_text ell parts chosen
                      else let first = length (takeWhile id chosen);
                               kept = int (length (join '' '' (map fst (filter snd (zip parts chosen)))))
                           in case cut_at_word ell (parts ! first) (budget - kept - (if kept \<noteq> 0 then 1 else 0)) of
                                None \<Rightarrow> pre @ chosen_text ell parts chosen
                              | Some partial \<Rightarrow>
                                  pre @ join '' '' (map fst (filter snd (zip (parts[first := partial]) (chosen[first := True])))))"

subsection \<open>Merging findings\<close>

text \<open>\<open>seen\<close>: the first occurrence of each item, in order.\<close>

definition keep_first :: "'a list \<Rightarrow> 'a list" where
  "keep_first xs = rev (remdups (rev xs))"

definition confidence_rank :: "string \<Rightarrow> int" where
  "confidence_rank c = dget CONFIDENCE_RANK c 1"

definition sorted_strings :: "string list \<Rightarrow> string list" where
  "sorted_strings xs = sort (remdups xs)"

definition merge_findings ::
    "(string \<Rightarrow> string) \<Rightarrow> char \<Rightarrow> finding list \<Rightarrow> scope \<Rightarrow> int \<Rightarrow> int \<Rightarrow> finding res" where
  "merge_findings sha ell children sc users k = (case children of [] \<Rightarrow> Inl IndexError | first # _ \<Rightarrow>
     (let scrub = scrubber children sc
      in rbind (rfold (\<lambda>cost c. add cost (cost_observed c)) (cost_observed first) (tl children)) (\<lambda>cost.
         let items = keep_first (map (scrub_evidence scrub) (concat (map evidence children)));
             fix = map_option (\<lambda>x. x\<lparr>fix_text := scrub (fix_text x)\<rparr>)
                     (case filter (\<lambda>x. x \<noteq> None) (map f_fix children) of x # _ \<Rightarrow> x | [] \<Rightarrow> None);
             summary = scrub (f_summary first);
             prefix = ''[re-scoped for k-anonymity (k='' @ show_int k @ ''); '' @ show_int (int (length children)) @
                      '' finding(s) merged] '';
             summary' = (if 1 < length children \<or> sc \<noteq> f_scope first then fit_summary ell prefix summary SUMMARY_MAX
                         else summary);
             validated = remdups (map validated_against children);
             only = (case validated of [v] \<Rightarrow> v | _ \<Rightarrow> None)
         in rbind (sum_opt (map recoverable children)) (\<lambda>rec.
            rbind (sum_opt (map recoverable_shapley children)) (\<lambda>shapley.
            rbind (sum_opt (map projected_monthly children)) (\<lambda>monthly.
            rbind (sum_opt (map headroom children)) (\<lambda>head.
            Inr (first\<lparr>
              finding_id := make_finding_id sha (detector_id first) (f_kind first) sc,
              f_scope := sc,
              n_events := sum_list (map n_events children),
              n_lanes := sum_list (map n_lanes children),
              f_users := users,
              first_seen_ms := Min (set (map first_seen_ms children)),
              f_title := take 120 (scrub (f_title first)),
              f_summary := summary',
              cost_observed := cost,
              recoverable := rec, recoverable_shapley := shapley, projected_monthly := monthly, headroom := head,
              lever_ids := sorted_strings (concat (map lever_ids children)),
              evidence := take 20 items,
              f_fix := fix,
              confidence := min_by confidence_rank (confidence first) (map confidence (tl children)),
              validated_against := map_option scrub only,
              needs_eval := list_ex needs_eval children,
              references := sorted_strings (concat (map references children))\<rparr>))))))))"

definition finding_cost :: "finding \<Rightarrow> int" where
  "finding_cost f = (case nano (cost_observed f) of Some n \<Rightarrow> n | None \<Rightarrow> 0)"

definition smallness :: "finding \<Rightarrow> int \<times> int \<times> string" where
  "smallness f = (f_users f, finding_cost f, finding_id f)"

definition finding_sort_key :: "finding \<Rightarrow> int \<times> string \<times> string" where
  "finding_sort_key f =
     (- (case recoverable f of Some r \<Rightarrow> (case nano r of Some n \<Rightarrow> n | None \<Rightarrow> 0) | None \<Rightarrow> 0), detector_id f, finding_id f)"

subsection \<open>Re-scoping\<close>

text \<open>\<open>count_users\<close> of the caller: none, by scope, or by finding and scope.\<close>

datatype user_count = NoCount | ByScope "scope \<Rightarrow> int" | ByFinding "finding \<Rightarrow> scope \<Rightarrow> int"

definition counter :: "user_count \<Rightarrow> (finding \<Rightarrow> scope \<Rightarrow> int) option" where
  "counter c = (case c of NoCount \<Rightarrow> None | ByScope g \<Rightarrow> Some (\<lambda>_. g) | ByFinding g \<Rightarrow> Some g)"

type_synonym rescope_key = "string \<times> string \<times> scope"

text \<open>One group of a level: the findings under one parent, the published findings they absorb, and the merge.\<close>

definition rescope_group ::
    "(string \<Rightarrow> string) \<Rightarrow> char \<Rightarrow> int \<Rightarrow> bool \<Rightarrow> (finding \<Rightarrow> scope \<Rightarrow> int) option \<Rightarrow> string list \<Rightarrow>
     finding list \<times> finding list \<Rightarrow> rescope_key \<times> finding list \<Rightarrow> (finding list \<times> finding list) res" where
  "rescope_group sha ell k copilot cnt keep acc kg = (case (acc, kg) of ((out, pending), ((d, knd, parent), fs)) \<Rightarrow>
     (let same_kind = (\<lambda>f. detector_id f = d \<and> f_kind f = knd \<and> audience f = ''org'');
          peers = filter (\<lambda>f. same_kind f \<and> \<not> exempt f \<and> is_product_scoped f = copilot \<and>
                     parent_scope (f_scope f) keep = parent) out;
          same0 = filter (\<lambda>f. f_scope f = parent) peers;
          same_scope = (if copilot \<and> same0 = []
             then filter (\<lambda>f. same_kind f \<and> is_product_scoped f \<and> f_scope f = parent) out else same0);
          absorbed = (if same_scope \<noteq> [] then same_scope else take 1 (sort_key smallness peers));
          out' = filter (\<lambda>f. f \<notin> set absorbed) out;
          children = sort_key finding_id (sort_key finding_id fs @ absorbed);
          most = Max (set (map f_users children));
          n = (case cnt of Some g \<Rightarrow> g (hd children) parent | None \<Rightarrow> most);
          exempt_here = (copilot \<and> exempt_at (hd children) parent);
          users = (if exempt_here then max n most else n)
      in rbind (merge_findings sha ell children parent users k) (\<lambda>merged.
         Inr (if k \<le> users \<or> exempt_here then (out' @ [merged], pending) else (out', pending @ [merged])))))"

definition rescope_level ::
    "(string \<Rightarrow> string) \<Rightarrow> char \<Rightarrow> int \<Rightarrow> bool \<Rightarrow> (finding \<Rightarrow> scope \<Rightarrow> int) option \<Rightarrow>
     finding list \<times> finding list \<Rightarrow> string list \<Rightarrow> (finding list \<times> finding list) res" where
  "rescope_level sha ell k copilot cnt acc keep = (case acc of (out, pending) \<Rightarrow>
     if pending = [] then Inr acc
     else rfold (rescope_group sha ell k copilot cnt keep) (out, [])
            (sort_key fst (group_by_key (\<lambda>f. (detector_id f, f_kind f, parent_scope (f_scope f) keep)) pending)))"

definition rescope_pending ::
    "(string \<Rightarrow> string) \<Rightarrow> char \<Rightarrow> int \<Rightarrow> string list list \<Rightarrow> bool \<Rightarrow> (finding \<Rightarrow> scope \<Rightarrow> int) option \<Rightarrow>
     finding list \<Rightarrow> finding list \<Rightarrow> finding list res" where
  "rescope_pending sha ell k levels copilot cnt pending out =
     rbind (rfold (rescope_level sha ell k copilot cnt) (out, pending) levels) (\<lambda>(out', _). Inr out')"

record sorting =
  so_out :: "finding list"
  so_pending :: "finding list"
  so_copilot :: "finding list"
  so_keyed :: "(rescope_key, finding list) dict"

text \<open>The first loop: every finding is checked and put into one of the four lists.\<close>

definition sort_finding :: "int \<Rightarrow> sorting \<Rightarrow> finding \<Rightarrow> sorting res" where
  "sort_finding k s f = rbind (check_budget_privacy f) (\<lambda>_. Inr (
     if audience f \<noteq> ''org'' \<or> exempt f then s\<lparr>so_out := so_out s @ [f]\<rparr>
     else if is_product_scoped f then
       (if needs_rescope f k then s\<lparr>so_copilot := so_copilot s @ [f]\<rparr> else s\<lparr>so_out := so_out s @ [f]\<rparr>)
     else if category f = ''aggregate'' \<and> needs_rescope f k then
       s\<lparr>so_keyed := dappend (detector_id f, f_kind f, aggregate_parent (f_scope f)) f (so_keyed s)\<rparr>
     else if needs_rescope f k then s\<lparr>so_pending := so_pending s @ [f]\<rparr>
     else s\<lparr>so_out := so_out s @ [f]\<rparr>))"

text \<open>Provider-side findings on an API key, merged at the level of their workspace.\<close>

definition merge_keyed ::
    "(string \<Rightarrow> string) \<Rightarrow> char \<Rightarrow> int \<Rightarrow> finding list \<Rightarrow> rescope_key \<times> finding list \<Rightarrow> finding list res" where
  "merge_keyed sha ell k out kg = (case kg of ((d, knd, parent), fs) \<Rightarrow>
     (let peers = filter (\<lambda>f. detector_id f = d \<and> f_kind f = knd \<and> audience f = ''org'' \<and> \<not> is_product_scoped f \<and>
                     aggregate_parent (f_scope f) = parent) out;
          same_scope = filter (\<lambda>f. f_scope f = parent) peers;
          absorbed = (if same_scope \<noteq> [] then same_scope else take 1 (sort_key smallness peers));
          children = sort_key finding_id (fs @ absorbed)
      in rbind (merge_findings sha ell children parent (Max (set (map f_users children))) k) (\<lambda>merged.
         Inr (filter (\<lambda>f. f \<notin> set absorbed) out @ [merged]))))"

definition rescope_findings ::
    "(string \<Rightarrow> string) \<Rightarrow> char \<Rightarrow> finding list \<Rightarrow> int \<Rightarrow> user_count \<Rightarrow> finding list res" where
  "rescope_findings sha ell findings k count_users =
     rbind (check_k k) (\<lambda>_.
     rbind (rfold (sort_finding k) \<lparr>so_out = [], so_pending = [], so_copilot = [], so_keyed = []\<rparr> findings) (\<lambda>s.
     rbind (rfold (merge_keyed sha ell k) (so_out s) (sort_key fst (so_keyed s))) (\<lambda>out.
     rbind (rescope_pending sha ell k RESCOPE_LEVELS False (counter count_users) (so_pending s) out) (\<lambda>out.
     rbind (rescope_pending sha ell k COPILOT_RESCOPE_LEVELS True (counter count_users) (so_copilot s) out) (\<lambda>out.
     Inr (sort_key finding_sort_key out))))))"

subsection \<open>Counting people per scope\<close>

definition LEDGER_REQUEST_KEYS :: "string list" where
  "LEDGER_REQUEST_KEYS = [''team'', ''cost_center'', ''lane_kind'', ''billing_class'', ''model'', ''workspace_id'',
     ''agent_product'', ''agent_type'', ''workload_class'', ''channel'', ''repo'', ''project'', ''billing_path'', ''provider'']"

definition LEDGER_COST_KEYS :: "string list" where
  "LEDGER_COST_KEYS = [''team'', ''cost_center'', ''channel'', ''model'', ''sku'', ''workspace_id'', ''cost_type'']"

definition RECORD_KEYS :: "string list" where
  "RECORD_KEYS = [''team'', ''cost_center'', ''org'', ''plan'', ''bucket'', ''product'']"

definition where_put :: "string list \<Rightarrow> string \<Rightarrow> string \<Rightarrow> (string, string) dict \<Rightarrow> (string, string) dict option" where
  "where_put allowed key v wh = (if key \<notin> set allowed \<or> dget wh key v \<noteq> v then None else Some (dset key v wh))"

text \<open>One dimension: \<open>None\<close> when the source has no filter for it. A cost-center or organisation entity is written
  \<open>cc:<name>\<close> or \<open>org:<name>\<close>.\<close>

definition where_dim :: "bool \<Rightarrow> string list \<Rightarrow> (string, string) dict \<Rightarrow> string \<times> string \<Rightarrow> (string, string) dict option" where
  "where_dim ledger allowed wh d = (case d of (name, v) \<Rightarrow>
     let knd = takeWhile (\<lambda>c. c \<noteq> CHR '':'') v; rest = drop (Suc (length knd)) v; workspace = (if ledger then ''workspace_id'' else ''org'')
     in if name = ''plan_scenario'' then Some wh
        else if name = ''product'' then
          (if v \<noteq> ''copilot'' then None
           else if ledger then where_put allowed ''channel'' ''github_copilot'' wh
           else where_put allowed ''product'' ''github_copilot'' wh)
        else if name = ''entity'' then
          (if v = ''enterprise'' then Some wh
           else if knd = ''cc'' \<and> rest \<noteq> [] then where_put allowed ''cost_center'' rest wh
           else if knd = ''org'' \<and> rest \<noteq> [] then where_put allowed workspace rest wh
           else None)
        else if name = ''org'' then where_put allowed workspace v wh
        else where_put allowed name v wh)"

definition where_for :: "scope \<Rightarrow> string \<Rightarrow> (string, string) dict option" where
  "where_for sc src =
     (let ledger = (src = ''requests'' \<or> src = ''cost_lines'');
          allowed = (if src = ''requests'' then LEDGER_REQUEST_KEYS else if src = ''cost_lines'' then LEDGER_COST_KEYS else RECORD_KEYS)
      in foldl (\<lambda>w d. Option.bind w (\<lambda>wh. where_dim ledger allowed wh d)) (Some []) sc)"

text \<open>The count of a finding at a scope; \<open>ledger\<close> and \<open>stores\<close> are the counting queries of the stores, by source and filter.\<close>

definition scope_count ::
    "(string \<Rightarrow> (string, string) dict \<Rightarrow> int) option \<Rightarrow> (string \<Rightarrow> (string, string) dict \<Rightarrow> int) list \<Rightarrow>
     (finding \<Rightarrow> string) \<Rightarrow> finding \<Rightarrow> scope \<Rightarrow> int" where
  "scope_count ledger stores source_of f sc =
     (let src = (if source_of f = ''entity'' then ''cost_lines'' else source_of f)
      in case where_for sc src of
           None \<Rightarrow> 0
         | Some wh \<Rightarrow>
             if src = ''requests'' \<or> src = ''cost_lines'' then (case ledger of None \<Rightarrow> 0 | Some q \<Rightarrow> q src wh)
             else if src = ''licenses'' \<or> src = ''activity'' then
               (let ns = map (\<lambda>q. q src wh) stores in if ns = [] then 0 else Max (set ns))
             else 0)"

definition safe :: "int \<Rightarrow> finding \<Rightarrow> bool" where
  "safe k f = (audience f \<noteq> ''org'' \<or> exempt f \<or> k \<le> f_users f \<and> \<not> names_person (f_scope f))"

definition texts_fit :: "finding \<Rightarrow> bool" where
  "texts_fit f = (length (f_title f) \<le> 120 \<and> length (f_summary f) \<le> 400 \<and> length (evidence f) \<le> 20)"

definition wit_f_finding :: "string \<Rightarrow> int \<Rightarrow> finding" where
  "wit_f_finding tm users = \<lparr>finding_id = ''fd_'' @ tm, detector_id = ''cache.miss'', f_kind = ''ttl-expiry'', detector_version = ''1'',
     category = ''breaker'', lever_class = ''rate'', audience = ''org'', f_title = ''Misses in team '' @ tm,
     f_summary = ''Team '' @ tm @ '' misses. Estimated cost.'', f_scope = [(''cost_center'', ''cc''), (''team'', tm)],
     n_events = 3, n_lanes = 2, f_users = users, first_seen_ms = 5,
     cost_observed = wit_k_figure 7, recoverable = None, recoverable_shapley = None, projected_monthly = None,
     lever_ids = [], evidence = [], f_fix = None, confidence = ''high'', validated_against = None, needs_eval = False,
     references = [], headroom = None\<rparr>"

definition wit_findings :: "finding list" where
  "wit_findings = [(wit_f_finding ''red'' 6)\<lparr>f_scope := [(''team'', ''red''), (''principal'', ''joe'')], f_title := ''Joe misses (joe)''\<rparr>,
     (wit_f_finding ''me'' 1)\<lparr>audience := ''self''\<rparr>]"

definition wit_published :: "finding list" where
  "wit_published = (case rescope_findings id (CHR ''~'') wit_findings 5 NoCount of Inr out \<Rightarrow> out | Inl _ \<Rightarrow> [])"

section \<open>Lemmas\<close>

subsection \<open>Scopes and merges\<close>

lemma parent_scope_names: "n \<in> set (scope_names (parent_scope sc keep)) \<Longrightarrow> n \<in> set keep \<and> n \<in> set (scope_names sc)"
  by (auto simp: parent_scope_def scope_names_def)

lemma aggregate_parent_names:
  "n \<in> set (scope_names (aggregate_parent sc)) \<Longrightarrow> n \<notin> set PERSON_DIMS \<and> n \<notin> set KEY_DIMS \<and> n \<in> set (scope_names sc)"
  by (auto simp: aggregate_parent_def scope_names_def)

lemma levels_nameless: "keep \<in> set (RESCOPE_LEVELS @ COPILOT_RESCOPE_LEVELS) \<Longrightarrow> set keep \<inter> set PERSON_DIMS = {}"
  by (auto simp: RESCOPE_LEVELS_def COPILOT_RESCOPE_LEVELS_def COPILOT_ROOT_DIMS_def PERSON_DIMS_def)

lemma parent_nameless: "set keep \<inter> set PERSON_DIMS = {} \<Longrightarrow> \<not> names_person (parent_scope sc keep)"
  unfolding names_person_def list_ex_iff using parent_scope_names [of _ sc keep] by blast

lemma merge_fields:
  assumes "merge_findings sha ell ch sc u k = Inr m"
  shows "f_scope m = sc" "f_users m = u" "audience m = audience (hd ch)" "category m = category (hd ch)"
    "f_kind m = f_kind (hd ch)" "detector_id m = detector_id (hd ch)"
proof -
  have "rsat (\<lambda>m. f_scope m = sc \<and> f_users m = u \<and> audience m = audience (hd ch) \<and> category m = category (hd ch) \<and>
      f_kind m = f_kind (hd ch) \<and> detector_id m = detector_id (hd ch)) (merge_findings sha ell ch sc u k)"
    unfolding merge_findings_def Let_def by (cases ch) (simp, simp only: list.case list.sel, intro rsat_bind [OF rsat_any], simp)
  then show "f_scope m = sc" "f_users m = u" "audience m = audience (hd ch)" "category m = category (hd ch)"
    "f_kind m = f_kind (hd ch)" "detector_id m = detector_id (hd ch)"
    by (simp_all add: assms)
qed

lemma exempt_merged: "merge_findings sha ell ch sc u k = Inr m \<Longrightarrow> exempt m = exempt_at (hd ch) sc"
  using merge_fields [of sha ell ch sc u k m] by (simp add: exempt_def exempt_at_def)

lemma exempt_at_parent:
  assumes "exempt f" "\<not> is_product_scoped f" "aggregate_parent (f_scope f) = sc"
  shows "exempt_at f sc"
proof -
  have "''product'' \<notin> set (scope_names (f_scope f))" using assms(2) by (auto simp: is_product_scoped_def list_ex_iff)
  with aggregate_parent_names assms show ?thesis
    by (fastforce simp: exempt_def exempt_at_def list_all_iff split: if_splits)
qed

subsection \<open>What re-scoping keeps\<close>

text \<open>A property of findings that merging keeps holds of all published findings, which are safe besides.\<close>

locale merge_closed =
  fixes sha :: "string \<Rightarrow> string" and ell :: char and k :: int and Q :: "finding \<Rightarrow> bool"
  assumes closed: "children \<noteq> [] \<Longrightarrow> list_all Q children \<Longrightarrow> merge_findings sha ell children sc u k = Inr m \<Longrightarrow> Q m"
begin

definition good :: "finding \<Rightarrow> bool" where "good f = (safe k f \<and> Q f)"

lemma group_keeps:
  assumes "list_all good out" "list_all Q pending" "list_all Q fs" "fs \<noteq> []" "\<not> names_person parent"
  shows "rsat (\<lambda>(o', p'). list_all good o' \<and> list_all Q p' \<and> {f \<in> set out. audience f \<noteq> ''org''} \<subseteq> set o')
    (rescope_group sha ell k copilot cnt keep (out, pending) ((d, knd, parent), fs))"
proof -
  define same_kind where "same_kind = (\<lambda>f :: finding. detector_id f = d \<and> f_kind f = knd \<and> audience f = ''org'')"
  define peers where "peers = filter (\<lambda>f :: finding. same_kind f \<and> \<not> exempt f \<and> is_product_scoped f = copilot \<and>
      parent_scope (f_scope f) keep = parent) out"
  define same0 where "same0 = filter (\<lambda>f. f_scope f = parent) peers"
  define same_scope where "same_scope = (if copilot \<and> same0 = []
      then filter (\<lambda>f. same_kind f \<and> is_product_scoped f \<and> f_scope f = parent) out else same0)"
  define absorbed where "absorbed = (if same_scope \<noteq> [] then same_scope else take 1 (sort_key smallness peers))"
  define children where "children = sort_key finding_id (sort_key finding_id fs @ absorbed)"
  define users where "users = (let most = Max (set (map f_users children));
      n = (case cnt of Some g \<Rightarrow> g (hd children) parent | None \<Rightarrow> most)
      in if copilot \<and> exempt_at (hd children) parent then max n most else n)"
  have "set absorbed \<subseteq> {f \<in> set out. audience f = ''org''}"
    using set_take_subset [of 1 "sort_key smallness peers"]
    by (auto simp: absorbed_def same_scope_def same0_def peers_def same_kind_def)
  note abs = this
  then have org: "{f \<in> set out. audience f \<noteq> ''org''} \<subseteq> set (filter (\<lambda>f. f \<notin> set absorbed) out)"
    by auto
  have set_ch: "set children = set fs \<union> set absorbed" by (simp add: children_def)
  with abs have ch: "set children \<subseteq> set fs \<union> set out" "children \<noteq> []"
    using assms(4) by (blast, metis Un_empty set_empty)
  then have Qch: "list_all Q children" using assms(1,3) by (auto simp: list_all_iff good_def)
  have eq: "rescope_group sha ell k copilot cnt keep (out, pending) ((d, knd, parent), fs) =
     rbind (merge_findings sha ell children parent users k) (\<lambda>merged.
       Inr (if k \<le> users \<or> copilot \<and> exempt_at (hd children) parent
            then (filter (\<lambda>f. f \<notin> set absorbed) out @ [merged], pending)
            else (filter (\<lambda>f. f \<notin> set absorbed) out, pending @ [merged])))"
    unfolding rescope_group_def prod.case Let_def users_def children_def absorbed_def same_scope_def same0_def
      peers_def same_kind_def ..
  have step: "rsat (\<lambda>m. Q m \<and> (k \<le> users \<or> copilot \<and> exempt_at (hd children) parent \<longrightarrow> safe k m))
      (merge_findings sha ell children parent users k)"
  proof (rule rsatI)
    fix m assume m: "merge_findings sha ell children parent users k = Inr m"
    show "Q m \<and> (k \<le> users \<or> copilot \<and> exempt_at (hd children) parent \<longrightarrow> safe k m)"
      using closed [OF ch(2) Qch m] merge_fields [OF m] exempt_merged [OF m] assms(5) by (simp add: safe_def)
  qed
  have "list_all good (filter (\<lambda>f. f \<notin> set absorbed) out)"
    using assms(1) by (simp add: list_all_iff)
  with step show ?thesis
    unfolding eq by (intro rsat_bind [OF step]) (use assms(2) org in \<open>auto simp: good_def\<close>)
qed

lemma level_keeps:
  assumes "list_all good out" "list_all Q pending" "set keep \<inter> set PERSON_DIMS = {}"
  shows "rsat (\<lambda>(o', p'). list_all good o' \<and> list_all Q p' \<and> {f \<in> set out. audience f \<noteq> ''org''} \<subseteq> set o')
    (rescope_level sha ell k copilot cnt (out, pending) keep)"
proof (cases "pending = []")
  case False
  let ?key = "\<lambda>f. (detector_id f, f_kind f, parent_scope (f_scope f) keep)"
  let ?I = "\<lambda>(o', p'). list_all good o' \<and> list_all Q p' \<and> {f \<in> set out. audience f \<noteq> ''org''} \<subseteq> set o'"
  have "rsat ?I (rfold (rescope_group sha ell k copilot cnt keep) (out, []) (sort_key fst (group_by_key ?key pending)))"
  proof (rule rsat_rfold)
    show "?I (out, [])" using assms(1) by auto
  next
    fix acc kg assume acc: "?I acc" and kg: "kg \<in> set (sort_key fst (group_by_key ?key pending))"
    obtain o' p' where acc': "acc = (o', p')" by force
    obtain d knd parent fs where kg': "kg = ((d, knd, parent), fs)" by (metis prod.exhaust)
    have fs: "fs = filter (\<lambda>f. ?key f = (d, knd, parent)) pending" "fs \<noteq> []"
      using group_by_key_member [of "(d, knd, parent)" fs ?key pending] kg by (simp_all add: kg')
    then have "hd fs \<in> set (filter (\<lambda>f. ?key f = (d, knd, parent)) pending)" using hd_in_set [OF fs(2)] by simp
    then have "parent = parent_scope (f_scope (hd fs)) keep" by simp
    then have nameless: "\<not> names_person parent" using parent_nameless [OF assms(3)] by simp
    have "list_all Q fs" using assms(2) fs(1) by (simp add: list_all_iff)
    from group_keeps [OF _ _ this fs(2) nameless, of o' p' copilot cnt keep d knd] acc
    show "rsat ?I (rescope_group sha ell k copilot cnt keep acc kg)"
      by (auto simp: acc' kg' elim!: rsat_mono)
  qed
  with False show ?thesis by (simp add: rescope_level_def)
qed (use assms in \<open>auto simp: rescope_level_def\<close>)

lemma pending_keeps:
  assumes "list_all good out" "list_all Q pending" "\<forall>keep \<in> set levels. set keep \<inter> set PERSON_DIMS = {}"
  shows "rsat (\<lambda>o'. list_all good o' \<and> {f \<in> set out. audience f \<noteq> ''org''} \<subseteq> set o')
    (rescope_pending sha ell k levels copilot cnt pending out)"
proof -
  let ?I = "\<lambda>(o', p'). list_all good o' \<and> list_all Q p' \<and> {f \<in> set out. audience f \<noteq> ''org''} \<subseteq> set o'"
  have "rsat ?I (rfold (rescope_level sha ell k copilot cnt) (out, pending) levels)"
  proof (rule rsat_rfold)
    fix acc keep assume acc: "?I acc" and keep: "keep \<in> set levels"
    obtain o' p' where acc': "acc = (o', p')" by force
    have "list_all good o'" "list_all Q p'" using acc by (simp_all add: acc')
    from level_keeps [OF this, of keep copilot cnt] assms(3) keep acc
    show "rsat ?I (rescope_level sha ell k copilot cnt acc keep)" by (auto simp: acc' elim!: rsat_mono)
  qed (use assms in auto)
  then show ?thesis unfolding rescope_pending_def by (rule rsat_bind) auto
qed

lemma keyed_keeps:
  assumes "list_all good out" "list_all Q fs" "fs \<noteq> []"
    "list_all (\<lambda>f. category f = ''aggregate'' \<and> \<not> is_product_scoped f \<and> aggregate_parent (f_scope f) = parent) fs"
  shows "rsat (\<lambda>o'. list_all good o' \<and> {f \<in> set out. audience f \<noteq> ''org''} \<subseteq> set o')
    (merge_keyed sha ell k out ((d, knd, parent), fs))"
proof -
  define peers where "peers = filter (\<lambda>f :: finding. detector_id f = d \<and> f_kind f = knd \<and> audience f = ''org'' \<and>
      \<not> is_product_scoped f \<and> aggregate_parent (f_scope f) = parent) out"
  define same_scope where "same_scope = filter (\<lambda>f. f_scope f = parent) peers"
  define absorbed where "absorbed = (if same_scope \<noteq> [] then same_scope else take 1 (sort_key smallness peers))"
  define children where "children = sort_key finding_id (fs @ absorbed)"
  have eq: "merge_keyed sha ell k out ((d, knd, parent), fs) =
      rbind (merge_findings sha ell children parent (Max (set (map f_users children))) k) (\<lambda>merged.
        Inr (filter (\<lambda>f. f \<notin> set absorbed) out @ [merged]))"
    unfolding merge_keyed_def prod.case Let_def children_def absorbed_def same_scope_def peers_def ..
  have abs: "set absorbed \<subseteq> set peers"
    using set_take_subset [of 1 "sort_key smallness peers"] by (auto simp: absorbed_def same_scope_def)
  then have peer: "f \<in> set out \<and> audience f = ''org'' \<and> \<not> is_product_scoped f \<and> aggregate_parent (f_scope f) = parent"
    if "f \<in> set absorbed" for f using that by (auto simp: peers_def)
  have org: "{f \<in> set out. audience f \<noteq> ''org''} \<subseteq> set (filter (\<lambda>f. f \<notin> set absorbed) out)"
    using peer by auto
  have set_ch: "set children = set fs \<union> set absorbed" by (simp add: children_def)
  then have ch: "children \<noteq> []" using assms(3) by (metis Un_empty set_empty)
  have Qch: "list_all Q children" using assms(1,2) peer by (auto simp: list_all_iff set_ch good_def)
  have nameless: "\<not> names_person parent"
    using assms(3,4) aggregate_parent_names by (cases fs) (auto simp: names_person_def list_ex_iff)
  have hd: "exempt_at (hd children) parent \<or> k \<le> Max (set (map f_users children))"
  proof (cases "hd children \<in> set fs")
    case True
    then have "category (hd children) = ''aggregate''" and sub: "aggregate_parent (f_scope (hd children)) = parent"
      and "\<not> is_product_scoped (hd children)" using assms(4) by (auto simp: list_all_iff)
    moreover have "''product'' \<notin> set (scope_names parent)"
      using aggregate_parent_names [of "''product''" "f_scope (hd children)"] \<open>\<not> is_product_scoped (hd children)\<close>
      by (auto simp: is_product_scoped_def list_ex_iff sub)
    ultimately show ?thesis
      using aggregate_parent_names [of _ "f_scope (hd children)"] by (auto simp: exempt_at_def list_all_iff sub)
  next
    case False
    then have "hd children \<in> set absorbed" using hd_in_set [OF ch] set_ch by blast
    then have *: "hd children \<in> set out" "audience (hd children) = ''org''" "\<not> is_product_scoped (hd children)"
      "aggregate_parent (f_scope (hd children)) = parent" using peer by blast+
    then have "exempt (hd children) \<or> k \<le> f_users (hd children)"
      using assms(1) by (auto simp: list_all_iff good_def safe_def)
    moreover have "f_users (hd children) \<le> Max (set (map f_users children))"
      using hd_in_set [OF ch] by (intro Max_ge) simp_all
    ultimately show ?thesis using exempt_at_parent [OF _ *(3,4)] by force
  qed
  have step: "rsat good (merge_findings sha ell children parent (Max (set (map f_users children))) k)"
  proof (rule rsatI)
    fix m assume m: "merge_findings sha ell children parent (Max (set (map f_users children))) k = Inr m"
    show "good m"
      using closed [OF ch Qch m] merge_fields [OF m] exempt_merged [OF m] hd nameless by (auto simp: good_def safe_def)
  qed
  have "list_all good (filter (\<lambda>f. f \<notin> set absorbed) out)" using assms(1) by (simp add: list_all_iff)
  with step show ?thesis unfolding eq by (intro rsat_bind [OF step]) (use org in auto)
qed

definition keyed_ok :: "(rescope_key, finding list) dict \<Rightarrow> bool" where
  "keyed_ok d = (\<exists>fs. d = group_by_key (\<lambda>f. (detector_id f, f_kind f, aggregate_parent (f_scope f))) fs \<and>
     list_all (\<lambda>f. Q f \<and> category f = ''aggregate'' \<and> \<not> is_product_scoped f) fs)"

definition sorted_ok :: "sorting \<Rightarrow> bool" where
  "sorted_ok s = (list_all good (so_out s) \<and> list_all Q (so_pending s) \<and> list_all Q (so_copilot s) \<and> keyed_ok (so_keyed s))"

lemma keyed_ok_dappend:
  assumes "keyed_ok d" "Q f" "category f = ''aggregate''" "\<not> is_product_scoped f"
  shows "keyed_ok (dappend (detector_id f, f_kind f, aggregate_parent (f_scope f)) f d)"
proof -
  obtain fs where fs: "d = group_by_key (\<lambda>f. (detector_id f, f_kind f, aggregate_parent (f_scope f))) fs"
    "list_all (\<lambda>f. Q f \<and> category f = ''aggregate'' \<and> \<not> is_product_scoped f) fs"
    using assms(1) by (auto simp: keyed_ok_def)
  show ?thesis unfolding keyed_ok_def
    by (rule exI [of _ "fs @ [f]"]) (use assms(2-4) fs in \<open>simp add: group_by_key_snoc\<close>)
qed

lemma sort_finding_keeps:
  assumes "sorted_ok s" "Q f"
  shows "rsat (\<lambda>s'. sorted_ok s' \<and> set (so_out s) \<subseteq> set (so_out s') \<and> (audience f \<noteq> ''org'' \<longrightarrow> f \<in> set (so_out s')))
    (sort_finding k s f)"
proof -
  have free: "\<not> needs_rescope f k \<Longrightarrow> good f" and pass: "audience f \<noteq> ''org'' \<or> exempt f \<Longrightarrow> good f"
    using assms(2) by (auto simp: good_def safe_def needs_rescope_def)
  have keyed: "category f = ''aggregate'' \<Longrightarrow> \<not> is_product_scoped f \<Longrightarrow>
      keyed_ok (dappend (detector_id f, f_kind f, aggregate_parent (f_scope f)) f (so_keyed s))"
    by (rule keyed_ok_dappend) (use assms in \<open>simp_all add: sorted_ok_def\<close>)
  show ?thesis
    unfolding sort_finding_def
    by (intro rsat_bind [OF rsat_any]) (use assms free pass keyed in \<open>auto simp: sorted_ok_def\<close>)
qed

lemma sort_findings_keep:
  assumes "sorted_ok s" "list_all Q fs"
  shows "rsat (\<lambda>s'. sorted_ok s' \<and> set (so_out s) \<union> {f \<in> set fs. audience f \<noteq> ''org''} \<subseteq> set (so_out s'))
    (rfold (sort_finding k) s fs)"
  using assms
proof (induction fs arbitrary: s)
  case (Cons f fs)
  have "Q f" using Cons.prems(2) by simp
  show ?case
    unfolding rfold.simps
    by (rule rsat_bind [OF sort_finding_keeps [OF Cons.prems(1) \<open>Q f\<close>]], rule rsat_mono [OF Cons.IH])
      (use Cons.prems(2) in auto)
qed simp

lemma merge_all_keyed:
  assumes "list_all good out" "keyed_ok d"
  shows "rsat (\<lambda>o'. list_all good o' \<and> {f \<in> set out. audience f \<noteq> ''org''} \<subseteq> set o')
    (rfold (merge_keyed sha ell k) out (sort_key fst d))"
proof (rule rsat_rfold)
  fix o' kg assume o': "list_all good o' \<and> {f \<in> set out. audience f \<noteq> ''org''} \<subseteq> set o'" and kg: "kg \<in> set (sort_key fst d)"
  let ?key = "\<lambda>f. (detector_id f, f_kind f, aggregate_parent (f_scope f))"
  obtain all where d: "d = group_by_key ?key all"
    "list_all (\<lambda>f. Q f \<and> category f = ''aggregate'' \<and> \<not> is_product_scoped f) all"
    using assms(2) by (auto simp: keyed_ok_def)
  obtain dt knd parent fs where kg': "kg = ((dt, knd, parent), fs)" by (metis prod.exhaust)
  have fs: "fs = filter (\<lambda>f. ?key f = (dt, knd, parent)) all" "fs \<noteq> []"
    using group_by_key_member [of "(dt, knd, parent)" fs ?key all] kg by (simp_all add: kg' d)
  have "list_all Q fs" "list_all (\<lambda>f. category f = ''aggregate'' \<and> \<not> is_product_scoped f \<and> aggregate_parent (f_scope f) = parent) fs"
    using d(2) by (auto simp: fs(1) list_all_iff)
  note step = keyed_keeps [OF conjunct1 [OF o'] this(1) fs(2) this(2), of dt knd]
  show "rsat (\<lambda>o'. list_all good o' \<and> {f \<in> set out. audience f \<noteq> ''org''} \<subseteq> set o') (merge_keyed sha ell k o' kg)"
    unfolding kg' by (rule rsat_mono [OF step]) (use o' in auto)
qed (use assms in simp)

lemma rescope_keeps:
  assumes "list_all Q fs" "rescope_findings sha ell fs k cu = Inr out"
  shows "list_all good out" "{f \<in> set fs. audience f \<noteq> ''org''} \<subseteq> set out"
proof -
  have levels: "\<forall>keep \<in> set RESCOPE_LEVELS. set keep \<inter> set PERSON_DIMS = {}"
    "\<forall>keep \<in> set COPILOT_RESCOPE_LEVELS. set keep \<inter> set PERSON_DIMS = {}"
    using levels_nameless by auto
  let ?s0 = "\<lparr>so_out = [], so_pending = [], so_copilot = [], so_keyed = []\<rparr>"
  let ?self = "{f \<in> set fs. audience f \<noteq> ''org''}"
  have s0: "sorted_ok ?s0" by (simp add: sorted_ok_def keyed_ok_def exI [of _ "[]"])
  obtain s o1 o2 o3 where steps: "rfold (sort_finding k) ?s0 fs = Inr s"
    "rfold (merge_keyed sha ell k) (so_out s) (sort_key fst (so_keyed s)) = Inr o1"
    "rescope_pending sha ell k RESCOPE_LEVELS False (counter cu) (so_pending s) o1 = Inr o2"
    "rescope_pending sha ell k COPILOT_RESCOPE_LEVELS True (counter cu) (so_copilot s) o2 = Inr o3"
    "out = sort_key finding_sort_key o3"
    using assms(2) by (auto simp: rescope_findings_def rbind_eq_Inr)
  have 1: "sorted_ok s" "?self \<subseteq> set (so_out s)"
    using sort_findings_keep [OF s0 assms(1)] by (simp_all add: steps(1))
  have 2: "list_all good o1" "{f \<in> set (so_out s). audience f \<noteq> ''org''} \<subseteq> set o1"
    using merge_all_keyed [of "so_out s" "so_keyed s"] 1(1) by (simp_all add: steps(2) sorted_ok_def)
  have 3: "list_all good o2" "{f \<in> set o1. audience f \<noteq> ''org''} \<subseteq> set o2"
    using pending_keeps [OF 2(1) _ levels(1), of "so_pending s" False "counter cu"] 1(1)
    by (simp_all add: steps(3) sorted_ok_def)
  have 4: "list_all good o3" "{f \<in> set o2. audience f \<noteq> ''org''} \<subseteq> set o3"
    using pending_keeps [OF 3(1) _ levels(2), of "so_copilot s" True "counter cu"] 1(1)
    by (simp_all add: steps(4) sorted_ok_def)
  show "list_all good out" using 4(1) by (simp add: steps(5) list_all_iff)
  have "?self \<subseteq> {f \<in> set (so_out s). audience f \<noteq> ''org''}" using 1(2) by auto
  then show "?self \<subseteq> set out" using 2(2) 3(2) 4(2) unfolding steps(5) set_sort by blast
qed

end

interpretation every: merge_closed sha ell k "\<lambda>_. True" for sha ell k
  by unfold_locales simp

text \<open>C6: Publication of findings protects people: every finding that \<open>rescope_findings\<close> returns for the organisation
  is exempt (data quality, or about entities, workspaces and models only), or it is about at least \<open>k\<close> people and its
  scope names no person and no session; findings for the self view are passed through unchanged.\<close>

theorem published_findings_protect:
  assumes "rescope_findings sha ell fs k cu = Inr out"
  shows "list_all (\<lambda>f. audience f \<noteq> ''org'' \<or> exempt f \<or> k \<le> f_users f \<and> \<not> names_person (f_scope f)) out \<and>
    set (filter (\<lambda>f. audience f \<noteq> ''org'') fs) \<subseteq> set out"
  using every.rescope_keeps [OF _ assms] by (auto simp: list_all_iff every.good_def safe_def)

subsection \<open>Texts fit their limits\<close>

lemma length_rstrip_chars: "length (rstrip_chars cs s) \<le> length s"
  unfolding rstrip_chars_def using length_dropWhile_le [of _ "rev s"] by simp

lemma length_before_last_space: "length (before_last_space s) \<le> length s"
  unfolding before_last_space_def using length_dropWhile_le [of "\<lambda>c. c \<noteq> CHR '' ''" "rev s"] by simp

lemma length_strip: "length (strip s) \<le> length s"
  unfolding strip_def using length_dropWhile_le length_rev order_trans by (metis (no_types, lifting))

lemma rstrip_fits: "int (length h) + 1 \<le> limit \<Longrightarrow> int (length (rstrip_chars cs h @ [ell])) \<le> limit"
  using length_rstrip_chars [of cs h] by simp

lemma head_fits: "1 \<le> limit \<Longrightarrow> int (length (take (nat (max (limit - 1) 0)) txt)) + 1 \<le> limit"
  by simp

lemma space_fits: "int (length h) + 1 \<le> limit \<Longrightarrow> int (length (before_last_space h)) + 1 \<le> limit"
  using length_before_last_space [of h] by simp

lemma cut_words_fits:
  assumes "1 \<le> limit"
  shows "int (length (cut_words ell txt limit)) \<le> limit"
proof (cases "int (length txt) \<le> limit")
  case False
  let ?h = "take (nat (max (limit - 1) 0)) txt"
  have "int (length (if CHR '' '' \<in> set ?h then before_last_space ?h else ?h)) + 1 \<le> limit"
    using head_fits [OF assms, of "txt"] space_fits by presburger
  with False show ?thesis by (simp only: cut_words_def Let_def if_False rstrip_fits)
qed (simp add: cut_words_def)

lemma cut_at_word_fits:
  assumes "cut_at_word ell txt limit = Some p"
  shows "int (length p) \<le> limit"
proof (cases "int (length txt) + 2 \<le> limit")
  case True
  then show ?thesis using assms by (auto simp: cut_at_word_def)
next
  case False
  define h where "h = take (nat (max (limit - 1) 0)) txt"
  define h' where "h' = (if length h < length txt \<and> txt ! length h \<noteq> CHR '' ''
      then (if CHR '' '' \<in> set h then before_last_space h else []) else h)"
  have p: "p = rstrip_chars '' ,;:.'' h' @ [ell]" "rstrip_chars '' ,;:.'' h' \<noteq> []"
    using assms False by (auto simp: cut_at_word_def Let_def h_def [symmetric] h'_def [symmetric] split: if_splits)
  have "length h' \<le> length h" by (auto simp: h'_def length_before_last_space)
  moreover have "h' \<noteq> []" using p(2) length_rstrip_chars [of "'' ,;:.''" h'] by auto
  ultimately have "1 \<le> limit" by (cases "1 \<le> limit") (auto simp: h_def)
  from head_fits [OF this, of "txt"] \<open>length h' \<le> length h\<close> show ?thesis
    unfolding p(1) by (intro rstrip_fits) (simp add: h_def [symmetric])
qed

lemma length_join_insert:
  "length (join sep (xs @ p # ys)) \<le> length (join sep (xs @ ys)) + length p + (if xs @ ys = [] then 0 else length sep)"
proof (induction xs)
  case Nil
  then show ?case by (cases ys) simp_all
next
  case (Cons x xs)
  then show ?case by (cases "xs @ ys"; cases xs) (auto split: if_splits)
qed

lemma chosen_at:
  assumes "length xs = length bs" "i < length xs"
  shows "map fst (filter snd (zip xs bs)) =
     map fst (filter snd (zip (take i xs) (take i bs))) @ (if bs ! i then [xs ! i] else []) @
     map fst (filter snd (zip (drop (Suc i) xs) (drop (Suc i) bs)))"
proof -
  have "zip xs bs = zip (take i xs @ xs ! i # drop (Suc i) xs) (take i bs @ bs ! i # drop (Suc i) bs)"
    using assms by (simp add: id_take_nth_drop [symmetric])
  also have "\<dots> = zip (take i xs) (take i bs) @ (xs ! i, bs ! i) # zip (drop (Suc i) xs) (drop (Suc i) bs)"
    using assms by (subst zip_append) simp_all
  finally show ?thesis by simp
qed

lemma choose_more_length: "length (foldl (choose_more ell parts budget) ch is) = length ch"
  by (induction "is" arbitrary: ch) (simp_all add: choose_more_def)

lemma choose_more_fits:
  "int (length (chosen_text ell parts ch)) \<le> budget \<Longrightarrow>
     int (length (chosen_text ell parts (foldl (choose_more ell parts budget) ch is))) \<le> budget"
  by (induction "is" arbitrary: ch) (simp_all add: choose_more_def)

lemma sentences_nonempty: "p \<in> set (sentences txt) \<Longrightarrow> p \<noteq> ''''"
  by (simp add: sentences_def)

lemma join_eq_empty: "join '' '' xs = '''' \<Longrightarrow> (\<And>x. x \<in> set xs \<Longrightarrow> x \<noteq> '''') \<Longrightarrow> xs = []"
  by (cases xs; cases "tl xs") auto

lemma fit_summary_fits:
  assumes "13 \<le> limit"
  shows "int (length (fit_summary ell prefix summary limit)) \<le> limit"
proof -
  define pre budget parts where "pre = ''[re-scoped] ''" and "budget = limit - 12" and "parts = sentences summary"
  define ch where "ch = map (\<lambda>p. list_ex (\<lambda>m. contains (map lower p) m) LABEL_MARKERS) parts"
  define ch' where "ch' = foldl (choose_more ell parts budget) ch [0..<length parts]"
  define first where "first = length (takeWhile id ch')"
  define kept where "kept = map fst (filter snd (zip parts ch'))"
  have pre: "length pre = 12" by (simp add: pre_def)
  have last: "last (prefix # SHORT_PREFIXES) = pre" by (simp add: SHORT_PREFIXES_def pre_def)
  have len: "length ch' = length parts" by (simp add: ch'_def ch_def choose_more_length)
  show ?thesis
  proof (cases "List.find (\<lambda>pre. int (length pre + length summary) \<le> limit) (prefix # SHORT_PREFIXES)")
    case (Some q)
    then have "int (length q + length summary) \<le> limit" unfolding find_Some_iff by blast
    then show ?thesis by (simp only: fit_summary_def Let_def Some option.case) simp
  next
    case None
    have budget: "limit - int (length pre) = budget" by (simp add: budget_def pre)
    note unf = fit_summary_def Let_def None option.case last budget parts_def [symmetric] ch_def [symmetric]
    show ?thesis
    proof (cases "budget < int (length (chosen_text ell parts ch))")
      case True
      let ?t = "if chosen_text ell parts ch \<noteq> '''' then chosen_text ell parts ch else summary"
      have "fit_summary ell prefix summary limit = pre @ cut_words ell ?t budget"
        using True by (simp only: unf if_True)
      then show ?thesis using cut_words_fits [of budget ell ?t] assms by (simp add: pre budget_def)
    next
      case fits: False
      have body: "int (length (chosen_text ell parts ch')) \<le> budget"
        unfolding ch'_def using fits by (intro choose_more_fits) simp
      have cut: "fit_summary ell prefix summary limit =
          (if list_all id ch' then pre @ chosen_text ell parts ch'
           else case cut_at_word ell (parts ! first) (budget - int (length (join '' '' kept)) -
                   (if int (length (join '' '' kept)) \<noteq> 0 then 1 else 0)) of
             None \<Rightarrow> pre @ chosen_text ell parts ch'
           | Some partial \<Rightarrow>
               pre @ join '' '' (map fst (filter snd (zip (parts[first := partial]) (ch'[first := True])))))"
        using fits by (simp only: unf if_False ch'_def [symmetric] first_def [symmetric] kept_def [symmetric])
      show ?thesis
      proof (cases "list_all id ch'")
        case True
        then show ?thesis unfolding cut using body by (simp add: pre budget_def)
      next
        case some: False
        then have "takeWhile id ch' \<noteq> ch'" by (metis list_all_iff takeWhile_eq_all_conv)
        then have "first < length ch'" unfolding first_def
          by (metis length_takeWhile_le nat_less_le takeWhile_eq_take take_all_iff order_refl)
        then have f: "first < length parts" "\<not> ch' ! first"
          using nth_length_takeWhile [of id ch'] len by (simp_all add: first_def)
        let ?a = "map fst (filter snd (zip (take first parts) (take first ch')))"
        let ?b = "map fst (filter snd (zip (drop (Suc first) parts) (drop (Suc first) ch')))"
        have kept: "kept = ?a @ ?b" using chosen_at [of parts ch' first] f len by (simp add: kept_def)
        have "set kept \<subseteq> set parts" by (auto simp: kept_def dest: set_zip_leftD)
        then have empty: "join '' '' kept = '''' \<Longrightarrow> kept = []"
          using sentences_nonempty by (intro join_eq_empty) (auto simp: parts_def)
        show ?thesis
        proof (cases "cut_at_word ell (parts ! first) (budget - int (length (join '' '' kept)) -
                   (if int (length (join '' '' kept)) \<noteq> 0 then 1 else 0))")
          case None
          then show ?thesis unfolding cut using some body by (simp add: pre budget_def)
        next
          case (Some p)
          have "map fst (filter snd (zip (parts[first := p]) (ch'[first := True]))) = ?a @ p # ?b"
            using chosen_at [of "parts[first := p]" "ch'[first := True]" first] f len by simp
          moreover have "length (join '' '' (?a @ p # ?b)) \<le>
              length (join '' '' kept) + length p + (if kept = [] then 0 else 1)"
            using length_join_insert [of "'' ''" ?a p ?b] unfolding kept by (auto split: if_splits)
          moreover have "int (length p) \<le> budget - int (length (join '' '' kept)) -
                   (if int (length (join '' '' kept)) \<noteq> 0 then 1 else 0)"
            using cut_at_word_fits [OF Some] .
          ultimately show ?thesis
            unfolding cut using some Some empty by (auto simp: pre budget_def split: if_splits)
        qed
      qed
    qed
  qed
qed

subsection \<open>Merged findings fit\<close>

lemma scrubber_same: "scrubber [f] (f_scope f) = (\<lambda>t. t)"
proof -
  have "filter (\<lambda>(n, v). (n, v) \<notin> set (f_scope f) \<and> v \<noteq> '''' \<and> v \<notin> set (map snd (f_scope f))) (f_scope f) = []"
    by (auto simp: filter_empty_conv)
  then have "dropped_values [f] (f_scope f) = []" by (simp add: dropped_values_def Let_def del: filter_filter)
  then show ?thesis by (simp add: scrubber_def fun_eq_iff Let_def)
qed

lemma merge_texts:
  assumes "children \<noteq> []" "list_all texts_fit children" "merge_findings sha ell children sc u k = Inr m"
  shows "texts_fit m"
proof -
  define summary where "summary = scrubber children sc (f_summary (hd children))"
  define prefix where "prefix = ''[re-scoped for k-anonymity (k='' @ show_int k @ ''); '' @
      show_int (int (length children)) @ '' finding(s) merged] ''"
  have "rsat (\<lambda>m. length (f_title m) \<le> 120 \<and> length (evidence m) \<le> 20 \<and>
      f_summary m = (if 1 < length children \<or> sc \<noteq> f_scope (hd children)
        then fit_summary ell prefix summary SUMMARY_MAX else summary)) (merge_findings sha ell children sc u k)"
    unfolding merge_findings_def Let_def prefix_def summary_def using assms(1)
    by (cases children) (simp, simp only: list.case list.sel, intro rsat_bind [OF rsat_any], simp)
  then have m: "length (f_title m) \<le> 120" "length (evidence m) \<le> 20"
    "f_summary m = (if 1 < length children \<or> sc \<noteq> f_scope (hd children)
        then fit_summary ell prefix summary SUMMARY_MAX else summary)"
    by (simp_all add: assms(3))
  have "length (f_summary m) \<le> 400"
  proof (cases "1 < length children \<or> sc \<noteq> f_scope (hd children)")
    case True
    then show ?thesis using fit_summary_fits [of SUMMARY_MAX ell prefix summary] by (simp add: m(3) SUMMARY_MAX_def)
  next
    case False
    then have "children = [hd children]" using assms(1) by (cases children) auto
    then have "summary = f_summary (hd children)"
      using False scrubber_same [of "hd children"] unfolding summary_def by metis
    moreover have "texts_fit (hd children)" using assms(1,2) by (cases children) auto
    ultimately show ?thesis using False by (simp add: m(3) texts_fit_def)
  qed
  with m show ?thesis by (simp add: texts_fit_def)
qed

interpretation fits: merge_closed sha ell k texts_fit for sha ell k
  by unfold_locales (rule merge_texts)

text \<open>Merged findings keep the length limits of findings: when every finding has a title of at most 120 characters,
  a summary of at most 400 and at most 20 evidence items, so has every finding that re-scoping publishes, although
  scrubbing can lengthen a text, the re-scoping prefix is added and sentences are joined again.\<close>

theorem published_texts_fit:
  assumes "list_all texts_fit fs" "rescope_findings sha ell fs k cu = Inr out"
  shows "list_all texts_fit out"
  using fits.rescope_keeps(1) [OF assms] by (auto simp: list_all_iff fits.good_def)

subsection \<open>Witnesses\<close>

lemma wit_rescoped:
  "rescope_findings id (CHR ''~'') wit_findings 5 NoCount = Inr wit_published \<and>
   map (\<lambda>f. (f_scope f, f_users f, f_title f)) wit_published =
     [([(''team'', ''red'')], 6, ''Joe misses ((other))''),
      ([(''cost_center'', ''cc''), (''team'', ''me'')], 1, ''Misses in team me'')]"
  by code_simp

lemma wit_texts: "list_all texts_fit wit_findings"
  by code_simp

theorem published_findings_protect_witness:
  "list_all (\<lambda>f. audience f \<noteq> ''org'' \<or> exempt f \<or> 5 \<le> f_users f \<and> \<not> names_person (f_scope f)) wit_published \<and>
   map (\<lambda>f. (f_scope f, f_users f, f_title f)) wit_published =
     [([(''team'', ''red'')], 6, ''Joe misses ((other))''),
      ([(''cost_center'', ''cc''), (''team'', ''me'')], 1, ''Misses in team me'')]"
  using published_findings_protect [OF wit_rescoped [THEN conjunct1]] wit_rescoped by blast

theorem published_texts_fit_witness: "list_all texts_fit wit_published"
  using published_texts_fit [OF wit_texts wit_rescoped [THEN conjunct1]] .

end
