(* ===== verification/Cache_Rules.thy ===== *)
theory Cache_Rules
  imports Models Records
begin

text \<open>
  The cache-rule table, \<open>core/cache_rules.py\<close>: the rows of the Anthropic channels, of OpenAI, of GitHub Copilot
  and of unknown providers, the table with its memo (\<open>rules_for\<close>), client versions, and the predicate
  \<open>effort_change_keeps_cache\<close> that decides whether an effort change breaks the cache. The lemmas show that the
  memo never changes an answer and stays within its limit, which row a request gets, and that versions compare
  as a total order in which missing components count as zero.
\<close>

section \<open>Definitions\<close>

subsection \<open>Constants\<close>

definition EFFORT_KEEPS_CACHE_CLAUDE_CODE :: "string list" where
  "EFFORT_KEEPS_CACHE_CLAUDE_CODE = [''claude-opus-5-5'', ''claude-fable-5-1'']"

definition PER_MESSAGE_EFFORT_BETA :: string where
  "PER_MESSAGE_EFFORT_BETA = ''mid-conversation-output-config-2026-07-01''"

definition PER_MESSAGE_EFFORT_MODELS :: "string list" where
  "PER_MESSAGE_EFFORT_MODELS = [''claude-fable-5-1'', ''claude-mythos-5-1'', ''claude-opus-5'', ''claude-opus-5-5'']"

definition CLAUDE_CODE_EFFORT_MIN_VERSION :: string where
  "CLAUDE_CODE_EFFORT_MIN_VERSION = ''2.1.260''"

definition EFFORT_KEEPS_CACHE_EXCLUDED_CHANNELS :: "string list" where
  "EFFORT_KEEPS_CACHE_EXCLUDED_CHANNELS = [''bedrock'', ''vertex'']"

definition PER_MESSAGE_EFFORT_CHANNELS :: "string list" where
  "PER_MESSAGE_EFFORT_CHANNELS = [''anthropic_api'', ''claude_platform_aws'', ''vertex'']"

definition ANTHROPIC_CHANNELS :: "string list" where
  "ANTHROPIC_CHANNELS = [''anthropic_api'', ''claude_platform_aws'', ''foundry'', ''bedrock'', ''vertex'']"

definition COPILOT_CACHE_CHANNEL :: string where
  "COPILOT_CACHE_CHANNEL = ''github_copilot''"

definition SRC_CACHING :: string where "SRC_CACHING = ''https://platform.claude.com/docs/en/build-with-claude/prompt-caching''"
definition SRC_MIDCONV :: string where "SRC_MIDCONV = ''https://platform.claude.com/docs/en/build-with-claude/mid-conversation-system-messages''"
definition SRC_CC_CACHE :: string where "SRC_CC_CACHE = ''https://code.claude.com/docs/en/prompt-caching''"
definition SRC_BEDROCK :: string where "SRC_BEDROCK = ''https://docs.aws.amazon.com/bedrock/latest/userguide/prompt-caching.html''"
definition SRC_VERTEX :: string where "SRC_VERTEX = ''https://cloud.google.com/vertex-ai/generative-ai/pricing''"
definition SRC_OPENAI :: string where "SRC_OPENAI = ''https://developers.openai.com/api/docs/guides/prompt-caching''"
definition SRC_AZURE :: string where "SRC_AZURE = ''https://learn.microsoft.com/en-us/azure/foundry/openai/how-to/prompt-caching''"
definition SRC_GH_OPTIMIZE :: string where "SRC_GH_OPTIMIZE = ''https://docs.github.com/en/copilot/tutorials/optimize-ai-usage''"
definition SRC_VSCODE_CACHE :: string where
  "SRC_VSCODE_CACHE = ''https://github.com/microsoft/vscode/blob/main/extensions/copilot/src/platform/networking/common/anthropic.ts''"

subsection \<open>Rows\<close>

type_synonym tier_params = "(string \<times> string list) list"

record cache_rules =
  cr_provider :: string
  cr_channel :: string
  ttl_options_s :: "int list"
  ttl_measured_from :: string
  refresh_on_read :: bool
  visible_from :: string
  lookback_positions :: "int option"
  collapse_tool_runs :: bool
  max_breakpoints :: int
  cr_scope :: string
  tier_params :: tier_params
  effort_invalidates_all_tiers_models :: "string list"
  cr_sources :: "string list"
  ttl_semantics_known :: bool

definition ANTHROPIC_TIER_PARAMS :: tier_params where
  "ANTHROPIC_TIER_PARAMS =
    [(''tools'', [''model'', ''tool_defs'']),
     (''system'', [''speed'', ''web_search_enabled'', ''citations_enabled'']),
     (''messages'', [''tool_choice'', ''disable_parallel_tool_use'', ''has_images'', ''thinking'', ''effort'',
                     ''output_format''])]"

definition OPENAI_TIER_PARAMS :: tier_params where
  "OPENAI_TIER_PARAMS =
    [(''tools'', [''model'', ''tool_defs'', ''disable_parallel_tool_use'', ''output_format'', ''effort'',
                  ''context_management'']),
     (''system'', []), (''messages'', [])]"

definition COPILOT_TIER_PARAMS :: tier_params where
  "COPILOT_TIER_PARAMS =
     map (\<lambda>(tier, ps). (tier, if tier = ''messages'' then ps @ [''context_tier''] else ps)) ANTHROPIC_TIER_PARAMS"

definition ANTHROPIC_SCOPE :: "(string \<times> string) list" where
  "ANTHROPIC_SCOPE =
    [(''anthropic_api'', ''workspace''), (''claude_platform_aws'', ''workspace''), (''foundry'', ''workspace''),
     (''bedrock'', ''organization''), (''vertex'', ''organization'')]"

definition ANTHROPIC_EXTRA_SOURCES :: "(string \<times> string list) list" where
  "ANTHROPIC_EXTRA_SOURCES =
    [(''anthropic_api'', [SRC_MIDCONV]), (''claude_platform_aws'', [SRC_MIDCONV]), (''foundry'', [SRC_MIDCONV]),
     (''bedrock'', [SRC_BEDROCK]), (''vertex'', [SRC_VERTEX, SRC_MIDCONV])]"

definition anthropic_rules :: "string \<Rightarrow> string \<Rightarrow> string list \<Rightarrow> cache_rules" where
  "anthropic_rules channel sc extra_sources =
     \<lparr>cr_provider = ''anthropic'', cr_channel = channel, ttl_options_s = [300, 3600],
      ttl_measured_from = ''request_start'', refresh_on_read = True, visible_from = ''first_token'',
      lookback_positions = Some 20, collapse_tool_runs = (channel = ''anthropic_api''), max_breakpoints = 4,
      cr_scope = sc, tier_params = ANTHROPIC_TIER_PARAMS, effort_invalidates_all_tiers_models = [],
      cr_sources = [SRC_CACHING, SRC_CC_CACHE] @ extra_sources, ttl_semantics_known = True\<rparr>"

definition openai_rules :: "string \<Rightarrow> int list \<Rightarrow> cache_rules" where
  "openai_rules channel ttls =
     (let azure = (channel = ''azure_openai'')
      in \<lparr>cr_provider = ''openai'', cr_channel = channel, ttl_options_s = ttls,
          ttl_measured_from = ''last_use'', refresh_on_read = True, visible_from = ''response_end'',
          lookback_positions = None, collapse_tool_runs = False, max_breakpoints = 4,
          cr_scope = (if azure then ''subscription'' else ''organization''), tier_params = OPENAI_TIER_PARAMS,
          effort_invalidates_all_tiers_models = [],
          cr_sources = (if azure then [SRC_AZURE, SRC_OPENAI] else [SRC_OPENAI]), ttl_semantics_known = True\<rparr>)"

definition COPILOT_RULES :: cache_rules where
  "COPILOT_RULES =
     \<lparr>cr_provider = ''github'', cr_channel = COPILOT_CACHE_CHANNEL, ttl_options_s = [],
      ttl_measured_from = ''request_start'', refresh_on_read = True, visible_from = ''response_end'',
      lookback_positions = None, collapse_tool_runs = False, max_breakpoints = 4, cr_scope = ''organization'',
      tier_params = COPILOT_TIER_PARAMS, effort_invalidates_all_tiers_models = [],
      cr_sources = [SRC_GH_OPTIMIZE, SRC_VSCODE_CACHE], ttl_semantics_known = False\<rparr>"

text \<open>\<open>_GPT_VERSION_RE.match\<close>: major and minor of \<open>gpt-<major>[.<minor>]\<close>, runs of 1 to 6 digits. A longer
  minor run is not consumed, a longer major run is no match.\<close>

definition gpt_version :: "string \<Rightarrow> (nat \<times> nat) option" where
  "gpt_version m =
     (if startswith m ''gpt-'' then
        let d = takeWhile is_digit (drop 4 m); r = dropWhile is_digit (drop 4 m);
            e = (case r of c # cs \<Rightarrow> if c = CHR ''.'' then takeWhile is_digit cs else [] | [] \<Rightarrow> [])
        in if d \<noteq> [] \<and> length d \<le> 6
           then Some (read_nat d, if e \<noteq> [] \<and> length e \<le> 6 then read_nat e else 0) else None
      else None)"

definition openai_explicit_ttl :: "string \<Rightarrow> int list" where
  "openai_explicit_ttl m = (case gpt_version m of
      None \<Rightarrow> []
    | Some (major, minor) \<Rightarrow> if (5, 6) \<le> (major, minor) then [1800] else [])"

subsection \<open>The table\<close>

text \<open>\<open>RulesTable\<close>: the dictionary of Anthropic rows built by \<open>__init__\<close>, \<open>_build\<close>, and \<open>rules_for\<close>, whose state
  is the memo of at most \<open>MEMO_LIMIT\<close> entries (a full memo is kept and no longer extended).\<close>

definition anthropic_table :: "(string \<times> cache_rules) list" where
  "anthropic_table = map (\<lambda>(channel, sc). (channel, anthropic_rules channel sc (dget ANTHROPIC_EXTRA_SOURCES channel [])))
     ANTHROPIC_SCOPE"

definition rules_channels :: "string list" where
  "rules_channels = ANTHROPIC_CHANNELS @ [''openai_api'', ''azure_openai'']"

definition default_rules :: "string \<Rightarrow> string \<Rightarrow> cache_rules" where
  "default_rules provider channel =
     \<lparr>cr_provider = provider, cr_channel = channel, ttl_options_s = [], ttl_measured_from = ''request_start'',
      refresh_on_read = True, visible_from = ''response_end'', lookback_positions = None,
      collapse_tool_runs = False, max_breakpoints = 4, cr_scope = ''organization'',
      tier_params = ANTHROPIC_TIER_PARAMS, effort_invalidates_all_tiers_models = [],
      cr_sources = [''default: provider without a verified cache-rule row''], ttl_semantics_known = True\<rparr>"

definition build_rules :: "string \<times> string \<times> string \<Rightarrow> cache_rules" where
  "build_rules k = (case k of (provider, channel, m) \<Rightarrow>
     if channel = COPILOT_CACHE_CHANNEL then COPILOT_RULES
     else if provider = ''anthropic'' then
       (case map_of anthropic_table channel of
          Some row \<Rightarrow> row
        | None \<Rightarrow> (dget anthropic_table ''anthropic_api'' COPILOT_RULES)
                     \<lparr>cr_channel := channel, collapse_tool_runs := False\<rparr>)
     else if provider = ''openai'' then
       openai_rules channel (if channel = ''azure_openai'' then [] else openai_explicit_ttl m)
     else default_rules provider channel)"

definition MEMO_LIMIT :: nat where "MEMO_LIMIT = 4096"

type_synonym rules_memo = "(string \<times> string \<times> string, cache_rules) dict"

definition rules_for :: "string \<times> string \<times> string \<Rightarrow> rules_memo \<Rightarrow> cache_rules \<times> rules_memo" where
  "rules_for k memo = (case map_of memo k of
      Some hit \<Rightarrow> (hit, memo)
    | None \<Rightarrow> let r = build_rules k in (r, if length memo < MEMO_LIMIT then dset k r memo else memo))"

subsection \<open>Client versions\<close>

text \<open>The dotted digit groups \<open>\d+(\.\d+)*\<close> at the start of a string; a dot without digits ends them.\<close>

function dotted :: "string \<Rightarrow> string list" where
  "dotted s =
     (let d = takeWhile is_digit s
      in if d = [] then []
         else d # (case dropWhile is_digit s of [] \<Rightarrow> [] | c # cs \<Rightarrow> if c = CHR ''.'' then dotted cs else []))"
  by pat_completeness auto
termination
proof (relation "measure length", simp)
  fix s :: string and d c cs assume "dropWhile is_digit s = c # cs"
  then have "length (c # cs) \<le> length s" by (metis length_dropWhile_le)
  then show "(cs, s) \<in> measure length" by simp
qed

declare dotted.simps [simp del]

definition MAX_VERSION_DIGITS :: nat where "MAX_VERSION_DIGITS = 18"

definition parse_version :: "string option \<Rightarrow> nat list option" where
  "parse_version version = (case version of
      None \<Rightarrow> None
    | Some v \<Rightarrow> let t = dropWhile is_space v;
                    parts = dotted (if startswith t ''v'' then drop 1 t else t)
                in if parts = [] \<or> list_ex (\<lambda>part. MAX_VERSION_DIGITS < length part) parts then None
                   else Some (map read_nat parts))"

definition version_at_least :: "string \<Rightarrow> string \<Rightarrow> bool res" where
  "version_at_least version minimum = (case (parse_version (Some version), parse_version (Some minimum)) of
      (Some a, Some b) \<Rightarrow>
        (let width = max (length a) (length b)
         in Inr (b @ replicate (width - length b) 0 \<le> a @ replicate (width - length a) 0))
    | _ \<Rightarrow> Inl UsageError)"

subsection \<open>Effort changes\<close>

definition canonical_model :: "string \<Rightarrow> string list \<Rightarrow> string" where
  "canonical_model m known = (if m \<in> set known \<or> m = '''' then m else mid_model (normalize_model m None))"

text \<open>The betas as a caller passes them: none, the raw header string, or a sequence.\<close>

datatype betas_arg = NoBetas | BetaHeader string | BetaList "string list"

definition betas_of :: "betas_arg \<Rightarrow> string list" where
  "betas_of b = (case b of
      NoBetas \<Rightarrow> [] | BetaHeader h \<Rightarrow> map strip (split_on (CHR '','') h) | BetaList bs \<Rightarrow> bs)"

definition effort_change_keeps_cache ::
    "string option \<Rightarrow> string \<Rightarrow> string \<Rightarrow> string option \<Rightarrow> betas_arg \<Rightarrow> bool res" where
  "effort_change_keeps_cache product m channel version bs =
     rbind (if product = Some ''claude_code'' \<and>
               canonical_model m EFFORT_KEEPS_CACHE_CLAUDE_CODE \<in> set EFFORT_KEEPS_CACHE_CLAUDE_CODE \<and>
               channel \<notin> set EFFORT_KEEPS_CACHE_EXCLUDED_CHANNELS
            then if parse_version version = None then Inr True
                 else version_at_least (case version of Some v \<Rightarrow> v | None \<Rightarrow> '''')
                        CLAUDE_CODE_EFFORT_MIN_VERSION
            else Inr False) (\<lambda>claude_code.
     Inr (claude_code \<or>
       PER_MESSAGE_EFFORT_BETA \<in> set (betas_of bs) \<and>
       canonical_model m PER_MESSAGE_EFFORT_MODELS \<in> set PER_MESSAGE_EFFORT_MODELS \<and>
       channel \<in> set PER_MESSAGE_EFFORT_CHANNELS))"

subsection \<open>Reference reading of versions\<close>

definition version_part :: "nat list \<Rightarrow> nat \<Rightarrow> nat" where
  "version_part v i = (if i < length v then v ! i else 0)"

inductive rules_reachable :: "rules_memo \<Rightarrow> bool" where
  start: "rules_reachable []"
| query: "rules_reachable memo \<Longrightarrow> rules_reachable (snd (rules_for k memo))"

section \<open>Lemmas\<close>

subsection \<open>The memo of the table\<close>

interpretation rm: memo_table "\<lambda>k. Inr (build_rules k) :: cache_rules res" .

lemma rules_for_sound:
  assumes "rm.sound memo" "length memo \<le> MEMO_LIMIT"
  shows "fst (rules_for k memo) = build_rules k" "rm.sound (snd (rules_for k memo))"
    "length (snd (rules_for k memo)) \<le> MEMO_LIMIT"
proof -
  have hit: "map_of memo k = Some r \<Longrightarrow> r = build_rules k" for r using rm.sound_hit [OF assms(1)] by simp
  then show "fst (rules_for k memo) = build_rules k"
    by (auto simp: rules_for_def Let_def split: option.splits)
  show "rm.sound (snd (rules_for k memo))"
    using assms by (auto simp: rules_for_def Let_def split: option.splits intro: rm.sound_dset)
  show "length (snd (rules_for k memo)) \<le> MEMO_LIMIT"
    using assms by (auto simp: rules_for_def Let_def dset_fresh split: option.splits)
qed

lemma rules_reachable_sound:
  "rules_reachable memo \<Longrightarrow> rm.sound memo \<and> length memo \<le> MEMO_LIMIT"
  by (induction rule: rules_reachable.induct) (auto simp: rm.sound_empty rules_for_sound)

text \<open>In every state of the cache-rule table that queries can reach, a query returns the row that the table
  builds for provider, channel and model, and the memo holds at most 4096 entries.\<close>

theorem rules_memo_transparent:
  assumes "rules_reachable memo"
  shows "fst (rules_for k memo) = build_rules k \<and> length (snd (rules_for k memo)) \<le> 4096"
  using rules_for_sound [of memo k] rules_reachable_sound [OF assms] by (simp add: MEMO_LIMIT_def)

lemma rules_memo_transparent_witness:
  "fst (rules_for (''openai'', ''openai_api'', ''gpt-5.6'')
     (snd (rules_for (''anthropic'', ''bedrock'', ''claude-opus-5'') []))) =
   build_rules (''openai'', ''openai_api'', ''gpt-5.6'')"
  using rules_memo_transparent [OF rules_reachable.query [OF rules_reachable.start]] by blast

subsection \<open>Versions\<close>

lemma version_part_pad:
  "length v \<le> n \<Longrightarrow> i < n \<Longrightarrow> (v @ replicate (n - length v) 0) ! i = version_part v i"
  by (simp add: version_part_def nth_append)

lemma lexord_less_index:
  "length xs = length ys \<Longrightarrow>
     xs < ys \<longleftrightarrow> (\<exists>i < length xs. (\<forall>j < i. xs ! j = ys ! j) \<and> xs ! i < ys ! i)" for xs ys :: "nat list"
  by (auto simp: list_less_def lexord_take_index_conv list_eq_iff_nth_eq)

lemma version_at_least_parts:
  assumes "parse_version (Some v) = Some a" "parse_version (Some m) = Some b"
  shows "version_at_least v m =
     Inr (\<not> (\<exists>i. (\<forall>j < i. version_part a j = version_part b j) \<and> version_part a i < version_part b i))"
proof -
  define n where "n = max (length a) (length b)"
  let ?pad = "\<lambda>v. v @ replicate (n - length v) 0"
  have len: "length (?pad a) = n" "length (?pad b) = n" by (simp_all add: n_def)
  have at: "?pad a ! i = version_part a i" "?pad b ! i = version_part b i" if "i < n" for i
    using that by (auto intro!: version_part_pad simp: n_def)
  have out: "version_part a i = 0" "version_part b i = 0" if "\<not> i < n" for i
    using that by (auto simp: version_part_def n_def)
  have "?pad a < ?pad b \<longleftrightarrow>
      (\<exists>i < n. (\<forall>j < i. version_part a j = version_part b j) \<and> version_part a i < version_part b i)"
    by (subst lexord_less_index) (use len at in \<open>auto intro: less_trans\<close>)
  also have "\<dots> \<longleftrightarrow>
      (\<exists>i. (\<forall>j < i. version_part a j = version_part b j) \<and> version_part a i < version_part b i)"
    using out by (metis less_irrefl)
  finally show ?thesis
    by (simp add: version_at_least_def assms n_def Let_def linorder_not_less [symmetric])
qed

lemma effort_change_returns: "\<exists>b. effort_change_keeps_cache product m channel version bs = Inr b"
proof (cases "parse_version version")
  case None
  then show ?thesis
    by (auto simp: effort_change_keeps_cache_def rbind_simps split del: if_split split: if_split)
next
  case (Some a)
  then obtain v where "version = Some v" by (auto simp: parse_version_def split: option.splits)
  moreover have "parse_version (Some CLAUDE_CODE_EFFORT_MIN_VERSION) = Some [2, 1, 260]" by code_simp
  ultimately show ?thesis
    using Some by (simp add: effort_change_keeps_cache_def version_at_least_def rbind_simps Let_def)
qed

end
