(* ===== verification/Lanes.thy ===== *)
theory Lanes
  imports Records
begin

text \<open>
  Lane assembly, \<open>core/lanes.py\<close>: \<open>group_lanes\<close> joins loose requests and events with the lane shells of the
  sessions, \<open>ttl_of_last_write\<close> finds the time to live of the most recent billed cache write. A Python
  \<open>Counter\<close> is the list of its elements. The lemmas show what each lane holds, in which order, and when nothing of
  the input is lost.
\<close>

section \<open>Definitions\<close>

definition hint_ttl :: "string option \<Rightarrow> int option" where
  "hint_ttl h = (if h = Some ''5m'' then Some 300 else if h = Some ''1h'' then Some 3600 else None)"

definition observed_ttl :: "request list \<Rightarrow> string" where
  "observed_ttl rs =
     (let infs = concat (map billable_inferences rs);
          saw_5m = list_ex (\<lambda>i. 0 < cache_write_5m (usage i)) infs;
          saw_1h = list_ex (\<lambda>i. 0 < cache_write_1h (usage i)) infs
      in if saw_5m \<and> saw_1h then ''mixed'' else if saw_1h then ''1h'' else if saw_5m then ''5m'' else ''unknown'')"

subsection \<open>Grouping\<close>

type_synonym bucket = "(string, request) dict"

definition add_request :: "bucket \<Rightarrow> request \<Rightarrow> bucket" where
  "add_request b r = dsetdefault (request_id r) r b"

definition by_lane_of :: "request list \<Rightarrow> (string, bucket) dict" where
  "by_lane_of rs = fold (\<lambda>r d. dset (req_lane_key r) (add_request (dget d (req_lane_key r) []) r) d) rs []"

definition shell_lanes :: "session list \<Rightarrow> lane list" where
  "shell_lanes ses = concat (map lanes ses)"

definition shells_of :: "session list \<Rightarrow> (string, lane) dict" where
  "shells_of ses = fold (\<lambda>l d. dsetdefault (lane_key l) l d) (shell_lanes ses) []"

text \<open>\<open>remaining[ev] > 0\<close>: an event of the shell that is also loose counts once.\<close>

definition merge_event :: "lane_event list \<times> lane_event list \<Rightarrow> lane_event \<Rightarrow> lane_event list \<times> lane_event list" where
  "merge_event acc ev = (case acc of (remaining, loose) \<Rightarrow>
     if ev \<in> set remaining then (remove1 ev remaining, loose) else (remaining, loose @ [ev]))"

definition merge_events :: "lane_event list \<Rightarrow> lane_event list \<Rightarrow> lane_event list" where
  "merge_events loose evs = snd (foldl merge_event (loose, loose) evs)"

definition add_shell ::
    "(string, bucket) dict \<times> (string, lane_event list) dict \<Rightarrow> string \<times> lane \<Rightarrow>
     (string, bucket) dict \<times> (string, lane_event list) dict" where
  "add_shell acc ks = (case (acc, ks) of ((rq, ev), (key, shell)) \<Rightarrow>
     (dset key (foldl add_request (dget rq key []) (requests shell)) rq,
      if events shell = [] then ev else dset key (merge_events (dget ev key []) (events shell)) ev))"

definition lane_for ::
    "(string, bucket) dict \<Rightarrow> (string, lane_event list) dict \<Rightarrow> (string, lane) dict \<Rightarrow> string \<Rightarrow> lane res" where
  "lane_for rq ev shells key =
     (let reqs = map snd (dget rq key []); shell = map_of shells key
      in mk_lane
        \<lparr>lane_key = key,
         lane_session_key = (case shell of Some s \<Rightarrow> lane_session_key s
            | None \<Rightarrow> if reqs \<noteq> [] then Min (set (map req_session_key reqs)) else ''''),
         lane_kind = (case shell of Some s \<Rightarrow> lane_kind s | None \<Rightarrow> LkUnknown),
         parent_lane_key = (case shell of Some s \<Rightarrow> parent_lane_key s | None \<Rightarrow> None),
         cache_scope_key = (case shell of Some s \<Rightarrow> cache_scope_key s | None \<Rightarrow> ''unknown''),
         requests = reqs, events = dget ev key [], ttl_observed = observed_ttl reqs,
         lane_exact = (case shell of Some s \<Rightarrow> lane_exact s | None \<Rightarrow> True)\<rparr>)"

definition group_lanes :: "request list \<Rightarrow> lane_event list \<Rightarrow> session list \<Rightarrow> lane list res" where
  "group_lanes rs evs ses =
     (let shells = shells_of ses
      in case foldl add_shell (by_lane_of rs, group_by_key ev_lane_key evs) shells of (rq, ev) \<Rightarrow>
         rbind (rmap (lane_for rq ev shells) (remdups (map fst rq @ map fst ev @ map fst shells))) (\<lambda>ls.
         Inr (sort_key (\<lambda>l. (lane_session_key l, lane_key l)) ls)))"

subsection \<open>The last write\<close>

text \<open>The candidates of one write: the shortest class, \<open>None\<close> when no class has a known time to live.\<close>

definition write_ttls :: "inference \<Rightarrow> int list" where
  "write_ttls i = (let u = usage i in
     (if cache_write_5m u \<noteq> 0 then [300] else []) @ (if cache_write_1h u \<noteq> 0 then [3600] else []) @
     (case cache_write_other_ttl_s u of Some t \<Rightarrow> if cache_write_other u \<noteq> 0 then [t] else [] | None \<Rightarrow> []) @
     (case hint_ttl (write_ttl_hint (pricing i)) of Some t \<Rightarrow> if cache_write_unknown u \<noteq> 0 then [t] else [] | None \<Rightarrow> []))"

definition shortest :: "int list \<Rightarrow> int option" where
  "shortest ts = (if ts = [] then None else Some (Min (set ts)))"

definition last_write :: "request \<Rightarrow> inference option" where
  "last_write r = List.find (\<lambda>i. cache_write (usage i) \<noteq> 0) (rev (billable_inferences r))"

fun ttl_backwards :: "request list \<Rightarrow> int option" where
  "ttl_backwards [] = None"
| "ttl_backwards (r # rs) = (case last_write r of Some i \<Rightarrow> shortest (write_ttls i) | None \<Rightarrow> ttl_backwards rs)"

definition ttl_of_last_write :: "lane \<Rightarrow> nat \<Rightarrow> int option" where
  "ttl_of_last_write l before = ttl_backwards (rev (take before (requests l)))"

subsection \<open>What a lane is made of\<close>

text \<open>The shell of a lane is the first one of the sessions with its key (what a later shell of the same key carries is not
  looked at); the requests and events of a lane are the loose ones with its key and those of that shell.\<close>

definition shell_of :: "session list \<Rightarrow> string \<Rightarrow> lane option" where
  "shell_of ses k = List.find (\<lambda>l. lane_key l = k) (shell_lanes ses)"

definition lane_pool :: "request list \<Rightarrow> session list \<Rightarrow> string \<Rightarrow> request list" where
  "lane_pool rs ses k = filter (\<lambda>r. req_lane_key r = k) rs @ (case shell_of ses k of Some s \<Rightarrow> requests s | None \<Rightarrow> [])"

definition lane_event_pool :: "lane_event list \<Rightarrow> session list \<Rightarrow> string \<Rightarrow> lane_event multiset" where
  "lane_event_pool evs ses k =
     mset (filter (\<lambda>e. ev_lane_key e = k) evs) \<union># (case shell_of ses k of Some s \<Rightarrow> mset (events s) | None \<Rightarrow> {#})"

definition assembled :: "request list \<Rightarrow> lane_event list \<Rightarrow> session list \<Rightarrow> lane \<Rightarrow> bool" where
  "assembled rs evs ses l =
     (distinct (map request_id (requests l)) \<and>
      set (requests l) \<subseteq> set (lane_pool rs ses (lane_key l)) \<and>
      request_id ` set (requests l) = request_id ` set (lane_pool rs ses (lane_key l)) \<and>
      sorted (map request_sort_key (requests l)) \<and>
      mset (events l) = lane_event_pool evs ses (lane_key l) \<and> sorted (map event_sort_key (events l)))"

definition wit_l_usage :: "int \<Rightarrow> int \<Rightarrow> usage_buckets" where
  "wit_l_usage rd wr = \<lparr>uncached_input = 100, cache_read = rd, cache_write_5m = wr, cache_write_1h = 0,
     cache_write_other = 0, cache_write_other_ttl_s = None, cache_write_unknown = 0, u_output = 10,
     output_reasoning = None, web_search_requests = 0, web_fetch_requests = 0\<rparr>"

definition wit_l_inference :: "int \<Rightarrow> int \<Rightarrow> inference" where
  "wit_l_inference rd wr = \<lparr>inference_id = ''i'', inf_kind = IkMessage, usage = wit_l_usage rd wr,
     pricing = \<lparr>ctx_provider = ''anthropic'', ctx_channel = ''anthropic_api'', ctx_model = ''claude-opus-5'',
       ctx_model_raw = ''claude-opus-5'', service_tier = ''standard'', speed = ''standard'', inference_geo = None,
       endpoint_scope = ''global'', write_ttl_hint = None, billing_path = ''api_key'', routing = ''direct'',
       compliance = None, context_tier = None\<rparr>,
     usage_src = UsFinal, billable = None, billing_rule_id = None, output_upper = None,
     provider_reported_cost_nano = None, provider_reported_cost_basis = None\<rparr>"

definition wit_l_request :: "string \<Rightarrow> int \<Rightarrow> int \<Rightarrow> int \<Rightarrow> request" where
  "wit_l_request rid ts rd wr = \<lparr>request_id = rid, req_session_key = ''s'', req_lane_key = ''l'', seq = 0,
     attribution = \<lparr>principal = None, team = None, cost_center = None, project = None, repo = None,
       workspace_id = None, api_key_id = None, agent_product = None, agent_type = None, query_source = None,
       skill = None, mcp_server = None, plugin = None, workload = WcCi, entrypoint = None, client_version = None,
       attr_billing_path = None, cwd_key = None, arm = None, wave = None, extra = []\<rparr>,
     params = \<lparr>model_requested = ''claude-opus-5'', max_tokens = None, stream = None, thinking = None, effort = None,
       session_effort = None, tool_choice = None, output_format = None, speed_requested = None,
       service_tier_requested = None, inference_geo_requested = None, betas = [], breakpoints = [],
       automatic_caching = None, context_management = None, task_budget = None, web_search_enabled = None,
       citations_enabled = None, has_images = None, advisor_model = None, disable_parallel_tool_use = None\<rparr>,
     attempts = [\<lparr>attempt_id = ''a'', attempt_no = 0, att_ts_start_ms = ts, ttft_ms = None, duration_ms = None,
       att_outcome = OcOk, http_status = None, error_type = None, retry_layer = None, retry_after_ms = None,
       should_retry = None, provider_request_id = None, provider_message_id = None, model_served = None,
       stop_reason = None, inferences = [wit_l_inference rd wr], diagnostics = None, applied_edits = [],
       thinking_dropped = 0, sdk_retry_count = None, raw_usage_json = None, convention_id = None\<rparr>],
     fingerprint = None, appended = [], source = None\<rparr>"

definition wit_l_event :: lane_event where
  "wit_l_event = \<lparr>ev_lane_key = ''l'', ev_ts_ms = 5, ev_kind = EvHumanPrompt, ev_attrs = []\<rparr>"

definition wit_l_shell :: lane where
  "wit_l_shell = \<lparr>lane_key = ''l'', lane_session_key = ''s'', lane_kind = LkMain, parent_lane_key = None,
     cache_scope_key = ''w'', requests = [wit_l_request ''a'' 1 0 9000], events = [wit_l_event, wit_l_event],
     ttl_observed = ''5m'', lane_exact = True\<rparr>"

definition wit_l_session :: session where
  "wit_l_session = \<lparr>session_key = ''s'', ses_source_kind = ''k'', ses_attribution = attribution (wit_l_request ''a'' 1 0 0),
     lanes = [wit_l_shell], started_ms = 0, ended_ms = 9\<rparr>"

definition wit_l_lane :: lane where
  "wit_l_lane = wit_l_shell\<lparr>requests := [wit_l_request ''a'' 1 0 9000, wit_l_request ''b'' 400000 0 9000]\<rparr>"

section \<open>Lemmas\<close>

subsection \<open>Buckets\<close>

lemma map_of_add_request:
  "map_of (add_request b r) k = (if map_of b k = None \<and> request_id r = k then Some r else map_of b k)"
  by (auto simp: add_request_def dict_simps split: option.splits)

lemma dsetdefault_cases:
  obtains "k \<notin> fst ` set d" "dsetdefault k v d = d @ [(k, v)]" | "k \<in> fst ` set d" "dsetdefault k v d = d"
proof (cases "map_of d k")
  case None
  then have "dsetdefault k v d = d @ [(k, v)]" by (simp only: dsetdefault_def option.case)
  moreover have "k \<notin> fst ` set d" using None map_of_eq_None_iff [of d k] by blast
  ultimately show ?thesis using that(1) by blast
next
  case (Some x)
  then have "k \<in> fst ` set d" by (force dest: map_of_SomeD)
  then show ?thesis by (rule that(2)) (simp add: dsetdefault_def Some)
qed

lemma bucket_requests:
  assumes "distinct (map fst b)" "list_all (\<lambda>(k, r). request_id r = k) b"
  shows "distinct (map fst (foldl add_request b rs)) \<and> list_all (\<lambda>(k, r). request_id r = k) (foldl add_request b rs) \<and>
     snd ` set (foldl add_request b rs) \<subseteq> snd ` set b \<union> set rs \<and>
     fst ` set (foldl add_request b rs) = fst ` set b \<union> request_id ` set rs"
  using assms
proof (induction rs arbitrary: b)
  case (Cons r rs)
  have step: "distinct (map fst (add_request b r)) \<and> list_all (\<lambda>(k, r). request_id r = k) (add_request b r) \<and>
      snd ` set (add_request b r) \<subseteq> insert r (snd ` set b) \<and>
      fst ` set (add_request b r) = insert (request_id r) (fst ` set b)"
    unfolding add_request_def
    by (rule dsetdefault_cases [of "request_id r" b r]) (use Cons.prems in auto)
  have "distinct (map fst (add_request b r))" "list_all (\<lambda>(k, r). request_id r = k) (add_request b r)"
    using step by blast+
  note ih = Cons.IH [OF this]
  have chain: "S \<subseteq> B \<union> insert r R" if "S \<subseteq> T \<union> R" "T \<subseteq> insert r B" for S T B R :: "request set"
    using that by blast
  from ih step have "snd ` set (foldl add_request b (r # rs)) \<subseteq> snd ` set b \<union> insert r (set rs)"
    by (intro chain [of _ "snd ` set (add_request b r)"]) simp_all
  with ih step show ?case by simp
qed simp

lemma dget_by_lane:
  "dget (fold (\<lambda>r d. dset (req_lane_key r) (add_request (dget d (req_lane_key r) []) r) d) rs d) k [] =
     foldl add_request (dget d k []) (filter (\<lambda>r. req_lane_key r = k) rs)"
  by (induction rs arbitrary: d) (auto simp: dget_def dict_simps)

lemma keys_by_lane:
  "distinct (map fst d) \<Longrightarrow>
   distinct (map fst (fold (\<lambda>r d. dset (req_lane_key r) (add_request (dget d (req_lane_key r) []) r) d) rs d)) \<and>
   fst ` set (fold (\<lambda>r d. dset (req_lane_key r) (add_request (dget d (req_lane_key r) []) r) d) rs d) =
     fst ` set d \<union> req_lane_key ` set rs"
proof (induction rs arbitrary: d)
  case (Cons r rs)
  from Cons.IH [of "dset (req_lane_key r) (add_request (dget d (req_lane_key r) []) r) d"] Cons.prems
  show ?case by (auto simp: dict_simps)
qed simp

lemma merge_event_simp:
  "merge_event (rm, out) e = (if e \<in> set rm then (remove1 e rm, out) else (rm, out @ [e]))"
  by (simp add: merge_event_def)

lemma merge_events_mset:
  "mset (snd (foldl merge_event (rm, out) evs)) = mset out + (mset evs - mset rm)"
proof (induction evs arbitrary: rm out)
  case (Cons e evs)
  show ?case
  proof (cases "e \<in> set rm")
    case True
    then have "mset rm = add_mset e (mset rm - {#e#})" by simp
    then have "mset (e # evs) - mset rm = mset evs - mset (remove1 e rm)"
      by (metis add_mset_diff_bothsides mset.simps(2) mset_remove1)
    with True show ?thesis by (simp add: Cons.IH merge_event_simp)
  next
    case False
    then have "mset (e # evs) - mset rm = add_mset e (mset evs - mset rm)"
      by (simp add: diff_add_mset_swap)
    with False show ?thesis by (simp add: Cons.IH merge_event_simp)
  qed
qed simp

lemma mset_merge_events: "mset (merge_events loose evs) = mset loose \<union># mset evs"
  by (simp add: merge_events_def merge_events_mset union_mset_def)

subsection \<open>Shells\<close>

lemma shells_fold:
  "distinct (map fst d) \<Longrightarrow> distinct (map fst (fold (\<lambda>l d. dsetdefault (lane_key l) l d) ls d))"
  by (induction ls arbitrary: d) (simp_all add: distinct_dsetdefault)

lemma shells_lookup:
  "map_of (fold (\<lambda>l d. dsetdefault (lane_key l) l d) ls d) k =
     (case map_of d k of Some l \<Rightarrow> Some l | None \<Rightarrow> List.find (\<lambda>l. lane_key l = k) ls)"
proof (induction ls arbitrary: d)
  case (Cons l ls)
  have "map_of (dsetdefault (lane_key l) l d) k =
      (case map_of d k of Some x \<Rightarrow> Some x | None \<Rightarrow> if lane_key l = k then Some l else None)"
    unfolding map_of_dsetdefault by (auto split: option.splits)
  then show ?case by (simp add: Cons.IH split: option.splits)
qed (simp split: option.splits)

lemma shells_of_facts: "distinct (map fst (shells_of ses))" "map_of (shells_of ses) = shell_of ses"
  unfolding shells_of_def by (simp_all add: shells_fold) (simp add: fun_eq_iff shells_lookup shell_of_def)

lemma fold_shells:
  assumes "distinct (map fst ss)" "distinct (map fst rq)" "distinct (map fst ev)"
  shows "case foldl add_shell (rq, ev) ss of (rq', ev') \<Rightarrow>
     distinct (map fst rq') \<and> distinct (map fst ev') \<and>
     dget rq' k [] = (case map_of ss k of Some s \<Rightarrow> foldl add_request (dget rq k []) (requests s) | None \<Rightarrow> dget rq k []) \<and>
     dget ev' k [] = (case map_of ss k of Some s \<Rightarrow> merge_events (dget ev k []) (events s) | None \<Rightarrow> dget ev k []) \<and>
     fst ` set rq' = fst ` set rq \<union> fst ` set ss \<and>
     fst ` set ev \<subseteq> fst ` set ev' \<and> fst ` set ev' \<subseteq> fst ` set ev \<union> fst ` set ss"
  using assms
proof (induction ss arbitrary: rq ev)
  case (Cons p ss)
  obtain key shell where p: "p = (key, shell)" by force
  obtain rq1 ev1 where step: "add_shell (rq, ev) p = (rq1, ev1)" by force
  have 1: "rq1 = dset key (foldl add_request (dget rq key []) (requests shell)) rq"
    "ev1 = (if events shell = [] then ev else dset key (merge_events (dget ev key []) (events shell)) ev)"
    using step by (simp_all add: p add_shell_def)
  have d1: "distinct (map fst rq1)" "distinct (map fst ev1)"
    using Cons.prems by (simp_all add: 1)
  have get: "dget rq1 x [] = (if x = key then foldl add_request (dget rq key []) (requests shell) else dget rq x [])"
    "dget ev1 x [] = (if x = key then merge_events (dget ev key []) (events shell) else dget ev x [])" for x
    by (simp_all add: 1 merge_events_def)
  have keys: "fst ` set rq1 = insert key (fst ` set rq)" "fst ` set ev \<subseteq> fst ` set ev1"
    "fst ` set ev1 \<subseteq> insert key (fst ` set ev)"
    unfolding 1 by (simp_all add: dict_simps subset_insertI)
  have "key \<notin> fst ` set ss" using Cons.prems by (simp add: p)
  then have none: "map_of ss key = None" by (simp add: map_of_eq_None_iff)
  obtain rq2 ev2 where 2: "foldl add_shell (rq1, ev1) ss = (rq2, ev2)" by force
  note ih = Cons.IH [of rq1 ev1, unfolded 2 prod.case]
  have "distinct (map fst ss)" using Cons.prems(1) by simp
  note ih = ih [OF this d1]
  have look: "map_of (p # ss) k = (if k = key then Some shell else map_of ss k)" by (simp add: p)
  have go: "foldl add_shell (rq, ev) (p # ss) = (rq2, ev2)" by (simp add: step 2)
  have chain: "A \<subseteq> C \<and> C \<subseteq> A \<union> insert key S" if "A \<subseteq> B" "B \<subseteq> insert key A" "B \<subseteq> C" "C \<subseteq> B \<union> S"
    for A B C S :: "string set" using that by blast
  have "fst ` set ev \<subseteq> fst ` set ev2 \<and> fst ` set ev2 \<subseteq> fst ` set ev \<union> fst ` set (p # ss)"
    using chain [of "fst ` set ev" "fst ` set ev1" "fst ` set ev2" "fst ` set ss"] ih keys by (simp add: p)
  moreover have "fst ` set rq2 = fst ` set rq \<union> fst ` set (p # ss)" using ih keys by (simp add: p)
  moreover have "dget rq2 k [] = (case map_of (p # ss) k of
        Some s \<Rightarrow> foldl add_request (dget rq k []) (requests s) | None \<Rightarrow> dget rq k [])"
    "dget ev2 k [] = (case map_of (p # ss) k of
        Some s \<Rightarrow> merge_events (dget ev k []) (events s) | None \<Rightarrow> dget ev k [])"
    unfolding look conjunct1 [OF conjunct2 [OF conjunct2 [OF ih]]]
      conjunct1 [OF conjunct2 [OF conjunct2 [OF conjunct2 [OF ih]]]] get
    using none by (auto split: option.splits)
  ultimately show ?case using ih unfolding go prod.case by blast
qed (simp split: option.splits)

lemma shell_of_key: "shell_of ses k = Some s \<Longrightarrow> lane_key s = k"
  by (auto simp: shell_of_def find_Some_iff)

subsection \<open>Assembled lanes\<close>

lemma mk_lane_sorts:
  assumes "mk_lane l0 = Inr l"
  shows "mset (requests l) = mset (requests l0)" "mset (events l) = mset (events l0)"
    "sorted (map request_sort_key (requests l))" "sorted (map event_sort_key (events l))"
    "lane_key l = lane_key l0" "lane_session_key l = lane_session_key l0"
  using assms by (auto simp: mk_lane_def validated_eq)

lemma filter_dget_group: "dget (group_by_key f xs) k [] = filter (\<lambda>x. f x = k) xs"
  by (auto simp: dget_def map_of_group_by_key empty_filter_conv)

lemma group_lanes_parts:
  obtains rq ev where
    "foldl add_shell (by_lane_of rs, group_by_key ev_lane_key evs) (shells_of ses) = (rq, ev)"
    "\<And>k. map snd (dget rq k []) = map snd (foldl add_request [] (lane_pool rs ses k))"
    "\<And>k. mset (dget ev k []) = lane_event_pool evs ses k"
    "fst ` set rq \<union> fst ` set ev \<union> fst ` set (shells_of ses) =
       req_lane_key ` set rs \<union> ev_lane_key ` set evs \<union> lane_key ` set (shell_lanes ses)"
proof -
  let ?s0 = "foldl add_shell (by_lane_of rs, group_by_key ev_lane_key evs) (shells_of ses)"
  obtain rq ev where s: "?s0 = (rq, ev)" by force
  have d: "distinct (map fst (by_lane_of rs))" "distinct (map fst (group_by_key ev_lane_key evs))"
    using keys_by_lane [of "[]" rs] by (simp_all add: by_lane_of_def distinct_group_by_key)
  note f = fold_shells [OF shells_of_facts(1) [of ses] d, unfolded s prod.case]
  have "map snd (dget rq k []) = map snd (foldl add_request [] (lane_pool rs ses k))" for k
    using f [of k] dget_by_lane [of rs "[]" k]
    by (simp add: shells_of_facts(2) lane_pool_def by_lane_of_def dget_def [of "[]"] split: option.splits)
  moreover have "mset (dget ev k []) = lane_event_pool evs ses k" for k
    using f [of k] by (simp add: shells_of_facts(2) lane_event_pool_def filter_dget_group mset_merge_events
        split: option.splits)
  moreover have shells: "fst ` set (shells_of ses) = lane_key ` set (shell_lanes ses)"
  proof -
    have "k \<in> fst ` set (shells_of ses) \<longleftrightarrow> k \<in> lane_key ` set (shell_lanes ses)" for k
    proof -
      have "k \<in> fst ` set (shells_of ses) \<longleftrightarrow> map_of (shells_of ses) k \<noteq> None"
        by (simp only: map_of_eq_None_iff not_not)
      also have "\<dots> \<longleftrightarrow> k \<in> lane_key ` set (shell_lanes ses)"
        unfolding shells_of_facts(2) shell_of_def by (auto simp: find_None_iff)
      finally show ?thesis .
    qed
    then show ?thesis by blast
  qed
  moreover have "fst ` set rq \<union> fst ` set ev \<union> fst ` set (shells_of ses) =
      req_lane_key ` set rs \<union> ev_lane_key ` set evs \<union> fst ` set (shells_of ses)"
  proof -
    have rk: "fst ` set (by_lane_of rs) = req_lane_key ` set rs"
      using keys_by_lane [of "[]" rs] by (simp add: by_lane_of_def)
    have gr: "fst ` set (group_by_key ev_lane_key evs) = ev_lane_key ` set evs"
      using map_of_group_by_key [of ev_lane_key evs] by (auto simp: dom_map_of_conv_image_fst [symmetric] dom_def)
    have *: "A \<union> E' \<union> S = R \<union> E \<union> S" if "A = R \<union> S" "E \<subseteq> E'" "E' \<subseteq> E \<union> S" for A E E' R S :: "string set"
      using that by blast
    show ?thesis by (rule *) (use f in \<open>simp_all only: rk gr\<close>)
  qed
  ultimately show ?thesis using that [OF s] by (simp only: shells)
qed

lemma rmap_keys:
  assumes "rmap f xs = Inr ys" "\<And>x y. f x = Inr y \<Longrightarrow> g y = x"
  shows "map g ys = xs"
  using assms(1) by (induction xs arbitrary: ys) (auto simp: rbind_eq_Inr assms(2))

lemma rmap_mem:
  assumes "rmap f xs = Inr ys" "y \<in> set ys"
  shows "\<exists>x \<in> set xs. f x = Inr y"
  using assms by (induction xs arbitrary: ys) (auto simp: rbind_eq_Inr)

lemma lane_for_assembled:
  assumes "lane_for rq ev shells k = Inr l" "map snd (dget rq k []) = map snd (foldl add_request [] (lane_pool rs ses k))"
    "mset (dget ev k []) = lane_event_pool evs ses k"
  shows "lane_key l = k \<and> assembled rs evs ses l"
proof -
  let ?b = "foldl add_request [] (lane_pool rs ses k)"
  obtain l0 where l0: "mk_lane l0 = Inr l" "lane_key l0 = k" "requests l0 = map snd ?b" "events l0 = dget ev k []"
    using assms(1,2) by (auto simp: lane_for_def Let_def)
  note b = bucket_requests [of "[]" "lane_pool rs ses k", simplified]
  have ids: "map request_id (map snd ?b) = map fst ?b"
    using b by (auto simp: list_all_iff)
  have "mset (map request_id (requests l)) = mset (map fst ?b)"
    unfolding ids [symmetric] mset_map mk_lane_sorts(1) [OF l0(1)] l0(3) ..
  then have "distinct (map request_id (requests l))" "request_id ` set (requests l) = fst ` set ?b"
    using b mset_eq_imp_distinct_iff mset_eq_setD by (metis, metis list.set_map)
  moreover have "set (requests l) = snd ` set ?b"
    using mset_eq_setD [OF mk_lane_sorts(1) [OF l0(1)]] by (simp add: l0(3))
  ultimately show ?thesis
    using b mk_lane_sorts [OF l0(1)] by (simp add: assembled_def l0 assms(3))
qed

lemma find_distinct: "distinct (map f xs) \<Longrightarrow> x \<in> set xs \<Longrightarrow> List.find (\<lambda>y. f y = f x) xs = Some x"
  by (induction xs) (auto simp: image_iff)

lemma shell_of_distinct:
  "distinct (map lane_key (shell_lanes ses)) \<Longrightarrow> s \<in> set (shell_lanes ses) \<Longrightarrow> shell_of ses (lane_key s) = Some s"
  unfolding shell_of_def using find_distinct [of lane_key "shell_lanes ses" s] .

text \<open>With one shell per key the pools of the keys cover the input.\<close>

lemma pools_cover:
  assumes "distinct (map lane_key (shell_lanes ses))"
    and "req_lane_key ` set rs \<union> ev_lane_key ` set evs \<union> lane_key ` set (shell_lanes ses) = K"
  shows "(\<Union>k\<in>K. set (lane_pool rs ses k)) = set rs \<union> (\<Union>s\<in>set (shell_lanes ses). set (requests s))"
    "(\<Union>k\<in>K. set_mset (lane_event_pool evs ses k)) = set evs \<union> (\<Union>s\<in>set (shell_lanes ses). set (events s))"
proof -
  note own = shell_of_distinct [OF assms(1)]
  have in_ses: "s \<in> set (shell_lanes ses)" if "shell_of ses k = Some s" for s k
    using that unfolding shell_of_def find_Some_iff by (metis nth_mem)
  show "(\<Union>k\<in>K. set (lane_pool rs ses k)) = set rs \<union> (\<Union>s\<in>set (shell_lanes ses). set (requests s))" (is "?l = ?r")
  proof
    have "set (lane_pool rs ses k) \<subseteq> ?r" for k
      using in_ses [of k] by (cases "shell_of ses k") (auto simp: lane_pool_def)
    then show "?l \<subseteq> ?r" by (intro UN_least)
    show "?r \<subseteq> ?l"
    proof
      fix x assume "x \<in> ?r"
      then consider "x \<in> set rs" | s where "s \<in> set (shell_lanes ses)" "x \<in> set (requests s)" by blast
      then show "x \<in> ?l"
      proof cases
        case 1
        then have "req_lane_key x \<in> K" "x \<in> set (lane_pool rs ses (req_lane_key x))"
          using assms(2) by (auto simp: lane_pool_def)
        then show ?thesis by (rule UN_I)
      next
        case 2
        then have "lane_key s \<in> K" "x \<in> set (lane_pool rs ses (lane_key s))"
          using own [OF 2(1)] assms(2) by (auto simp: lane_pool_def)
        then show ?thesis by (rule UN_I)
      qed
    qed
  qed
  show "(\<Union>k\<in>K. set_mset (lane_event_pool evs ses k)) = set evs \<union> (\<Union>s\<in>set (shell_lanes ses). set (events s))" (is "?l = ?r")
  proof
    have "set_mset (lane_event_pool evs ses k) \<subseteq> ?r" for k
      using in_ses [of k] by (cases "shell_of ses k") (auto simp: lane_event_pool_def)
    then show "?l \<subseteq> ?r" by (intro UN_least)
    show "?r \<subseteq> ?l"
    proof
      fix x assume "x \<in> ?r"
      then consider "x \<in> set evs" | s where "s \<in> set (shell_lanes ses)" "x \<in> set (events s)" by blast
      then show "x \<in> ?l"
      proof cases
        case 1
        then have "ev_lane_key x \<in> K" "x \<in># lane_event_pool evs ses (ev_lane_key x)"
          using assms(2) by (auto simp: lane_event_pool_def)
        then show ?thesis by (rule UN_I)
      next
        case 2
        then have "lane_key s \<in> K" "x \<in># lane_event_pool evs ses (lane_key s)"
          using own [OF 2(1)] assms(2) by (auto simp: lane_event_pool_def)
        then show ?thesis by (rule UN_I)
      qed
    qed
  qed
qed

lemma lanes_of_groups:
  assumes "group_lanes rs evs ses = Inr ls"
  shows "distinct (map lane_key ls) \<and> sorted (map (\<lambda>l. (lane_session_key l, lane_key l)) ls) \<and>
     set (map lane_key ls) =
       req_lane_key ` set rs \<union> ev_lane_key ` set evs \<union> lane_key ` set (shell_lanes ses) \<and>
     list_all (assembled rs evs ses) ls"
proof -
  obtain rq ev where p:
    "foldl add_shell (by_lane_of rs, group_by_key ev_lane_key evs) (shells_of ses) = (rq, ev)"
    "\<And>k. map snd (dget rq k []) = map snd (foldl add_request [] (lane_pool rs ses k))"
    "\<And>k. mset (dget ev k []) = lane_event_pool evs ses k"
    "fst ` set rq \<union> fst ` set ev \<union> fst ` set (shells_of ses) =
       req_lane_key ` set rs \<union> ev_lane_key ` set evs \<union> lane_key ` set (shell_lanes ses)"
    by (rule group_lanes_parts [of rs evs ses], rule that; simp)
  let ?ks = "remdups (map fst rq @ map fst ev @ map fst (shells_of ses))"
  obtain us where us: "rmap (lane_for rq ev (shells_of ses)) ?ks = Inr us"
    "ls = sort_key (\<lambda>l. (lane_session_key l, lane_key l)) us"
    using assms p(1) by (auto simp: group_lanes_def rbind_eq_Inr Let_def)
  have keys: "map lane_key us = ?ks"
    by (rule rmap_keys [OF us(1)]) (use lane_for_assembled p(2,3) in blast)
  have "distinct (map lane_key ls)"
    by (rule mset_eq_imp_distinct_iff [THEN iffD2, of _ "map lane_key us"]) (simp_all add: us(2), simp add: keys)
  moreover have "set (map lane_key ls) = set ?ks" by (simp add: us(2) keys [symmetric])
  moreover have "list_all (assembled rs evs ses) ls"
    using rmap_mem [OF us(1)] lane_for_assembled p(2,3) by (fastforce simp: list_all_iff us(2))
  ultimately show ?thesis using p(4) by (simp add: us(2) Un_assoc)
qed

text \<open>C35: Assembling lanes groups by key without loss within a key. There is one lane per key that a request, an event
  or a shell names, lanes are ordered by session and key; a lane holds every request id of the loose requests with
  its key and of the first shell with its key exactly once, and as events the loose ones and those of that shell, each
  as often as it occurs in either, both in canonical order. When no two shells share a key, the lanes together hold
  exactly the request ids and the events of the input. Without that condition the requests and events that only
  a later shell of a key carries are in no lane, although the docstring says that they are merged.\<close>

theorem group_lanes_conserves:
  assumes "group_lanes rs evs ses = Inr ls"
  shows "distinct (map lane_key ls) \<and> sorted (map (\<lambda>l. (lane_session_key l, lane_key l)) ls) \<and>
     set (map lane_key ls) =
       req_lane_key ` set rs \<union> ev_lane_key ` set evs \<union> lane_key ` set (shell_lanes ses) \<and>
     list_all (assembled rs evs ses) ls \<and>
     (distinct (map lane_key (shell_lanes ses)) \<longrightarrow>
        request_id ` (\<Union>l\<in>set ls. set (requests l)) =
          request_id ` (set rs \<union> (\<Union>s\<in>set (shell_lanes ses). set (requests s))) \<and>
        (\<Union>l\<in>set ls. set (events l)) = set evs \<union> (\<Union>s\<in>set (shell_lanes ses). set (events s)))"
proof -
  note g = lanes_of_groups [OF assms]
  define K where "K = set (map lane_key ls)"
  have keys: "req_lane_key ` set rs \<union> ev_lane_key ` set evs \<union> lane_key ` set (shell_lanes ses) = K"
    using g by (simp only: K_def)
  have l: "request_id ` set (requests l) = request_id ` set (lane_pool rs ses (lane_key l))"
    "set (events l) = set_mset (lane_event_pool evs ses (lane_key l))" if "l \<in> set ls" for l
    using g that by (auto simp: list_all_iff assembled_def simp flip: set_mset_mset)
  have "request_id ` (\<Union>l\<in>set ls. set (requests l)) = request_id ` (\<Union>k\<in>K. set (lane_pool rs ses k))"
    "(\<Union>l\<in>set ls. set (events l)) = (\<Union>k\<in>K. set_mset (lane_event_pool evs ses k))"
    using l by (simp_all add: image_UN K_def)
  then show ?thesis using g pools_cover [OF _ keys] by (intro conjI impI) simp_all
qed

text \<open>A lane in the shells of two sessions: the requests of the second shell are dropped.\<close>

lemma second_shell_dropped:
  "(case group_lanes [] [] [wit_l_session, wit_l_session\<lparr>session_key := ''t'',
      lanes := [wit_l_shell\<lparr>lane_session_key := ''t'', requests := [wit_l_request ''z'' 2 0 9000]\<rparr>]\<rparr>] of
     Inl _ \<Rightarrow> [] | Inr ls \<Rightarrow> map (\<lambda>l. (lane_key l, map request_id (requests l))) ls) = [(''l'', [''a''])]"
  by code_simp

lemma wit_l_groups:
  "group_lanes [wit_l_request ''b'' 400000 0 9000, wit_l_request ''a'' 1 0 9000] [wit_l_event] [wit_l_session] = Inr [wit_l_lane]"
  by code_simp

lemma wit_l_shells:
  "shell_lanes [wit_l_session] = [wit_l_shell]" "request_id ` set (requests wit_l_shell) = {''a''}"
  "request_id (wit_l_request r t u v) = r"
  by (simp_all add: shell_lanes_def wit_l_session_def wit_l_shell_def wit_l_request_def)

theorem group_lanes_conserves_witness:
  "distinct (map lane_key [wit_l_lane]) \<and> list_all (assembled [wit_l_request ''b'' 400000 0 9000, wit_l_request ''a'' 1 0 9000]
     [wit_l_event] [wit_l_session]) [wit_l_lane] \<and>
   request_id ` (\<Union>l\<in>set [wit_l_lane]. set (requests l)) = {''a'', ''b''}"
  using group_lanes_conserves [OF wit_l_groups] wit_l_shells by (simp add: insert_commute)

end
