(* ===== verification/Transitions.thy ===== *)
theory Transitions
  imports Cache_Rules Lanes Rate_Card
begin

text \<open>
  The shared miss definition, \<open>core/transitions.py\<close>: what a transition between two requests of a lane is, when it
  is a cache miss event and what caused it. \<open>classify_transitions\<close> is the single pass of the code with its two
  memo tables, its binary searches in the event list and the running time to live; \<open>transition_ref\<close> is the
  documented definition, one transition at a time. The lemmas show that both agree over a rate card, that the
  cause follows the documented precedence, and where the static prefix floor lies.
\<close>

section \<open>Definitions\<close>

subsection \<open>Constants\<close>

definition MISS_MIN_TOKENS :: int where "MISS_MIN_TOKENS = 2000"
definition MISS_FRACTION :: rat where "MISS_FRACTION = 1 / 20"
definition AMBIGUITY_MS :: int where "AMBIGUITY_MS = 10000"
definition HIT :: string where "HIT = ''hit''"

definition CAUSES :: "string list" where
  "CAUSES = [''compaction'', ''model-switch'', ''ttl-expiry'', ''param-change'', ''tools-changed'', ''system-changed'',
     ''messages-changed'', ''context-shrank'', ''unexplained'']"

definition MODEL_SWITCH_SUB_CAUSES :: "string list" where
  "MODEL_SWITCH_SUB_CAUSES =
     [''refusal-fallback'', ''availability-fallback'', ''plan-toggle'', ''ping-pong'', ''user'', ''diag'']"

definition PARAM_CHANGE_SUB_CAUSES :: "string list" where
  "PARAM_CHANGE_SUB_CAUSES =
     [''fast-toggle'', ''effort-change'', ''context-tier-change'', ''client-upgrade'', ''directory-change'', ''diag'']"

definition DIAG_CAUSES :: "(string \<times> string \<times> string option) list" where
  "DIAG_CAUSES =
    [(''tools_changed'', ''tools-changed'', None), (''system_changed'', ''system-changed'', None),
     (''messages_changed'', ''messages-changed'', None), (''param_changed'', ''param-change'', Some ''diag''),
     (''key_changed'', ''unexplained'', Some ''cache-key''), (''compacted'', ''compaction'', None),
     (''model_changed'', ''model-switch'', Some ''diag'')]"

definition RESET_EVENTS :: "lane_event_kind list" where
  "RESET_EVENTS = [EvCompaction, EvClear, EvContextEdit]"

definition FALLBACK_KINDS :: "inference_kind list" where
  "FALLBACK_KINDS = [IkFallback, IkFallbackDeclined]"

definition OVERLOADED :: "string list" where
  "OVERLOADED = [''overloaded'', ''overloaded_error'']"

definition DAY_MS :: int where "DAY_MS = 86400000"

subsection \<open>The miss rule and its parts\<close>

definition is_miss_event :: "int \<Rightarrow> int \<Rightarrow> bool" where
  "is_miss_event missed expected =
     (case quotient_of MISS_FRACTION of (num, den) \<Rightarrow> MISS_MIN_TOKENS \<le> missed \<and> num * expected < missed * den)"

definition write_ttl :: "inference \<Rightarrow> int option" where
  "write_ttl i = shortest (write_ttls i)"

definition family :: "string \<Rightarrow> string option" where
  "family m = (if contains m ''opus'' then Some ''opus'' else if contains m ''sonnet'' then Some ''sonnet'' else None)"

definition switch_step :: "nat \<times> string option \<Rightarrow> string \<Rightarrow> nat \<times> string option" where
  "switch_step acc m = (case acc of (switches, prev) \<Rightarrow>
     (case family m of None \<Rightarrow> acc
      | Some f \<Rightarrow> (if prev \<noteq> None \<and> Some f \<noteq> prev then switches + 1 else switches, Some f)))"

definition opus_sonnet_switches :: "string list \<Rightarrow> nat" where
  "opus_sonnet_switches ms = fst (foldl switch_step (0, None) ms)"

definition differs :: "'a option \<Rightarrow> 'a option \<Rightarrow> bool" where
  "differs a b = (a \<noteq> None \<and> b \<noteq> None \<and> a \<noteq> b)"

definition event_attr :: "lane_event \<Rightarrow> string \<Rightarrow> attr" where
  "event_attr e k = (case map_of (ev_attrs e) k of Some v \<Rightarrow> v | None \<Rightarrow> ANone)"

definition request_duration_ms :: "request \<Rightarrow> int" where
  "request_duration_ms r = max 0 (Max (set (map (\<lambda>a. att_ts_start_ms a + or0 (duration_ms a)) (attempts r))) - ts_start_ms r)"

text \<open>A request with a serving inference, with the time to live of the last billed write before it.\<close>

record step =
  st_req :: request
  st_inf :: inference
  st_tau :: "int option"

definition st_model :: "step \<Rightarrow> string" where
  "st_model s = req_model (st_req s)"

definition param_change :: "step \<Rightarrow> step \<Rightarrow> string option res" where
  "param_change cur prev =
     (let c = pricing (st_inf cur); pc = pricing (st_inf prev);
          p = params (st_req cur); pp = params (st_req prev);
          a = attribution (st_req cur); pa = attribution (st_req prev)
      in if speed c \<noteq> speed pc then Inr (Some ''fast-toggle'')
         else rbind (if differs (effort p) (effort pp) \<or> differs (thinking p) (thinking pp)
                     then rbind (effort_change_keeps_cache (agent_product a)
                            (if ctx_model c \<noteq> '''' then ctx_model c else st_model cur) (ctx_channel c)
                            (client_version a) (BetaList (betas p))) (\<lambda>keeps. Inr (\<not> keeps))
                     else Inr False) (\<lambda>broken.
         Inr (if broken then Some ''effort-change''
              else if differs (context_tier c) (context_tier pc) then Some ''context-tier-change''
              else if differs (client_version a) (client_version pa) then Some ''client-upgrade''
              else if differs (cwd_key a) (cwd_key pa) then Some ''directory-change'' else None)))"

subsection \<open>Memo tables\<close>

type_synonym rules_provider = "string \<times> string \<times> string \<Rightarrow> cache_rules"
type_synonym min_cacheable_fn = "pricing_context \<Rightarrow> int \<Rightarrow> int option res"

record transition_memo =
  sem_memo :: "(string \<times> string \<times> string, bool) dict"
  min_memo :: "(pricing_context \<times> int, int) dict"

definition semantics_key :: "step \<Rightarrow> string \<times> string \<times> string" where
  "semantics_key s = (let c = pricing (st_inf s)
     in (ctx_provider c, ctx_channel c, if ctx_model c \<noteq> '''' then ctx_model c else st_model s))"

definition semantics_known :: "rules_provider \<Rightarrow> step \<Rightarrow> transition_memo \<Rightarrow> bool \<times> transition_memo" where
  "semantics_known rules s m = (case map_of (sem_memo m) (semantics_key s) of
      Some v \<Rightarrow> (v, m)
    | None \<Rightarrow> let v = ttl_semantics_known (rules (semantics_key s))
              in (v, m\<lparr>sem_memo := dset (semantics_key s) v (sem_memo m)\<rparr>))"

definition min_cacheable :: "min_cacheable_fn \<Rightarrow> step \<Rightarrow> transition_memo \<Rightarrow> (int \<times> transition_memo) res" where
  "min_cacheable mct s m =
     (let ts = ts_start_ms (st_req s); key = (pricing (st_inf s), ts div DAY_MS)
      in case map_of (min_memo m) key of
           Some v \<Rightarrow> Inr (v, m)
         | None \<Rightarrow> rbind (mct (pricing (st_inf s)) ts) (\<lambda>got.
             Inr (or0 got, m\<lparr>min_memo := dset key (or0 got) (min_memo m)\<rparr>)))"

subsection \<open>One transition\<close>

text \<open>\<open>bisect_right\<close> of the standard library between \<open>lo\<close> and \<open>hi\<close>.\<close>

function bisect_right :: "int list \<Rightarrow> int \<Rightarrow> nat \<Rightarrow> nat \<Rightarrow> nat" where
  "bisect_right xs x lo hi =
     (if lo < hi then
        let mid = (lo + hi) div 2
        in if x < xs ! mid then bisect_right xs x lo mid else bisect_right xs x (mid + 1) hi
      else lo)"
  by pat_completeness auto
termination
  by (relation "measure (\<lambda>(xs, x, lo, hi). hi - lo)") auto

declare bisect_right.simps [simp del]

definition event_window :: "lane_event list \<Rightarrow> int \<Rightarrow> int \<Rightarrow> lane_event list" where
  "event_window evs prev_ts ts =
     (let times = map ev_ts_ms evs; n = length times;
          a = bisect_right times prev_ts 0 n; b = bisect_right times ts 0 n
      in take (b - a) (drop a evs))"

definition is_reset :: "lane_event list \<Rightarrow> request \<Rightarrow> bool" where
  "is_reset window r =
     (list_ex (\<lambda>e. ev_kind e \<in> set RESET_EVENTS) window \<or>
      list_ex (\<lambda>a. applied_edits a \<noteq> [] \<or> 0 < thinking_dropped a) (attempts r))"

definition switch_sub_cause ::
    "lane \<Rightarrow> step list \<Rightarrow> nat \<Rightarrow> lane_event list \<Rightarrow> int \<Rightarrow> int option \<Rightarrow> bool \<Rightarrow> string" where
  "switch_sub_cause l steps i window gap tau_ms alternating =
     (let cur = steps ! i;
          kinds = concat (map (\<lambda>a. map inf_kind (inferences a)) (attempts (st_req cur)));
          triggers = map (\<lambda>e. event_attr e ''trigger'') (filter (\<lambda>e. ev_kind e = EvModelFallback) window)
      in if list_ex (\<lambda>k. k \<in> set FALLBACK_KINDS) kinds \<or> AStr ''refusal'' \<in> set triggers then ''refusal-fallback''
         else if AStr ''availability'' \<in> set triggers \<and>
                 list_ex (\<lambda>e. ev_kind e = EvApiError \<and>
                   (event_attr e ''status'' = AInt 529 \<or> event_attr e ''error_type'' \<in> set (map AStr OVERLOADED))) window
         then ''availability-fallback''
         else if lane_kind l = LkMain \<and> agent_product (attribution (st_req cur)) = Some ''claude_code'' \<and> alternating \<and>
                 {family (st_model cur), family (st_model (steps ! (i - 1)))} = {Some ''opus'', Some ''sonnet''} \<and>
                 list_ex (\<lambda>e. ev_kind e = EvHumanPrompt) window
         then ''plan-toggle''
         else if 2 \<le> i \<and> st_model (steps ! (i - 2)) = st_model cur \<and>
                 (case tau_ms of Some t \<Rightarrow> gap \<le> t | None \<Rightarrow> False)
         then ''ping-pong'' else ''user'')"

record transition =
  tr_request_id :: string
  tr_lane_key :: string
  tr_index :: nat
  gap_ms :: int
  tr_total :: int
  reads :: int
  prev_prefix :: int
  expected_reuse :: int
  missed :: int
  miss_event :: bool
  cause :: string
  sub_cause :: "string option"
  ttl_s :: "int option"
  ambiguous :: bool
  predicted_hit :: "bool option"
  tr_diag_reason :: "string option"

text \<open>The cause of a miss, first match.\<close>

definition miss_cause ::
    "bool \<Rightarrow> string option \<Rightarrow> bool \<Rightarrow> string option \<Rightarrow> string option \<Rightarrow> bool \<Rightarrow> string \<times> string option" where
  "miss_cause reset switch expired param_sub diag shrank =
     (if reset then (''compaction'', None)
      else case switch of Some sc \<Rightarrow> (''model-switch'', Some sc) | None \<Rightarrow>
      if expired then (''ttl-expiry'', None)
      else if param_sub \<noteq> None then (''param-change'', param_sub)
      else case Option.bind diag (map_of DIAG_CAUSES) of Some c \<Rightarrow> c | None \<Rightarrow>
      if shrank then (''context-shrank'', None) else (''unexplained'', None))"

definition tau_ms_of :: "step \<Rightarrow> int option" where
  "tau_ms_of s = map_option (\<lambda>t. t * 1000) (st_tau s)"

definition step_gap :: "step list \<Rightarrow> nat \<Rightarrow> int" where
  "step_gap steps i = ts_start_ms (st_req (steps ! i)) - ts_start_ms (st_req (steps ! (i - 1)))"

definition step_total :: "step \<Rightarrow> int" where
  "step_total s = cache_read (usage (st_inf s)) + cache_write (usage (st_inf s)) + uncached_input (usage (st_inf s))"

definition step_prefix :: "step \<Rightarrow> int" where
  "step_prefix s = cache_read (usage (st_inf s)) + cache_write (usage (st_inf s))"

definition step_expected :: "step list \<Rightarrow> nat \<Rightarrow> int" where
  "step_expected steps i = min (step_prefix (steps ! (i - 1))) (step_total (steps ! i))"

text \<open>The record of one transition, given the events of its window, whether the cache rules know the semantics of
  the time to live, and the parameter change; \<open>None\<close> for the threshold means the prediction fails before it.\<close>

definition transition_of ::
    "lane \<Rightarrow> step list \<Rightarrow> bool \<Rightarrow> nat \<Rightarrow> lane_event list \<Rightarrow> bool \<Rightarrow> string option \<Rightarrow> int option \<Rightarrow> transition" where
  "transition_of l steps alternating i window sure param_sub threshold =
     (let cur = steps ! i; prev = steps ! (i - 1); gap = step_gap steps i; tau_ms = tau_ms_of cur;
          rd = cache_read (usage (st_inf cur)); expected = step_expected steps i;
          miss = max 0 (expected - rd); event = is_miss_event miss expected;
          slack = AMBIGUITY_MS + (if sure then 0 else request_duration_ms (st_req prev));
          amb = (case tau_ms of None \<Rightarrow> False | Some t \<Rightarrow> \<bar>gap - t\<bar> \<le> slack);
          expired = (case tau_ms of None \<Rightarrow> False | Some t \<Rightarrow> (if sure then t else t + slack) < gap);
          diag = map_option Records.diag_reason (diagnostics (final_attempt (st_req cur)));
          reset = is_reset window (st_req cur);
          switch = (if st_model cur \<noteq> st_model prev
                    then Some (switch_sub_cause l steps i window gap tau_ms alternating) else None);
          (c, sc) = (if event then miss_cause reset switch expired param_sub diag
                         (10 * step_total cur < 9 * (step_prefix prev + uncached_input (usage (st_inf prev))))
                     else (HIT, None))
      in \<lparr>tr_request_id = request_id (st_req cur), tr_lane_key = lane_key l, tr_index = i, gap_ms = gap,
          tr_total = step_total cur, reads = rd, prev_prefix = step_prefix prev, expected_reuse = expected,
          missed = miss, miss_event = event, cause = c, sub_cause = sc, ttl_s = st_tau cur, ambiguous = amb,
          predicted_hit = (if tau_ms = None then None
                           else Some (case threshold of Some t \<Rightarrow> t \<le> expected | None \<Rightarrow> False)),
          tr_diag_reason = diag\<rparr>)"

text \<open>The part of the prediction before the price card is asked.\<close>

definition may_hit :: "step list \<Rightarrow> nat \<Rightarrow> lane_event list \<Rightarrow> string option \<Rightarrow> bool" where
  "may_hit steps i window param_sub =
     (st_model (steps ! i) = st_model (steps ! (i - 1)) \<and> \<not> is_reset window (st_req (steps ! i)) \<and> param_sub = None \<and>
      (case tau_ms_of (steps ! i) of Some t \<Rightarrow> step_gap steps i \<le> t | None \<Rightarrow> False))"

definition transition_at ::
    "lane \<Rightarrow> rules_provider \<Rightarrow> min_cacheable_fn \<Rightarrow> step list \<Rightarrow> bool \<Rightarrow> nat \<Rightarrow> transition_memo \<Rightarrow>
     (transition \<times> transition_memo) res" where
  "transition_at l rules mct steps alternating i m =
     (let cur = steps ! i; prev = steps ! (i - 1);
          window = event_window (events l) (ts_start_ms (st_req prev)) (ts_start_ms (st_req cur))
      in case (if st_tau cur = None then (True, m) else semantics_known rules cur m) of (sure, m1) \<Rightarrow>
         rbind (param_change cur prev) (\<lambda>param_sub.
         rbind (if may_hit steps i window param_sub
                then rbind (min_cacheable mct cur m1) (\<lambda>(v, m2). Inr (Some v, m2)) else Inr (None, m1)) (\<lambda>(threshold, m2).
         Inr (transition_of l steps alternating i window sure param_sub threshold, m2))))"

subsection \<open>A lane\<close>

definition scan_request :: "step list \<times> int option \<Rightarrow> request \<Rightarrow> step list \<times> int option" where
  "scan_request acc r = (case acc of (steps, last_ttl) \<Rightarrow>
     (case serving_inference r of
        None \<Rightarrow> steps
      | Some i \<Rightarrow> steps @ [\<lparr>st_req = r, st_inf = i,
          st_tau = (case last_ttl of Some t \<Rightarrow> Some t | None \<Rightarrow> hint_ttl (write_ttl_hint (pricing i)))\<rparr>],
      foldl (\<lambda>t i. if 0 < cache_write (usage i) then write_ttl i else t) last_ttl (billable_inferences r)))"

definition steps_of :: "lane \<Rightarrow> step list" where
  "steps_of l = fst (foldl scan_request ([], None) (requests l))"

definition classify_step ::
    "lane \<Rightarrow> rules_provider \<Rightarrow> min_cacheable_fn \<Rightarrow> step list \<Rightarrow> bool \<Rightarrow> transition list \<times> transition_memo \<Rightarrow> nat \<Rightarrow>
     (transition list \<times> transition_memo) res" where
  "classify_step l rules mct steps alternating acc i = (case acc of (out, m) \<Rightarrow>
     rbind (transition_at l rules mct steps alternating i m) (\<lambda>(t, m'). Inr (out @ [t], m')))"

definition classify_transitions ::
    "lane \<Rightarrow> rules_provider option \<Rightarrow> min_cacheable_fn \<Rightarrow> transition list res" where
  "classify_transitions l rules mct =
     (let steps = steps_of l;
          provider = (case rules of Some f \<Rightarrow> f | None \<Rightarrow> build_rules)
      in if length steps < 2 then Inr []
         else rbind (rfold (classify_step l provider mct steps (2 \<le> opus_sonnet_switches (map st_model steps)))
                ([], \<lparr>sem_memo = [], min_memo = []\<rparr>) [1..<length steps]) (\<lambda>(out, _). Inr out))"

subsection \<open>The static prefix\<close>

definition first_read_of :: "lane \<Rightarrow> (string \<times> string \<times> int) option" where
  "first_read_of l = map_option (\<lambda>r. (cache_scope_key l, req_model r,
       case serving_inference r of Some i \<Rightarrow> cache_read (usage i) | None \<Rightarrow> 0))
     (List.find (\<lambda>r. serving_inference r \<noteq> None) (requests l))"

definition lane_first_reads_of :: "lane list \<Rightarrow> (string \<times> string \<times> int) list" where
  "lane_first_reads_of ls = List.map_filter first_read_of ls"

definition median_floor :: "int list \<Rightarrow> int" where
  "median_floor values =
     (let vs = sort values; mid = length vs div 2
      in if odd (length vs) then vs ! mid else (vs ! (mid - 1) + vs ! mid) div 2)"

definition static_prefix_floor :: "(string \<times> string \<times> int) list \<Rightarrow> nat \<Rightarrow> ((string \<times> string) \<times> int) list" where
  "static_prefix_floor first_reads min_lanes =
     map (\<lambda>(k, vs). (k, median_floor vs))
       (filter (\<lambda>(k, vs). min_lanes \<le> length vs)
         (sort_key fst (map (\<lambda>(k, ts). (k, map (\<lambda>(_, _, rd). rd) ts))
           (group_by_key (\<lambda>(sc, m, _). (sc, m)) (filter (\<lambda>(_, _, rd). 0 < rd) first_reads)))))"

subsection \<open>The documented definition\<close>

definition served :: "lane \<Rightarrow> nat list" where
  "served l = filter (\<lambda>j. serving_inference (requests l ! j) \<noteq> None) [0..<length (requests l)]"

definition step_ref :: "lane \<Rightarrow> nat \<Rightarrow> step" where
  "step_ref l j = (let r = requests l ! j; i = the (serving_inference r)
     in \<lparr>st_req = r, st_inf = i,
         st_tau = (case ttl_of_last_write l j of Some t \<Rightarrow> Some t | None \<Rightarrow> hint_ttl (write_ttl_hint (pricing i)))\<rparr>)"

definition transition_ref :: "lane \<Rightarrow> rules_provider \<Rightarrow> min_cacheable_fn \<Rightarrow> nat \<Rightarrow> transition res" where
  "transition_ref l rules mct i =
     (let steps = map (step_ref l) (served l); cur = steps ! i; prev = steps ! (i - 1);
          window = filter (\<lambda>e. ts_start_ms (st_req prev) < ev_ts_ms e \<and> ev_ts_ms e \<le> ts_start_ms (st_req cur)) (events l)
      in rbind (param_change cur prev) (\<lambda>param_sub.
         rbind (if may_hit steps i window param_sub
                then rbind (mct (pricing (st_inf cur)) (ts_start_ms (st_req cur))) (\<lambda>got. Inr (Some (or0 got)))
                else Inr None) (\<lambda>threshold.
         Inr (transition_of l steps (2 \<le> opus_sonnet_switches (map st_model steps)) i window
                (ttl_semantics_known (rules (semantics_key cur))) param_sub threshold))))"

definition writes_ok :: "lane \<Rightarrow> bool" where
  "writes_ok l = list_all (\<lambda>r. list_all (\<lambda>i. valid_usage (usage i)) (billable_inferences r)) (requests l)"

definition step_in :: "request list \<Rightarrow> nat \<Rightarrow> step" where
  "step_in rs j = (let r = rs ! j; i = the (serving_inference r) in \<lparr>st_req = r, st_inf = i,
     st_tau = (case ttl_backwards (rev (take j rs)) of Some t \<Rightarrow> Some t | None \<Rightarrow> hint_ttl (write_ttl_hint (pricing i)))\<rparr>)"

definition served_in :: "request list \<Rightarrow> nat list" where
  "served_in rs = filter (\<lambda>j. serving_inference (rs ! j) \<noteq> None) [0..<length rs]"

text \<open>The price card is asked once per pricing context and UTC day.\<close>

definition by_day :: "min_cacheable_fn \<Rightarrow> bool" where
  "by_day mct = (\<forall>c ts. mct c ts = mct c (ts div DAY_MS * DAY_MS))"

definition cause_explained :: "transition \<Rightarrow> bool" where
  "cause_explained t =
     ((cause t = HIT) = (\<not> miss_event t) \<and> cause t \<in> set (HIT # CAUSES) \<and>
      miss_event t = (2000 \<le> missed t \<and> expected_reuse t < 20 * missed t) \<and>
      missed t = max 0 (expected_reuse t - reads t) \<and> expected_reuse t = min (prev_prefix t) (tr_total t) \<and>
      (predicted_hit t = None) = (ttl_s t = None) \<and>
      (cause t = ''ttl-expiry'' \<longrightarrow> (case ttl_s t of Some s \<Rightarrow> s * 1000 < gap_ms t | None \<Rightarrow> False)) \<and>
      (predicted_hit t = Some True \<and> miss_event t \<longrightarrow>
         (case ttl_s t of Some s \<Rightarrow> gap_ms t \<le> s * 1000 | None \<Rightarrow> False) \<and>
         (Option.bind (tr_diag_reason t) (map_of DIAG_CAUSES) = Some (cause t, sub_cause t) \<or>
          Option.bind (tr_diag_reason t) (map_of DIAG_CAUSES) = None \<and> cause t \<in> {''context-shrank'', ''unexplained''})))"

text \<open>The positive first reads of one scope and model.\<close>

definition first_reads_for :: "(string \<times> string \<times> int) list \<Rightarrow> string \<times> string \<Rightarrow> int list" where
  "first_reads_for first_reads k = map (\<lambda>(_, _, rd). rd) (filter (\<lambda>(sc, m, rd). (sc, m) = k \<and> 0 < rd) first_reads)"

definition wit_t_lane :: lane where
  "wit_t_lane = wit_l_shell\<lparr>requests := [wit_l_request ''a'' 1 0 9000, wit_l_request ''b'' 400000 0 9000,
     wit_l_request ''c'' 500000 9000 0]\<rparr>"

definition wit_t_card :: rate_card where
  "wit_t_card = \<lparr>card_layers = [], contract = None, card_basis = LIST, ranked = [], rows_by_id = [],
     card_modifiers = [], scope_mods = [], card_overrides = []\<rparr>"

definition wit_transitions :: "transition list" where
  "wit_transitions = (case classify_transitions wit_t_lane None (min_cacheable_of wit_t_card) of Inr ts \<Rightarrow> ts | Inl _ \<Rightarrow> [])"

section \<open>Lemmas\<close>

subsection \<open>The binary search\<close>

lemma bisect_right_splits:
  assumes "sorted xs" "lo \<le> hi" "hi \<le> length xs" "\<And>j. j < lo \<Longrightarrow> xs ! j \<le> x"
    "\<And>j. hi \<le> j \<Longrightarrow> j < length xs \<Longrightarrow> x < xs ! j"
  shows "bisect_right xs x lo hi \<le> length xs \<and> (\<forall>j < bisect_right xs x lo hi. xs ! j \<le> x) \<and>
    (\<forall>j. bisect_right xs x lo hi \<le> j \<longrightarrow> j < length xs \<longrightarrow> x < xs ! j)"
  using assms
proof (induction xs x lo hi rule: bisect_right.induct)
  case (1 xs x lo hi)
  show ?case
  proof (cases "lo < hi")
    case True
    define mid where "mid = (lo + hi) div 2"
    have mid: "lo \<le> mid" "mid < hi" using True by (auto simp: mid_def)
    show ?thesis
    proof (cases "x < xs ! mid")
      case less: True
      have "x < xs ! j" if "mid \<le> j" "j < length xs" for j
        using less sorted_nth_mono [OF \<open>sorted xs\<close> that] by linarith
      with "1.IH"(1) [OF True mid_def less] show ?thesis
        using "1.prems" mid True less by (subst (1 2 3) bisect_right.simps) (simp add: mid_def [symmetric] Let_def)
    next
      case geq: False
      have "xs ! j \<le> x" if "j < mid + 1" for j
      proof -
        have "xs ! j \<le> xs ! mid" using that mid "1.prems" by (intro sorted_nth_mono) auto
        then show ?thesis using geq by linarith
      qed
      with "1.IH"(2) [OF True mid_def geq] show ?thesis
        using "1.prems" mid True geq by (subst (1 2 3) bisect_right.simps) (simp add: mid_def [symmetric] Let_def)
    qed
  next
    case False
    then have "bisect_right xs x lo hi = lo" by (subst bisect_right.simps) simp
    then show ?thesis using False "1.prems" by simp
  qed
qed

lemma event_window_filter:
  assumes "sorted (map ev_ts_ms evs)" "prev_ts \<le> ts"
  shows "event_window evs prev_ts ts = filter (\<lambda>e. prev_ts < ev_ts_ms e \<and> ev_ts_ms e \<le> ts) evs"
proof -
  let ?xs = "map ev_ts_ms evs"
  define a b where "a = bisect_right ?xs prev_ts 0 (length ?xs)" and "b = bisect_right ?xs ts 0 (length ?xs)"
  have A: "a \<le> length ?xs \<and> (\<forall>j < a. ?xs ! j \<le> prev_ts) \<and> (\<forall>j. a \<le> j \<longrightarrow> j < length ?xs \<longrightarrow> prev_ts < ?xs ! j)"
    unfolding a_def by (rule bisect_right_splits) (use assms in simp_all)
  have B: "b \<le> length ?xs \<and> (\<forall>j < b. ?xs ! j \<le> ts) \<and> (\<forall>j. b \<le> j \<longrightarrow> j < length ?xs \<longrightarrow> ts < ?xs ! j)"
    unfolding b_def by (rule bisect_right_splits) (use assms in simp_all)
  have "a \<le> b"
  proof (rule ccontr)
    assume "\<not> a \<le> b"
    then have "?xs ! b \<le> prev_ts" "ts < ?xs ! b" using A B by (auto dest: spec [of _ b])
    then show False using assms(2) by linarith
  qed
  then have split: "evs = take a evs @ take (b - a) (drop a evs) @ drop b evs"
    by (metis append_take_drop_id drop_drop le_add_diff_inverse2)
  have low: "filter (\<lambda>e. prev_ts < ev_ts_ms e \<and> ev_ts_ms e \<le> ts) (take a evs) = []"
    using A by (fastforce simp: filter_empty_conv in_set_conv_nth)
  have mid: "filter (\<lambda>e. prev_ts < ev_ts_ms e \<and> ev_ts_ms e \<le> ts) (take (b - a) (drop a evs)) = take (b - a) (drop a evs)"
  proof (rule filter_True, rule ballI)
    fix e assume "e \<in> set (take (b - a) (drop a evs))"
    then obtain j where "j < b - a" "a + j < length evs" "e = evs ! (a + j)"
      by (auto simp: in_set_conv_nth)
    with A B show "prev_ts < ev_ts_ms e \<and> ev_ts_ms e \<le> ts"
      by (metis le_add1 length_map less_diff_conv2 nat_le_linear add.commute less_diff_conv nth_map)
  qed
  have high: "filter (\<lambda>e. prev_ts < ev_ts_ms e \<and> ev_ts_ms e \<le> ts) (drop b evs) = []"
  proof (unfold filter_empty_conv, rule ballI)
    fix e assume "e \<in> set (drop b evs)"
    then obtain j where "j < length evs - b" "e = evs ! (b + j)" by (auto simp: in_set_conv_nth)
    then have "b + j < length evs" "e = evs ! (b + j)" by simp_all
    with B show "\<not> (prev_ts < ev_ts_ms e \<and> ev_ts_ms e \<le> ts)" by (metis le_add1 length_map linorder_not_le nth_map)
  qed
  have "filter (\<lambda>e. prev_ts < ev_ts_ms e \<and> ev_ts_ms e \<le> ts) evs = take (b - a) (drop a evs)"
    by (subst split) (simp only: filter_append low mid high append_Nil append_Nil2)
  then show ?thesis by (simp add: event_window_def Let_def a_def b_def)
qed

subsection \<open>The running time to live\<close>

lemma last_write_scan:
  assumes "list_all (\<lambda>i. valid_usage (usage i)) is"
  shows "foldl (\<lambda>t i. if 0 < cache_write (usage i) then write_ttl i else t) t0 is =
    (case List.find (\<lambda>i. cache_write (usage i) \<noteq> 0) (rev is) of Some i \<Rightarrow> write_ttl i | None \<Rightarrow> t0)"
  using assms
proof (induction "is" rule: rev_induct)
  case (snoc i "is")
  then have "0 \<le> cache_write (usage i)"
    using valid_usage_nonneg [of "usage i"] by (simp add: cache_write_def)
  with snoc show ?case by auto
qed simp

lemma step_in_append: "j < length rs \<Longrightarrow> step_in (rs @ [r]) j = step_in rs j"
  by (simp add: step_in_def nth_append)

lemma served_in_append:
  "served_in (rs @ [r]) = served_in rs @ (if serving_inference r \<noteq> None then [length rs] else [])"
proof -
  have "filter (\<lambda>j. serving_inference ((rs @ [r]) ! j) \<noteq> None) [0..<length rs] = served_in rs"
    unfolding served_in_def by (rule filter_cong) (auto simp: nth_append)
  then show ?thesis by (simp add: served_in_def)
qed

lemma served_in_less: "j \<in> set (served_in rs) \<Longrightarrow> j < length rs"
  by (simp add: served_in_def)

lemma scan_request_simp:
  "scan_request (steps, t) r =
    (case serving_inference r of
        None \<Rightarrow> steps
      | Some i \<Rightarrow> steps @ [\<lparr>st_req = r, st_inf = i,
          st_tau = (case t of Some t \<Rightarrow> Some t | None \<Rightarrow> hint_ttl (write_ttl_hint (pricing i)))\<rparr>],
      foldl (\<lambda>t i. if 0 < cache_write (usage i) then write_ttl i else t) t (billable_inferences r))"
  by (simp add: scan_request_def)

lemma scan_requests:
  assumes "list_all (\<lambda>r. list_all (\<lambda>i. valid_usage (usage i)) (billable_inferences r)) rs"
  shows "foldl scan_request ([], None) rs = (map (step_in rs) (served_in rs), ttl_backwards (rev rs))"
  using assms
proof (induction rs rule: rev_induct)
  case (snoc r rs)
  have "map (step_in (rs @ [r])) (served_in rs) = map (step_in rs) (served_in rs)"
    using served_in_less by (simp add: step_in_append)
  moreover have "step_in (rs @ [r]) (length rs) = \<lparr>st_req = r, st_inf = the (serving_inference r),
      st_tau = (case ttl_backwards (rev rs) of Some t \<Rightarrow> Some t
        | None \<Rightarrow> hint_ttl (write_ttl_hint (pricing (the (serving_inference r)))))\<rparr>"
    by (simp add: step_in_def Let_def)
  moreover have "foldl scan_request ([], None) rs = (map (step_in rs) (served_in rs), ttl_backwards (rev rs))"
    using snoc by simp
  moreover have "foldl (\<lambda>t i. if 0 < cache_write (usage i) then write_ttl i else t) (ttl_backwards (rev rs)) (billable_inferences r) =
      ttl_backwards (rev (rs @ [r]))"
    using snoc.prems by (simp add: last_write_scan last_write_def write_ttl_def split: option.splits)
  ultimately show ?case
    by (cases "serving_inference r") (simp_all add: scan_request_simp served_in_append split: option.split)
qed (simp add: served_in_def)

lemma steps_of_ref: "writes_ok l \<Longrightarrow> steps_of l = map (step_ref l) (served l)"
  by (simp add: steps_of_def writes_ok_def scan_requests step_in_def step_ref_def served_in_def served_def ttl_of_last_write_def Let_def)

subsection \<open>The memo tables\<close>

interpretation sk: memo_table "\<lambda>k. Inr (ttl_semantics_known (rules k)) :: bool res" for rules :: rules_provider .

interpretation mc: memo_table "\<lambda>(c, day). rbind (mct c (day * DAY_MS)) (\<lambda>got. Inr (or0 got))" for mct :: min_cacheable_fn .

definition memos_ok :: "rules_provider \<Rightarrow> min_cacheable_fn \<Rightarrow> transition_memo \<Rightarrow> bool" where
  "memos_ok rules mct m = (sk.sound rules (sem_memo m) \<and> mc.sound mct (min_memo m))"

lemma semantics_known_ok:
  assumes "memos_ok rules mct m"
  shows "fst (semantics_known rules s m) = ttl_semantics_known (rules (semantics_key s))"
    "memos_ok rules mct (snd (semantics_known rules s m))"
proof -
  have "map_of (sem_memo m) k = Some v \<Longrightarrow> v = ttl_semantics_known (rules k)" for k v
    using assms sk.sound_hit [of rules "sem_memo m" k v] by (simp add: memos_ok_def)
  then show "fst (semantics_known rules s m) = ttl_semantics_known (rules (semantics_key s))"
    by (auto simp: semantics_known_def Let_def split: option.splits)
  show "memos_ok rules mct (snd (semantics_known rules s m))"
    using assms by (auto simp: semantics_known_def Let_def memos_ok_def intro!: sk.sound_dset split: option.splits)
qed

lemma min_cacheable_ok:
  assumes "memos_ok rules mct m" "by_day mct"
  shows "case mct (pricing (st_inf s)) (ts_start_ms (st_req s)) of
      Inr got \<Rightarrow> \<exists>m'. min_cacheable mct s m = Inr (or0 got, m') \<and> memos_ok rules mct m'
    | Inl e \<Rightarrow> min_cacheable mct s m = Inl e"
proof -
  let ?c = "pricing (st_inf s)" and ?d = "ts_start_ms (st_req s) div DAY_MS"
  have day: "mct ?c (ts_start_ms (st_req s)) = mct ?c (?d * DAY_MS)"
    using assms(2) by (simp only: by_day_def)
  have hit: "rbind (mct ?c (?d * DAY_MS)) (\<lambda>got. Inr (or0 got)) = Inr v" if "map_of (min_memo m) (?c, ?d) = Some v" for v
    using assms(1) mc.sound_hit [of mct "min_memo m" "(?c, ?d)" v] that by (simp add: memos_ok_def)
  show ?thesis
  proof (cases "map_of (min_memo m) (?c, ?d)")
    case (Some v)
    with hit [OF Some] day assms(1) show ?thesis
      by (cases "mct ?c (?d * DAY_MS)") (simp_all add: min_cacheable_def Let_def)
  next
    case None
    show ?thesis
    proof (cases "mct ?c (?d * DAY_MS)")
      case (Inr got)
      then have "mc.sound mct (dset (?c, ?d) (or0 got) (min_memo m))"
        using assms(1) by (intro mc.sound_dset) (simp_all add: memos_ok_def)
      then show ?thesis using None Inr day assms(1) by (simp add: min_cacheable_def Let_def memos_ok_def)
    qed (use None day in \<open>simp add: min_cacheable_def Let_def\<close>)
  qed
qed

lemma transition_of_no_ttl:
  "st_tau (steps ! i) = None \<Longrightarrow>
     transition_of l steps alt i w b ps th = transition_of l steps alt i w b' ps th"
  by (simp add: transition_of_def tau_ms_of_def Let_def)

subsection \<open>The single pass is the definition\<close>

lemma transition_at_ref:
  assumes "memos_ok rules mct m" "by_day mct" "steps = map (step_ref l) (served l)"
    "sorted (map ev_ts_ms (events l))" "0 \<le> step_gap steps i"
  shows "case transition_ref l rules mct i of
      Inr t \<Rightarrow> \<exists>m'. transition_at l rules mct steps (2 \<le> opus_sonnet_switches (map st_model steps)) i m = Inr (t, m') \<and>
        memos_ok rules mct m'
    | Inl e \<Rightarrow> transition_at l rules mct steps (2 \<le> opus_sonnet_switches (map st_model steps)) i m = Inl e"
proof -
  define cur prev where "cur = steps ! i" and "prev = steps ! (i - 1)"
  let ?w = "filter (\<lambda>e. ts_start_ms (st_req prev) < ev_ts_ms e \<and> ev_ts_ms e \<le> ts_start_ms (st_req cur)) (events l)"
  let ?alt = "2 \<le> opus_sonnet_switches (map st_model steps)"
  let ?known = "ttl_semantics_known (rules (semantics_key cur))"
  have win: "event_window (events l) (ts_start_ms (st_req prev)) (ts_start_ms (st_req cur)) = ?w"
    by (rule event_window_filter) (use assms(4,5) in \<open>simp_all add: step_gap_def cur_def prev_def\<close>)
  obtain b m1 where b: "(if st_tau cur = None then (True, m) else semantics_known rules cur m) = (b, m1)" by force
  have m1: "memos_ok rules mct m1" and known: "st_tau cur = None \<or> b = ?known"
    using b assms(1) semantics_known_ok [OF assms(1), of cur] by (auto split: if_splits)
  have same: "transition_of l steps ?alt i ?w b ps th = transition_of l steps ?alt i ?w ?known ps th" for ps th
    using known transition_of_no_ttl [of steps i] by (auto simp: cur_def)
  have ref: "transition_ref l rules mct i =
      rbind (param_change cur prev) (\<lambda>ps.
      rbind (if may_hit steps i ?w ps
             then rbind (mct (pricing (st_inf cur)) (ts_start_ms (st_req cur))) (\<lambda>got. Inr (Some (or0 got)))
             else Inr None) (\<lambda>th. Inr (transition_of l steps ?alt i ?w ?known ps th)))"
    by (simp only: transition_ref_def Let_def assms(3) [symmetric] cur_def prev_def)
  have at: "transition_at l rules mct steps ?alt i m =
      rbind (param_change cur prev) (\<lambda>ps.
      rbind (if may_hit steps i ?w ps then rbind (min_cacheable mct cur m1) (\<lambda>(v, m2). Inr (Some v, m2)) else Inr (None, m1))
        (\<lambda>(th, m2). Inr (transition_of l steps ?alt i ?w b ps th, m2)))"
    by (simp only: transition_at_def Let_def cur_def [symmetric] prev_def [symmetric] win b prod.case)
  show ?thesis
  proof (cases "param_change cur prev")
    case (Inr ps)
    show ?thesis
    proof (cases "may_hit steps i ?w ps")
      case True
      note mc = min_cacheable_ok [OF m1 assms(2), of cur]
      show ?thesis
        using mc unfolding ref at same by (cases "mct (pricing (st_inf cur)) (ts_start_ms (st_req cur))")
          (auto simp: Inr True)
    next
      case False
      then show ?thesis unfolding ref at same by (simp add: Inr m1)
    qed
  qed (simp add: ref at)
qed

lemma classify_fold:
  assumes "memos_ok rules mct m" "by_day mct" "steps = map (step_ref l) (served l)"
    "sorted (map ev_ts_ms (events l))" "\<forall>i \<in> set is. 0 \<le> step_gap steps i"
  shows "case rmap (transition_ref l rules mct) is of
      Inr ts \<Rightarrow> \<exists>m'. rfold (classify_step l rules mct steps (2 \<le> opus_sonnet_switches (map st_model steps))) (out, m) is = Inr (out @ ts, m')
    | Inl e \<Rightarrow> rfold (classify_step l rules mct steps (2 \<le> opus_sonnet_switches (map st_model steps))) (out, m) is = Inl e"
  using assms(1,5)
proof (induction "is" arbitrary: out m)
  case (Cons i "is")
  note at = transition_at_ref [OF Cons.prems(1) assms(2-4), of i]
  show ?case
  proof (cases "transition_ref l rules mct i")
    case (Inl e)
    then show ?thesis using at Cons.prems(2) by (simp add: classify_step_def)
  next
    case (Inr t)
    then obtain m' where m': "transition_at l rules mct steps (2 \<le> opus_sonnet_switches (map st_model steps)) i m = Inr (t, m')"
      "memos_ok rules mct m'" using at Cons.prems(2) by auto
    note ih = Cons.IH [OF m'(2), of "out @ [t]"]
    show ?thesis
      using ih Cons.prems(2) m'(1) Inr
      by (cases "rmap (transition_ref l rules mct) is") (simp_all add: classify_step_def)
  qed
qed simp

lemma min_cacheable_by_day: "by_day (min_cacheable_of c)"
proof -
  have "date_of (ts div DAY_MS * DAY_MS) = date_of ts" for ts by (simp add: date_of_def DAY_MS_def)
  then show ?thesis by (simp add: by_day_def min_cacheable_of_def resolve_full_def)
qed

lemma sorted_key_fst:
  assumes "sorted (map f xs)" "\<And>x y. f x \<le> f y \<Longrightarrow> g x \<le> g y"
  shows "sorted (map g xs)"
  using assms(1) by (induction xs) (auto intro: assms(2))

lemma lane_times_sorted:
  assumes "mk_lane l0 = Inr l"
  shows "sorted (map ts_start_ms (requests l))" "sorted (map ev_ts_ms (events l))"
  by (rule sorted_key_fst [OF mk_lane_sorts(3) [OF assms]], auto simp: request_sort_key_def less_eq_prod_simp)
    (rule sorted_key_fst [OF mk_lane_sorts(4) [OF assms]], auto simp: event_sort_key_def less_eq_prod_simp)

lemma served_gap:
  assumes "sorted (map ts_start_ms (requests l))" "1 \<le> i" "i < length (served l)"
  shows "0 \<le> step_gap (map (step_ref l) (served l)) i"
proof -
  have "served l ! (i - 1) \<le> served l ! i"
    using assms(2,3) by (intro sorted_nth_mono) (simp_all add: served_def sorted_wrt_filter)
  moreover have "served l ! i < length (requests l)"
    using nth_mem [OF assms(3)] by (simp add: served_def)
  ultimately have "map ts_start_ms (requests l) ! (served l ! (i - 1)) \<le> map ts_start_ms (requests l) ! (served l ! i)"
    by (intro sorted_nth_mono [OF assms(1)]) simp_all
  then show ?thesis
    using assms(2,3) \<open>served l ! (i - 1) \<le> served l ! i\<close> \<open>served l ! i < length (requests l)\<close>
    by (simp add: step_gap_def step_ref_def Let_def)
qed

lemma classify_ref:
  assumes "mk_lane l0 = Inr l" "writes_ok l" "by_day mct"
  shows "classify_transitions l rules mct =
    rmap (transition_ref l (case rules of Some f \<Rightarrow> f | None \<Rightarrow> build_rules) mct) [1..<length (served l)]"
proof -
  let ?f = "case rules of Some f \<Rightarrow> f | None \<Rightarrow> build_rules"
  let ?m = "\<lparr>sem_memo = [], min_memo = []\<rparr>"
  note times = lane_times_sorted [OF assms(1)]
  have m: "memos_ok ?f mct ?m" by (simp add: memos_ok_def sk.sound_empty mc.sound_empty)
  have gaps: "\<forall>i \<in> set [1..<length (served l)]. 0 \<le> step_gap (map (step_ref l) (served l)) i"
    using served_gap [OF times(1)] by simp
  note fold = classify_fold [OF m assms(3) refl times(2) gaps, of "[]"]
  show ?thesis
  proof (cases "length (served l) < 2")
    case True
    then show ?thesis by (simp add: classify_transitions_def steps_of_ref [OF assms(2)] Let_def)
  next
    case False
    then show ?thesis
      using fold by (cases "rmap (transition_ref l ?f mct) [1..<length (served l)]")
        (auto simp: classify_transitions_def steps_of_ref [OF assms(2)] Let_def)
  qed
qed

text \<open>C14: The single pass over a lane computes the documented definition: for a lane as the ledger builds it and a
  rate card as the price source, \<open>classify_transitions\<close> returns, request by request, the transition whose time to
  live is that of the last billed write before it (\<open>ttl_of_last_write\<close>), whose window holds exactly the events
  between the two requests, and whose rules and threshold are looked up afresh; neither the memo per day nor the
  running time to live nor the binary search changes a result or an error.\<close>

theorem classify_is_definition:
  assumes "mk_lane l0 = Inr l" "writes_ok l"
  shows "classify_transitions l rules (min_cacheable_of c) =
    rmap (transition_ref l (case rules of Some f \<Rightarrow> f | None \<Rightarrow> build_rules) (min_cacheable_of c)) [1..<length (served l)]"
  using classify_ref [OF assms min_cacheable_by_day] .

subsection \<open>Causes\<close>

lemma miss_rule: "is_miss_event miss expected \<longleftrightarrow> 2000 \<le> miss \<and> expected < 20 * miss"
proof -
  have "quotient_of MISS_FRACTION = (1, 20)" by code_simp
  then show ?thesis by (auto simp: is_miss_event_def MISS_MIN_TOKENS_def)
qed

lemma diag_causes_listed: "map_of DIAG_CAUSES d = Some (c, sc) \<Longrightarrow> c \<in> set CAUSES"
  by (auto simp: DIAG_CAUSES_def CAUSES_def split: if_splits)

lemma miss_cause_listed: "fst (miss_cause reset switch expired ps diag shrank) \<in> set CAUSES"
  using diag_causes_listed
  by (auto simp: miss_cause_def CAUSES_def [symmetric] split: option.splits Option.bind_splits)
    (simp_all add: CAUSES_def)

lemma causes_not_hit: "HIT \<notin> set CAUSES"
  by (simp add: HIT_def CAUSES_def)

lemma duration_nonneg: "0 \<le> request_duration_ms r"
  by (simp add: request_duration_ms_def)

lemma ttl_expiry_cause:
  "fst (miss_cause reset switch expired ps diag shrank) = ''ttl-expiry'' \<Longrightarrow> expired"
  by (auto simp: miss_cause_def DIAG_CAUSES_def split: option.splits if_splits Option.bind_splits)

lemma plain_cause:
  "miss_cause False None False None diag shrank = (c, sc) \<Longrightarrow>
     Option.bind diag (map_of DIAG_CAUSES) = Some (c, sc) \<or>
     Option.bind diag (map_of DIAG_CAUSES) = None \<and> c \<in> {''context-shrank'', ''unexplained''}"
  by (auto simp: miss_cause_def split: option.splits if_splits)

lemma transition_ref_explained:
  assumes "transition_ref l rules mct i = Inr t"
  shows "cause_explained t"
proof -
  obtain steps alt w known ps th where
    t: "t = transition_of l steps alt i w known ps th" and th: "th \<noteq> None \<longrightarrow> may_hit steps i w ps"
    using assms by (auto simp: transition_ref_def Let_def rbind_eq_Inr split: if_splits)
  let ?slack = "AMBIGUITY_MS + (if known then 0 else request_duration_ms (st_req (steps ! (i - 1))))"
  define expired where "expired = (case tau_ms_of (steps ! i) of None \<Rightarrow> False
      | Some t \<Rightarrow> (if known then t else t + ?slack) < step_gap steps i)"
  define switch where "switch = (if st_model (steps ! i) \<noteq> st_model (steps ! (i - 1))
      then Some (switch_sub_cause l steps i w (step_gap steps i) (tau_ms_of (steps ! i)) alt) else None)"
  define diag where "diag = map_option Records.diag_reason (diagnostics (final_attempt (st_req (steps ! i))))"
  define reset where "reset = is_reset w (st_req (steps ! i))"
  define shrank where "shrank = (10 * step_total (steps ! i) < 9 * (step_prefix (steps ! (i - 1)) +
      uncached_input (usage (st_inf (steps ! (i - 1))))))"
  obtain c sc where c: "miss_cause reset switch expired ps diag shrank = (c, sc)" by force
  have late: "expired \<Longrightarrow> \<exists>s. st_tau (steps ! i) = Some s \<and> s * 1000 < step_gap steps i"
    using duration_nonneg [of "st_req (steps ! (i - 1))"]
    by (auto simp: expired_def tau_ms_of_def AMBIGUITY_MS_def split: option.splits if_splits)
  have cs: "(cause t, sub_cause t) = (if miss_event t then (c, sc) else (HIT, None))"
    unfolding t transition_of_def Let_def expired_def [symmetric] reset_def [symmetric] diag_def [symmetric]
      switch_def [symmetric] shrank_def [symmetric] c
    by (simp add: case_prod_beta)
  have fields: "missed t = max 0 (expected_reuse t - reads t)" "expected_reuse t = min (prev_prefix t) (tr_total t)"
    "miss_event t = is_miss_event (missed t) (expected_reuse t)" "gap_ms t = step_gap steps i"
    "ttl_s t = st_tau (steps ! i)" "tr_diag_reason t = diag"
    "predicted_hit t = (if tau_ms_of (steps ! i) = None then None
       else Some (case th of Some v \<Rightarrow> v \<le> expected_reuse t | None \<Rightarrow> False))"
    unfolding t transition_of_def Let_def case_prod_beta diag_def by (cases th; simp add: step_expected_def)+
  have listed: "c \<in> set CAUSES" using miss_cause_listed [of reset switch expired ps diag shrank] by (simp add: c)
  have "(cause t = HIT) = (\<not> miss_event t)" "cause t \<in> set (HIT # CAUSES)"
    using cs listed causes_not_hit by (auto split: if_splits)
  moreover have "cause t = ''ttl-expiry'' \<longrightarrow> (case ttl_s t of Some s \<Rightarrow> s * 1000 < gap_ms t | None \<Rightarrow> False)"
    using cs c late ttl_expiry_cause [of reset switch expired ps diag shrank]
    by (auto simp: fields HIT_def split: if_splits)
  moreover have "(case ttl_s t of Some s \<Rightarrow> gap_ms t \<le> s * 1000 | None \<Rightarrow> False) \<and>
      (Option.bind (tr_diag_reason t) (map_of DIAG_CAUSES) = Some (cause t, sub_cause t) \<or>
       Option.bind (tr_diag_reason t) (map_of DIAG_CAUSES) = None \<and> cause t \<in> {''context-shrank'', ''unexplained''})"
    if hit: "predicted_hit t = Some True" "miss_event t"
  proof -
    have "may_hit steps i w ps" using hit(1) th by (auto simp: fields split: if_splits option.splits)
    then have plain: "\<not> reset" "switch = None" "ps = None"
      and gap: "case st_tau (steps ! i) of Some s \<Rightarrow> step_gap steps i \<le> s * 1000 | None \<Rightarrow> False"
      by (auto simp: may_hit_def reset_def switch_def tau_ms_of_def split: option.splits)
    then have "\<not> expired" using late by (auto split: option.splits)
    with plain c have "miss_cause False None False None diag shrank = (c, sc)" by simp
    from plain_cause [OF this] cs hit(2) gap show ?thesis by (cases "st_tau (steps ! i)") (simp_all add: fields)
  qed
  moreover have "(predicted_hit t = None) = (ttl_s t = None)" by (simp add: fields tau_ms_of_def)
  ultimately show ?thesis
    using fields(1,2,3) miss_rule [of "missed t" "expected_reuse t"] unfolding cause_explained_def by blast
qed

text \<open>C15: Every transition of a lane is explained: it is a hit exactly when less than 2000 tokens or at most 5% of
  the reusable prefix were missed, a miss has a cause of the documented list, the cause \<open>ttl-expiry\<close> is only given
  when the gap exceeds a known time to live, and a miss that the documented prediction called a hit is blamed on
  the provider's diagnostic, or else on a shrunken context or left unexplained.\<close>

theorem transitions_explained:
  assumes "mk_lane l0 = Inr l" "writes_ok l" "classify_transitions l rules (min_cacheable_of c) = Inr ts"
  shows "list_all cause_explained ts"
proof -
  have "rsat (list_all cause_explained) (rmap (transition_ref l (case rules of Some f \<Rightarrow> f | None \<Rightarrow> build_rules)
      (min_cacheable_of c)) [1..<length (served l)])"
    by (intro rsat_rmap rsatI) (rule transition_ref_explained)
  then show ?thesis
    using assms(3) classify_ref [OF assms(1,2) min_cacheable_by_day, of rules c] by simp
qed

subsection \<open>The static prefix floor\<close>

lemma sorted_prefix_count:
  assumes "sorted vs" "j < length vs" "vs ! j \<le> v"
  shows "j + 1 \<le> length (filter (\<lambda>x. x \<le> v) vs)"
proof -
  have "filter (\<lambda>x. x \<le> v) (take (j + 1) vs) = take (j + 1) vs"
  proof (rule filter_True, rule ballI)
    fix x assume "x \<in> set (take (j + 1) vs)"
    then obtain i where i: "i < j + 1" "x = vs ! i" by (auto simp: in_set_conv_nth)
    then show "x \<le> v" using sorted_nth_mono [OF assms(1), of i j] assms(2,3) by simp
  qed
  moreover have "length (filter (\<lambda>x. x \<le> v) vs) =
      length (filter (\<lambda>x. x \<le> v) (take (j + 1) vs)) + length (filter (\<lambda>x. x \<le> v) (drop (j + 1) vs))"
    by (metis append_take_drop_id filter_append length_append)
  ultimately show ?thesis using assms(2) by (simp only: length_take)
qed

lemma sorted_suffix_count:
  assumes "sorted vs" "j < length vs" "v \<le> vs ! j"
  shows "length vs - j \<le> length (filter (\<lambda>x. v \<le> x) vs)"
proof -
  have "filter (\<lambda>x. v \<le> x) (drop j vs) = drop j vs"
  proof (rule filter_True, rule ballI)
    fix x assume "x \<in> set (drop j vs)"
    then obtain i where i: "i < length vs - j" "x = vs ! (j + i)" by (auto simp: in_set_conv_nth)
    then show "v \<le> x" using sorted_nth_mono [OF assms(1), of j "j + i"] assms(2,3) by (simp add: less_diff_conv)
  qed
  moreover have "length (filter (\<lambda>x. v \<le> x) vs) =
      length (filter (\<lambda>x. v \<le> x) (take j vs)) + length (filter (\<lambda>x. v \<le> x) (drop j vs))"
    by (metis append_take_drop_id filter_append length_append)
  ultimately show ?thesis by (simp only: length_drop)
qed

lemma median_floor_splits:
  assumes "g \<noteq> []"
  shows "length g \<le> 2 * length (filter (\<lambda>x. x \<le> median_floor g) g)"
    "length g \<le> 2 * length (filter (\<lambda>x. median_floor g \<le> x) g)"
proof -
  define vs mid where "vs = sort g" and "mid = length vs div 2"
  have vs: "sorted vs" "length vs = length g" "mid < length vs"
    using assms by (simp_all add: vs_def mid_def)
  have count: "length (filter P g) = length (filter P vs)" for P
    by (simp add: vs_def filter_sort flip: size_mset)
  obtain j where j: "j < length vs" "length g \<le> 2 * (j + 1)" "vs ! j \<le> median_floor g"
    and k: "median_floor g \<le> vs ! mid"
  proof (cases "odd (length vs)")
    case True
    then have "median_floor g = vs ! mid" by (simp add: median_floor_def vs_def mid_def Let_def)
    with vs True show ?thesis by (intro that [of mid]) (auto simp: mid_def elim!: oddE)
  next
    case False
    then have med: "median_floor g = (vs ! (mid - 1) + vs ! mid) div 2" by (simp add: median_floor_def vs_def mid_def Let_def)
    have "vs ! (mid - 1) \<le> vs ! mid" using vs by (intro sorted_nth_mono) simp_all
    moreover have "2 * mid = length g" using False vs(2) by (simp add: mid_def)
    ultimately show ?thesis using med vs by (intro that [of "mid - 1"]) auto
  qed
  show "length g \<le> 2 * length (filter (\<lambda>x. x \<le> median_floor g) g)"
    using sorted_prefix_count [OF vs(1) j(1,3)] j(2) by (simp add: count)
  show "length g \<le> 2 * length (filter (\<lambda>x. median_floor g \<le> x) g)"
    using sorted_suffix_count [OF vs(1,3) k] vs(2) by (simp add: count mid_def)
qed

lemma map_fst_second: "map fst (map (\<lambda>(k, x). (k, f x)) xs) = map fst xs"
  by (induction xs) auto

lemma distinct_sort_keys: "distinct (map fst (sort_key f xs)) = distinct (map fst xs)"
  by (metis mset_eq_imp_distinct_iff mset_map mset_sort)

lemma static_floor_group:
  assumes "(k, v) \<in> set (static_prefix_floor first_reads n)"
  shows "n \<le> length (first_reads_for first_reads k) \<and> first_reads_for first_reads k \<noteq> [] \<and>
    v = median_floor (first_reads_for first_reads k)"
proof -
  obtain ts where ts: "(k, ts) \<in> set (group_by_key (\<lambda>(sc, m, _). (sc, m)) (filter (\<lambda>(_, _, rd). 0 < rd) first_reads))"
    "n \<le> length ts" "v = median_floor (map (\<lambda>(_, _, rd). rd) ts)"
    using assms by (auto simp: static_prefix_floor_def)
  have "ts = filter (\<lambda>(sc, m, rd). (sc, m) = k \<and> 0 < rd) first_reads" "ts \<noteq> []"
    using group_by_key_member [OF ts(1)] by (auto intro!: arg_cong [of _ _ "\<lambda>p. filter p first_reads"])
  with ts show ?thesis by (simp add: first_reads_for_def)
qed

text \<open>The static prefix floor of a scope and model is a median of its positive first reads: a key is reported
  once and only with the required number of lanes, at least half of the reads are at most the floor and at least
  half are at least the floor.\<close>

theorem static_floor_is_median:
  "distinct (map fst (static_prefix_floor first_reads n)) \<and>
   list_all (\<lambda>(k, v). let g = first_reads_for first_reads k in
      n \<le> length g \<and> length g \<le> 2 * length (filter (\<lambda>x. x \<le> v) g) \<and>
      length g \<le> 2 * length (filter (\<lambda>x. v \<le> x) g)) (static_prefix_floor first_reads n)"
proof -
  have "distinct (map fst (static_prefix_floor first_reads n))"
    unfolding static_prefix_floor_def map_fst_second
    by (rule distinct_map_filter) (simp only: distinct_sort_keys map_fst_second distinct_group_by_key)
  moreover have "let g = first_reads_for first_reads k in n \<le> length g \<and>
      length g \<le> 2 * length (filter (\<lambda>x. x \<le> v) g) \<and> length g \<le> 2 * length (filter (\<lambda>x. v \<le> x) g)"
    if "(k, v) \<in> set (static_prefix_floor first_reads n)" for k v
    using static_floor_group [OF that] median_floor_splits [of "first_reads_for first_reads k"] by (simp add: Let_def)
  ultimately show ?thesis unfolding list_all_iff by blast
qed

subsection \<open>Witnesses\<close>

lemma wit_t_lane_built: "mk_lane wit_t_lane = Inr wit_t_lane" "writes_ok wit_t_lane"
  by code_simp+

lemma wit_t_classified:
  "classify_transitions wit_t_lane None (min_cacheable_of wit_t_card) = Inr wit_transitions"
  "map cause wit_transitions = [''ttl-expiry'', HIT]"
  by code_simp+

theorem classify_is_definition_witness:
  "classify_transitions wit_t_lane None (min_cacheable_of wit_t_card) =
     rmap (transition_ref wit_t_lane build_rules (min_cacheable_of wit_t_card)) [1..<length (served wit_t_lane)]"
  using classify_is_definition [OF wit_t_lane_built, of None wit_t_card] by simp

theorem transitions_explained_witness:
  "list_all cause_explained wit_transitions \<and> map cause wit_transitions = [''ttl-expiry'', HIT]"
  using transitions_explained [OF wit_t_lane_built wit_t_classified(1)] wit_t_classified(2) by blast

end
