(* ===== verification/Pool_Cells.thy ===== *)
theory Pool_Cells
  imports Apportion Money
begin

text \<open>
  The Copilot cell table of \<open>core/pool.py\<close> (\<open>build_cells\<close>): cost lines and token aggregates of the AI usage report
  are joined on a key, the tokens of a key are split over its cost types by largest remainder, and every group
  becomes one cell. Only the names of the capped cost centers matter here, so \<open>capped\<close> is their list. The lemmas
  show that the table conserves money per cost type and tokens per bucket.
\<close>

section \<open>Definitions\<close>

definition POOLED_COST_TYPES :: "string list" where "POOLED_COST_TYPES = [''ai_credit.user'']"
definition DIRECT_COST_TYPES :: "string list" where "DIRECT_COST_TYPES = [''ai_credit.direct'']"

definition CELL_COST_TYPES :: "string list" where
  "CELL_COST_TYPES = [''ai_credit.user'', ''ai_credit.direct'', ''ai_credit.legacy_pru'']"

definition ENTITY_MODES :: "string list" where "ENTITY_MODES = [''enterprise'', ''org'']"
definition CONVENTIONS :: "string list" where "CONVENTIONS = [''excl'', ''incl'']"
definition GRAINS :: "string list" where "GRAINS = [''day'', ''month'']"
definition REPORT_SOURCE :: string where "REPORT_SOURCE = ''github.ai_usage_report''"
definition COPILOT_CHANNEL :: string where "COPILOT_CHANNEL = ''github_copilot''"
definition DAY_MS :: int where "DAY_MS = 86400000"
definition MAX_DATE_MS :: int where "MAX_DATE_MS = 253402300799999"
definition MAX_ADJ :: int where "MAX_ADJ = 15"
definition MIN_EXP :: int where "MIN_EXP = -20"

definition GITHUB_COST_TYPES :: "string list" where
  "GITHUB_COST_TYPES = [''ai_credit.user'', ''ai_credit.direct'', ''ai_credit.legacy_pru'', ''seat'',
     ''actions'', ''sandbox'', ''code_quality.license'', ''metered.ai_credit'',
     ''rest.ai_credit'', ''rest.summary'', ''rest.usage'', ''other'']"

subsection \<open>Helpers\<close>

definition code_of :: "char \<Rightarrow> int" where "code_of c = of_char c"

definition check_mode :: "string \<Rightarrow> unit res" where
  "check_mode m = guard (m \<in> set ENTITY_MODES) UsageError"

definition utc_date_of_ms :: "int \<Rightarrow> string res" where
  "utc_date_of_ms ms =
     (if MAX_DATE_MS < ms then Inl UsageError
      else case date_of_days (ms div DAY_MS) of Some d \<Rightarrow> Inr d | None \<Rightarrow> Inl ValueError)"

text \<open>\<open>_as_decimal\<close>: a bounded finite decimal.\<close>

definition bounded_dec :: "dec \<Rightarrow> dec option" where
  "bounded_dec d = (if coef d \<noteq> 0 \<and> (adjusted d > MAX_ADJ \<or> expo d < MIN_EXP) then None else Some d)"

definition as_decimal :: "pyval \<Rightarrow> dec option" where
  "as_decimal v = (case v of
      PInt i \<Rightarrow> bounded_dec (dec_of_int i)
    | PDec (Finite d) \<Rightarrow> bounded_dec d
    | PStr s \<Rightarrow> (let t = strip s in
        if t = '''' \<or> 64 < length t then None
        else case decimal_of_string t of Inr (Finite d) \<Rightarrow> bounded_dec d | _ \<Rightarrow> None)
    | _ \<Rightarrow> None)"

definition dec_str :: "dec \<Rightarrow> string" where
  "dec_str d = (if coef d = 0 then ''0'' else format_f (dec_normalize d))"

definition credits_of_nano :: "int \<Rightarrow> dec" where
  "credits_of_nano n = mkdec (n < 0) (nat \<bar>n\<bar>) (-7)"

definition clean :: "string option \<Rightarrow> string option" where
  "clean name = (case name of None \<Rightarrow> None
     | Some s \<Rightarrow> (let t = strip (map (\<lambda>c. if code_of c < 32 \<or> code_of c = 127 then CHR ''_'' else c) s)
                  in if t = '''' then None else Some t))"

definition entity_of :: "string option \<Rightarrow> string option \<Rightarrow> string list \<Rightarrow> string \<Rightarrow> string res" where
  "entity_of ccen org capped mode = rbind (check_mode mode) (\<lambda>_. Inr (
     case clean ccen of
       Some cc \<Rightarrow> if cc \<in> set capped \<or> (''cc:'' @ cc) \<in> set capped then ''cc:'' @ cc
                  else if mode = ''org'' \<and> clean org \<noteq> None then ''org:'' @ the (clean org) else ''enterprise''
     | None \<Rightarrow> if mode = ''org'' \<and> clean org \<noteq> None then ''org:'' @ the (clean org) else ''enterprise''))"

subsection \<open>Cells\<close>

record pool_cell =
  pc_month :: string
  pc_date_utc :: "string option"
  pc_entity_id :: string
  pc_team :: "string option"
  pc_cost_center :: "string option"
  pc_org :: "string option"
  pc_sku :: string
  pc_cost_type :: string
  pc_model :: string
  pc_routing :: string
  pc_speed :: string
  pc_pseudo :: "string option"
  pc_workload :: "string option"
  pc_usage :: usage_buckets
  pc_credits :: string
  gross_nano :: int
  discount_nano :: int
  net_nano :: int
  pc_n_users :: int
  pc_final :: bool

text \<open>The regular expressions \<open>_MONTH_RE\<close>, \<open>_DATE_RE\<close>, \<open>_ENTITY_RE\<close> and \<open>_DECIMAL_STR_RE\<close>.\<close>

definition month_re :: "string \<Rightarrow> bool" where
  "month_re s = (length s = 7 \<and> list_all is_digit (take 4 s) \<and> s ! 4 = CHR ''-'' \<and>
     (s ! 5 = CHR ''0'' \<and> s ! 6 \<in> set ''123456789'' \<or> s ! 5 = CHR ''1'' \<and> s ! 6 \<in> set ''012''))"

definition entity_re :: "string \<Rightarrow> bool" where
  "entity_re s = (s = ''enterprise'' \<or>
     (startswith s ''org:'' \<and> drop 4 s \<noteq> [] \<and> list_all (\<lambda>c. 32 \<le> code_of c) (drop 4 s)) \<or>
     (startswith s ''cc:'' \<and> drop 3 s \<noteq> [] \<and> list_all (\<lambda>c. 32 \<le> code_of c) (drop 3 s)))"

definition credits_re :: "string \<Rightarrow> bool" where
  "credits_re s =
     (let t = (if startswith s ''-'' then drop 1 s else s); w = takeWhile is_digit t; r = dropWhile is_digit t
      in 1 \<le> length w \<and> length w \<le> 30 \<and>
         (r = '''' \<or> (hd r = CHR ''.'' \<and> 1 \<le> length (tl r) \<and> length (tl r) \<le> 20 \<and> list_all is_digit (tl r))))"

definition mk_pool_cell :: "pool_cell \<Rightarrow> pool_cell res" where
  "mk_pool_cell c = validated
     (month_re (pc_month c) \<and>
      opt_ok (\<lambda>d. date_ok d \<and> take 7 d = pc_month c) (pc_date_utc c) \<and>
      entity_re (pc_entity_id c) \<and> one_of GITHUB_COST_TYPES (pc_cost_type c) \<and> credits_re (pc_credits c) \<and>
      discount_nano c = gross_nano c - net_nano c \<and> 0 \<le> pc_n_users c) c"

subsection \<open>Keys\<close>

record cell_key =
  ck_month :: string
  ck_date :: "string option"
  ck_team :: "string option"
  ck_cost_center :: "string option"
  ck_org :: "string option"
  ck_sku :: string
  ck_model :: string
  ck_routing :: string
  ck_speed :: string
  ck_pseudo :: "string option"

text \<open>Python's \<open>x or d\<close> on an optional string.\<close>

definition or_none :: "string option \<Rightarrow> string option" where
  "or_none v = (if v = Some '''' then None else v)"

definition or_str :: "string option \<Rightarrow> string \<Rightarrow> string" where
  "or_str v d = (case v of None \<Rightarrow> d | Some s \<Rightarrow> if s = '''' then d else s)"

definition mk_cell_key :: "string \<Rightarrow> string \<Rightarrow> string option \<Rightarrow> string option \<Rightarrow> string option \<Rightarrow> string option \<Rightarrow>
    string option \<Rightarrow> string option \<Rightarrow> string option \<Rightarrow> string option \<Rightarrow> cell_key" where
  "mk_cell_key date grain tm cc og sk md ro sp ps =
     \<lparr>ck_month = take 7 date, ck_date = (if grain = ''day'' then Some date else None), ck_team = or_none tm,
      ck_cost_center = or_none cc, ck_org = or_none og, ck_sku = or_str sk '''', ck_model = or_str md '''',
      ck_routing = or_str ro ''unknown'', ck_speed = or_str sp ''standard'', ck_pseudo = or_none ps\<rparr>"

definition order_of :: "string option \<Rightarrow> bool \<times> string" where
  "order_of v = (v \<noteq> None, case v of None \<Rightarrow> '''' | Some s \<Rightarrow> s)"

definition key_order :: "cell_key \<Rightarrow> (bool \<times> string) list" where
  "key_order k = map order_of [Some (ck_month k), ck_date k, ck_team k, ck_cost_center k, ck_org k,
     Some (ck_sku k), Some (ck_model k), Some (ck_routing k), Some (ck_speed k), ck_pseudo k]"

subsection \<open>Cost lines\<close>

record line_acc =
  la_credits :: dec
  la_gross :: int
  la_net :: int
  la_principals :: "string list"
  la_final :: bool
  la_workloads :: "string list"

definition empty_acc :: line_acc where
  "empty_acc = \<lparr>la_credits = dec_of_int 0, la_gross = 0, la_net = 0, la_principals = [], la_final = True, la_workloads = []\<rparr>"

definition line_gross :: "cost_line \<Rightarrow> int" where
  "line_gross l = (case list_amount_nano l of Some g \<Rightarrow> g | None \<Rightarrow> cl_amount_nano l)"

definition line_credits :: "cost_line \<Rightarrow> int \<Rightarrow> dec res" where
  "line_credits l gross =
     (case (case cl_quantity l of Some q \<Rightarrow> as_decimal (PStr q) | None \<Rightarrow> None) of
        Some d \<Rightarrow> Inr d
      | None \<Rightarrow> (case as_decimal (PDec (Finite (credits_of_nano gross))) of
                   Some d \<Rightarrow> Inr d | None \<Rightarrow> Inl UsageError))"

definition cell_line :: "cost_line \<Rightarrow> bool" where
  "cell_line l = (cl_channel l = COPILOT_CHANNEL \<and> (\<exists>t \<in> set CELL_COST_TYPES. cost_type l = Some t))"

definition line_key :: "string \<Rightarrow> cost_line \<Rightarrow> cell_key" where
  "line_key grain l = mk_cell_key (cl_date_utc l) grain (cl_team l) (cl_cost_center l) (cl_workspace_id l) (sku l)
     (cl_model l) (cl_routing l) (cl_speed l) (pseudo l)"

type_synonym line_table = "(cell_key, (string, line_acc) dict) dict"

definition merge_line :: "dec \<Rightarrow> cost_line \<Rightarrow> line_acc \<Rightarrow> line_acc" where
  "merge_line credits l acc = \<lparr>la_credits = credits, la_gross = la_gross acc + line_gross l,
     la_net = la_net acc + cl_amount_nano l,
     la_principals = (case cl_principal l of None \<Rightarrow> la_principals acc | Some p \<Rightarrow> List.insert p (la_principals acc)),
     la_final = (la_final acc \<and> cl_finality l = ''final''),
     la_workloads = (case cl_workload l of None \<Rightarrow> la_workloads acc | Some w \<Rightarrow> List.insert w (la_workloads acc))\<rparr>"

definition add_line :: "string \<Rightarrow> line_table \<Rightarrow> cost_line \<Rightarrow> line_table res" where
  "add_line grain lines l =
     (if \<not> cell_line l then Inr lines
      else let key = line_key grain l; t = the (cost_type l); accs = dget lines key []; acc = dget accs t empty_acc
           in rbind (line_credits l (line_gross l)) (\<lambda>q.
              rbind (dec_add EXACT_CTX (la_credits acc) q) (\<lambda>credits.
                Inr (dset key (dset t (merge_line credits l acc) accs) lines))))"

subsection \<open>Token aggregates\<close>

definition to_incl :: "usage_buckets \<Rightarrow> (usage_buckets \<times> bool) res" where
  "to_incl u =
     (let uncached = uncached_input u - cache_read u - cache_write u
      in if 0 \<le> uncached then rbind (mk_usage (u\<lparr>uncached_input := uncached\<rparr>)) (\<lambda>v. Inr (v, False))
         else rbind (mk_usage (u\<lparr>uncached_input := 0\<rparr>)) (\<lambda>v. Inr (v, True)))"

text \<open>The buckets an aggregate contributes under a token convention: as reported, or with the cache tokens taken out of
  the uncached input, never below zero.\<close>

definition agg_reads :: "string \<Rightarrow> usage_aggregate \<Rightarrow> usage_buckets" where
  "agg_reads convention a =
     (let u = agg_usage a in if convention = ''excl'' then u
      else u\<lparr>uncached_input := max 0 (uncached_input u - cache_read u - cache_write u)\<rparr>)"

type_synonym usage_table = "(cell_key, usage_buckets \<times> bool \<times> bool) dict"

definition cell_agg :: "usage_aggregate \<Rightarrow> bool" where
  "cell_agg a = (agg_source_kind a = REPORT_SOURCE \<and> dget (dims a) ''channel'' COPILOT_CHANNEL = COPILOT_CHANNEL)"

definition agg_key :: "string \<Rightarrow> string \<Rightarrow> usage_aggregate \<Rightarrow> cell_key" where
  "agg_key date grain a = (let d = map_of (dims a) in
     mk_cell_key date grain (d ''team'') (d ''cost_center'') (d ''organization'') (d ''sku'') (d ''model'')
       (d ''routing'') (d ''speed'') (d ''pseudo''))"

definition add_agg :: "string \<Rightarrow> string \<Rightarrow> usage_table \<Rightarrow> usage_aggregate \<Rightarrow> usage_table res" where
  "add_agg grain convention tab a =
     (if \<not> cell_agg a then Inr tab
      else rbind (utc_date_of_ms (bucket_start_ms a)) (\<lambda>date.
           let key = agg_key date grain a in
           rbind (if convention = ''excl'' then Inr (agg_usage a, False) else to_incl (agg_usage a)) (\<lambda>(u, clamped).
           case map_of tab key of
             None \<Rightarrow> Inr (dset key (u, agg_finality a = ''final'', clamped) tab)
           | Some (v, fin, cl) \<Rightarrow> rbind (add_usage v u) (\<lambda>w.
               Inr (dset key (w, fin \<and> agg_finality a = ''final'', cl \<or> clamped) tab)))))"

subsection \<open>Splits\<close>

definition split_int :: "int \<Rightarrow> int list \<Rightarrow> nat \<Rightarrow> int list" where
  "split_int tot weights fallback =
     (let w = map (max 0) weights
      in if sum_list w = 0 then map (\<lambda>i. if i = fallback then tot else 0) [0..<length w] else apportion tot w)"

definition BUCKET_FIELDS :: "(usage_buckets \<Rightarrow> int) list" where
  "BUCKET_FIELDS = [uncached_input, cache_read, cache_write_5m, cache_write_1h, cache_write_other,
     cache_write_unknown, u_output, web_search_requests, web_fetch_requests]"

definition usage_part :: "usage_buckets \<Rightarrow> int list \<Rightarrow> nat \<Rightarrow> nat \<Rightarrow> usage_buckets" where
  "usage_part u ws fb i =
     (let col = (\<lambda>c. split_int (c u) ws fb ! i) in
      \<lparr>uncached_input = col uncached_input, cache_read = col cache_read, cache_write_5m = col cache_write_5m,
       cache_write_1h = col cache_write_1h, cache_write_other = col cache_write_other,
       cache_write_other_ttl_s = (if 0 < col cache_write_other then cache_write_other_ttl_s u else None),
       cache_write_unknown = col cache_write_unknown, u_output = col u_output,
       output_reasoning = map_option (\<lambda>r. min (split_int r ws fb ! i) (col u_output)) (output_reasoning u),
       web_search_requests = col web_search_requests, web_fetch_requests = col web_fetch_requests\<rparr>)"

definition split_usage :: "usage_buckets \<Rightarrow> int list \<Rightarrow> nat \<Rightarrow> usage_buckets list res" where
  "split_usage u ws fb =
     (if length ws = 1 then Inr [u] else rmap (\<lambda>i. mk_usage (usage_part u ws fb i)) [0..<length ws])"

definition no_usage :: usage_buckets where
  "no_usage = \<lparr>uncached_input = 0, cache_read = 0, cache_write_5m = 0, cache_write_1h = 0, cache_write_other = 0,
     cache_write_other_ttl_s = None, cache_write_unknown = 0, u_output = 0, output_reasoning = None,
     web_search_requests = 0, web_fetch_requests = 0\<rparr>"

subsection \<open>The table\<close>

text \<open>One cell of a key, and all cells of a key with the number of clamped ones.\<close>

definition make_cell ::
    "cell_key \<Rightarrow> string \<Rightarrow> (usage_buckets \<times> bool \<times> bool) option \<Rightarrow> (string \<times> line_acc) \<times> usage_buckets \<Rightarrow> pool_cell res" where
  "make_cell k entity entry g = (case g of ((t, acc), part) \<Rightarrow> mk_pool_cell
     \<lparr>pc_month = ck_month k, pc_date_utc = ck_date k, pc_entity_id = entity, pc_team = ck_team k,
      pc_cost_center = ck_cost_center k, pc_org = ck_org k, pc_sku = ck_sku k, pc_cost_type = t, pc_model = ck_model k,
      pc_routing = ck_routing k, pc_speed = ck_speed k, pc_pseudo = ck_pseudo k,
      pc_workload = (if la_workloads acc = [] then None else Some (Min (set (la_workloads acc)))),
      pc_usage = part, pc_credits = dec_str (la_credits acc), gross_nano = la_gross acc,
      discount_nano = la_gross acc - la_net acc, net_nano = la_net acc, pc_n_users = int (length (la_principals acc)),
      pc_final = (la_final acc \<and> (case entry of Some (_, fin, _) \<Rightarrow> fin | None \<Rightarrow> True))\<rparr>)"

definition groups_of :: "line_table \<Rightarrow> cell_key \<Rightarrow> (string \<times> line_acc) list" where
  "groups_of lines k = (let gs = sort_key fst (dget lines k []) in if gs = [] then [(''other'', empty_acc)] else gs)"

definition fallback_of :: "(string \<times> line_acc) list \<Rightarrow> nat" where
  "fallback_of gs = (case index_of (map fst gs) ''ai_credit.user'' of Some i \<Rightarrow> i | None \<Rightarrow> 0)"

definition key_cells ::
    "line_table \<Rightarrow> usage_table \<Rightarrow> string list \<Rightarrow> string \<Rightarrow> pool_cell list \<times> int \<Rightarrow> cell_key \<Rightarrow> (pool_cell list \<times> int) res" where
  "key_cells lines tab capped mode acc k =
     (let gs = groups_of lines k; entry = map_of tab k in
      rbind (case entry of
               Some (u, _, _) \<Rightarrow> split_usage u (map (la_gross \<circ> snd) gs) (fallback_of gs)
             | None \<Rightarrow> Inr (replicate (length gs) no_usage)) (\<lambda>parts.
      rbind (entity_of (ck_cost_center k) (ck_org k) capped mode) (\<lambda>entity.
      rbind (rmap (make_cell k entity entry) (zip gs parts)) (\<lambda>cs.
        Inr (fst acc @ cs, snd acc + (case entry of Some (_, _, True) \<Rightarrow> int (length gs) | _ \<Rightarrow> 0))))))"

definition build_cells ::
    "usage_aggregate list \<Rightarrow> cost_line list \<Rightarrow> string \<Rightarrow> string \<Rightarrow> string list \<Rightarrow> string \<Rightarrow> (pool_cell list \<times> int) res" where
  "build_cells aggregates cost_lines grain convention capped mode =
     rbind (guard (grain \<in> set GRAINS) UsageError) (\<lambda>_.
     rbind (guard (convention \<in> set CONVENTIONS) UsageError) (\<lambda>_.
     rbind (check_mode mode) (\<lambda>_.
     rbind (rfold (add_line grain) [] cost_lines) (\<lambda>lines.
     rbind (rfold (add_agg grain convention) [] aggregates) (\<lambda>tab.
     rfold (key_cells lines tab capped mode) ([], 0) (sort_key key_order (remdups (map fst lines @ map fst tab))))))))"

text \<open>What a table of cost lines, a table of tokens and a cell carry.\<close>

definition group_sum :: "(string \<Rightarrow> line_acc \<Rightarrow> int) \<Rightarrow> (string \<times> line_acc) list \<Rightarrow> int" where
  "group_sum g accs = sum_list (map (\<lambda>(t, a). g t a) accs)"

definition table_sum :: "(string \<Rightarrow> line_acc \<Rightarrow> int) \<Rightarrow> line_table \<Rightarrow> int" where
  "table_sum g lines = sum_list (map (\<lambda>(k, accs). group_sum g accs) lines)"

definition only_type :: "string \<Rightarrow> (line_acc \<Rightarrow> int) \<Rightarrow> string \<Rightarrow> line_acc \<Rightarrow> int" where
  "only_type T f t a = (if t = T then f a else 0)"

definition lines_ok :: "line_table \<Rightarrow> bool" where
  "lines_ok lines = (distinct (map fst lines) \<and> list_all (\<lambda>(k, accs). distinct (map fst accs)) lines)"

definition entry_sum :: "(usage_buckets \<Rightarrow> int) \<Rightarrow> usage_table \<Rightarrow> int" where
  "entry_sum c tab = sum_list (map (\<lambda>(k, u, _). c u) tab)"

definition cell_key_of :: "pool_cell \<Rightarrow> cell_key" where
  "cell_key_of c = \<lparr>ck_month = pc_month c, ck_date = pc_date_utc c, ck_team = pc_team c, ck_cost_center = pc_cost_center c,
     ck_org = pc_org c, ck_sku = pc_sku c, ck_model = pc_model c, ck_routing = pc_routing c, ck_speed = pc_speed c,
     ck_pseudo = pc_pseudo c\<rparr>"

definition wit_line :: "string \<Rightarrow> int \<Rightarrow> cost_line" where
  "wit_line t amount = \<lparr>line_id = t, cl_source_kind = REPORT_SOURCE, cl_date_utc = ''2026-06-02'', cl_channel = COPILOT_CHANNEL,
     cl_workspace_id = Some ''acme'', description = '''', cl_model = Some ''gpt-5'', cost_type = Some t, token_type = None,
     sku = Some ''copilot'', cl_service_tier = None, cl_inference_geo = None, cl_endpoint_scope = None,
     cl_amount_nano = amount, list_amount_nano = Some (2 * amount), currency = ''USD'', cl_finality = ''final'',
     cl_principal = None, cl_fetched_ms = 0, cl_quantity = None, cl_unit = None, cl_cost_center = None, cl_team = None,
     cl_repo = None, cl_workload = None, cl_workflow = None, cl_routing = None, cl_speed = None, pseudo = None\<rparr>"

definition wit_agg :: usage_aggregate where
  "wit_agg = \<lparr>agg_id = ''a'', agg_source_kind = REPORT_SOURCE, bucket_start_ms = 1780358400000, bucket_end_ms = 1780444800000,
     dims = [(''model'', ''gpt-5''), (''organization'', ''acme''), (''sku'', ''copilot'')],
     agg_usage = no_usage\<lparr>uncached_input := 10, u_output := 5, output_reasoning := Some 4\<rparr>, reported_cost_nano = None,
     reported_cost_basis = None, list_cost_nano = None, agg_finality = ''final'', agg_fetched_ms = 0\<rparr>"

definition wit_lines :: "cost_line list" where
  "wit_lines = [wit_line ''ai_credit.user'' 300, wit_line ''ai_credit.direct'' 100]"

definition wit_table :: "pool_cell list \<times> int" where
  "wit_table = (case build_cells [wit_agg] wit_lines ''month'' ''excl'' [] ''org'' of Inr r \<Rightarrow> r | Inl _ \<Rightarrow> ([], 0))"

definition additive :: "(line_acc \<Rightarrow> int) \<Rightarrow> (cost_line \<Rightarrow> int) \<Rightarrow> bool" where
  "additive f v = (f empty_acc = 0 \<and> (\<forall>q l acc. f (merge_line q l acc) = f acc + v l))"

definition block_ok :: "line_table \<Rightarrow> usage_table \<Rightarrow> cell_key \<Rightarrow> pool_cell list \<Rightarrow> bool" where
  "block_ok lines tab k b =
     (map (\<lambda>c. (cell_key_of c, pc_cost_type c, gross_nano c, net_nano c)) b =
        map (\<lambda>(t, a). (k, t, la_gross a, la_net a)) (groups_of lines k) \<and>
      list_all (\<lambda>c. discount_nano c = gross_nano c - net_nano c) b \<and>
      (\<forall>c \<in> set BUCKET_FIELDS. sum_list (map (c \<circ> pc_usage) b) = (case map_of tab k of None \<Rightarrow> 0 | Some (u, _) \<Rightarrow> c u)))"

section \<open>Lemmas\<close>

subsection \<open>Money\<close>

lemma group_sum_Nil [simp]: "group_sum g [] = 0"
  by (simp add: group_sum_def)

lemma merge_line_sums [simp]:
  "la_gross (merge_line q l acc) = la_gross acc + line_gross l"
  "la_net (merge_line q l acc) = la_net acc + cl_amount_nano l"
  by (simp_all add: merge_line_def)

lemma empty_acc_sums [simp]: "la_gross empty_acc = 0" "la_net empty_acc = 0"
  by (simp_all add: empty_acc_def)

lemma additive_money: "additive la_gross line_gross" "additive la_net cl_amount_nano"
  by (simp_all add: additive_def)

lemma lines_ok_accs: "lines_ok lines \<Longrightarrow> distinct (map fst (dget lines k []))"
  by (auto simp: lines_ok_def list_all_iff dget_def split: option.splits dest: map_of_SomeD)

lemma add_line_sums:
  assumes "lines_ok lines" "additive f v"
  shows "rsat (\<lambda>lines'. lines_ok lines' \<and> table_sum (only_type T f) lines' = table_sum (only_type T f) lines +
      (if cell_line l \<and> cost_type l = Some T then v l else 0)) (add_line grain lines l)"
proof (cases "cell_line l")
  case True
  define key t where "key = line_key grain l" and "t = the (cost_type l)"
  define accs acc where "accs = dget lines key []" and "acc = dget accs t empty_acc"
  have t: "cost_type l = Some t" using True by (auto simp: cell_line_def t_def)
  have d: "distinct (map fst accs)" unfolding accs_def by (rule lines_ok_accs [OF assms(1)])
  have f: "f empty_acc = 0" "f (merge_line q l acc) = f acc + v l" for q using assms(2) by (auto simp: additive_def)
  have gs: "group_sum (only_type T f) (dset t (merge_line q l acc) accs) =
      group_sum (only_type T f) accs + (if t = T then v l else 0)" for q
    unfolding group_sum_def sum_kv_dset [OF d]
    using f(2) [of q] by (auto simp: only_type_def f(1) acc_def dget_def split: option.splits)
  have ts: "table_sum g (dset key x lines) = table_sum g lines + group_sum g x - group_sum g accs" for g x
    using assms(1) unfolding table_sum_def lines_ok_def
    by (auto simp: sum_kv_dset [where h = "\<lambda>k. group_sum g"] accs_def dget_def split: option.splits)
  have ok: "lines_ok (dset key (dset t m accs) lines)" for m
    using assms(1) d unfolding lines_ok_def by (auto intro!: list_all_dset)
  have "rsat (\<lambda>lines'. lines_ok lines' \<and> table_sum (only_type T f) lines' =
      table_sum (only_type T f) lines + (if t = T then v l else 0))
    (rbind (line_credits l (line_gross l)) (\<lambda>q. rbind (dec_add EXACT_CTX (la_credits acc) q) (\<lambda>credits.
       Inr (dset key (dset t (merge_line credits l acc) accs) lines))))"
    by (rule rsat_bind [OF rsat_any], rule rsat_bind [OF rsat_any]) (simp add: ts gs ok)
  moreover have "add_line grain lines l =
      rbind (line_credits l (line_gross l)) (\<lambda>q. rbind (dec_add EXACT_CTX (la_credits acc) q) (\<lambda>credits.
        Inr (dset key (dset t (merge_line credits l acc) accs) lines)))"
    using True unfolding add_line_def Let_def key_def t_def accs_def acc_def by simp
  ultimately show ?thesis using True by (simp only: t) simp
qed (simp add: add_line_def assms(1))

lemma lines_sums:
  assumes "additive f v" "lines_ok lines0" "rfold (add_line grain) lines0 ls = Inr lines"
  shows "lines_ok lines" "table_sum (only_type T f) lines = table_sum (only_type T f) lines0 +
    sum_list (map v (filter (\<lambda>l. cell_line l \<and> cost_type l = Some T) ls))"
proof -
  have "lines_ok lines \<and> table_sum (only_type T f) lines = table_sum (only_type T f) lines0 +
    sum_list (map v (filter (\<lambda>l. cell_line l \<and> cost_type l = Some T) ls))"
    using assms(2,3)
  proof (induction ls arbitrary: lines0)
    case (Cons l ls)
    then obtain lines1 where l1: "add_line grain lines0 l = Inr lines1" "rfold (add_line grain) lines1 ls = Inr lines"
      by (auto simp: res_simps)
    from rsatD [OF add_line_sums [OF Cons.prems(1) assms(1), of T l grain] l1(1)]
      and Cons.IH [OF _ l1(2)]
    show ?case by auto
  qed simp
  then show "lines_ok lines" "table_sum (only_type T f) lines = table_sum (only_type T f) lines0 +
    sum_list (map v (filter (\<lambda>l. cell_line l \<and> cost_type l = Some T) ls))" by blast+
qed

subsection \<open>Tokens\<close>

lemma bucket_sums: "add_usage a b = Inr w \<Longrightarrow> c \<in> set BUCKET_FIELDS \<Longrightarrow> c w = c a + c b"
  by (auto simp: add_usage_def mk_usage_def validated_def BUCKET_FIELDS_def rbind_eq_Inr split: if_splits)

lemma to_incl_reads: "to_incl u = Inr (v, cl) \<Longrightarrow> v = u\<lparr>uncached_input := max 0 (uncached_input u - cache_read u - cache_write u)\<rparr>"
  by (auto simp: to_incl_def Let_def rbind_eq_Inr mk_usage_def validated_def split: if_splits)

lemma agg_reads_read: "(if conv = ''excl'' then Inr (agg_usage a, False) else to_incl (agg_usage a)) = Inr (v, cl) \<Longrightarrow>
    v = agg_reads conv a"
  by (auto simp: agg_reads_def Let_def dest: to_incl_reads split: if_splits)

lemma add_agg_sums:
  assumes "distinct (map fst tab)" "c \<in> set BUCKET_FIELDS"
  shows "rsat (\<lambda>tab'. distinct (map fst tab') \<and> entry_sum c tab' = entry_sum c tab + (if cell_agg a then c (agg_reads conv a) else 0))
    (add_agg grain conv tab a)"
proof (cases "cell_agg a")
  case True
  have h: "entry_sum c (dset k (w, fin, cl) tab) =
      entry_sum c tab + c w - (case map_of tab k of None \<Rightarrow> 0 | Some (v, _) \<Rightarrow> c v)" for k w fin cl
    unfolding entry_sum_def sum_kv_dset [OF assms(1), of "\<lambda>k (u, _). c u"] by (simp split: option.splits prod.splits)
  have s: "rsat (\<lambda>tab'. distinct (map fst tab') \<and> entry_sum c tab' = entry_sum c tab + c u)
      (case map_of tab k of
         None \<Rightarrow> Inr (dset k (u, agg_finality a = ''final'', clamped) tab)
       | Some (v, fin, cl) \<Rightarrow> rbind (add_usage v u) (\<lambda>w.
           Inr (dset k (w, fin \<and> agg_finality a = ''final'', cl \<or> clamped) tab)))" for k u clamped
    by (auto simp: h assms(1) rsat_def rbind_def bucket_sums [OF _ assms(2)] split: option.split sum.split)
  have r: "rsat (\<lambda>(u, clamped). u = agg_reads conv a) (if conv = ''excl'' then Inr (agg_usage a, False) else to_incl (agg_usage a))"
    by (rule rsatI) (use agg_reads_read [of conv a] in \<open>auto simp only: split_paired_all case_prod_conv\<close>)
  show ?thesis unfolding add_agg_def Let_def
    by (simp only: True not_True_eq_False if_False if_True)
      (rule rsat_bind [OF rsat_any], rule rsat_bind [OF r], clarify, rule s)
qed (simp add: add_agg_def assms(1))

lemma aggs_sums:
  assumes "c \<in> set BUCKET_FIELDS" "distinct (map fst tab0)" "rfold (add_agg grain conv) tab0 as = Inr tab"
  shows "distinct (map fst tab) \<and> entry_sum c tab = entry_sum c tab0 + sum_list (map (c \<circ> agg_reads conv) (filter cell_agg as))"
  using assms(2,3)
proof (induction as arbitrary: tab0)
  case (Cons a as)
  then obtain tab1 where t1: "add_agg grain conv tab0 a = Inr tab1" "rfold (add_agg grain conv) tab1 as = Inr tab"
    by (auto simp: res_simps)
  from rsatD [OF add_agg_sums [OF Cons.prems(1) assms(1), of a conv grain] t1(1)] and Cons.IH [OF _ t1(2)]
  show ?case by auto
qed simp

lemma add_agg_distinct: "distinct (map fst tab) \<Longrightarrow> rsat (\<lambda>tab'. distinct (map fst tab')) (add_agg grain conv tab a)"
  unfolding add_agg_def Let_def
  by (cases "cell_agg a") (auto intro!: rsat_bind [OF rsat_any] split: option.split prod.split)

subsection \<open>Splits\<close>

lemma split_int_sum:
  assumes "fb < length ws"
  shows "length (split_int t ws fb) = length ws" "sum_list (split_int t ws fb) = t"
proof -
  let ?w = "map (max 0) ws"
  have nn: "\<forall>x \<in> set ?w. 0 \<le> x" by auto
  then have s: "0 \<le> sum_list ?w" by (intro sum_list_nonneg) blast
  show "length (split_int t ws fb) = length ws"
    using s fin.parts_length [OF nn, of t] by (cases "sum_list ?w = 0") (simp_all add: split_int_def Let_def)
  show "sum_list (split_int t ws fb) = t"
  proof (cases "sum_list ?w = 0")
    case True
    have "sum_list (map (\<lambda>i. if i = fb then t else 0) [0..<length ws]) = (\<Sum>i\<in>{..<length ws}. if i = fb then t else 0)"
      by (simp add: interv_sum_list_conv_sum_set_nat lessThan_atLeast0)
    then show ?thesis using True assms by (simp add: split_int_def Let_def)
  next
    case False
    then show ?thesis using s fin.parts_sum [OF nn, of t] by (simp add: split_int_def Let_def)
  qed
qed

lemma usage_part_field: "c \<in> set BUCKET_FIELDS \<Longrightarrow> c (usage_part u ws fb i) = split_int (c u) ws fb ! i"
  by (auto simp: BUCKET_FIELDS_def usage_part_def)

lemma rmap_project: "rmap f xs = Inr ys \<Longrightarrow> (\<And>x y. x \<in> set xs \<Longrightarrow> f x = Inr y \<Longrightarrow> p y = q x) \<Longrightarrow> map p ys = map q xs"
  by (induction xs arbitrary: ys) (auto simp: res_simps)

lemma split_usage_sum:
  assumes "split_usage u ws fb = Inr parts" "fb < length ws" "c \<in> set BUCKET_FIELDS"
  shows "length parts = length ws \<and> sum_list (map c parts) = c u"
proof (cases "length ws = 1")
  case False
  then have r: "rmap (\<lambda>i. mk_usage (usage_part u ws fb i)) [0..<length ws] = Inr parts"
    using assms(1) by (simp add: split_usage_def)
  have "map c parts = map (\<lambda>i. split_int (c u) ws fb ! i) [0..<length ws]"
    by (rule rmap_project [OF r]) (auto simp: mk_usage_def validated_def usage_part_field [OF assms(3)] split: if_splits)
  also have "\<dots> = split_int (c u) ws fb"
    using split_int_sum(1) [OF assms(2), of "c u"] map_nth [of "split_int (c u) ws fb"] by simp
  finally show ?thesis using rmap_length [OF r] split_int_sum(2) [OF assms(2), of "c u"] by simp
qed (use assms in \<open>auto simp: split_usage_def\<close>)

subsection \<open>Cells of a key\<close>

lemma groups_of_nonempty: "groups_of lines k \<noteq> []"
  by (simp add: groups_of_def Let_def)

lemma index_of_less: "index_of xs x = Some i \<Longrightarrow> i < length xs"
  by (induction xs arbitrary: i) (auto split: if_splits)

lemma fallback_less: "fallback_of (groups_of lines k) < length (groups_of lines k)"
  using groups_of_nonempty [of lines k] index_of_less [of "map fst (groups_of lines k)"]
  by (auto simp: fallback_of_def split: option.splits)

lemma make_cell_fields:
  assumes "make_cell k e entry g = Inr c"
  shows "cell_key_of c = k" "pc_cost_type c = fst (fst g)" "gross_nano c = la_gross (snd (fst g))"
    "net_nano c = la_net (snd (fst g))" "discount_nano c = gross_nano c - net_nano c" "pc_usage c = snd g"
  using assms by (auto simp: make_cell_def mk_pool_cell_def validated_def cell_key_of_def split: prod.splits if_splits)

lemma no_usage_fields: "c \<in> set BUCKET_FIELDS \<Longrightarrow> c no_usage = 0"
  by (auto simp: BUCKET_FIELDS_def no_usage_def)

lemma key_cells_block:
  assumes "key_cells lines tab capped mode acc k = Inr acc'"
  shows "\<exists>b. fst acc' = fst acc @ b \<and> block_ok lines tab k b"
proof -
  define gs where "gs = groups_of lines k"
  obtain parts entity cs where r:
    "(case map_of tab k of
        Some (u, _, _) \<Rightarrow> split_usage u (map (la_gross \<circ> snd) gs) (fallback_of gs)
      | None \<Rightarrow> Inr (replicate (length gs) no_usage)) = Inr parts"
    "rmap (make_cell k entity (map_of tab k)) (zip gs parts) = Inr cs" "fst acc' = fst acc @ cs"
    using assms unfolding key_cells_def Let_def gs_def by (auto simp: res_simps)
  have parts: "length parts = length gs \<and> sum_list (map c parts) = (case map_of tab k of None \<Rightarrow> 0 | Some (u, _) \<Rightarrow> c u)"
    if "c \<in> set BUCKET_FIELDS" for c
    using r(1) that split_usage_sum [OF _ _ that] fallback_less [of lines k]
    by (auto simp: gs_def no_usage_fields sum_list_replicate split: option.splits)
  from this [of uncached_input] have len: "length parts = length gs" by (simp add: BUCKET_FIELDS_def)
  have "map (\<lambda>c. (cell_key_of c, pc_cost_type c, gross_nano c, net_nano c)) cs =
      map (\<lambda>g. (k, fst (fst g), la_gross (snd (fst g)), la_net (snd (fst g)))) (zip gs parts)"
    by (rule rmap_project [OF r(2)]) (simp add: make_cell_fields)
  also have "\<dots> = map ((\<lambda>(t, a). (k, t, la_gross a, la_net a)) \<circ> fst) (zip gs parts)" by auto
  also have "\<dots> = map (\<lambda>(t, a). (k, t, la_gross a, la_net a)) gs"
    unfolding map_map [symmetric] using len by simp
  finally have m: "map (\<lambda>c. (cell_key_of c, pc_cost_type c, gross_nano c, net_nano c)) cs = \<dots>" .
  have "map pc_usage cs = map snd (zip gs parts)"
    by (rule rmap_project [OF r(2)]) (simp add: make_cell_fields)
  then have u: "map pc_usage cs = parts" using len by simp
  have "rsat (list_all (\<lambda>c. discount_nano c = gross_nano c - net_nano c)) (rmap (make_cell k entity (map_of tab k)) (zip gs parts))"
    by (intro rsat_rmap rsatI) (rule make_cell_fields)
  with r(2) have d: "list_all (\<lambda>c. discount_nano c = gross_nano c - net_nano c) cs" by simp
  have "sum_list (map (c \<circ> pc_usage) cs) = (case map_of tab k of None \<Rightarrow> 0 | Some (u, _) \<Rightarrow> c u)"
    if "c \<in> set BUCKET_FIELDS" for c
    using parts [OF that] unfolding map_map [symmetric] u by blast
  with m d show ?thesis using r(3) by (auto simp: block_ok_def gs_def)
qed

lemma cells_blocks:
  assumes "rfold (key_cells lines tab capped mode) acc ks = Inr acc'"
  shows "\<exists>bs. fst acc' = fst acc @ concat bs \<and> list_all2 (block_ok lines tab) ks bs"
  using assms
proof (induction ks arbitrary: acc)
  case Nil
  then show ?case by (intro exI [of _ "[]"]) simp
next
  case (Cons k ks)
  then obtain acc1 where a: "key_cells lines tab capped mode acc k = Inr acc1"
    "rfold (key_cells lines tab capped mode) acc1 ks = Inr acc'" by (auto simp: res_simps)
  obtain b where b: "fst acc1 = fst acc @ b" "block_ok lines tab k b" using key_cells_block [OF a(1)] by blast
  obtain bs where bs: "fst acc' = fst acc1 @ concat bs" "list_all2 (block_ok lines tab) ks bs"
    using Cons.IH [OF a(2)] by blast
  have "fst acc' = fst acc @ concat (b # bs)" "list_all2 (block_ok lines tab) (k # ks) (b # bs)"
    using b bs by simp_all
  then show ?case by blast
qed

lemma blocks_sum:
  fixes h :: "pool_cell \<Rightarrow> int"
  assumes "list_all2 P ks bs" "\<And>k b. P k b \<Longrightarrow> sum_list (map h b) = F k"
  shows "sum_list (map h (concat bs)) = sum_list (map F ks)"
  using assms(1) by induction (simp_all add: assms(2))

lemma groups_sum:
  fixes f :: "line_acc \<Rightarrow> int"
  assumes "f empty_acc = 0"
  shows "group_sum (only_type T f) (groups_of lines k) = group_sum (only_type T f) (dget lines k [])"
proof -
  have "group_sum g (sort_key fst xs) = group_sum g xs" for g and xs :: "(string \<times> line_acc) list"
    unfolding group_sum_def by (rule sum_list_mset_eq) simp
  from this [of "only_type T f" "dget lines k []"] show ?thesis
    using assms unfolding groups_of_def Let_def by (auto simp: only_type_def group_sum_def)
qed

lemma block_money:
  assumes "block_ok lines tab k b"
  shows "sum_list (map (\<lambda>c. if pc_cost_type c = T then gross_nano c else 0) b) = group_sum (only_type T la_gross) (groups_of lines k)"
    "sum_list (map (\<lambda>c. if pc_cost_type c = T then net_nano c else 0) b) = group_sum (only_type T la_net) (groups_of lines k)"
proof -
  have m: "map (\<lambda>c. (cell_key_of c, pc_cost_type c, gross_nano c, net_nano c)) b =
      map (\<lambda>(t, a). (k, t, la_gross a, la_net a)) (groups_of lines k)" using assms by (simp add: block_ok_def)
  from arg_cong [OF m, of "\<lambda>xs. sum_list (map (\<lambda>x. if fst (snd x) = T then fst (snd (snd x)) else 0) xs)"]
  show "sum_list (map (\<lambda>c. if pc_cost_type c = T then gross_nano c else 0) b) = group_sum (only_type T la_gross) (groups_of lines k)"
    by (simp add: comp_def group_sum_def only_type_def case_prod_unfold cong: if_cong)
  from arg_cong [OF m, of "\<lambda>xs. sum_list (map (\<lambda>x. if fst (snd x) = T then snd (snd (snd x)) else 0) xs)"]
  show "sum_list (map (\<lambda>c. if pc_cost_type c = T then net_nano c else 0) b) = group_sum (only_type T la_net) (groups_of lines k)"
    by (simp add: comp_def group_sum_def only_type_def case_prod_unfold cong: if_cong)
qed

lemma keys_table_sum:
  assumes "lines_ok lines" "f empty_acc = 0" "distinct ks" "fst ` set lines \<subseteq> set ks"
  shows "sum_list (map (\<lambda>k. group_sum (only_type T f) (groups_of lines k)) ks) = table_sum (only_type T f) lines"
  using sum_kv_keys [of lines "set ks" "\<lambda>k. group_sum (only_type T f)" "[]"] assms
  by (simp add: groups_sum [where f = f] sum_list_distinct_conv_sum_set table_sum_def lines_ok_def)

lemma keys_entry_sum:
  assumes "distinct (map fst tab)" "distinct ks" "fst ` set tab \<subseteq> set ks"
  shows "sum_list (map (\<lambda>k. case map_of tab k of None \<Rightarrow> 0 | Some (u, _) \<Rightarrow> c u) ks) = entry_sum c tab"
proof -
  have "sum_list (map (\<lambda>k. case map_of tab k of None \<Rightarrow> 0 | Some (u, _) \<Rightarrow> c u) ks) =
      (\<Sum>k\<in>set ks. case dget (map (\<lambda>(k, e). (k, Some e)) tab) k None of None \<Rightarrow> 0 | Some (u, _) \<Rightarrow> c u)"
    using assms(2) by (simp add: sum_list_distinct_conv_sum_set dget_def map_of_map) (rule sum.cong, auto split: option.splits)
  also have "\<dots> = sum_list (map (\<lambda>(k, e). case e of None \<Rightarrow> 0 | Some (u, _) \<Rightarrow> c u) (map (\<lambda>(k, e). (k, Some e)) tab))"
    using assms by (intro sum_kv_keys) (auto simp: comp_def case_prod_unfold)
  also have "\<dots> = entry_sum c tab" by (simp add: entry_sum_def comp_def case_prod_unfold)
  finally show ?thesis .
qed

lemma distinct_sorted_keys: "distinct (map f (sort_key g xs)) = distinct (map f xs)"
  by (rule mset_eq_imp_distinct_iff) simp

lemma distinct_blocks:
  assumes "list_all2 (block_ok lines tab) ks bs" "distinct ks" "lines_ok lines"
  shows "distinct (map (\<lambda>c. (cell_key_of c, pc_cost_type c)) (concat bs)) \<and>
    set (map cell_key_of (concat bs)) \<subseteq> set ks"
  using assms(1,2)
proof (induction rule: list_all2_induct)
  case (Cons k ks b bs)
  have m: "map (\<lambda>c. (cell_key_of c, pc_cost_type c, gross_nano c, net_nano c)) b =
      map (\<lambda>(t, a). (k, t, la_gross a, la_net a)) (groups_of lines k)" using Cons.hyps(1) by (simp add: block_ok_def)
  have "distinct (map fst (groups_of lines k))"
    using lines_ok_accs [OF assms(3), of k] by (simp add: groups_of_def Let_def distinct_sorted_keys)
  moreover from arg_cong [OF m, of "map (\<lambda>x. (fst x, fst (snd x)))"]
  have b: "map (\<lambda>c. (cell_key_of c, pc_cost_type c)) b = map (Pair k) (map fst (groups_of lines k))"
    by (simp add: comp_def case_prod_unfold)
  ultimately have "distinct (map (\<lambda>c. (cell_key_of c, pc_cost_type c)) b)"
    by (simp add: distinct_map inj_on_def)
  moreover have "set (map (\<lambda>c. (cell_key_of c, pc_cost_type c)) b) \<subseteq> {k} \<times> UNIV" unfolding b by auto
  ultimately show ?case using Cons.IH Cons.prems by (auto simp: image_subset_iff)
qed simp

lemma build_cells_conserves:
  assumes "build_cells aggs ls grain conv capped mode = Inr (cells, n)"
  shows "(\<forall>T. sum_list (map gross_nano (filter (\<lambda>c. pc_cost_type c = T) cells)) =
           sum_list (map line_gross (filter (\<lambda>l. cell_line l \<and> cost_type l = Some T) ls)) \<and>
         sum_list (map net_nano (filter (\<lambda>c. pc_cost_type c = T) cells)) =
           sum_list (map cl_amount_nano (filter (\<lambda>l. cell_line l \<and> cost_type l = Some T) ls))) \<and>
    list_all (\<lambda>c. sum_list (map (c \<circ> pc_usage) cells) = sum_list (map (c \<circ> agg_reads conv) (filter cell_agg aggs))) BUCKET_FIELDS \<and>
    list_all (\<lambda>c. discount_nano c = gross_nano c - net_nano c) cells \<and>
    distinct (map (\<lambda>c. (cell_key_of c, pc_cost_type c)) cells)"
proof -
  obtain lines tab where r: "rfold (add_line grain) [] ls = Inr lines" "rfold (add_agg grain conv) [] aggs = Inr tab"
    "rfold (key_cells lines tab capped mode) ([], 0) (sort_key key_order (remdups (map fst lines @ map fst tab))) = Inr (cells, n)"
    using assms unfolding build_cells_def by (auto simp: res_simps)
  define ks where "ks = sort_key key_order (remdups (map fst lines @ map fst tab))"
  have ks: "distinct ks" "fst ` set lines \<subseteq> set ks" "fst ` set tab \<subseteq> set ks" by (auto simp: ks_def)
  obtain bs where bs: "cells = concat bs" "list_all2 (block_ok lines tab) ks bs"
    using cells_blocks [OF r(3)] by (auto simp: ks_def)
  have ok: "lines_ok lines" by (rule lines_sums(1) [OF additive_money(1) _ r(1)]) (simp add: lines_ok_def)
  have lines: "table_sum (only_type T f) lines = sum_list (map v (filter (\<lambda>l. cell_line l \<and> cost_type l = Some T) ls))"
    if "additive f v" for f v T
    using lines_sums(2) [OF that _ r(1), of T] by (simp add: lines_ok_def table_sum_def)
  have money: "sum_list (map gross_nano (filter (\<lambda>c. pc_cost_type c = T) cells)) = table_sum (only_type T la_gross) lines"
    "sum_list (map net_nano (filter (\<lambda>c. pc_cost_type c = T) cells)) = table_sum (only_type T la_net) lines" for T
    unfolding sum_list_map_filter' bs(1)
    using blocks_sum [OF bs(2) block_money(1)] blocks_sum [OF bs(2) block_money(2)]
      keys_table_sum [OF ok _ ks(1,2), of la_gross T] keys_table_sum [OF ok _ ks(1,2), of la_net T] by simp_all
  have tokens: "sum_list (map (c \<circ> pc_usage) cells) = sum_list (map (c \<circ> agg_reads conv) (filter cell_agg aggs))"
    if "c \<in> set BUCKET_FIELDS" for c
  proof -
    have t: "distinct (map fst tab) \<and> entry_sum c tab = sum_list (map (c \<circ> agg_reads conv) (filter cell_agg aggs))"
      using aggs_sums [OF that _ r(2)] by (simp add: entry_sum_def)
    have "sum_list (map (c \<circ> pc_usage) (concat bs)) = sum_list (map (\<lambda>k. case map_of tab k of None \<Rightarrow> 0 | Some (u, _) \<Rightarrow> c u) ks)"
      by (rule blocks_sum [OF bs(2)]) (use that in \<open>simp add: block_ok_def\<close>)
    then show ?thesis using t keys_entry_sum [OF _ ks(1,3), of c] bs(1) by simp
  qed
  have "list_all (\<lambda>c. discount_nano c = gross_nano c - net_nano c) (concat bs)"
    using bs(2) by (induction rule: list_all2_induct) (auto simp: block_ok_def)
  then show ?thesis
    using lines [OF additive_money(1)] lines [OF additive_money(2)] money tokens
      distinct_blocks [OF bs(2) ks(1) ok] bs(1) by (simp add: list_all_iff)
qed

text \<open>C11: The cell table of a Copilot report neither loses nor invents money or tokens: for every cost type the gross
  and net amounts of its cells add up to those of the cost lines of that type; every token bucket of the cells adds up to what the
  report's aggregates contribute to it under the token convention, although tokens are split over cost types (with
  \<open>excl\<close> that is the bucket as reported; with \<open>incl\<close> the uncached input is what the input holds beyond the cache tokens,
  clamped at zero for each aggregate, and every other bucket is as reported); the
  discount of a cell is gross minus net, and there is one cell per key and cost type.\<close>

theorem cells_conserve:
  assumes "build_cells aggs ls grain conv capped mode = Inr (cells, n)"
  shows "(\<forall>T. sum_list (map gross_nano (filter (\<lambda>c. pc_cost_type c = T) cells)) =
           sum_list (map line_gross (filter (\<lambda>l. cell_line l \<and> cost_type l = Some T) ls)) \<and>
         sum_list (map net_nano (filter (\<lambda>c. pc_cost_type c = T) cells)) =
           sum_list (map cl_amount_nano (filter (\<lambda>l. cell_line l \<and> cost_type l = Some T) ls))) \<and>
    list_all (\<lambda>c. sum_list (map (c \<circ> pc_usage) cells) = sum_list (map (c \<circ> agg_reads conv) (filter cell_agg aggs))) BUCKET_FIELDS \<and>
    list_all (\<lambda>c. discount_nano c = gross_nano c - net_nano c) cells \<and>
    distinct (map (\<lambda>c. (cell_key_of c, pc_cost_type c)) cells)"
  by (rule build_cells_conserves [OF assms])

lemma wit_cells: "case build_cells [wit_agg] wit_lines ''month'' ''excl'' [] ''org'' of
    Inr r \<Rightarrow> map (\<lambda>c. (pc_entity_id c, pc_cost_type c, gross_nano c, uncached_input (pc_usage c), u_output (pc_usage c))) (fst r) =
      [(''org:acme'', ''ai_credit.direct'', 200, 3, 1), (''org:acme'', ''ai_credit.user'', 600, 7, 4)]
  | Inl _ \<Rightarrow> False"
  by code_simp

lemma wit_built: "build_cells [wit_agg] wit_lines ''month'' ''excl'' [] ''org'' = Inr (fst wit_table, snd wit_table)"
  using wit_cells by (auto simp: wit_table_def split: sum.splits)

lemma wit_inputs: "sum_list (map line_gross (filter (\<lambda>l. cell_line l \<and> cost_type l = Some ''ai_credit.user'') wit_lines)) = 600 \<and>
    sum_list (map (u_output \<circ> agg_reads ''excl'') (filter cell_agg [wit_agg])) = 5"
  by code_simp

theorem cells_conserve_witness:
  "sum_list (map gross_nano (filter (\<lambda>c. pc_cost_type c = ''ai_credit.user'') (fst wit_table))) = 600 \<and>
    sum_list (map (u_output \<circ> pc_usage) (fst wit_table)) = 5"
  using cells_conserve [OF wit_built] wit_inputs by (simp add: BUCKET_FIELDS_def)

end
