(* ===== verification/Pool_Rule.thy ===== *)
theory Pool_Rule
  imports Pool_Cells Labels Dates
begin

text \<open>
  The Copilot pool rule of \<open>core/pool.py\<close>: the included credits of a seat, the regime of a pool month, the overage of
  an entity with capped cost centers, the classification of discounts, the month-end forecast, and the conversion
  of credit savings and seat changes to invoice dollars. The plan facts of \<open>core/facts.py\<close> are a parameter
  \<open>facts\<close>. The lemmas show what the conversions conserve, that the forecast is ordered, and that realised savings
  are the invoice difference of the pool.
\<close>

section \<open>Definitions\<close>

subsection \<open>Dates\<close>

definition KNOWN_PLANS :: "string list" where "KNOWN_PLANS = [''business'', ''enterprise'']"
definition SCENARIOS :: "string list" where "SCENARIOS = [''business'', ''enterprise'']"
definition MAX_COUNT :: int where "MAX_COUNT = 10 ^ 15"

definition read_int :: "string \<Rightarrow> int" where "read_int s = int (read_nat s)"

text \<open>Days are proleptic ordinals; a month is the pair of its first and last day.\<close>

definition month_bounds :: "string \<Rightarrow> (int \<times> int) res" where
  "month_bounds m = rbind (guard (month_re m) UsageError) (\<lambda>_.
     let year = read_int (take 4 m); mon = read_int (drop 5 m); start = ymd2ord year mon 1 in
     rbind (guard (1 \<le> year) UsageError) (\<lambda>_.
       if mon = 12 then Inr (start, ymd2ord year 12 31) else Inr (start, ymd2ord year (mon + 1) 1 - 1)))"

definition days_in_month :: "int \<Rightarrow> int \<Rightarrow> int" where
  "days_in_month y m = (if m = 12 then 31 else days_before_month y (m + 1) - days_before_month y m)"

definition parse_date :: "string \<Rightarrow> int res" where
  "parse_date s = rbind (guard (date_ok s) UsageError) (\<lambda>_.
     let y = read_int (take 4 s); m = read_int (take 2 (drop 5 s)); d = read_int (drop 8 s) in
     if 1 \<le> y \<and> 1 \<le> m \<and> m \<le> 12 \<and> 1 \<le> d \<and> d \<le> days_in_month y m then Inr (ymd2ord y m d) else Inl UsageError)"

text \<open>\<open>timedelta\<close> refuses more than 999999999 days.\<close>

definition days_before :: "int \<Rightarrow> int \<Rightarrow> int res" where
  "days_before day n = (if n \<le> 999999999 \<and> 1 \<le> day - n then Inr (day - n) else Inl UsageError)"

definition weekday :: "int \<Rightarrow> int" where "weekday day = (day + 6) mod 7"

subsection \<open>Decimal sums\<close>

definition dsum :: "dec list \<Rightarrow> dec res" where
  "dsum ds = rfold (dec_add EXACT_CTX) (dec_of_int 0) ds"

definition credits_to_nano :: "dec \<Rightarrow> int res" where
  "credits_to_nano credits = rbind (dec_mul EXACT_CTX credits (mkdec False 1 (-2))) (\<lambda>d. decimal_to_nano (Finite d))"

subsection \<open>The pool of an entity\<close>

record plan_fact =
  seat_usd_per_month :: dec
  included_credits :: int
  promo_credits :: "int option"
  promo_from :: "string option"
  promo_to :: "string option"

type_synonym plan_facts = "(string \<times> plan_fact) list"

definition plan_fact_of :: "plan_facts \<Rightarrow> string \<Rightarrow> plan_fact res" where
  "plan_fact_of facts p = (case map_of facts p of Some f \<Rightarrow> Inr f | None \<Rightarrow> Inl UsageError)"

definition allowance :: "plan_facts \<Rightarrow> string \<Rightarrow> string \<Rightarrow> bool \<Rightarrow> (dec \<times> string option) res" where
  "allowance facts p month eligible = rbind (plan_fact_of facts p) (\<lambda>f.
     let day = month @ ''-01'' in Inr (
     case (promo_credits f, promo_from f, promo_to f) of
       (Some c, Some a, Some b) \<Rightarrow>
         if eligible \<and> a \<le> day \<and> day < b then (dec_of_int c, Some (''promo:'' @ a @ ''/'' @ b))
         else (dec_of_int (included_credits f), None)
     | _ \<Rightarrow> (dec_of_int (included_credits f), None)))"

definition pool_step ::
    "plan_facts \<Rightarrow> string \<Rightarrow> bool \<Rightarrow> dec \<times> string option \<Rightarrow> string \<times> dec \<Rightarrow> (dec \<times> string option) res" where
  "pool_step facts month eligible acc pn = (case (acc, pn) of ((tot, promo), (p, n)) \<Rightarrow>
     rbind (guard (p \<in> set KNOWN_PLANS) UsageError) (\<lambda>_.
     case as_decimal (PDec (Finite n)) of
       None \<Rightarrow> Inl UsageError
     | Some cnt \<Rightarrow>
         rbind (guard (coef cnt = 0 \<or> \<not> sign cnt) UsageError) (\<lambda>_.
         rbind (allowance facts p month eligible) (\<lambda>(per_seat, applied).
         rbind (dec_mul EXACT_CTX cnt per_seat) (\<lambda>c.
         rbind (dec_add EXACT_CTX tot c) (\<lambda>tot'.
           Inr (tot', if coef cnt \<noteq> 0 \<and> applied \<noteq> None then applied else promo)))))))"

definition pool_credits :: "plan_facts \<Rightarrow> (string \<times> dec) list \<Rightarrow> string \<Rightarrow> bool \<Rightarrow> (dec \<times> string option) res" where
  "pool_credits facts seats month eligible = rbind (month_bounds month) (\<lambda>_.
     rfold (pool_step facts month eligible) (dec_of_int 0, None) (sort_key fst seats))"

definition pool_regime :: "int \<Rightarrow> int \<Rightarrow> int option \<Rightarrow> string res" where
  "pool_regime low high pool = (case pool of
      None \<Rightarrow> Inr ''unknown''
    | Some p \<Rightarrow> if high < low then Inl UsageError
               else Inr (if high \<le> p then ''slack'' else if p < low then ''overage'' else ''straddling''))"

definition invoice_delta :: "int \<Rightarrow> int \<Rightarrow> int \<Rightarrow> int" where
  "invoice_delta before after pool = max 0 (before - pool) - max 0 (after - pool)"

subsection \<open>Overage with capped cost centers\<close>

definition cc_name :: "string \<Rightarrow> string" where
  "cc_name key = (if startswith key ''cc:'' then drop 3 key else key)"

definition cc_keyed :: "(string, 'a) dict \<Rightarrow> (string, 'a) dict" where
  "cc_keyed d = foldl (\<lambda>m (k, v). dset (''cc:'' @ cc_name k) v m) [] d"

definition cap_step :: "(string, int) dict \<Rightarrow> (string, string) dict \<Rightarrow> int \<times> int \<times> int \<Rightarrow> string \<times> int \<Rightarrow> int \<times> int \<times> int" where
  "cap_step consumption pol acc kc = (case (acc, kc) of ((low, high, draws), (cc, cap)) \<Rightarrow>
     let use = dget consumption cc 0; over = max 0 (use - cap); policy = dget pol cc ''unknown''
     in (if policy = ''continue'' then low + over else low,
         if policy \<noteq> ''block'' then high + over else high,
         draws + min use cap))"

definition overage_total ::
    "(string, int) dict \<Rightarrow> (string, int) dict \<Rightarrow> (string, int) dict \<Rightarrow> (string, string) dict \<Rightarrow> (int \<times> int) res" where
  "overage_total consumption pools capped policies =
     (let caps = cc_keyed capped; pol = cc_keyed policies;
          uncapped = sort (remdups (filter (\<lambda>k. k \<notin> fst ` set caps) (map fst consumption @ map fst pools)))
      in case foldl (cap_step consumption pol) (0, 0, 0) (sort_key fst caps) of (low, high, draws) \<Rightarrow>
         if 1 < length uncapped \<and> caps = [] then
           let rest = sum_list (map (\<lambda>e. max 0 (dget consumption e 0 - dget pools e 0)) uncapped)
           in Inr (low + rest, high + rest)
         else if 1 < length uncapped then Inl UsageError
         else let remainder = max 0 (sum_list (map (\<lambda>e. dget consumption e 0) uncapped) + draws - sum_list (map snd pools))
              in Inr (low + remainder, high + remainder))"

subsection \<open>Discounts\<close>

definition is_pooled :: "pool_cell \<Rightarrow> bool" where "is_pooled c = (pc_cost_type c \<in> set POOLED_COST_TYPES)"
definition is_direct :: "pool_cell \<Rightarrow> bool" where "is_direct c = (pc_cost_type c \<in> set DIRECT_COST_TYPES)"

definition direct_draws_pool :: "pool_cell list \<Rightarrow> string" where
  "direct_draws_pool cells =
     (let direct = filter is_direct cells;
          pool_days = map (\<lambda>c. (pc_month c, pc_date_utc c)) (filter (\<lambda>c. is_pooled c \<and> 0 < discount_nano c) cells)
      in if direct = [] then ''unknown''
         else if list_ex (\<lambda>c. 0 < discount_nano c) direct then ''yes''
         else if list_ex (\<lambda>c. (pc_month c, pc_date_utc c) \<in> set pool_days) direct then ''no''
         else ''unknown'')"

definition is_auto_tenth :: "int \<Rightarrow> int \<Rightarrow> bool" where
  "is_auto_tenth discount gross = (0 < gross \<and> \<bar>10 * discount - gross\<bar> \<le> max 10 (gross div 1000000))"

definition discount_step :: "int \<times> int \<Rightarrow> pool_cell \<Rightarrow> int \<times> int" where
  "discount_step acc c = (case acc of (other, rest) \<Rightarrow>
     if \<not> (is_pooled c \<or> is_direct c) \<or> discount_nano c = 0 then (other, rest)
     else if pc_routing c = ''auto'' \<and> 0 < net_nano c \<and> is_auto_tenth (discount_nano c) (gross_nano c)
     then (other + discount_nano c, rest) else (other, rest + discount_nano c))"

definition classify_discounts :: "pool_cell list \<Rightarrow> bool option \<Rightarrow> int \<Rightarrow> int option \<times> int \<times> int" where
  "classify_discounts cells gross_is_list pool_nano = (case foldl discount_step (0, 0) cells of (other, rest) \<Rightarrow>
     if gross_is_list = Some True \<and> rest \<le> pool_nano then (Some rest, other, 0) else (None, other, rest))"

subsection \<open>The month-end forecast\<close>

text \<open>\<open>ordered[idx]\<close> on a list that is never empty: the callers pass observed days.\<close>

definition rank_value :: "int list \<Rightarrow> int \<Rightarrow> int" where
  "rank_value vals num = sort vals ! nat ((num * int (length vals) + 9) div 10 - 1)"

definition add_daily :: "int \<Rightarrow> int \<Rightarrow> (int, int) dict \<Rightarrow> string \<times> int \<Rightarrow> (int, int) dict res" where
  "add_daily start finish d dn = rbind (parse_date (fst dn)) (\<lambda>day.
     Inr (if start \<le> day \<and> day \<le> finish then dset day (dget d day 0 + snd dn) d else d))"

definition check_lag :: "int \<Rightarrow> int res" where
  "check_lag n = (if n < 0 then Inl UsageError else Inr n)"

text \<open>\<open>xs[-n:]\<close>.\<close>

definition last_n :: "nat \<Rightarrow> 'a list \<Rightarrow> 'a list" where
  "last_n n xs = drop (length xs - n) xs"

definition or_else :: "'a list \<Rightarrow> 'a list \<Rightarrow> 'a list" where
  "or_else xs ys = (if xs \<noteq> [] then xs else ys)"

definition add_stats :: "(int \<Rightarrow> int list) \<Rightarrow> int list \<Rightarrow> nat \<Rightarrow> int" where
  "add_stats stats remaining i = sum_list (map (\<lambda>d. stats d ! i) remaining)"

definition amounts_of :: "(int, int) dict \<Rightarrow> int list \<Rightarrow> int list" where
  "amounts_of by_day days = map (\<lambda>d. dget by_day d 0) days"

definition business_days :: "(int, int) dict \<Rightarrow> int list \<Rightarrow> int list" where
  "business_days by_day observed = last_n 10 (amounts_of by_day (filter (\<lambda>d. weekday d < 5) observed))"

definition weekend_days :: "(int, int) dict \<Rightarrow> int list \<Rightarrow> int list" where
  "weekend_days by_day observed = last_n 4 (amounts_of by_day (filter (\<lambda>d. \<not> weekday d < 5) observed))"

definition day_stats :: "int list \<Rightarrow> int list \<Rightarrow> int \<Rightarrow> int list" where
  "day_stats business weekend d =
     map (rank_value (if weekday d < 5 then or_else business weekend else or_else weekend business)) [1, 5, 9]"

definition month_end :: "int list \<Rightarrow> int list \<Rightarrow> int \<Rightarrow> int list \<Rightarrow> int \<times> int \<times> int \<times> int" where
  "month_end business weekend seen remaining =
     (seen, seen + add_stats (day_stats business weekend) remaining 1,
      seen + add_stats (day_stats business weekend) remaining 0,
      seen + add_stats (day_stats business weekend) remaining 2)"

definition forecast_from :: "(int, int) dict \<Rightarrow> int list \<Rightarrow> int list \<Rightarrow> (int \<times> int \<times> int \<times> int) option" where
  "forecast_from by_day observed remaining =
     (if observed = [] then None
      else Some (month_end (business_days by_day observed) (weekend_days by_day observed)
        (sum_list (amounts_of by_day observed)) remaining))"

definition forecast :: "(string \<times> int) list \<Rightarrow> string \<Rightarrow> string \<Rightarrow> int \<Rightarrow> (int \<times> int \<times> int \<times> int) option res" where
  "forecast daily month today lag_days =
     rbind (month_bounds month) (\<lambda>(start, finish).
     rbind (parse_date today) (\<lambda>now. rbind (check_lag lag_days) (\<lambda>lag.
     rbind (days_before now lag) (\<lambda>cutoff.
     rbind (rfold (add_daily start finish) [] daily) (\<lambda>by_day.
       Inr (forecast_from by_day (filter (\<lambda>d. d \<le> cutoff) [start..finish]) (filter (\<lambda>d. \<not> d \<le> cutoff) [start..finish])))))))"

subsection \<open>Pool months\<close>

record pool_month =
  pm_entity_id :: string
  pm_month :: string
  billing_mode :: string
  pm_seats :: "(string \<times> string) list"
  seats_source :: string
  pm_pool_credits :: string
  pool_nano :: int
  pm_promo :: "string option"
  consumed_report_nano :: int
  consumed_estimate_nano :: int
  pool_draw_nano :: "int option"
  discount_other_nano :: int
  discount_unclassified_nano :: int
  overage_observed_nano :: int
  direct_net_nano :: int
  pm_direct_draws :: string
  capped_policy :: "string option"
  days_final :: int
  days_provisional :: int
  pm_days_in_month :: int
  pm_finality :: string
  pm_forecast :: "figure option"
  overage_forecast :: "figure option"
  pm_regime :: string
  pm_notes :: "string list"
  plan_source :: string
  plan_scenario :: "string option"
  plan_conflict :: bool

definition SEATS_LOWER_BOUND_NOTE :: string where
  "SEATS_LOWER_BOUND_NOTE = ''seats lower bound (report_users): the pool is a lower bound and overage '' @
     ''figures are upper bounds''"

definition figure_range :: "int \<Rightarrow> int \<Rightarrow> int \<Rightarrow> basis \<Rightarrow> bool \<Rightarrow> string \<Rightarrow> figure res" where
  "figure_range point low high b upper txt' = mk_figure \<lparr>nano = Some point, evidence = ESTIMATED, basis = b,
     finality = PROVISIONAL, low_nano = Some low, high_nano = Some high, ci_level_pct = None,
     calibration = UNCALIBRATED, upper_bound = upper, provenance = [], fig_note = txt'\<rparr>"

type_synonym levels = "int \<times> int \<times> int"

text \<open>The argument \<open>fc\<close> is (observed, point, low, high); \<open>pools\<close> is (low, point, high).\<close>

definition overage_figure :: "int \<times> int \<times> int \<times> int \<Rightarrow> levels \<Rightarrow> string option \<Rightarrow> bool \<Rightarrow> figure res" where
  "overage_figure fc pools policy lower_bound_seats = (case (fc, pools) of ((_, point, low, high), (p0, p1, p2)) \<Rightarrow>
     let c0 = max 0 (low - p0); c1 = max 0 (point - p1); c2 = max 0 (high - p2)
     in if policy = Some ''block'' then figure_range 0 0 0 LIST lower_bound_seats
          (''cap policy block: overage 0; blocked demand '' @ nano_to_credits_str c1 @ '' credits at p50 (ESTIMATED)'')
        else if policy = Some ''unknown'' then figure_range c1 0 c2 LIST lower_bound_seats
          ''overage forecast; cap policy unknown: low assumes block, point and high continue''
        else figure_range c1 c0 c2 LIST lower_bound_seats
          ''overage forecast: month-end consumption over the pool at p50 (p10-p90), at $0.01 per credit'')"

subsection \<open>Conversion to invoice dollars\<close>

definition or_point :: "int \<Rightarrow> int option \<Rightarrow> int" where
  "or_point n v = (case v of Some x \<Rightarrow> x | None \<Rightarrow> n)"

text \<open>(low, point, high).\<close>

definition consumption_states :: "pool_month \<Rightarrow> levels" where
  "consumption_states pm =
     (let c = consumed_report_nano pm
      in case (pm_finality pm = ''open'', pm_forecast pm) of
           (True, Some f) \<Rightarrow> (case nano f of
               Some n \<Rightarrow> (or_point n (low_nano f), n, or_point n (high_nano f))
             | None \<Rightarrow> (c, c, c))
         | _ \<Rightarrow> (c, c, c))"

definition realize :: "int \<Rightarrow> int \<Rightarrow> int \<Rightarrow> int" where
  "realize saving overage slack =
     (if 0 \<le> saving then min saving overage else if 0 < overage then saving else - max 0 (- saving - slack))"

definition scenario_note :: "pool_month \<Rightarrow> string" where
  "scenario_note pm = (case plan_scenario pm of
      Some s \<Rightarrow> if s = '''' then '''' else ''; plan unknown: scenario '' @ s | None \<Rightarrow> '''')"

text \<open>The overage a saving can be taken from, whether that is an upper bound, and its note.\<close>

definition overage_basis :: "pool_month \<Rightarrow> int \<times> bool \<times> string" where
  "overage_basis pm =
     (let upper = (seats_source pm = ''report_users'')
      in case (pm_finality pm = ''open'', Option.bind (overage_forecast pm) nano) of
           (True, Some n) \<Rightarrow> (n, upper \<or> upper_bound (the (overage_forecast pm)) \<or> capped_policy pm = Some ''unknown'',
             ''overage forecast '' @ nano_to_credits_str n @ '' credits'')
         | _ \<Rightarrow> (overage_observed_nano pm, upper, ''overage '' @ nano_to_credits_str (overage_observed_nano pm) @ '' credits''))"

definition realize_credit_saving :: "figure \<Rightarrow> pool_month \<Rightarrow> (figure \<times> figure) res" where
  "realize_credit_saving saving pm =
     rbind (guard (basis saving = LIST_EQUIVALENT \<or> basis saving = LIST) ContractViolation) (\<lambda>_.
     let scen = scenario_note pm in
     if nano saving = None \<or> pm_regime pm = ''unknown'' then
       (let reason = (if nano saving = None then ''unpriced: saving unpriced'' else ''unpriced: pool regime unknown'')
        in rbind (unpriced (reason @ scen) LIST) (\<lambda>a. rbind (unpriced (reason @ scen) LIST_EQUIVALENT) (\<lambda>b. Inr (a, b))))
     else (case overage_basis pm of (overage, upper, basis_note) \<Rightarrow>
       let point = the (nano saving); low = or_point point (low_nano saving); high = or_point point (high_nano saving);
           slack = max 0 (pool_nano pm - fst (snd (consumption_states pm)));
           inv' = (\<lambda>s. realize s overage slack); ranged = (low_nano saving \<noteq> None);
           cal = (if calibration saving \<noteq> CalibrationNA then calibration saving else UNCALIBRATED);
           txt' = ''pool rule (R11): invoice = min(saving, overage); regime '' @ pm_regime pm @ ''; '' @ basis_note @ scen
       in rbind (mk_figure \<lparr>nano = Some (inv' point), evidence = ESTIMATED, basis = LIST, finality = FinalityNA,
            low_nano = (if ranged then Some (inv' low) else None), high_nano = (if ranged then Some (inv' high) else None),
            ci_level_pct = None, calibration = cal, upper_bound = upper \<or> upper_bound saving,
            provenance = provenance saving, fig_note = txt'\<rparr>) (\<lambda>invoice.
          rbind (mk_figure \<lparr>nano = Some (point - inv' point), evidence = ESTIMATED, basis = LIST_EQUIVALENT,
            finality = FinalityNA, low_nano = (if ranged then Some (low - inv' low) else None),
            high_nano = (if ranged then Some (high - inv' high) else None), ci_level_pct = None, calibration = cal,
            upper_bound = upper_bound saving, provenance = provenance saving,
            fig_note = txt' @ ''; headroom: list-equivalent pool credits, not invoice dollars''\<rparr>) (\<lambda>head.
            Inr (invoice, head)))))"

definition seat_fee :: "plan_facts \<Rightarrow> (string \<times> pyval) list \<Rightarrow> string \<Rightarrow> string \<Rightarrow> dec res" where
  "seat_fee facts month_fee p effective =
     (case List.find (\<lambda>k. k \<in> fst ` set month_fee) [p, effective] of
        Some k \<Rightarrow> (case as_decimal (dget month_fee k PNone) of Some fee \<Rightarrow> Inr fee | None \<Rightarrow> Inl UsageError)
      | None \<Rightarrow> rbind (plan_fact_of facts effective) (\<lambda>f. Inr (seat_usd_per_month f)))"

text \<open>One plan of a seat change: the fees and the pool credits so far.\<close>

definition seat_step ::
    "plan_facts \<Rightarrow> (string \<times> pyval) list \<Rightarrow> pool_month \<Rightarrow> dec \<times> dec \<Rightarrow> string \<times> int \<Rightarrow> (dec \<times> dec) res" where
  "seat_step facts month_fee pm acc pn = (case (acc, pn) of ((fees, dpool), (p, n)) \<Rightarrow>
     rbind (guard (\<bar>n\<bar> \<le> MAX_COUNT) UsageError) (\<lambda>_.
     rbind (guard (p \<in> set LICENSE_PLANS) UsageError) (\<lambda>_.
     if n = 0 then Inr (fees, dpool)
     else rbind (if p = ''unknown'' then (case plan_scenario pm of None \<Rightarrow> Inl UsageError | Some s \<Rightarrow> Inr s) else Inr p) (\<lambda>effective.
       rbind (seat_fee facts month_fee p effective) (\<lambda>fee.
       rbind (dec_mul EXACT_CTX (dec_of_int n) fee) (\<lambda>f. rbind (dec_add EXACT_CTX fees f) (\<lambda>fees'.
       rbind (allowance facts effective (pm_month pm) (pm_promo pm \<noteq> None)) (\<lambda>(per_seat, _).
       rbind (dec_mul EXACT_CTX (dec_of_int n) per_seat) (\<lambda>c. rbind (dec_add EXACT_CTX dpool c) (\<lambda>dpool'.
         Inr (fees', dpool')))))))))))"

definition seat_saving :: "int \<Rightarrow> int \<Rightarrow> int \<Rightarrow> int \<Rightarrow> string option \<Rightarrow> int" where
  "seat_saving dfees pool0 pool1 consumed policy =
     - dfees - (if policy = Some ''block'' then 0 else max 0 (consumed - pool1) - max 0 (consumed - pool0))"

definition realize_seat_change ::
    "plan_facts \<Rightarrow> pool_month \<Rightarrow> (string \<times> int) list \<Rightarrow> (string \<times> pyval) list \<Rightarrow> figure option res" where
  "realize_seat_change facts pm delta month_fee =
     (if billing_mode pm \<in> {''volume'', ''azure''} then Inr None
      else rbind (rfold (seat_step facts month_fee pm) (dec_of_int 0, dec_of_int 0) (sort_key fst delta)) (\<lambda>(fees, dpool).
        if pm_regime pm = ''unknown''
        then rbind (unpriced (''unpriced: pool regime unknown'' @ scenario_note pm) LIST) (\<lambda>f. Inr (Some f))
        else rbind (decimal_to_nano (Finite fees)) (\<lambda>dfees. rbind (credits_to_nano dpool) (\<lambda>dp.
          let pool0 = pool_nano pm; pool1 = max 0 (pool0 + dp);
              policies = (if capped_policy pm = Some ''unknown'' then [Some ''block'', Some ''continue''] else [capped_policy pm]);
              row = (\<lambda>consumed. map (seat_saving dfees pool0 pool1 consumed) policies)
          in case consumption_states pm of (c0, c1, c2) \<Rightarrow>
             let point = last (row c1); flat = row c0 @ row c1 @ row c2; low = Min (set flat); high = Max (set flat); ranged = (low \<noteq> high)
             in rbind (fmt_usd (Some (- dfees)) 2) (\<lambda>fee_txt.
                let t1 = ''seat change at list price (fees saved '' @ fee_txt @ ''); regime '' @ pm_regime pm @ scenario_note pm @
                      ''; proration, upfront charges and volume/EA pricing not modeled'';
                    t2 = (if billing_mode pm = ''unknown'' then ''; billing mode unknown (volume/azure entities save only at renewal)'' else '''');
                    t3 = (if capped_policy pm = Some ''unknown'' then ''; cap policy unknown: range spans block and continue'' else '''');
                    t4 = (if seats_source pm = ''report_users'' then ''; '' @ SEATS_LOWER_BOUND_NOTE else '''')
                in rbind (mk_figure \<lparr>nano = Some point, evidence = ESTIMATED, basis = LIST, finality = FinalityNA,
                     low_nano = (if ranged then Some low else None), high_nano = (if ranged then Some high else None),
                     ci_level_pct = None, calibration = UNCALIBRATED, upper_bound = False, provenance = [],
                     fig_note = t1 @ t2 @ t3 @ t4\<rparr>) (\<lambda>f. Inr (Some f)))))))"

subsection \<open>Examples\<close>

definition wit_saving :: "int \<Rightarrow> int \<Rightarrow> int \<Rightarrow> figure" where
  "wit_saving n l h = \<lparr>nano = Some n, evidence = ESTIMATED, basis = LIST_EQUIVALENT, finality = FinalityNA, low_nano = Some l,
     high_nano = Some h, ci_level_pct = None, calibration = UNCALIBRATED, upper_bound = False, provenance = [], fig_note = ''s''\<rparr>"

definition wit_pm :: "string \<Rightarrow> int \<Rightarrow> figure option \<Rightarrow> string option \<Rightarrow> pool_month" where
  "wit_pm fin overage fc policy = \<lparr>pm_entity_id = ''enterprise'', pm_month = ''2026-07'', billing_mode = ''metered'',
     pm_seats = [(''business'', ''10'')], seats_source = ''seat_lines'', pm_pool_credits = ''19000'', pool_nano = 1000,
     pm_promo = None, consumed_report_nano = 700, consumed_estimate_nano = 0, pool_draw_nano = None,
     discount_other_nano = 0, discount_unclassified_nano = 0, overage_observed_nano = overage, direct_net_nano = 0,
     pm_direct_draws = ''unknown'', capped_policy = policy, days_final = 31, days_provisional = 0, pm_days_in_month = 31,
     pm_finality = fin, pm_forecast = fc, overage_forecast = None, pm_regime = ''slack'', pm_notes = [],
     plan_source = ''seat_lines'', plan_scenario = None, plan_conflict = False\<rparr>"

text \<open>The figures of a conversion, and what they add up to.\<close>

definition splits_saving :: "figure \<Rightarrow> int \<Rightarrow> figure \<times> figure \<Rightarrow> bool" where
  "splits_saving saving overage ih = (case ih of (invoice, head) \<Rightarrow>
     valid_figure invoice \<and> valid_figure head \<and> basis invoice = LIST \<and> basis head = LIST_EQUIVALENT \<and>
     (\<exists>i h. nano invoice = Some i \<and> nano head = Some h \<and> nano saving = Some (i + h) \<and> i \<le> overage) \<and>
     (case low_nano saving of
        None \<Rightarrow> low_nano invoice = None \<and> low_nano head = None
      | Some l \<Rightarrow> \<exists>i h. low_nano invoice = Some i \<and> low_nano head = Some h \<and> l = i + h) \<and>
     (case high_nano saving of
        None \<Rightarrow> high_nano invoice = None \<and> high_nano head = None
      | Some l \<Rightarrow> \<exists>i h. high_nano invoice = Some i \<and> high_nano head = Some h \<and> l = i + h))"

text \<open>What a daily amount adds to the observed total of the days from \<open>start\<close> to \<open>finish\<close>.\<close>

definition amount_between :: "int \<Rightarrow> int \<Rightarrow> string \<times> int \<Rightarrow> int" where
  "amount_between start finish dn = (case parse_date (fst dn) of
     Inl _ \<Rightarrow> 0 | Inr day \<Rightarrow> if start \<le> day \<and> day \<le> finish then snd dn else 0)"

definition wit_daily :: "(string \<times> int) list" where
  "wit_daily = [(''2026-07-01'', 30), (''2026-07-02'', 10), (''2026-07-03'', 20)]"

section \<open>Lemmas\<close>

subsection \<open>Realised savings are invoice differences\<close>

text \<open>What a saving realises in a pool month is exactly the change of the invoice: with the overage and the slack
  of the month's consumption, the case distinction of the code equals the difference of the overages before and
  after, for savings and for cost increases, in a month below and above its pool.\<close>

theorem realize_is_invoice_delta:
  "realize s (max 0 (c - p)) (max 0 (p - c)) = invoice_delta c (c - s) p"
  unfolding realize_def invoice_delta_def by (auto simp: min_def max_def)

lemma realize_mono: "0 \<le> overage \<Longrightarrow> 0 \<le> slack \<Longrightarrow> s \<le> t \<Longrightarrow> realize s overage slack \<le> realize t overage slack"
  unfolding realize_def by (auto simp: min_def max_def)

lemma headroom_mono: "s \<le> t \<Longrightarrow> s - realize s overage slack \<le> t - realize t overage slack"
  if "0 \<le> overage" "0 \<le> slack"
  using that unfolding realize_def by (auto simp: min_def max_def)

lemma valid_range:
  assumes "valid_figure f" "nano f = Some n"
  shows "low_nano f = None \<longleftrightarrow> high_nano f = None" "or_point n (low_nano f) \<le> n" "n \<le> or_point n (high_nano f)"
  using assms unfolding valid_figure_def mk_figure_def
  by (auto simp: or_point_def split: if_splits option.splits)

lemma unpriced_conversion:
  "startswith reason UNPRICED_PREFIX \<Longrightarrow> \<exists>f. unpriced reason b = Inr f \<and> valid_figure f \<and> nano f = None \<and> basis f = b"
  by (simp add: unpriced_def with_unpriced_prefix_def valid_figure_def mk_figure_def)

lemma reasons_prefixed:
  "startswith (''unpriced: saving unpriced'' @ s) UNPRICED_PREFIX" "startswith (''unpriced: pool regime unknown'' @ s) UNPRICED_PREFIX"
  by (simp_all add: startswith_def UNPRICED_PREFIX_def)

lemma priced_saving_splits:
  assumes "valid_figure saving" "nano saving = Some s" "basis saving \<in> {LIST, LIST_EQUIVALENT}"
    and "pm_regime pm \<noteq> ''unknown''" "0 \<le> fst (overage_basis pm)"
  shows "\<exists>ih. realize_credit_saving saving pm = Inr ih \<and> splits_saving saving (fst (overage_basis pm)) ih"
proof -
  obtain overage upper txt' where ob: "overage_basis pm = (overage, upper, txt')" by (cases "overage_basis pm") auto
  define slack where "slack = max 0 (pool_nano pm - fst (snd (consumption_states pm)))"
  define r where "r x = realize x overage slack" for x
  have o: "0 \<le> overage" "0 \<le> slack" using assms(5) ob by (simp_all add: slack_def)
  note range = valid_range [OF assms(1,2)]
  have m: "r (or_point s (low_nano saving)) \<le> r s" "r s \<le> r (or_point s (high_nano saving))"
    "or_point s (low_nano saving) - r (or_point s (low_nano saving)) \<le> s - r s"
    "s - r s \<le> or_point s (high_nano saving) - r (or_point s (high_nano saving))"
    using range(2,3) realize_mono [OF o] headroom_mono [OF o] by (simp_all add: r_def)
  have i: "r s \<le> overage" using o unfolding r_def realize_def by (auto simp: min_def max_def)
  show ?thesis
    using assms(2-4) range(1) m i
    by (cases "low_nano saving"; cases "high_nano saving")
      (auto simp: realize_credit_saving_def ob guard_def splits_saving_def valid_figure_def mk_figure_def or_point_def
         slack_def [symmetric] r_def [symmetric] Let_def)
qed

text \<open>C12: Converting a credit saving of a pool month to invoice dollars splits it without loss. For a valid saving in a
  month whose overage is not negative: a saving on another basis than list or list-equivalent is refused with
  ContractViolation; a saving without a price, or a month whose billing regime is unknown, gives two valid figures without a
  price, one on either basis; in every other case the conversion succeeds, the invoice part and the headroom are
  valid figures that add up to the saving at the point, at the low and at the high end, and the invoice part never
  exceeds the overage.\<close>

theorem credit_saving_splits:
  assumes "valid_figure saving" "0 \<le> fst (overage_basis pm)"
  shows "if basis saving \<notin> {LIST, LIST_EQUIVALENT} then realize_credit_saving saving pm = Inl ContractViolation
    else if nano saving = None \<or> pm_regime pm = ''unknown'' then
      (\<exists>a b. realize_credit_saving saving pm = Inr (a, b) \<and> valid_figure a \<and> valid_figure b \<and>
         nano a = None \<and> nano b = None \<and> basis a = LIST \<and> basis b = LIST_EQUIVALENT)
    else (\<exists>ih. realize_credit_saving saving pm = Inr ih \<and> splits_saving saving (fst (overage_basis pm)) ih)"
proof (cases "basis saving \<in> {LIST, LIST_EQUIVALENT} \<and> \<not> (nano saving = None \<or> pm_regime pm = ''unknown'')")
  case True
  then show ?thesis using priced_saving_splits [OF assms(1) _ _ _ assms(2)] by auto
next
  case False
  define reason where "reason = (if nano saving = None then ''unpriced: saving unpriced'' else ''unpriced: pool regime unknown'') @ scenario_note pm"
  have p: "startswith reason UNPRICED_PREFIX" unfolding reason_def by (simp only: reasons_prefixed split: if_split) simp
  from unpriced_conversion [OF p, of LIST] unpriced_conversion [OF p, of LIST_EQUIVALENT] False show ?thesis
    unfolding realize_credit_saving_def Let_def reason_def [symmetric] by (auto simp: guard_def)
qed

text \<open>A negative observed overage (net credits exceed the charges) breaks the monotonicity: for a saving whose range
  contains zero the point of the invoice part lies below its low end, and the construction of the figure fails.\<close>

lemma negative_overage_refused:
  "realize_credit_saving (wit_saving 0 (-1) 1) (wit_pm ''closed'' (-100) None None) = Inl ContractViolation"
  by code_simp

subsection \<open>The forecast is ordered\<close>

lemma rank_index:
  assumes "vals \<noteq> []" "1 \<le> a" "a \<le> 10"
  shows "0 \<le> (a * int (length vals) + 9) div 10 - 1" "(a * int (length vals) + 9) div 10 - 1 < int (length vals)"
proof -
  have n: "1 \<le> int (length vals)" using assms(1) by (cases vals) auto
  have "1 * 1 \<le> a * int (length vals)" using assms(2) n by (intro mult_mono) auto
  then show "0 \<le> (a * int (length vals) + 9) div 10 - 1" by linarith
  have "a * int (length vals) \<le> 10 * int (length vals)" using assms(3) by (intro mult_right_mono) auto
  then show "(a * int (length vals) + 9) div 10 - 1 < int (length vals)" by linarith
qed

lemma rank_mono:
  assumes "vals \<noteq> []" "1 \<le> a" "a \<le> b" "b \<le> 10"
  shows "rank_value vals a \<le> rank_value vals b"
proof -
  have "a * int (length vals) \<le> b * int (length vals)" using assms(3) by (intro mult_right_mono) auto
  then have "(a * int (length vals) + 9) div 10 - 1 \<le> (b * int (length vals) + 9) div 10 - 1"
    by (intro diff_right_mono zdiv_mono1) auto
  moreover have "nat ((b * int (length vals) + 9) div 10 - 1) < length vals"
    using rank_index [OF assms(1) _ assms(4)] assms(2,3) by linarith
  ultimately show ?thesis unfolding rank_value_def by (intro sorted_nth_mono) auto
qed

lemma rank_in: "vals \<noteq> [] \<Longrightarrow> 1 \<le> a \<Longrightarrow> a \<le> 10 \<Longrightarrow> rank_value vals a \<in> set vals"
  using rank_index [of vals a] unfolding rank_value_def
  by (metis length_sort nat_less_iff nth_mem set_sort)

lemma add_stats_mono: "(\<And>d. d \<in> set xs \<Longrightarrow> st d ! i \<le> st d ! j) \<Longrightarrow> add_stats st xs i \<le> add_stats st xs j"
  unfolding add_stats_def by (intro sum_list_mono) auto

lemma last_n_eq_Nil: "0 < n \<Longrightarrow> last_n n xs = [] \<longleftrightarrow> xs = []"
  by (cases xs) (auto simp: last_n_def)

lemma or_else_nonempty: "or_else xs ys = [] \<longleftrightarrow> xs = [] \<and> ys = []"
  by (simp add: or_else_def)

lemma daily_nonneg:
  assumes "list_all (\<lambda>(d, n). 0 \<le> n) daily" "rfold (add_daily a b) [] daily = Inr by_day"
  shows "0 \<le> dget by_day d 0"
proof -
  have "rsat (list_all (\<lambda>(d, n). 0 \<le> n)) (rfold (add_daily a b) [] daily)"
  proof (rule rsat_rfold)
    fix m :: "(int, int) dict" and x assume m: "list_all (\<lambda>(d, n). 0 \<le> n) m" and x: "x \<in> set daily"
    have "0 \<le> dget m k 0" for k
      using m by (auto simp: dget_def list_all_iff split: option.splits dest: map_of_SomeD)
    moreover have "0 \<le> snd x" using assms(1) x by (auto simp: list_all_iff)
    ultimately show "rsat (list_all (\<lambda>(d, n). 0 \<le> n)) (add_daily a b m x)"
      using m by (auto simp: add_daily_def intro!: rsat_bind [OF rsat_any] list_all_dset)
  qed simp
  then show ?thesis
    using assms(2) by (auto simp: dget_def list_all_iff split: option.splits dest: map_of_SomeD)
qed

lemma amounts_dset:
  "distinct xs \<Longrightarrow> sum_list (amounts_of (dset day (dget d day 0 + n) d) xs) = sum_list (amounts_of d xs) + (if day \<in> set xs then n else 0)"
  by (induction xs) (auto simp: amounts_of_def dget_dset)

lemma daily_total:
  assumes "distinct xs" "rfold (add_daily a b) d0 daily = Inr by_day" "\<And>day. a \<le> day \<and> day \<le> b \<and> day \<in> set xs \<longleftrightarrow> a \<le> day \<and> day \<le> c"
  shows "sum_list (amounts_of by_day xs) = sum_list (amounts_of d0 xs) + sum_list (map (amount_between a c) daily)"
  using assms(2)
proof (induction daily arbitrary: d0)
  case (Cons dn daily)
  obtain day where day: "parse_date (fst dn) = Inr day" using Cons.prems by (auto simp: add_daily_def res_simps)
  define d1 where "d1 = (if a \<le> day \<and> day \<le> b then dset day (dget d0 day 0 + snd dn) d0 else d0)"
  have "add_daily a b d0 dn = Inr d1" by (simp add: add_daily_def day d1_def)
  then have "rfold (add_daily a b) d1 daily = Inr by_day" using Cons.prems by simp
  moreover have "sum_list (amounts_of d1 xs) = sum_list (amounts_of d0 xs) + amount_between a c dn"
    using assms(3) [of day] by (auto simp: d1_def amounts_dset [OF assms(1)] amount_between_def day)
  ultimately show ?case using Cons.IH by simp
qed simp

text \<open>C36: The month-end forecast is an ordered range around what was observed. Whenever a forecast is made, its observed
  total is the sum of the daily amounts of the month's days up to the report lag, the low end is at most the point and
  the point at most the high end; with non-negative daily amounts nothing falls below what was observed; and
  when the report lag has passed for the whole month the forecast is the observed total.\<close>

theorem forecast_ordered:
  assumes "forecast daily month today lag = Inr (Some (seen, point, low, high))"
  shows "low \<le> point \<and> point \<le> high \<and> (list_all (\<lambda>(d, n). 0 \<le> n) daily \<longrightarrow> seen \<le> low) \<and>
    (\<exists>a b t. month_bounds month = Inr (a, b) \<and> parse_date today = Inr t \<and>
       seen = sum_list (map (amount_between a (min b (t - lag))) daily) \<and>
       (b \<le> t - lag \<longrightarrow> low = seen \<and> point = seen \<and> high = seen))"
proof -
  obtain a b t by_day where r: "month_bounds month = Inr (a, b)" "parse_date today = Inr t"
    "rfold (add_daily a b) [] daily = Inr by_day"
    "forecast_from by_day (filter (\<lambda>d. d \<le> t - lag) [a..b]) (filter (\<lambda>d. \<not> d \<le> t - lag) [a..b]) = Some (seen, point, low, high)"
    using assms unfolding forecast_def by (auto simp: res_simps check_lag_def days_before_def split: if_splits)
  define observed remaining where "observed = filter (\<lambda>d. d \<le> t - lag) [a..b]" and "remaining = filter (\<lambda>d. \<not> d \<le> t - lag) [a..b]"
  define business weekend where "business = business_days by_day observed" and "weekend = weekend_days by_day observed"
  define pick where "pick d = (if weekday d < 5 then or_else business weekend else or_else weekend business)" for d
  define stats where "stats = day_stats business weekend"
  have f: "observed \<noteq> []" "seen = sum_list (amounts_of by_day observed)" "point = seen + add_stats stats remaining 1"
    "low = seen + add_stats stats remaining 0" "high = seen + add_stats stats remaining 2"
    using r(4) unfolding forecast_from_def month_end_def observed_def [symmetric] remaining_def [symmetric] business_def
      weekend_def stats_def by (auto split: if_splits)
  have "business \<noteq> [] \<or> weekend \<noteq> []"
    using f(1) by (cases observed)
      (auto simp: business_def weekend_def business_days_def weekend_days_def amounts_of_def last_n_eq_Nil filter_empty_conv)
  then have pick: "pick d \<noteq> []" for d by (auto simp: pick_def or_else_nonempty)
  have s: "stats d ! 0 = rank_value (pick d) 1" "stats d ! 1 = rank_value (pick d) 5" "stats d ! 2 = rank_value (pick d) 9" for d
    by (simp_all add: stats_def day_stats_def pick_def)
  note s = s s(2) [unfolded One_nat_def]
  have "low \<le> point" "point \<le> high"
    unfolding f(3-5) by (auto intro!: add_stats_mono simp: s rank_mono [OF pick])
  moreover have "seen \<le> low" if "list_all (\<lambda>(d, n). 0 \<le> n) daily"
  proof -
    have "set (pick d) \<subseteq> range (\<lambda>d. dget by_day d 0)" for d
      by (auto simp: pick_def or_else_def business_def weekend_def business_days_def weekend_days_def amounts_of_def
          last_n_def dest!: in_set_dropD)
    then have "0 \<le> stats d ! 0" for d
      using subsetD [OF _ rank_in [OF pick, of 1 d]] daily_nonneg [OF that r(3)] unfolding s(1)
      by (metis imageE order_refl one_le_numeral)
    then have "0 \<le> add_stats stats remaining 0" unfolding add_stats_def by (intro sum_list_nonneg) auto
    then show ?thesis by (simp add: f(4))
  qed
  moreover have "remaining = []" if "b \<le> t - lag"
    using that by (auto simp: remaining_def filter_empty_conv)
  moreover have "seen = sum_list (map (amount_between a (min b (t - lag))) daily)"
    using daily_total [of observed a b "[]" daily by_day "min b (t - lag)"] r(3)
    by (auto simp: f(2) observed_def amounts_of_def dget_def)
  ultimately show ?thesis using r(1,2) by (auto simp: f(3-5) add_stats_def)
qed

subsection \<open>Discounts are classified without loss\<close>

lemma discount_sums:
  "fst (foldl discount_step acc cells) + snd (foldl discount_step acc cells) =
     fst acc + snd acc + sum_list (map discount_nano (filter (\<lambda>c. is_pooled c \<or> is_direct c) cells))"
  by (induction cells arbitrary: acc) (auto simp: discount_step_def split: prod.splits)

lemma discounts_conserve:
  assumes "classify_discounts cells gil pool = (draw, other, unclassified)"
    and "list_all (\<lambda>c. discount_nano c = gross_nano c - net_nano c) cells"
  shows "(case draw of None \<Rightarrow> 0 | Some d \<Rightarrow> d) + other + unclassified =
      sum_list (map gross_nano (filter (\<lambda>c. is_pooled c \<or> is_direct c) cells)) -
      sum_list (map net_nano (filter (\<lambda>c. is_pooled c \<or> is_direct c) cells))"
    "\<forall>d. draw = Some d \<longrightarrow> d \<le> pool \<and> gil = Some True"
proof -
  let ?cs = "filter (\<lambda>c. is_pooled c \<or> is_direct c) cells"
  obtain o' r where f: "foldl discount_step (0, 0) cells = (o', r)" by (cases "foldl discount_step (0, 0) cells") auto
  have "sum_list (map discount_nano ?cs) = sum_list (map (\<lambda>c. gross_nano c - net_nano c) ?cs)"
    using assms(2) by (intro arg_cong [where f = sum_list] map_cong) (auto simp: list_all_iff)
  also have "\<dots> = sum_list (map gross_nano ?cs) - sum_list (map net_nano ?cs)" by (rule sum_list_subtractf)
  finally show "(case draw of None \<Rightarrow> 0 | Some d \<Rightarrow> d) + other + unclassified =
      sum_list (map gross_nano ?cs) - sum_list (map net_nano ?cs)"
    using discount_sums [of "(0, 0)" cells] assms(1) by (auto simp: f classify_discounts_def split: if_splits)
  show "\<forall>d. draw = Some d \<longrightarrow> d \<le> pool \<and> gil = Some True"
    using assms(1) by (auto simp: f classify_discounts_def split: if_splits)
qed

lemma sum_two_types:
  fixes h :: "'a \<Rightarrow> int"
  assumes "a \<noteq> b"
  shows "sum_list (map h (filter (\<lambda>x. t x = a \<or> t x = b) xs)) =
    sum_list (map h (filter (\<lambda>x. t x = a) xs)) + sum_list (map h (filter (\<lambda>x. t x = b) xs))"
  using assms by (induction xs) auto

text \<open>C13: From the cost lines of a report to the classes of its discounts nothing is lost: for the cell table of any lines
  and aggregates, pool draw, other and unclassified discounts add up to the gross minus the net amounts of the
  pooled and direct lines; a pool draw is only claimed when gross is known to be the list price, and it never
  exceeds the pool.\<close>

theorem line_discounts_classified:
  assumes "build_cells aggs ls grain conv capped mode = Inr (cells, n)"
    and "classify_discounts cells gil pool = (draw, other, unclassified)"
  shows "(case draw of None \<Rightarrow> 0 | Some d \<Rightarrow> d) + other + unclassified =
      sum_list (map (\<lambda>l. line_gross l - cl_amount_nano l)
        (filter (\<lambda>l. cell_line l \<and> cost_type l \<in> {Some ''ai_credit.user'', Some ''ai_credit.direct''}) ls)) \<and>
    (\<forall>d. draw = Some d \<longrightarrow> d \<le> pool \<and> gil = Some True)"
proof -
  note c = build_cells_conserves [OF assms(1)]
  let ?u = "''ai_credit.user''" and ?d = "''ai_credit.direct''"
  have sel: "filter (\<lambda>c. is_pooled c \<or> is_direct c) cells = filter (\<lambda>c. pc_cost_type c = ?u \<or> pc_cost_type c = ?d) cells"
    by (rule filter_cong) (auto simp: is_pooled_def is_direct_def POOLED_COST_TYPES_def DIRECT_COST_TYPES_def)
  have lines: "sum_list (map h (filter (\<lambda>l. cell_line l \<and> cost_type l \<in> {Some ?u, Some ?d}) ls)) =
      sum_list (map h (filter (\<lambda>l. cell_line l \<and> cost_type l = Some ?u) ls)) +
      sum_list (map h (filter (\<lambda>l. cell_line l \<and> cost_type l = Some ?d) ls))" for h :: "cost_line \<Rightarrow> int"
    by (induction ls) auto
  have "sum_list (map gross_nano (filter (\<lambda>c. is_pooled c \<or> is_direct c) cells)) -
      sum_list (map net_nano (filter (\<lambda>c. is_pooled c \<or> is_direct c) cells)) =
    sum_list (map (\<lambda>l. line_gross l - cl_amount_nano l)
      (filter (\<lambda>l. cell_line l \<and> cost_type l \<in> {Some ?u, Some ?d}) ls))"
    unfolding sel using c by (simp add: sum_two_types sum_list_subtractf lines [simplified])
  then show ?thesis using discounts_conserve [OF assms(2)] c by auto
qed

subsection \<open>The shared-pool formula\<close>

lemma caps_bounds:
  assumes "\<And>k. 0 \<le> dget use k 0" "list_all (\<lambda>(k, v). 0 \<le> v) ks"
    and "foldl (cap_step use pol) (l, h, d) ks = (l', h', d')"
  shows "l \<le> l' \<and> l' - l \<le> h' - h \<and> d \<le> d' \<and> (h' - h) + (d' - d) \<le> sum_list (map (\<lambda>(k, _). dget use k 0) ks) \<and>
    (list_all (\<lambda>(k, _). dget pol k ''unknown'' = ''continue'') ks \<longrightarrow>
      h' - h = l' - l \<and> (h' - h) + (d' - d) = sum_list (map (\<lambda>(k, _). dget use k 0) ks))"
  using assms(2,3)
proof (induction ks arbitrary: l h d)
  case (Cons kv ks)
  obtain l1 h1 d1 where s: "cap_step use pol (l, h, d) kv = (l1, h1, d1)" by (cases "cap_step use pol (l, h, d) kv") auto
  have "l \<le> l1 \<and> l1 - l \<le> h1 - h \<and> d \<le> d1 \<and> (h1 - h) + (d1 - d) \<le> dget use (fst kv) 0 \<and>
    (dget pol (fst kv) ''unknown'' = ''continue'' \<longrightarrow> h1 - h = l1 - l \<and> (h1 - h) + (d1 - d) = dget use (fst kv) 0)"
    using s Cons.prems(1) assms(1) [of "fst kv"]
    by (auto simp: cap_step_def Let_def min_def max_def split: prod.splits if_splits)
  moreover note Cons.IH [of l1 h1 d1]
  ultimately show ?case using Cons.prems s by (auto simp: case_prod_unfold)
qed simp

lemma foldl_keeps: "I b \<Longrightarrow> (\<And>b x. I b \<Longrightarrow> x \<in> set xs \<Longrightarrow> I (f b x)) \<Longrightarrow> I (foldl f b xs)"
  by (induction xs arbitrary: b) auto

lemma cc_keyed_keys: "distinct (map fst (cc_keyed d))"
  unfolding cc_keyed_def by (rule foldl_keeps) auto

lemma cc_keyed_values: "list_all (\<lambda>(k, v). P v) d \<Longrightarrow> list_all (\<lambda>(k, v). P v) (cc_keyed d)"
  unfolding cc_keyed_def by (rule foldl_keeps) (auto intro!: list_all_dset simp: list_all_iff [of _ d])

lemma dget_nonneg: "list_all (\<lambda>(k, v). 0 \<le> v) d \<Longrightarrow> 0 \<le> dget d k (0::int)"
  by (auto simp: dget_def list_all_iff split: option.splits dest: map_of_SomeD)

lemma sum_dget_keys:
  fixes d :: "('k, int) dict"
  assumes "distinct (map fst d)" "distinct ks" "fst ` set d \<subseteq> set ks"
  shows "sum_list (map (\<lambda>k. dget d k 0) ks) = sum_list (map snd d)"
  using sum_kv_keys [of d "set ks" "\<lambda>_ v. v" 0] assms
  by (simp add: sum_list_distinct_conv_sum_set case_prod_unfold)

text \<open>C37: The shared-pool formula stays within the consumption: with non-negative consumption, pools and caps the low
  overage is not negative, not above the high one, and the high one never exceeds all consumption; when every
  capped cost center continues past its cap, both agree and everything beyond the pools is billed.\<close>

theorem overage_within_consumption:
  assumes "overage_total use pools capped policies = Inr (low, high)"
    and "distinct (map fst use)" "distinct (map fst pools)"
    and "list_all (\<lambda>(k, v). 0 \<le> v) use" "list_all (\<lambda>(k, v). 0 \<le> v) pools" "list_all (\<lambda>(k, v). 0 \<le> v) capped"
  shows "0 \<le> low \<and> low \<le> high \<and> high \<le> sum_list (map snd use) \<and>
    (list_all (\<lambda>k. dget (cc_keyed policies) k ''unknown'' = ''continue'') (map fst (cc_keyed capped)) \<longrightarrow>
      low = high \<and> sum_list (map snd use) - sum_list (map snd pools) \<le> high)"
proof -
  define caps where "caps = sort_key fst (cc_keyed capped)"
  define un where "un = sort (remdups (filter (\<lambda>k. k \<notin> fst ` set (cc_keyed capped)) (map fst use @ map fst pools)))"
  obtain l h d where f: "foldl (cap_step use (cc_keyed policies)) (0, 0, 0) caps = (l, h, d)"
    by (cases "foldl (cap_step use (cc_keyed policies)) (0, 0, 0) caps") auto
  have keys: "distinct (map fst caps @ un)" "fst ` set use \<subseteq> set (map fst caps @ un)" "fst ` set pools \<subseteq> set (map fst caps @ un)"
    using cc_keyed_keys [of capped] by (auto simp: caps_def un_def distinct_sorted_keys)
  have total: "sum_list (map (\<lambda>(k, _). dget use k 0) caps) + sum_list (map (\<lambda>k. dget use k 0) un) = sum_list (map snd use)"
    using sum_dget_keys [OF assms(2) keys(1,2)] by (simp add: comp_def case_prod_unfold)
  have nn: "0 \<le> dget use k 0" "0 \<le> dget pools k 0" for k using assms(4,5) by (simp_all add: dget_nonneg)
  have cnn: "list_all (\<lambda>(k, v). 0 \<le> v) caps"
    using cc_keyed_values [OF assms(6)] by (simp add: caps_def list_all_iff)
  note b = caps_bounds [OF nn(1) cnn f]
  have un0: "0 \<le> sum_list (map (\<lambda>k. dget use k 0) un)" using nn(1) by (intro sum_list_nonneg) auto
  have p0: "0 \<le> sum_list (map snd pools)" using assms(5) by (intro sum_list_nonneg) (auto simp: list_all_iff)
  have cont: "list_all (\<lambda>(k, _). dget (cc_keyed policies) k ''unknown'' = ''continue'') caps \<longleftrightarrow>
      list_all (\<lambda>k. dget (cc_keyed policies) k ''unknown'' = ''continue'') (map fst (cc_keyed capped))"
    by (auto simp: caps_def list_all_iff)
  show ?thesis
  proof (cases "1 < length un \<and> cc_keyed capped = []")
    case True
    let ?rest = "sum_list (map (\<lambda>e. max 0 (dget use e 0 - dget pools e 0)) un)"
    have caps: "caps = []" using True by (simp add: caps_def)
    have "low = ?rest" "high = ?rest"
      using assms(1) True f caps unfolding overage_total_def Let_def un_def [symmetric] caps_def [symmetric] by auto
    moreover have "0 \<le> ?rest" by (intro sum_list_nonneg) auto
    moreover have "?rest \<le> sum_list (map (\<lambda>k. dget use k 0) un)" using nn by (intro sum_list_mono) simp
    moreover have "sum_list (map (\<lambda>k. dget use k 0 - dget pools k 0) un) \<le> ?rest" by (intro sum_list_mono) simp
    moreover have "sum_list (map (\<lambda>k. dget pools k 0) un) = sum_list (map snd pools)"
      using sum_dget_keys [OF assms(3) keys(1,3)] caps by simp
    ultimately show ?thesis using total caps by (simp add: sum_list_subtractf)
  next
    case False
    then have "low = l + max 0 (sum_list (map (\<lambda>k. dget use k 0) un) + d - sum_list (map snd pools))"
      "high = h + max 0 (sum_list (map (\<lambda>k. dget use k 0) un) + d - sum_list (map snd pools))"
      using assms(1) f unfolding overage_total_def Let_def un_def [symmetric] caps_def [symmetric] by (auto split: if_splits)
    then show ?thesis using b total un0 p0 cont by auto
  qed
qed

subsection \<open>Witnesses\<close>

lemma wit_saving_valid: "valid_figure (wit_saving 500 300 900)" "nano (wit_saving 500 300 900) = Some 500"
    "basis (wit_saving 500 300 900) = LIST_EQUIVALENT" "overage_basis (wit_pm ''closed'' 400 None None) = (400, False, ''overage 0.00004 credits'')"
    "pm_regime (wit_pm ''closed'' 400 None None) \<noteq> ''unknown''"
  by code_simp+

theorem credit_saving_splits_witness:
  "\<exists>ih. realize_credit_saving (wit_saving 500 300 900) (wit_pm ''closed'' 400 None None) = Inr ih \<and>
     splits_saving (wit_saving 500 300 900) 400 ih"
  using credit_saving_splits [of "wit_saving 500 300 900" "wit_pm ''closed'' 400 None None"] wit_saving_valid by simp

lemma wit_forecast: "forecast wit_daily ''2026-07'' ''2026-07-06'' 3 = Inr (Some (60, 620, 340, 900))"
  by code_simp

lemma wit_forecast_month: "month_bounds ''2026-07'' = Inr (739798, 739828)" "parse_date ''2026-07-06'' = Inr 739803"
    "sum_list (map (amount_between 739798 739800) wit_daily) = 60"
  by code_simp+

theorem forecast_ordered_witness:
  "case forecast wit_daily ''2026-07'' ''2026-07-06'' 3 of
     Inr (Some (seen, point, low, high)) \<Rightarrow> seen \<le> low \<and> low \<le> point \<and> point \<le> high \<and>
       seen = sum_list (map (amount_between 739798 739800) wit_daily)
   | _ \<Rightarrow> False"
  using forecast_ordered [OF wit_forecast] wit_forecast wit_forecast_month by (simp add: wit_daily_def)

lemma wit_overage: "overage_total [(''cc:a'', 70), (''enterprise'', 50)] [(''enterprise'', 40)] [(''a'', 30)] [(''a'', ''continue'')] = Inr (80, 80)"
    "list_all (\<lambda>k. dget (cc_keyed [(''a'', ''continue'')]) k ''unknown'' = ''continue'') (map fst (cc_keyed [(''a'', 30::int)]))"
  by code_simp+

theorem overage_within_consumption_witness:
  "case overage_total [(''cc:a'', 70), (''enterprise'', 50)] [(''enterprise'', 40)] [(''a'', 30)] [(''a'', ''continue'')] of
     Inl _ \<Rightarrow> False
   | Inr (low, high) \<Rightarrow> 0 \<le> low \<and> low = high \<and> high \<le> sum_list (map snd [(''cc:a'', 70), (''enterprise'', 50)]) \<and>
       sum_list (map snd [(''cc:a'', 70), (''enterprise'', 50)]) - sum_list (map snd [(''enterprise'', 40)]) \<le> high"
  using overage_within_consumption [OF wit_overage(1)] wit_overage by simp

theorem line_discounts_classified_witness:
  "(case classify_discounts (fst wit_table) (Some True) 1000 of (draw, other, unclassified) \<Rightarrow>
     (case draw of None \<Rightarrow> 0 | Some d \<Rightarrow> d) + other + unclassified) = 400"
proof -
  obtain d o' u where e: "classify_discounts (fst wit_table) (Some True) 1000 = (d, o', u)"
    by (cases "classify_discounts (fst wit_table) (Some True) 1000") auto
  have "sum_list (map (\<lambda>l. line_gross l - cl_amount_nano l)
      (filter (\<lambda>l. cell_line l \<and> cost_type l \<in> {Some ''ai_credit.user'', Some ''ai_credit.direct''}) wit_lines)) = 400"
    by code_simp
  then show ?thesis using line_discounts_classified [OF wit_built e] by (simp add: e)
qed

end
