(* ===== verification/Workload.thy ===== *)
theory Workload
  imports Lanes Allocation Rate_Card
begin

text \<open>
  The workload classifier of \<open>finops/workload.py\<close>: every rule that fires on a lane gives a signal with a class and a
  confidence, and the most confident signal decides, ties going to the more automated class. Confidences are kept
  in hundredths. The lemmas show that the cadence test in integers is the statistical one, and that the signals
  with their maximum are a cascade of rows.
\<close>

section \<open>Definitions\<close>

fun AUTOMATION_RANK :: "workload_class \<Rightarrow> nat" where
  "AUTOMATION_RANK WcBatch = 6"
| "AUTOMATION_RANK WcScheduled = 5"
| "AUTOMATION_RANK WcCi = 4"
| "AUTOMATION_RANK WcService = 3"
| "AUTOMATION_RANK WcEval = 2"
| "AUTOMATION_RANK WcInteractive = 1"
| "AUTOMATION_RANK WcUnknown = 0"

definition CI_ENTRYPOINTS :: "string list" where "CI_ENTRYPOINTS = [''claude-code-github-action'']"
definition SDK_ENTRYPOINTS :: "string list" where "SDK_ENTRYPOINTS = [''sdk-py'', ''sdk-ts'', ''sdk-cli'']"
definition INTERACTIVE_ENTRYPOINTS :: "string list" where "INTERACTIVE_ENTRYPOINTS = [''cli'']"
definition AUTOMATED_KINDS :: "lane_kind list" where "AUTOMATED_KINDS = [LkMain, LkApiRun, LkUnknown]"
definition MIN_AUTOMATED_REQUESTS :: nat where "MIN_AUTOMATED_REQUESTS = 10"
definition MIN_PERIODIC_REQUESTS :: nat where "MIN_PERIODIC_REQUESTS = 4"
definition MIN_PERIOD_MS :: int where "MIN_PERIOD_MS = 300000"

text \<open>The most frequent value, the smallest of them on a tie.\<close>

definition majority :: "string list \<Rightarrow> string option" where
  "majority vs = (if vs = [] then None else
     let best = Max (set (map (count_list vs) vs))
     in Some (Min (set (filter (\<lambda>v. count_list vs v = best) vs))))"

definition gaps_of :: "int list \<Rightarrow> int list" where
  "gaps_of starts = map (\<lambda>(a, b). b - a) (zip starts (tl starts))"

definition periodic :: "int list \<Rightarrow> bool" where
  "periodic starts =
     (if length starts < MIN_PERIODIC_REQUESTS then False
      else
       let gaps = gaps_of starts; n = int (length gaps); tot = sum_list gaps
       in if tot \<le> 0 \<or> tot < MIN_PERIOD_MS * n then False
          else 16 * sum_list (map (\<lambda>g. (n * g - tot) ^ 2) gaps) < tot * tot * n)"

type_synonym signal = "workload_class \<times> int \<times> string"

definition workload_tags :: "lane \<Rightarrow> string list" where
  "workload_tags l = map (workload_class_value \<circ> workload \<circ> attribution)
     (filter (\<lambda>r. workload (attribution r) \<noteq> WcUnknown) (requests l))"

definition mostly_batch :: "lane \<Rightarrow> bool" where
  "mostly_batch l =
     (let tiers = map (service_tier \<circ> pricing) (List.map_filter serving_inference (requests l))
      in tiers \<noteq> [] \<and> length tiers < 2 * length (filter (\<lambda>t. t = ''batch'') tiers))"

definition lane_entry :: "lane \<Rightarrow> string option" where
  "lane_entry l = majority (filter (\<lambda>e. e \<noteq> '''') (List.map_filter (entrypoint \<circ> attribution) (requests l)))"

definition entry_in :: "string option \<Rightarrow> string list \<Rightarrow> bool" where
  "entry_in e es = (case e of None \<Rightarrow> False | Some x \<Rightarrow> x \<in> set es)"

text \<open>The class the allocation rules set on the first request, when it is another class and a known one.\<close>

definition rule_class :: "(string \<Rightarrow> string \<Rightarrow> bool) \<Rightarrow> rule_set option \<Rightarrow> lane \<Rightarrow> workload_class option res" where
  "rule_class search rs l = (case (rs, requests l) of
      (Some rset, r # _) \<Rightarrow> rbind (apply_rules search r rset) (\<lambda>a.
         Inr (if workload a \<noteq> workload (attribution r) \<and> workload a \<noteq> WcUnknown then Some (workload a) else None))
    | _ \<Rightarrow> Inr None)"

definition human_prompts :: "lane \<Rightarrow> nat" where
  "human_prompts l = length (filter (\<lambda>e. ev_kind e = EvHumanPrompt) (events l))"

definition signal_if :: "bool \<Rightarrow> signal \<Rightarrow> signal list" where
  "signal_if b s = (if b then [s] else [])"

definition scheduled_lane :: "lane \<Rightarrow> bool" where
  "scheduled_lane l = (human_prompts l = 0 \<and> periodic (map ts_start_ms (requests l)))"

definition automated_lane :: "lane \<Rightarrow> bool" where
  "automated_lane l = (human_prompts l = 0 \<and> lane_kind l \<in> set AUTOMATED_KINDS \<and>
     MIN_AUTOMATED_REQUESTS \<le> length (requests l) \<and> \<not> entry_in (lane_entry l) INTERACTIVE_ENTRYPOINTS)"

definition interactive_lane :: "lane \<Rightarrow> bool" where
  "interactive_lane l = (human_prompts l \<noteq> 0 \<or> entry_in (lane_entry l) INTERACTIVE_ENTRYPOINTS)"

definition signals :: "(string \<Rightarrow> string \<Rightarrow> bool) \<Rightarrow> rule_set option \<Rightarrow> lane \<Rightarrow> signal list res" where
  "signals search rs l =
     rbind (case majority (workload_tags l) of None \<Rightarrow> Inr []
            | Some t \<Rightarrow> (case workload_of_value t of Some w \<Rightarrow> Inr [(w, 99, ''resource tag'')] | None \<Rightarrow> Inl ValueError)) (\<lambda>tags.
     rbind (rule_class search rs l) (\<lambda>rc.
     Inr (tags
        @ signal_if (mostly_batch l) (WcBatch, 99, ''batch service tier'')
        @ (if entry_in (lane_entry l) CI_ENTRYPOINTS then [(WcCi, 95, ''CI entrypoint'')]
           else signal_if (entry_in (lane_entry l) SDK_ENTRYPOINTS) (WcService, 60, ''SDK entrypoint''))
        @ (case rc of None \<Rightarrow> [] | Some w \<Rightarrow> [(w, 90, ''allocation rule'')])
        @ signal_if (scheduled_lane l) (WcScheduled, 80, ''periodic cadence'')
        @ signal_if (automated_lane l) (WcService, 70, ''automated session'')
        @ signal_if (interactive_lane l) (WcInteractive, 50, ''human prompts''))))"

text \<open>\<open>str\<close> of a confidence: \<open>0.99\<close>, but \<open>0.8\<close>.\<close>

definition conf_str :: "int \<Rightarrow> string" where
  "conf_str c = ''0.'' @ show_nat (nat (if c mod 10 = 0 then c div 10 else c))"

definition signal_key :: "signal \<Rightarrow> int \<times> nat" where
  "signal_key s = (case s of (w, c, _) \<Rightarrow> (c, AUTOMATION_RANK w))"

definition classify_workload :: "(string \<Rightarrow> string \<Rightarrow> bool) \<Rightarrow> rule_set option \<Rightarrow> lane \<Rightarrow> (workload_class \<times> string) res" where
  "classify_workload search rs l = rbind (signals search rs l) (\<lambda>found.
     case found of [] \<Rightarrow> Inr (WcUnknown, ''0'')
     | s # ss \<Rightarrow> (case max_by signal_key s ss of (w, c, _) \<Rightarrow> Inr (w, conf_str c)))"

definition mean_gap :: "int list \<Rightarrow> rat" where
  "mean_gap gs = of_int (sum_list gs) / of_nat (length gs)"

definition gap_variance :: "int list \<Rightarrow> rat" where
  "gap_variance gs = (\<Sum>g \<leftarrow> gs. (of_int g - mean_gap gs)\<^sup>2) / of_nat (length gs)"

text \<open>A regular cadence: at least four requests, a mean gap of at least five minutes, and a coefficient of variation of
  the gaps below a quarter.\<close>

definition regular_cadence :: "int list \<Rightarrow> bool" where
  "regular_cadence starts = (4 \<le> length starts \<and> 300000 \<le> mean_gap (gaps_of starts) \<and>
     gap_variance (gaps_of starts) < (mean_gap (gaps_of starts) / 4)\<^sup>2)"

text \<open>The classes in the order of their confidence, and with equal confidence the more automated class first: the batch
  tier therefore comes before the resource tag, which the module's table lists above it with the same 0.99.\<close>

definition workload_cascade :: "(string \<Rightarrow> string \<Rightarrow> bool) \<Rightarrow> rule_set option \<Rightarrow> lane \<Rightarrow> (workload_class \<times> string) res" where
  "workload_cascade search rs l = rbind (rule_class search rs l) (\<lambda>rc. Inr (
     if mostly_batch l then (WcBatch, ''0.99'')
     else case majority (workload_tags l) of Some t \<Rightarrow> (the (workload_of_value t), ''0.99'')
     | None \<Rightarrow>
       if entry_in (lane_entry l) CI_ENTRYPOINTS then (WcCi, ''0.95'')
       else case rc of Some w \<Rightarrow> (w, ''0.9'')
       | None \<Rightarrow>
         if human_prompts l = 0 \<and> regular_cadence (map ts_start_ms (requests l)) then (WcScheduled, ''0.8'')
         else if automated_lane l then (WcService, ''0.7'')
         else if entry_in (lane_entry l) SDK_ENTRYPOINTS then (WcService, ''0.6'')
         else if interactive_lane l then (WcInteractive, ''0.5'')
         else (WcUnknown, ''0'')))"

definition fired :: "signal list \<Rightarrow> bool \<Rightarrow> bool \<Rightarrow> bool \<Rightarrow> workload_class option \<Rightarrow> bool \<Rightarrow> bool \<Rightarrow> bool \<Rightarrow> signal list" where
  "fired tags b ci sdk rc sch aut hp =
     tags @ signal_if b (WcBatch, 99, ''batch service tier'')
     @ (if ci then [(WcCi, 95, ''CI entrypoint'')] else signal_if sdk (WcService, 60, ''SDK entrypoint''))
     @ (case rc of None \<Rightarrow> [] | Some w \<Rightarrow> [(w, 90, ''allocation rule'')])
     @ signal_if sch (WcScheduled, 80, ''periodic cadence'')
     @ signal_if aut (WcService, 70, ''automated session'')
     @ signal_if hp (WcInteractive, 50, ''human prompts'')"

definition top_signal :: "signal list \<Rightarrow> workload_class \<times> int" where
  "top_signal ss = (case ss of [] \<Rightarrow> (WcUnknown, 0) | s # r \<Rightarrow> (case max_by signal_key s r of (w, c, _) \<Rightarrow> (w, c)))"

section \<open>Lemmas\<close>

subsection \<open>The cadence test\<close>

lemma gap_spread:
  assumes "gs \<noteq> []"
  shows "of_int (sum_list (map (\<lambda>g. (int (length gs) * g - sum_list gs) ^ 2) gs)) = of_nat (length gs) ^ 3 * gap_variance gs"
proof -
  let ?n = "of_nat (length gs) :: rat"
  have n: "?n \<noteq> 0" using assms by simp
  have "of_int ((int (length gs) * g - sum_list gs) ^ 2) = ?n\<^sup>2 * (of_int g - mean_gap gs)\<^sup>2" for g
    using n by (simp add: mean_gap_def power2_eq_square field_simps)
  then have "of_int (sum_list (map (\<lambda>g. (int (length gs) * g - sum_list gs) ^ 2) xs)) = ?n\<^sup>2 * (\<Sum>g \<leftarrow> xs. (of_int g - mean_gap gs)\<^sup>2)" for xs
    by (induction xs) (simp_all add: algebra_simps)
  from this [of gs] n show ?thesis by (simp add: gap_variance_def power3_eq_cube power2_eq_square)
qed

lemma periodic_regular: "periodic starts \<longleftrightarrow> regular_cadence starts"
proof (cases "4 \<le> length starts")
  case False
  then show ?thesis by (simp add: periodic_def MIN_PERIODIC_REQUESTS_def regular_cadence_def)
next
  case True
  define gs where "gs = gaps_of starts"
  define n where "n = int (length gs)"
  define tot where "tot = sum_list gs"
  have "length gs = length starts - 1" by (simp add: gs_def gaps_of_def)
  then have n: "0 < n" "gs \<noteq> []" using True by (auto simp: n_def)
  have mean: "mean_gap gs = of_int tot / of_int n" by (simp add: mean_gap_def tot_def n_def)
  have "300000 \<le> mean_gap gs \<longleftrightarrow> 300000 * of_int n \<le> (of_int tot :: rat)"
    using n(1) by (simp add: mean pos_le_divide_eq)
  also have "\<dots> \<longleftrightarrow> of_int (300000 * n) \<le> (of_int tot :: rat)" by simp
  finally have ge: "300000 \<le> mean_gap gs \<longleftrightarrow> 300000 * n \<le> tot" by (simp only: of_int_le_iff)
  have "16 * sum_list (map (\<lambda>g. (n * g - tot) ^ 2) gs) < tot * tot * n \<longleftrightarrow>
      (of_int (16 * sum_list (map (\<lambda>g. (n * g - tot) ^ 2) gs)) :: rat) < of_int (tot * tot * n)"
    by (simp only: of_int_less_iff)
  also have "\<dots> \<longleftrightarrow> 16 * (of_int n ^ 3 * gap_variance gs) < of_int n ^ 3 * (mean_gap gs)\<^sup>2"
    using gap_spread [OF n(2)] n(1) by (simp add: n_def tot_def mean power2_eq_square power3_eq_cube)
  also have "\<dots> \<longleftrightarrow> of_int n ^ 3 * (16 * gap_variance gs) < of_int n ^ 3 * (mean_gap gs)\<^sup>2"
    by (simp only: mult.left_commute)
  also have "\<dots> \<longleftrightarrow> 16 * gap_variance gs < (mean_gap gs)\<^sup>2"
    using n(1) by (intro mult_less_cancel_left_pos) simp
  also have "\<dots> \<longleftrightarrow> gap_variance gs < (mean_gap gs / 4)\<^sup>2"
    by (simp add: power_divide pos_less_divide_eq mult.commute)
  finally have lt: "16 * sum_list (map (\<lambda>g. (n * g - tot) ^ 2) gs) < tot * tot * n \<longleftrightarrow> gap_variance gs < (mean_gap gs / 4)\<^sup>2" .
  have "periodic starts \<longleftrightarrow> \<not> (tot \<le> 0 \<or> tot < 300000 * n) \<and> 16 * sum_list (map (\<lambda>g. (n * g - tot) ^ 2) gs) < tot * tot * n"
    using True by (simp add: periodic_def MIN_PERIODIC_REQUESTS_def MIN_PERIOD_MS_def Let_def gs_def n_def tot_def)
  also have "\<dots> \<longleftrightarrow> 300000 \<le> mean_gap gs \<and> gap_variance gs < (mean_gap gs / 4)\<^sup>2"
    unfolding lt ge using n(1) by auto
  finally show ?thesis using True by (simp add: gs_def regular_cadence_def)
qed

text \<open>C17: The integer cadence test decides the statistics it stands for, exactly and for all start times: at least four
  requests, a mean gap of five minutes or more, and a coefficient of variation below a quarter, that is a variance of
  the gaps below a sixteenth of the squared mean. The module's table and docstring ask for a mean gap above five
  minutes; the code also accepts the mean of exactly five minutes, as four requests five minutes apart show.\<close>

theorem periodic_is_low_variation:
  "(periodic starts \<longleftrightarrow>
     4 \<le> length starts \<and> 300000 \<le> mean_gap (gaps_of starts) \<and>
     gap_variance (gaps_of starts) < (mean_gap (gaps_of starts) / 4)\<^sup>2) \<and>
   periodic [0, 300000, 600000, 900000] \<and> mean_gap (gaps_of [0, 300000, 600000, 900000]) = 300000"
proof -
  have "periodic [0, 300000, 600000, 900000] \<and> mean_gap (gaps_of [0, 300000, 600000, 900000]) = 300000"
    by (simp add: periodic_def gaps_of_def mean_gap_def MIN_PERIODIC_REQUESTS_def MIN_PERIOD_MS_def Let_def)
  then show ?thesis using periodic_regular [of starts] unfolding regular_cadence_def by blast
qed

subsection \<open>The cascade\<close>

lemma majority_in: "majority vs = Some v \<Longrightarrow> v \<in> set vs"
proof -
  assume m: "majority vs = Some v"
  define best where "best = Max (set (map (count_list vs) vs))"
  have ne: "vs \<noteq> []" using m by (auto simp: majority_def)
  have "best \<in> set (map (count_list vs) vs)" unfolding best_def using ne by (intro Max_in) auto
  then obtain u where "u \<in> set vs" "count_list vs u = best" by (metis imageE list.set_map)
  then have "u \<in> set (filter (\<lambda>v. count_list vs v = best) vs)" by simp
  then have "Min (set (filter (\<lambda>v. count_list vs v = best) vs)) \<in> set (filter (\<lambda>v. count_list vs v = best) vs)"
    by (intro Min_in) auto
  moreover have "v = Min (set (filter (\<lambda>v. count_list vs v = best) vs))"
    using m ne by (simp add: majority_def best_def Let_def)
  ultimately show ?thesis by simp
qed

lemma workload_value_back: "workload_of_value (workload_class_value w) = Some w"
  by (cases w) (simp_all add: workload_of_value_def WORKLOAD_CLASSES_def)

lemma majority_tag:
  assumes "majority (workload_tags l) = Some t"
  shows "\<exists>w. workload_of_value t = Some w"
  using majority_in [OF assms] by (auto simp: workload_tags_def workload_value_back)

lemma rank_le: "AUTOMATION_RANK w \<le> 6" "AUTOMATION_RANK w = 6 \<longleftrightarrow> w = WcBatch"
  by (cases w; simp)+

lemma conf_strs:
  "conf_str 99 = ''0.99''" "conf_str 95 = ''0.95''" "conf_str 90 = ''0.9''" "conf_str 80 = ''0.8''"
  "conf_str 70 = ''0.7''" "conf_str 60 = ''0.6''" "conf_str 50 = ''0.5''"
  by code_simp+

lemma signal_if_simps [simp]: "signal_if True s = [s]" "signal_if False s = []"
  by (simp_all add: signal_if_def)

lemma top_signal_Nil: "top_signal [] = (WcUnknown, 0)"
  by (simp add: top_signal_def)

lemma top_signal_one: "top_signal [(w, c, x)] = (w, c)"
  by (simp add: top_signal_def max_by_def)

lemma top_signal_drop:
  "d < c \<Longrightarrow> top_signal ((w, c, x) # (v, d, y) # ss) = top_signal ((w, c, x) # ss)"
  "c < d \<Longrightarrow> top_signal ((w, c, x) # (v, d, y) # ss) = top_signal ((v, d, y) # ss)"
  "top_signal ((w, c, x) # (WcBatch, c, y) # ss) = top_signal (if w = WcBatch then (w, c, x) # ss else (WcBatch, c, y) # ss)"
  using rank_le [of w] by (auto simp: top_signal_def max_by_def signal_key_def less_prod_def')

text \<open>The signals after the entrypoint's, the entrypoint's, and all: each step keeps the strongest in front.\<close>

lemma top_behind:
  assumes "50 < c"
  shows "top_signal ((w, c, x) # signal_if hp (WcInteractive, 50, y)) = (w, c)"
  using assms by (cases hp) (simp_all add: top_signal_one top_signal_drop)

lemma top_after_automated:
  assumes "70 < c"
  shows "top_signal ((w, c, x) # signal_if aut (WcService, 70, z) @ signal_if hp (WcInteractive, 50, y)) = (w, c)"
  using assms top_behind [of c w x hp y]
  by (cases aut) (simp_all add: top_signal_drop)

lemma top_after_cadence:
  assumes "80 < c"
  shows "top_signal ((w, c, x) # signal_if sch (WcScheduled, 80, u) @ signal_if aut (WcService, 70, z) @
     signal_if hp (WcInteractive, 50, y)) = (w, c)"
  using assms top_after_automated [of c w x aut z hp y]
  by (cases sch) (simp_all add: top_signal_drop)

lemma top_after_rule:
  assumes "90 < c"
  shows "top_signal ((w, c, x) # (case rc of None \<Rightarrow> [] | Some v \<Rightarrow> [(v, 90, r)]) @ signal_if sch (WcScheduled, 80, u) @
     signal_if aut (WcService, 70, z) @ signal_if hp (WcInteractive, 50, y)) = (w, c)"
  using assms top_after_cadence [of c w x sch u aut z hp y]
  by (cases rc) (simp_all add: top_signal_drop)

lemma top_late:
  "top_signal (signal_if sdk (WcService, 60, s) @ (case rc of None \<Rightarrow> [] | Some v \<Rightarrow> [(v, 90, r)]) @
     signal_if sch (WcScheduled, 80, u) @ signal_if aut (WcService, 70, z) @ signal_if hp (WcInteractive, 50, y)) =
   (case rc of Some w \<Rightarrow> (w, 90) | None \<Rightarrow>
      if sch then (WcScheduled, 80) else if aut then (WcService, 70) else if sdk then (WcService, 60)
      else if hp then (WcInteractive, 50) else (WcUnknown, 0))"
proof (cases rc)
  case (Some w)
  then show ?thesis using top_after_cadence [of 90 w r sch u aut z hp y]
    by (cases sdk) (simp_all add: top_signal_drop)
next
  case rc: None
  show ?thesis
  proof (cases sch)
    case True
    then show ?thesis using rc top_after_automated [of 80 WcScheduled u aut z hp y]
      by (cases sdk) (simp_all add: top_signal_drop)
  next
    case sch: False
    show ?thesis
    proof (cases aut)
      case True
      then show ?thesis using rc sch top_behind [of 70 WcService z hp y]
        by (cases sdk) (simp_all add: top_signal_drop)
    next
      case False
      then show ?thesis using rc sch
        by (cases sdk; cases hp) (simp_all add: top_signal_one top_signal_Nil top_signal_drop)
    qed
  qed
qed

lemma top_early:
  assumes "90 < c"
  shows "top_signal ((w, c, x) # signal_if sdk (WcService, 60, s) @ (case rc of None \<Rightarrow> [] | Some v \<Rightarrow> [(v, 90, r)]) @
     signal_if sch (WcScheduled, 80, u) @ signal_if aut (WcService, 70, z) @ signal_if hp (WcInteractive, 50, y)) = (w, c)"
  using assms top_after_rule [of c w x r rc sch u aut z hp y]
  by (cases sdk) (simp_all add: top_signal_drop)

lemma top_fired_untagged:
  "top_signal (fired [] b ci sdk rc sch aut hp) =
     (if b then (WcBatch, 99) else if ci then (WcCi, 95) else case rc of Some w \<Rightarrow> (w, 90) | None \<Rightarrow>
      if sch then (WcScheduled, 80) else if aut then (WcService, 70) else if sdk then (WcService, 60)
      else if hp then (WcInteractive, 50) else (WcUnknown, 0))"
  unfolding fired_def
  by (cases b; cases ci) (simp_all add: top_signal_drop top_late
    top_early top_after_rule)

lemma top_fired_tagged:
  "top_signal (fired [(w, 99, x)] b ci sdk rc sch aut hp) = (if b then (WcBatch, 99) else (w, 99))"
  unfolding fired_def
  by (cases b; cases ci) (simp_all add: top_signal_drop
    top_early top_after_rule)

lemmas top_fired = top_fired_untagged top_fired_tagged

lemma fired_Nil: "fired tags b ci sdk rc sch aut hp = [] \<longleftrightarrow>
   tags = [] \<and> \<not> b \<and> \<not> ci \<and> \<not> sdk \<and> rc = None \<and> \<not> sch \<and> \<not> aut \<and> \<not> hp"
  by (auto simp: fired_def signal_if_def split: option.split)

lemma classify_by_top:
  "classify_workload search rs l = rbind (signals search rs l) (\<lambda>found. case top_signal found of (w, c) \<Rightarrow>
     Inr (w, if found = [] then ''0'' else conf_str c))"
  by (auto simp: classify_workload_def top_signal_def rbind_def split: sum.split list.split prod.split)

lemma cadence_row: "human_prompts l = 0 \<and> regular_cadence (map ts_start_ms (requests l)) \<longleftrightarrow> scheduled_lane l"
  by (simp add: scheduled_lane_def periodic_regular)

text \<open>C16: Collecting every signal that fires and taking the maximum by confidence and automation rank is a cascade of
  rows: batch tier, resource tag, CI entrypoint, allocation rule, regular cadence without a human prompt, automated
  session, SDK entrypoint, human prompts, unknown; the first row that holds decides the class and the printed
  confidence, and an error of the rules is passed on. The cadence row is the statistical condition, not the code's integer
  test. Between the two rows of confidence 0.99 the automation rank decides, so a batch tier overrides a tag.\<close>

theorem classify_is_cascade: "classify_workload search rs l = workload_cascade search rs l"
proof -
  let ?fired = "\<lambda>tags rc. fired tags (mostly_batch l) (entry_in (lane_entry l) CI_ENTRYPOINTS)
     (entry_in (lane_entry l) SDK_ENTRYPOINTS) rc (scheduled_lane l) (automated_lane l) (interactive_lane l)"
  show ?thesis
  proof (cases "majority (workload_tags l)")
    case None
    then have "signals search rs l = rbind (rule_class search rs l) (\<lambda>rc. Inr (?fired [] rc))"
      by (simp add: signals_def fired_def)
    then show ?thesis using None
      by (cases "rule_class search rs l")
        (simp_all add: classify_by_top workload_cascade_def cadence_row top_fired conf_strs fired_Nil split: option.split)
  next
    case (Some t)
    then obtain w where w: "workload_of_value t = Some w" using majority_tag by blast
    then have "signals search rs l = rbind (rule_class search rs l) (\<lambda>rc. Inr (?fired [(w, 99, ''resource tag'')] rc))"
      using Some by (simp add: signals_def fired_def)
    then show ?thesis using Some w
      by (cases "rule_class search rs l")
        (simp_all add: classify_by_top workload_cascade_def cadence_row top_fired top_signal_one conf_strs fired_Nil)
  qed
qed

end
