(* ===== verification/Policy_Grammar.thy ===== *)
theory Policy_Grammar
  imports Models Records
begin

text \<open>
  The policy grammar of \<open>core/policy.py\<close>: selectors and what they match, the clause reader, the builder that
  collects clauses, the canonical printer, and the union of two policies. A clause as \<open>_parse_clause\<close> hands it to
  the builder is a value of \<open>clause\<close>. The lemmas show that a builder is, up to order and repetition, the set of its
  clauses: printing and reading are inverse, and combining policies is the union of their clauses.
\<close>

section \<open>Definitions\<close>

subsection \<open>The record and the words of the grammar\<close>

record policy =
  pol_name :: string
  pol_ttl :: "(string \<times> string) list"
  pol_keepalive :: "(string \<times> int \<times> int) option"
  pol_compaction :: "(int \<times> int option) option"
  pol_cold :: "(string \<times> int) option"
  pol_remap :: "(string \<times> string) list"
  pol_effort :: "(string \<times> string \<times> string) list"
  pol_fast :: bool
  pol_geo :: bool
  pol_regional :: bool
  pol_batch :: "string option"
  pol_repairs :: "string list"
  pol_breakpoints :: "string option"

definition OBSERVED_NAME :: string where "OBSERVED_NAME = ''observed''"

definition observed_policy :: policy where
  "observed_policy = \<lparr>pol_name = OBSERVED_NAME, pol_ttl = [], pol_keepalive = None, pol_compaction = None,
     pol_cold = None, pol_remap = [], pol_effort = [], pol_fast = False, pol_geo = False, pol_regional = False,
     pol_batch = None, pol_repairs = [], pol_breakpoints = None\<rparr>"

definition is_observed :: "policy \<Rightarrow> bool" where
  "is_observed p = (p\<lparr>pol_name := OBSERVED_NAME\<rparr> = observed_policy)"

definition CLAUSE_ORDER :: "string list" where
  "CLAUSE_ORDER = [''ttl'', ''keepalive'', ''compact-window'', ''cold-resume'', ''model'', ''effort'', ''fast'',
     ''geo'', ''regional'', ''batch'', ''repair'', ''breakpoints'']"

definition SELECTOR_KEYS :: "string list" where
  "SELECTOR_KEYS = [''lane_kind'', ''agent_type'', ''team'', ''agent_product'', ''billing_path'', ''workload'', ''model'']"

definition EFFORT_LEVELS :: "string list" where
  "EFFORT_LEVELS = [''low'', ''medium'', ''high'', ''xhigh'', ''max'']"

definition REPAIRS :: "string list" where
  "REPAIRS = [''restore_caching'', ''stagger_fanout'', ''retry_backoff_cap'', ''fallback_credit'', ''shared_ci_prefix'']"

definition BREAKPOINT_POLICIES :: "string list" where
  "BREAKPOINT_POLICIES = [''observed'', ''end'', ''static_plus_end'', ''every_15'']"

definition TTL_VALUES :: "string list" where "TTL_VALUES = [''5m'', ''1h'']"
definition COLD_RESUME_ACTIONS :: "string list" where "COLD_RESUME_ACTIONS = [''compact'', ''clear'']"
definition COLD_RESUME_MIN_DEFAULT :: int where "COLD_RESUME_MIN_DEFAULT = 200000"
definition EFFORT_SCALE_DEFAULT :: string where "EFFORT_SCALE_DEFAULT = ''0.5''"
definition KEEPALIVE_MAX_DEFAULT_S :: int where "KEEPALIVE_MAX_DEFAULT_S = 3600"
definition MAX_SPEC_LEN :: nat where "MAX_SPEC_LEN = 16384"

fun lane_kind_value :: "lane_kind \<Rightarrow> string" where
  "lane_kind_value LkMain = ''main''"
| "lane_kind_value LkSubagent = ''subagent''"
| "lane_kind_value LkWorkflowAgent = ''workflow_agent''"
| "lane_kind_value LkHelper = ''helper''"
| "lane_kind_value LkCompaction = ''compaction''"
| "lane_kind_value LkApiRun = ''api_run''"
| "lane_kind_value LkUnknown = ''unknown''"

definition LANE_KIND_VALUES :: "string list" where
  "LANE_KIND_VALUES = map lane_kind_value
     [LkMain, LkSubagent, LkWorkflowAgent, LkHelper, LkCompaction, LkApiRun, LkUnknown]"

definition WORKLOAD_VALUES :: "string list" where
  "WORKLOAD_VALUES = map workload_class_value
     [WcInteractive, WcCi, WcScheduled, WcEval, WcBatch, WcService, WcUnknown]"

text \<open>\<open>s.partition(c)\<close>: the text before the first \<open>c\<close>, whether there is one, and the text after it.\<close>

definition partition_at :: "char \<Rightarrow> string \<Rightarrow> string \<times> bool \<times> string" where
  "partition_at c s = (takeWhile (\<lambda>x. x \<noteq> c) s, c \<in> set s, tl (dropWhile (\<lambda>x. x \<noteq> c) s))"

subsection \<open>Selectors\<close>

definition allowed_char :: "char \<Rightarrow> bool" where
  "allowed_char c = (c \<notin> set '';,@='' \<and> (let n = (of_char c :: nat) in 32 \<le> n \<and> n \<noteq> 127))"

definition check_value :: "string \<Rightarrow> unit res" where
  "check_value t =
     rbind (guard (t \<noteq> '''' \<and> t = strip t) UsageError) (\<lambda>_.
     guard (list_all allowed_char t) UsageError)"

definition check_term :: "string \<Rightarrow> string \<Rightarrow> unit res" where
  "check_term key v =
     rbind (guard (key \<in> set SELECTOR_KEYS) UsageError) (\<lambda>_.
     rbind (check_value v) (\<lambda>_.
     rbind (guard (key = ''lane_kind'' \<longrightarrow> v \<in> set LANE_KIND_VALUES) UsageError) (\<lambda>_.
     rbind (guard (key = ''workload'' \<longrightarrow> v \<in> set WORKLOAD_VALUES) UsageError) (\<lambda>_.
     guard (key = ''billing_path'' \<longrightarrow> v \<in> set BILLING_PATHS) UsageError))))"

definition selector_term :: "(string, string) dict \<Rightarrow> string \<Rightarrow> (string, string) dict res" where
  "selector_term terms raw =
     (case partition_at (CHR '':'') (strip raw) of (k, sep, v) \<Rightarrow>
        rbind (guard sep UsageError) (\<lambda>_.
        rbind (check_term (strip k) (strip v)) (\<lambda>_.
        rbind (guard (map_of terms (strip k) = None) UsageError) (\<lambda>_.
        Inr (dset (strip k) (strip v) terms)))))"

definition parse_selector :: "string \<Rightarrow> (string \<times> string) list res" where
  "parse_selector selector =
     (let t = strip selector
      in if t = '''' \<or> t = ''all'' then Inr []
         else rbind (rfold selector_term [] (split_on (CHR '','') t)) (\<lambda>terms. Inr (sort terms)))"

definition term_text :: "string \<times> string \<Rightarrow> string" where
  "term_text kv = fst kv @ '':'' @ snd kv"

definition canonical_selector :: "string \<Rightarrow> string res" where
  "canonical_selector selector = rbind (parse_selector selector) (\<lambda>terms.
     Inr (if terms = [] then ''all'' else join '','' (map term_text terms)))"

definition normalized_model :: "string \<Rightarrow> string" where
  "normalized_model m = (let n = mid_model (normalize_model m None) in if n = '''' then m else n)"

definition policy_billing_path :: "request \<Rightarrow> string" where
  "policy_billing_path r = (case attr_billing_path (attribution r) of Some b \<Rightarrow> b
     | None \<Rightarrow> (case serving_inference r of Some i \<Rightarrow> billing_path (pricing i) | None \<Rightarrow> ''unknown''))"

definition term_matches :: "string \<times> string \<Rightarrow> request option \<Rightarrow> lane \<Rightarrow> bool" where
  "term_matches kv r l = (case kv of (key, v) \<Rightarrow>
     if key = ''lane_kind'' then lane_kind_value (lane_kind l) = v
     else case r of None \<Rightarrow> False | Some req \<Rightarrow>
       if key = ''agent_type'' then agent_type (attribution req) = Some v
       else if key = ''team'' then team (attribution req) = Some v
       else if key = ''agent_product'' then agent_product (attribution req) = Some v
       else if key = ''billing_path'' then policy_billing_path req = v
       else if key = ''workload'' then workload_class_value (workload (attribution req)) = v
       else req_model req = v \<or> req_model req = normalized_model v)"

definition request_matches :: "string \<Rightarrow> request \<Rightarrow> lane \<Rightarrow> bool res" where
  "request_matches selector r l = rbind (parse_selector selector) (\<lambda>terms.
     Inr (list_all (\<lambda>kv. term_matches kv (Some r) l) terms))"

definition lane_matches :: "string \<Rightarrow> lane \<Rightarrow> bool res" where
  "lane_matches selector l = rbind (parse_selector selector) (\<lambda>terms.
     Inr (list_all (\<lambda>kv. term_matches kv (case requests l of [] \<Rightarrow> None | r # _ \<Rightarrow> Some r) l) terms))"

subsection \<open>Values\<close>

definition unit_seconds :: "string \<Rightarrow> int option" where
  "unit_seconds u = (if u = '''' \<or> u = ''s'' then Some 1 else if u = ''m'' then Some 60
     else if u = ''h'' then Some 3600 else None)"

definition duration_s :: "string \<Rightarrow> int res" where
  "duration_s t =
     (let ds = takeWhile is_digit t; u = dropWhile is_digit t
      in if ds = [] \<or> 16 < length ds then Inl UsageError
         else case unit_seconds u of None \<Rightarrow> Inl UsageError
         | Some k \<Rightarrow> (let s = int (read_nat ds) * k
             in if 0 < s \<and> s \<le> MAX_TOKENS then Inr s else Inl UsageError))"

definition positive_int :: "string \<Rightarrow> int res" where
  "positive_int t =
     (if t = [] \<or> 16 < length t \<or> \<not> list_all is_digit t then Inl UsageError
      else let n = int (read_nat t) in if 0 < n \<and> n \<le> MAX_TOKENS then Inr n else Inl UsageError)"

definition scale_re :: "string \<Rightarrow> bool" where
  "scale_re t =
     (let w = takeWhile is_digit t; rest = dropWhile is_digit t
      in (w \<noteq> [] \<and> rest = []) \<or>
         (rest \<noteq> [] \<and> hd rest = CHR ''.'' \<and> list_all is_digit (tl rest) \<and> (w \<noteq> [] \<or> tl rest \<noteq> [])))"

text \<open>\<open>value.normalize()\<close> in the default context: the value is rounded to 28 digits first.\<close>

definition DEFAULT_CTX :: dctx where
  "DEFAULT_CTX = \<lparr>prec = 28, emin = -999999, emax = 999999, trap_inexact = False\<rparr>"

definition unit_interval :: "dec \<Rightarrow> bool" where
  "unit_interval d = (\<not> (sign d \<and> coef d \<noteq> 0) \<and>
     (coef d = 0 \<or> (expo d \<le> 0 \<and> coef d \<le> 10 ^ nat (- expo d))))"

definition canonical_scale :: "string \<Rightarrow> string res" where
  "canonical_scale t =
     (if \<not> scale_re t then Inl UsageError
      else case decimal_of_string t of
          Inr (Finite d) \<Rightarrow>
            if unit_interval d
            then rbind (dec_fix DEFAULT_CTX (sign d) (coef d) (expo d)) (\<lambda>r. Inr (format_f (dec_normalize r)))
            else Inl UsageError
        | _ \<Rightarrow> Inl UsageError)"

definition word_char :: "char \<Rightarrow> bool" where
  "word_char c = (az c \<or> is_digit c)"

definition block_repair_re :: "string \<Rightarrow> bool" where
  "block_repair_re t =
     (startswith t ''block:'' \<and>
      (case drop 6 t of [] \<Rightarrow> False
       | c # cs \<Rightarrow> word_char c \<and> length cs \<le> 63 \<and>
           list_all (\<lambda>x. word_char x \<or> x = CHR ''_'' \<or> x = CHR ''-'') cs))"

definition check_repair :: "string \<Rightarrow> string res" where
  "check_repair t = (if t \<in> set REPAIRS \<or> block_repair_re t then Inr t else Inl UsageError)"

subsection \<open>Reading a clause\<close>

datatype clause =
    TtlClause string string
  | KeepaliveClause string int int
  | CompactClause int "int option"
  | ColdClause string int
  | ModelClause string string
  | EffortClause string string string
  | FastClause | GeoClause | RegionalClause
  | BatchClause string
  | RepairClause string
  | BreakpointsClause string

definition clause_options :: "string \<Rightarrow> string list" where
  "clause_options name = (if name = ''keepalive'' then [''max''] else if name = ''compact-window'' then [''post'']
     else if name = ''cold-resume'' then [''min''] else if name = ''effort'' then [''scale''] else [])"

definition TAKES_SELECTOR :: "string list" where
  "TAKES_SELECTOR = [''ttl'', ''keepalive'', ''model'', ''effort'']"

definition option_part :: "string \<Rightarrow> (string, string) dict \<Rightarrow> string \<Rightarrow> (string, string) dict res" where
  "option_part name opts part =
     (case partition_at (CHR ''='') part of (key, eq, val) \<Rightarrow>
        rbind (guard (eq \<and> strip val \<noteq> '''') UsageError) (\<lambda>_.
        rbind (guard (strip key \<in> set (clause_options name)) UsageError) (\<lambda>_.
        rbind (guard (map_of opts (strip key) = None) UsageError) (\<lambda>_.
        Inr (dset (strip key) (strip val) opts)))))"

text \<open>The clause of a checked name, selector, value and options.\<close>

definition clause_of :: "string \<Rightarrow> string \<Rightarrow> string \<Rightarrow> (string, string) dict \<Rightarrow> clause res" where
  "clause_of name selector val opts =
     (if name = ''ttl'' then
        if val \<in> set TTL_VALUES then Inr (TtlClause selector val) else Inl UsageError
      else if name = ''keepalive'' then
        rbind (duration_s val) (\<lambda>interval.
        rbind (case map_of opts ''max'' of Some m \<Rightarrow> duration_s m | None \<Rightarrow> Inr KEEPALIVE_MAX_DEFAULT_S) (\<lambda>max_idle.
        Inr (KeepaliveClause selector interval max_idle)))
      else if name = ''compact-window'' then
        rbind (positive_int val) (\<lambda>window.
        rbind (case map_of opts ''post'' of Some t \<Rightarrow> rbind (positive_int t) (\<lambda>n. Inr (Some n)) | None \<Rightarrow> Inr None) (\<lambda>post.
        Inr (CompactClause window post)))
      else if name = ''cold-resume'' then
        if val \<in> set COLD_RESUME_ACTIONS then
          rbind (case map_of opts ''min'' of Some t \<Rightarrow> positive_int t | None \<Rightarrow> Inr COLD_RESUME_MIN_DEFAULT) (\<lambda>n.
          Inr (ColdClause val n))
        else Inl UsageError
      else if name = ''model'' then
        rbind (check_value val) (\<lambda>_. Inr (ModelClause selector val))
      else if name = ''effort'' then
        if val \<in> set EFFORT_LEVELS then
          rbind (canonical_scale (case map_of opts ''scale'' of Some s \<Rightarrow> s | None \<Rightarrow> EFFORT_SCALE_DEFAULT)) (\<lambda>sc.
          Inr (EffortClause selector val sc))
        else Inl UsageError
      else if name = ''fast'' then if val = ''off'' then Inr FastClause else Inl UsageError
      else if name = ''geo'' then if val = ''global'' then Inr GeoClause else Inl UsageError
      else if name = ''regional'' then if val = ''global'' then Inr RegionalClause else Inl UsageError
      else if name = ''batch'' then if val = ''eligible'' then Inr (BatchClause val) else Inl UsageError
      else if name = ''repair'' then rbind (check_repair val) (\<lambda>r. Inr (RepairClause r))
      else if val \<in> set BREAKPOINT_POLICIES then Inr (BreakpointsClause val) else Inl UsageError)"

definition read_clause :: "string \<Rightarrow> clause res" where
  "read_clause t =
     (case partition_at (CHR ''@'') t of (head, at_sign, sel_text) \<Rightarrow>
      case partition_at (CHR ''='') head of (raw_name, eq, rest) \<Rightarrow>
        rbind (guard (at_sign \<longrightarrow> strip sel_text \<noteq> '''') UsageError) (\<lambda>_.
        rbind (guard eq UsageError) (\<lambda>_.
        let name = strip raw_name in
        rbind (guard (name \<in> set CLAUSE_ORDER) UsageError) (\<lambda>_.
        rbind (guard (at_sign \<longrightarrow> name \<in> set TAKES_SELECTOR) UsageError) (\<lambda>_.
        rbind (if at_sign then canonical_selector sel_text else Inr ''all'') (\<lambda>selector.
        let parts = map strip (split_on (CHR '','') rest) in
        rbind (guard (hd parts \<noteq> '''') UsageError) (\<lambda>_.
        rbind (rfold (option_part name) [] (tl parts)) (\<lambda>opts.
        clause_of name selector (hd parts) opts))))))))"

subsection \<open>The builder\<close>

record builder =
  b_ttl :: "(string, string) dict"
  b_model :: "(string, string) dict"
  b_effort :: "(string, string \<times> string) dict"
  b_repairs :: "string list"
  b_keepalive :: "(string \<times> int \<times> int) option"
  b_compaction :: "(int \<times> int option) option"
  b_cold :: "(string \<times> int) option"
  b_batch :: "string option"
  b_breakpoints :: "string option"
  b_fast :: bool
  b_geo :: bool
  b_regional :: bool

definition empty_builder :: builder where
  "empty_builder = \<lparr>b_ttl = [], b_model = [], b_effort = [], b_repairs = [], b_keepalive = None,
     b_compaction = None, b_cold = None, b_batch = None, b_breakpoints = None, b_fast = False, b_geo = False,
     b_regional = False\<rparr>"

text \<open>\<open>keyed\<close> and \<open>scalar\<close>: repeats are taken, conflicts raise the builder's error.\<close>

definition keyed :: "pyerr \<Rightarrow> (string, 'v) dict \<Rightarrow> string \<Rightarrow> 'v \<Rightarrow> (string, 'v) dict res" where
  "keyed err d k v = (case map_of d k of
      Some old \<Rightarrow> if old = v then Inr (dset k v d) else Inl err
    | None \<Rightarrow> Inr (dset k v d))"

definition scalar :: "pyerr \<Rightarrow> 'v option \<Rightarrow> 'v \<Rightarrow> 'v option res" where
  "scalar err old v = (case old of Some w \<Rightarrow> if w = v then Inr (Some v) else Inl err | None \<Rightarrow> Inr (Some v))"

fun add_clause :: "pyerr \<Rightarrow> builder \<Rightarrow> clause \<Rightarrow> builder res" where
  "add_clause err b (TtlClause s v) = rbind (keyed err (b_ttl b) s v) (\<lambda>d. Inr (b\<lparr>b_ttl := d\<rparr>))"
| "add_clause err b (ModelClause s v) = rbind (keyed err (b_model b) s v) (\<lambda>d. Inr (b\<lparr>b_model := d\<rparr>))"
| "add_clause err b (EffortClause s l sc) = rbind (keyed err (b_effort b) s (l, sc)) (\<lambda>d. Inr (b\<lparr>b_effort := d\<rparr>))"
| "add_clause err b (RepairClause r) = Inr (b\<lparr>b_repairs := List.insert r (b_repairs b)\<rparr>)"
| "add_clause err b (KeepaliveClause s i m) =
     rbind (scalar err (b_keepalive b) (s, i, m)) (\<lambda>v. Inr (b\<lparr>b_keepalive := v\<rparr>))"
| "add_clause err b (CompactClause w p) =
     rbind (scalar err (b_compaction b) (w, p)) (\<lambda>v. Inr (b\<lparr>b_compaction := v\<rparr>))"
| "add_clause err b (ColdClause a n) = rbind (scalar err (b_cold b) (a, n)) (\<lambda>v. Inr (b\<lparr>b_cold := v\<rparr>))"
| "add_clause err b (BatchClause t) = rbind (scalar err (b_batch b) t) (\<lambda>v. Inr (b\<lparr>b_batch := v\<rparr>))"
| "add_clause err b (BreakpointsClause t) =
     rbind (scalar err (b_breakpoints b) t) (\<lambda>v. Inr (b\<lparr>b_breakpoints := v\<rparr>))"
| "add_clause err b FastClause = Inr (b\<lparr>b_fast := True\<rparr>)"
| "add_clause err b GeoClause = Inr (b\<lparr>b_geo := True\<rparr>)"
| "add_clause err b RegionalClause = Inr (b\<lparr>b_regional := True\<rparr>)"

definition raw_policy :: "builder \<Rightarrow> policy" where
  "raw_policy b = \<lparr>pol_name = OBSERVED_NAME, pol_ttl = sort (b_ttl b), pol_keepalive = b_keepalive b,
     pol_compaction = b_compaction b, pol_cold = b_cold b, pol_remap = sort (b_model b),
     pol_effort = sort (b_effort b), pol_fast = b_fast b, pol_geo = b_geo b, pol_regional = b_regional b,
     pol_batch = b_batch b, pol_repairs = sort (b_repairs b), pol_breakpoints = b_breakpoints b\<rparr>"

subsection \<open>Printing\<close>

definition selector_suffix :: "string \<Rightarrow> string" where
  "selector_suffix s = (if s = ''all'' then '''' else ''@'' @ s)"

fun clause_text :: "clause \<Rightarrow> string" where
  "clause_text (TtlClause s v) = ''ttl='' @ v @ selector_suffix s"
| "clause_text (KeepaliveClause s i m) =
     ''keepalive='' @ show_int i @ ''s,max='' @ show_int m @ ''s'' @ selector_suffix s"
| "clause_text (CompactClause w p) =
     ''compact-window='' @ show_int w @ (case p of None \<Rightarrow> '''' | Some n \<Rightarrow> '',post='' @ show_int n)"
| "clause_text (ColdClause a n) = ''cold-resume='' @ a @ '',min='' @ show_int n"
| "clause_text (ModelClause s m) = ''model='' @ m @ selector_suffix s"
| "clause_text (EffortClause s l sc) = ''effort='' @ l @ '',scale='' @ sc @ selector_suffix s"
| "clause_text FastClause = ''fast=off''"
| "clause_text GeoClause = ''geo=global''"
| "clause_text RegionalClause = ''regional=global''"
| "clause_text (BatchClause t) = ''batch='' @ t"
| "clause_text (RepairClause r) = ''repair='' @ r"
| "clause_text (BreakpointsClause t) = ''breakpoints='' @ t"

text \<open>Rank, selector, value and text: repeated clauses sort by selector, then value.\<close>

fun clause_key :: "clause \<Rightarrow> nat \<times> string \<times> string \<times> string" where
  "clause_key (TtlClause s v) = (0, s, v, clause_text (TtlClause s v))"
| "clause_key (KeepaliveClause s i m) = (1, s, '''', clause_text (KeepaliveClause s i m))"
| "clause_key (CompactClause w p) = (2, '''', '''', clause_text (CompactClause w p))"
| "clause_key (ColdClause a n) = (3, '''', '''', clause_text (ColdClause a n))"
| "clause_key (ModelClause s m) = (4, s, m, clause_text (ModelClause s m))"
| "clause_key (EffortClause s l sc) = (5, s, l, clause_text (EffortClause s l sc))"
| "clause_key FastClause = (6, '''', '''', clause_text FastClause)"
| "clause_key GeoClause = (7, '''', '''', clause_text GeoClause)"
| "clause_key RegionalClause = (8, '''', '''', clause_text RegionalClause)"
| "clause_key (BatchClause t) = (9, '''', '''', clause_text (BatchClause t))"
| "clause_key (RepairClause r) = (10, '''', r, clause_text (RepairClause r))"
| "clause_key (BreakpointsClause t) = (11, '''', '''', clause_text (BreakpointsClause t))"

text \<open>A \<open>UsageError\<close> of a stored value is a contract violation of the policy.\<close>

definition contract_error :: "'a res \<Rightarrow> 'a res" where
  "contract_error r = (case r of Inl e \<Rightarrow> Inl (if e = UsageError then ContractViolation else e) | Inr x \<Rightarrow> Inr x)"

definition require_int :: "int \<Rightarrow> unit res" where
  "require_int n = guard (0 < n \<and> n \<le> MAX_TOKENS) ContractViolation"

definition stored_clause :: "clause \<Rightarrow> clause res" where
  "stored_clause c = (case c of
      TtlClause s v \<Rightarrow> rbind (guard (v \<in> set TTL_VALUES) ContractViolation) (\<lambda>_.
        rbind (contract_error (canonical_selector s)) (\<lambda>cs. Inr (TtlClause cs v)))
    | KeepaliveClause s i m \<Rightarrow> rbind (require_int i) (\<lambda>_. rbind (require_int m) (\<lambda>_.
        rbind (contract_error (canonical_selector s)) (\<lambda>cs. Inr (KeepaliveClause cs i m))))
    | CompactClause w p \<Rightarrow> rbind (require_int w) (\<lambda>_.
        rbind (case p of None \<Rightarrow> Inr () | Some n \<Rightarrow> require_int n) (\<lambda>_. Inr c))
    | ColdClause a n \<Rightarrow> rbind (guard (a \<in> set COLD_RESUME_ACTIONS) ContractViolation) (\<lambda>_.
        rbind (require_int n) (\<lambda>_. Inr c))
    | ModelClause s m \<Rightarrow> rbind (contract_error (check_value m)) (\<lambda>_.
        rbind (contract_error (canonical_selector s)) (\<lambda>cs. Inr (ModelClause cs m)))
    | EffortClause s l sc \<Rightarrow> rbind (guard (l \<in> set EFFORT_LEVELS) ContractViolation) (\<lambda>_.
        rbind (contract_error (canonical_scale sc)) (\<lambda>t.
        rbind (contract_error (canonical_selector s)) (\<lambda>cs. Inr (EffortClause cs l t))))
    | BatchClause t \<Rightarrow> rbind (guard (t = ''eligible'') ContractViolation) (\<lambda>_. Inr c)
    | RepairClause r \<Rightarrow> rbind (contract_error (check_repair r)) (\<lambda>_. Inr c)
    | BreakpointsClause t \<Rightarrow> rbind (guard (t \<in> set BREAKPOINT_POLICIES) ContractViolation) (\<lambda>_. Inr c)
    | _ \<Rightarrow> Inr c)"

definition opt_list :: "'a option \<Rightarrow> 'a list" where
  "opt_list x = (case x of None \<Rightarrow> [] | Some y \<Rightarrow> [y])"

text \<open>The settings of a policy, field by field.\<close>

definition settings :: "policy \<Rightarrow> clause list" where
  "settings p =
     map (\<lambda>(s, v). TtlClause s v) (pol_ttl p)
     @ map (\<lambda>(s, i, m). KeepaliveClause s i m) (opt_list (pol_keepalive p))
     @ map (\<lambda>(w, n). CompactClause w n) (opt_list (pol_compaction p))
     @ map (\<lambda>(a, n). ColdClause a n) (opt_list (pol_cold p))
     @ map (\<lambda>(s, m). ModelClause s m) (pol_remap p)
     @ map (\<lambda>(s, l, sc). EffortClause s l sc) (pol_effort p)
     @ (if pol_fast p then [FastClause] else [])
     @ (if pol_geo p then [GeoClause] else [])
     @ (if pol_regional p then [RegionalClause] else [])
     @ map BatchClause (opt_list (pol_batch p))
     @ map RepairClause (pol_repairs p)
     @ map BreakpointsClause (opt_list (pol_breakpoints p))"

definition to_spec :: "policy \<Rightarrow> string res" where
  "to_spec p = rbind (rmap stored_clause (settings p)) (\<lambda>cs.
     Inr (join '';'' (map (\<lambda>(_, _, _, t). t) (sort (remdups (map clause_key cs))))))"

definition build_policy :: "builder \<Rightarrow> policy res" where
  "build_policy b = rbind (to_spec (raw_policy b)) (\<lambda>spec.
     Inr ((raw_policy b)\<lparr>pol_name := (if spec = '''' then OBSERVED_NAME else spec)\<rparr>))"

subsection \<open>Reading and combining policies\<close>

definition parse_clause :: "builder \<Rightarrow> string \<Rightarrow> builder res" where
  "parse_clause b raw = (let t = strip raw
     in if t = '''' then Inr b else rbind (read_clause t) (add_clause UsageError b))"

definition parse_policy :: "string \<Rightarrow> policy res" where
  "parse_policy spec =
     (if MAX_SPEC_LEN < length spec then Inl UsageError
      else let t = strip spec
        in if t = OBSERVED_NAME then build_policy empty_builder
           else rbind (rfold parse_clause empty_builder (split_on (CHR '';'') t)) build_policy)"

text \<open>The clauses \<open>combine\<close> gives to its builder, in its order.\<close>

definition combined_settings :: "policy \<Rightarrow> clause list" where
  "combined_settings p =
     map (\<lambda>(s, v). TtlClause s v) (pol_ttl p)
     @ map (\<lambda>(s, m). ModelClause s m) (pol_remap p)
     @ map (\<lambda>(s, l, sc). EffortClause s l sc) (pol_effort p)
     @ map RepairClause (pol_repairs p)
     @ map (\<lambda>(s, i, m). KeepaliveClause s i m) (opt_list (pol_keepalive p))
     @ map (\<lambda>(w, n). CompactClause w n) (opt_list (pol_compaction p))
     @ map (\<lambda>(a, n). ColdClause a n) (opt_list (pol_cold p))
     @ map BatchClause (opt_list (pol_batch p))
     @ map BreakpointsClause (opt_list (pol_breakpoints p))
     @ (if pol_fast p then [FastClause] else [])
     @ (if pol_geo p then [GeoClause] else [])
     @ (if pol_regional p then [RegionalClause] else [])"

definition combine_policies :: "policy \<Rightarrow> policy \<Rightarrow> policy res" where
  "combine_policies a b =
     rbind (rbind (to_spec a) parse_policy) (\<lambda>pa.
     rbind (rbind (to_spec b) parse_policy) (\<lambda>pb.
     rbind (rfold (\<lambda>bd p. rfold (add_clause ContractViolation) bd (combined_settings p)) empty_builder [pa, pb])
       build_policy))"

text \<open>Plain text has no separator of the grammar and no surrounding space.\<close>

definition plain :: "string \<Rightarrow> bool" where
  "plain t = (t \<noteq> [] \<and> strip t = t \<and> set t \<inter> set '';,@='' = {})"

definition terms_ok :: "(string \<times> string) list \<Rightarrow> bool" where
  "terms_ok ts = (sorted ts \<and> distinct (map fst ts) \<and> (\<forall>(k, v) \<in> set ts. check_term k v = Inr ()))"

definition selector_text :: "(string \<times> string) list \<Rightarrow> string" where
  "selector_text ts = (if ts = [] then ''all'' else join '','' (map term_text ts))"

text \<open>A value in normal form: no trailing zero, within the precision of the context.\<close>

definition fits_scale :: "dec \<Rightarrow> bool" where
  "fits_scale d = (\<not> sign d \<and> expo d \<le> 0 \<and> coef d \<le> 10 ^ nat (- expo d) \<and> ndig (coef d) \<le> 28 \<and> -1000026 \<le> expo d)"

definition normal_scale :: "dec \<Rightarrow> bool" where
  "normal_scale d = (fits_scale d \<and> (if coef d \<le> 1 \<and> expo d = 0 then True else coef d mod 10 \<noteq> 0 \<and> expo d < 0))"

definition option_text :: "string \<times> string \<Rightarrow> string" where
  "option_text kv = fst kv @ ''='' @ snd kv"

definition shaped :: "string \<Rightarrow> string \<Rightarrow> (string \<times> string) list \<Rightarrow> string \<Rightarrow> string" where
  "shaped name v os s = name @ ''='' @ join '','' (v # map option_text os) @ selector_suffix s"

definition shape_ok :: "string \<Rightarrow> string \<Rightarrow> (string \<times> string) list \<Rightarrow> string \<Rightarrow> bool" where
  "shape_ok name v os s = (name \<in> set CLAUSE_ORDER \<and> plain v \<and> distinct (map fst os) \<and>
     (\<forall>(k, t) \<in> set os. k \<in> set (clause_options name) \<and> plain t) \<and>
     canonical_selector s = Inr s \<and> (s = ''all'' \<or> name \<in> set TAKES_SELECTOR))"

text \<open>A clause is well formed when the printer stores it unchanged.\<close>

abbreviation clause_ok :: "clause \<Rightarrow> bool" where
  "clause_ok c \<equiv> stored_clause c = Inr c"

text \<open>Two clauses with one slot conflict unless they are equal.\<close>

fun slot :: "clause \<Rightarrow> string \<times> string" where
  "slot (TtlClause s v) = (''ttl'', s)"
| "slot (KeepaliveClause s i m) = (''keepalive'', '''')"
| "slot (CompactClause w p) = (''compact'', '''')"
| "slot (ColdClause a n) = (''cold'', '''')"
| "slot (ModelClause s m) = (''model'', s)"
| "slot (EffortClause s l sc) = (''effort'', s)"
| "slot FastClause = (''fast'', '''')"
| "slot GeoClause = (''geo'', '''')"
| "slot RegionalClause = (''regional'', '''')"
| "slot (BatchClause t) = (''batch'', '''')"
| "slot (RepairClause r) = (''repair'', r)"
| "slot (BreakpointsClause t) = (''breakpoints'', '''')"

definition consistent :: "clause set \<Rightarrow> bool" where
  "consistent V = inj_on slot V"

definition builder_ok :: "builder \<Rightarrow> bool" where
  "builder_ok b = (distinct (map fst (b_ttl b)) \<and> distinct (map fst (b_model b)) \<and> distinct (map fst (b_effort b)) \<and>
     distinct (b_repairs b))"

definition clauses_of :: "builder \<Rightarrow> clause set" where
  "clauses_of b = set (settings (raw_policy b))"

definition spec_text :: "clause set \<Rightarrow> string" where
  "spec_text V = join '';'' (map (\<lambda>(_, _, _, t). t) (sorted_list_of_set (clause_key ` V)))"

definition denotes :: "policy \<Rightarrow> clause set \<Rightarrow> bool" where
  "denotes p V = (\<exists>b. builder_ok b \<and> clauses_of b = V \<and> consistent V \<and> (\<forall>c \<in> V. clause_ok c) \<and> build_policy b = Inr p)"

definition long_spec :: string where
  "long_spec = ''keepalive=1s@team:'' @ replicate 16366 (CHR ''x'')"

definition long_clause :: clause where
  "long_clause = KeepaliveClause (''team:'' @ replicate 16366 (CHR ''x'')) 1 3600"

definition wit_conflict :: policy where
  "wit_conflict = observed_policy\<lparr>pol_ttl := [(''all'', ''5m''), (''all'', ''1h'')]\<rparr>"

definition wit_fast :: policy where "wit_fast = observed_policy\<lparr>pol_fast := True\<rparr>"
definition wit_ttl :: policy where "wit_ttl = observed_policy\<lparr>pol_ttl := [('''', ''1h'')]\<rparr>"

section \<open>Lemmas\<close>

subsection \<open>Strings\<close>

lemma partition_at_found: "c \<notin> set a \<Longrightarrow> partition_at c (a @ c # b) = (a, True, b)"
  by (induction a) (auto simp: partition_at_def)

lemma partition_at_missing: "c \<notin> set s \<Longrightarrow> partition_at c s = (s, False, [])"
  by (induction s) (auto simp: partition_at_def)

lemma split_on_one: "c \<notin> set s \<Longrightarrow> split_on c s = [s]"
  by (induction s) auto

lemma split_on_first: "c \<notin> set a \<Longrightarrow> split_on c (a @ c # b) = a # split_on c b"
  by (induction a) auto

lemma split_on_join:
  assumes "ts \<noteq> []" "\<And>t. t \<in> set ts \<Longrightarrow> c \<notin> set t"
  shows "split_on c (join [c] ts) = ts"
  using assms
proof (induction ts rule: list_nonempty_induct)
  case (cons t ts)
  then obtain u us where "ts = u # us" by (cases ts) auto
  with cons show ?case by (simp add: split_on_first)
qed (simp add: split_on_one)

lemma split_on_nonempty: "split_on c s \<noteq> []"
  by (induction s) (auto split: list.split)

lemma strip_fixed_iff: "strip s = s \<longleftrightarrow> s = [] \<or> (\<not> is_space (hd s) \<and> \<not> is_space (last s))"
proof (cases "s = []")
  case False
  have "dropWhile is_space xs = xs \<longleftrightarrow> xs = [] \<or> \<not> is_space (hd xs)" for xs
    by (cases xs) (auto dest: arg_cong [where f = length] simp: length_dropWhile_le le_imp_less_Suc less_imp_not_eq)
  note fixed = this
  show ?thesis
  proof
    assume st: "strip s = s"
    have "length (strip s) \<le> length (dropWhile is_space s)"
      by (simp add: strip_def length_dropWhile_le [THEN order_trans])
    then have "length (dropWhile is_space s) = length s"
      using st length_dropWhile_le [of is_space s] by simp
    then have a: "dropWhile is_space s = s" by (metis append_eq_conv_conj append_self_conv2 length_append
          length_0_conv add_cancel_left_left takeWhile_dropWhile_id)
    then have "dropWhile is_space (rev s) = rev s" using st by (simp add: strip_def rev_swap)
    with a show "s = [] \<or> (\<not> is_space (hd s) \<and> \<not> is_space (last s))"
      using False by (simp add: fixed hd_rev)
  qed (auto intro: strip_id simp: False)
qed (simp add: strip_def)

lemma strip_strip [simp]: "strip (strip s) = strip s"
proof (cases "strip s = []")
  case False
  let ?t = "dropWhile is_space s"
  let ?r = "dropWhile is_space (rev ?t)"
  have ne: "?r \<noteq> []" using False by (simp add: strip_def)
  then have "\<not> is_space (hd ?r)" by (rule hd_dropWhile)
  then have l: "\<not> is_space (last (strip s))" using ne by (simp add: strip_def last_rev)
  have "?t \<noteq> []" using ne by (metis dropWhile.simps(1) rev.simps(1))
  then have h: "\<not> is_space (hd ?t)" by (rule hd_dropWhile)
  obtain w where "rev ?t = w @ ?r" by (metis takeWhile_dropWhile_id)
  then have "?t = rev ?r @ rev w" by (metis rev_append rev_rev_ident)
  then have "hd (strip s) = hd ?t" using ne by (metis hd_append2 rev_is_Nil_conv strip_def)
  with h l show ?thesis by (simp add: strip_fixed_iff)
qed (simp add: strip_fixed_iff)

lemma set_strip: "set (strip s) \<subseteq> set s"
  unfolding strip_def by (metis set_rev set_dropWhileD subsetI)

lemma strip_last: "t \<noteq> [] \<Longrightarrow> strip t = t \<Longrightarrow> \<not> is_space (hd a) \<Longrightarrow> a \<noteq> [] \<Longrightarrow> strip (a @ t) = a @ t"
  by (simp add: strip_fixed_iff)

lemma last_join: "ts \<noteq> [] \<Longrightarrow> last ts \<noteq> [] \<Longrightarrow> last (join sep ts) = last (last ts)"
proof (induction ts rule: list_nonempty_induct)
  case (cons t ts)
  then obtain u us where ts: "ts = u # us" by (cases ts) auto
  have "join sep ts \<noteq> []"
  proof
    assume "join sep ts = []"
    then have "\<forall>p \<in> set ts. p = []" by (rule join_eq_Nil)
    with cons.prems show False using ts by simp
  qed
  then show ?case using cons ts by simp
qed simp

lemma set_join: "set (join sep ts) \<subseteq> set sep \<union> (\<Union>t \<in> set ts. set t)"
  by (induction sep ts rule: join.induct) auto

lemma join_first:
  assumes "ts \<noteq> []" "hd ts \<noteq> []"
  shows "join sep ts \<noteq> []" "hd (join sep ts) = hd (hd ts)"
  using assms by (cases ts; cases "tl ts"; simp)+

text \<open>Joined parts that are stripped and not empty stay stripped.\<close>

lemma strip_join:
  assumes "ts \<noteq> []" "\<And>t. t \<in> set ts \<Longrightarrow> t \<noteq> [] \<and> strip t = t"
  shows "strip (join sep ts) = join sep ts" "join sep ts \<noteq> []"
proof -
  have "hd ts \<noteq> []" "strip (hd ts) = hd ts" "last ts \<noteq> []" "strip (last ts) = last ts"
    using assms by simp_all
  then show "strip (join sep ts) = join sep ts" "join sep ts \<noteq> []"
    using assms(1) join_first [OF assms(1), of sep] last_join [OF assms(1), of sep]
    by (simp_all add: strip_fixed_iff)
qed

subsection \<open>Selectors\<close>

lemma check_value_plain: "check_value t = Inr u \<Longrightarrow> plain t"
  by (auto simp: check_value_def res_simps plain_def allowed_char_def list_all_iff)

lemma check_term_plain: "check_term k v = Inr u \<Longrightarrow> plain v"
  by (auto simp: check_term_def res_simps intro: check_value_plain)

lemma check_term_key: "check_term k v = Inr u \<Longrightarrow> k \<in> set SELECTOR_KEYS"
  by (auto simp: check_term_def res_simps)

lemma selector_key_plain: "k \<in> set SELECTOR_KEYS \<Longrightarrow> plain k \<and> CHR '':'' \<notin> set k"
  by (auto simp: SELECTOR_KEYS_def plain_def strip_fixed_iff is_space_def)

lemma canonical_selector_text: "canonical_selector s = rbind (parse_selector s) (\<lambda>ts. Inr (selector_text ts))"
  by (simp add: canonical_selector_def selector_text_def)

lemma selector_term_keeps:
  assumes "selector_term d raw = Inr d'" "distinct (map fst d)" "\<forall>(k, v) \<in> set d. check_term k v = Inr ()"
  shows "distinct (map fst d') \<and> (\<forall>(k, v) \<in> set d'. check_term k v = Inr ())"
  using assms by (auto simp: selector_term_def res_simps dset_fresh split: prod.splits)

lemma parse_selector_ok: "parse_selector s = Inr ts \<Longrightarrow> terms_ok ts"
proof (cases "strip s = '''' \<or> strip s = ''all''")
  case False
  assume "parse_selector s = Inr ts"
  then obtain d where d: "rfold selector_term [] (split_on (CHR '','') (strip s)) = Inr d" "ts = sort d"
    using False by (auto simp: parse_selector_def Let_def res_simps)
  let ?I = "\<lambda>d. distinct (map fst d) \<and> (\<forall>(k, v) \<in> set d. check_term k v = Inr ())"
  have "rsat ?I (rfold selector_term [] (split_on (CHR '','') (strip s)))"
    by (rule rsat_rfold) (auto intro!: rsatI dest: selector_term_keeps)
  then have "?I d" using d(1) by simp
  then have "distinct (map fst d)" "distinct d" by (auto simp: distinct_map)
  moreover have "mset (map fst (sort d)) = mset (map fst d)" by simp
  ultimately have "distinct (map fst (sort d))" by (metis mset_eq_imp_distinct_iff)
  then show ?thesis using \<open>?I d\<close> by (simp add: d(2) terms_ok_def)
qed (simp add: parse_selector_def terms_ok_def Let_def)

lemma selector_term_reads:
  assumes "check_term k v = Inr ()" "map_of d k = None"
  shows "selector_term d (term_text (k, v)) = Inr (d @ [(k, v)])"
proof -
  have k: "plain k" "CHR '':'' \<notin> set k" using check_term_key [OF assms(1)] selector_key_plain by auto
  have v: "plain v" using assms(1) by (rule check_term_plain)
  have "strip (term_text (k, v)) = term_text (k, v)"
    using k(1) v by (auto simp: term_text_def plain_def strip_fixed_iff)
  then show ?thesis using k v assms
    by (simp add: selector_term_def term_text_def partition_at_found plain_def dset_fresh)
qed

lemma selector_terms_read:
  assumes "distinct (map fst (d @ ts))" "\<forall>(k, v) \<in> set ts. check_term k v = Inr ()"
  shows "rfold selector_term d (map term_text ts) = Inr (d @ ts)"
  using assms
proof (induction ts arbitrary: d)
  case (Cons kv ts)
  obtain k v where kv: "kv = (k, v)" by force
  have "map_of d k = None" using Cons.prems(1) kv by (auto simp: map_of_eq_None_iff)
  then have "selector_term d (term_text kv) = Inr (d @ [kv])" using Cons.prems(2) kv by (auto intro: selector_term_reads)
  then show ?case using Cons.IH [of "d @ [kv]"] Cons.prems by simp
qed simp

lemma term_text_plain:
  assumes "check_term (fst kv) (snd kv) = Inr ()"
  shows "term_text kv \<noteq> []" "strip (term_text kv) = term_text kv" "set (term_text kv) \<inter> set '';,@='' = {}"
    "CHR '':'' \<in> set (term_text kv)"
  using selector_key_plain [OF check_term_key [OF assms]] check_term_plain [OF assms]
  by (auto simp: term_text_def plain_def strip_fixed_iff)

lemma terms_text_plain:
  assumes "terms_ok ts" "t \<in> set (map term_text ts)"
  shows "t \<noteq> []" "strip t = t" "set t \<inter> set '';,@='' = {}" "CHR '':'' \<in> set t"
proof -
  obtain kv where "kv \<in> set ts" "t = term_text kv" using assms(2) by auto
  moreover then have "check_term (fst kv) (snd kv) = Inr ()" using assms(1) by (auto simp: terms_ok_def)
  ultimately show "t \<noteq> []" "strip t = t" "set t \<inter> set '';,@='' = {}" "CHR '':'' \<in> set t"
    using term_text_plain by auto
qed

lemma join_terms_plain:
  assumes "terms_ok ts" "ts \<noteq> []"
  defines "s \<equiv> join '','' (map term_text ts)"
  shows "s \<noteq> []" "strip s = s" "set s \<inter> set '';@='' = {}" "CHR '':'' \<in> set s"
    "split_on (CHR '','') s = map term_text ts"
proof -
  note t = terms_text_plain [OF assms(1)]
  have ne: "map term_text ts \<noteq> []" using assms(2) by simp
  show "s \<noteq> []" "strip s = s" unfolding s_def using t by (intro strip_join [OF ne]; blast)+
  have "(\<Union>t \<in> set (map term_text ts). set t) \<inter> set '';,@='' = {}" using t(3) by blast
  then show "set s \<inter> set '';@='' = {}" using set_join [of "'',''" "map term_text ts"] unfolding s_def by auto
  have "set (hd ts') \<subseteq> set (join sep ts')" if "ts' \<noteq> []" for ts' :: "string list" and sep
    using that by (cases ts'; cases "tl ts'") auto
  from this [OF ne, of "'',''"] show "CHR '':'' \<in> set s"
    unfolding s_def using t(4) [of "hd (map term_text ts)"] ne by (meson hd_in_set subsetD)
  show "split_on (CHR '','') s = map term_text ts"
    unfolding s_def using t(3) by (intro split_on_join [OF ne]) auto
qed

lemma selector_text_plain:
  assumes "terms_ok ts"
  shows "selector_text ts \<noteq> []" "strip (selector_text ts) = selector_text ts"
    "set (selector_text ts) \<inter> set '';@='' = {}" "selector_text ts = ''all'' \<longleftrightarrow> ts = []"
  using join_terms_plain [OF assms] by (cases "ts = []"; auto simp: selector_text_def strip_fixed_iff is_space_def)+

lemma parse_selector_text: "terms_ok ts \<Longrightarrow> parse_selector (selector_text ts) = Inr ts"
proof (cases "ts = []")
  case False
  assume ok: "terms_ok ts"
  have "sort ts = ts" using ok by (simp add: terms_ok_def sorted_sort_id)
  moreover have "rfold selector_term [] (map term_text ts) = Inr ts"
    using selector_terms_read [of "[]" ts] ok by (simp add: terms_ok_def)
  moreover have "selector_text ts = join '','' (map term_text ts)" using False by (simp add: selector_text_def)
  ultimately show ?thesis using False selector_text_plain(4) [OF ok] join_terms_plain [OF ok False]
    by (simp add: parse_selector_def Let_def)
qed (simp add: parse_selector_def selector_text_def strip_fixed_iff is_space_def Let_def)

lemma canonical_selector_again: "canonical_selector s = Inr c \<Longrightarrow> canonical_selector c = Inr c"
  by (auto simp: canonical_selector_text res_simps parse_selector_text dest: parse_selector_ok)

lemma canonical_selector_plain:
  assumes "canonical_selector s = Inr c"
  shows "c \<noteq> []" "strip c = c" "set c \<inter> set '';@='' = {}"
  using assms selector_text_plain by (auto simp: canonical_selector_text res_simps dest!: parse_selector_ok)

subsection \<open>Scales\<close>

lemma scale_chars:
  assumes "scale_re t"
  shows "t \<noteq> []" "set t \<subseteq> Collect is_digit \<union> {CHR ''.''}"
proof -
  have "t = takeWhile is_digit t @ dropWhile is_digit t" by simp
  moreover have "set (takeWhile is_digit t) \<subseteq> Collect is_digit" by (auto dest: set_takeWhileD)
  moreover have "set (dropWhile is_digit t) \<subseteq> Collect is_digit \<union> {CHR ''.''}"
    using assms by (cases "dropWhile is_digit t") (auto simp: scale_re_def Let_def list_all_iff dest: set_dropWhileD)
  ultimately show "set t \<subseteq> Collect is_digit \<union> {CHR ''.''}" by (metis Un_subset_iff set_append sup.coboundedI1)
  show "t \<noteq> []" using assms by (auto simp: scale_re_def)
qed

lemma scale_char_facts:
  assumes "set t \<subseteq> Collect is_digit \<union> {CHR ''.''}" "t \<noteq> []"
  shows "plain t" "CHR '';'' \<notin> set t" "filter (\<lambda>c. c \<noteq> CHR ''_'') t = t" "take_sign t = (False, t)" "map lower t = t"
    "hd t \<noteq> CHR ''i''" "hd t \<noteq> CHR ''n''" "hd t \<noteq> CHR ''s''"
proof -
  have c: "\<not> is_space c \<and> c \<notin> set '';,@='' \<and> c \<noteq> CHR ''_'' \<and> c \<noteq> CHR ''-'' \<and> c \<noteq> CHR ''+'' \<and> lower c = c \<and>
      c \<noteq> CHR ''i'' \<and> c \<noteq> CHR ''n'' \<and> c \<noteq> CHR ''s''" if "c \<in> set t" for c
  proof (cases "is_digit c")
    case True
    then show ?thesis by (auto simp: is_digit_facts) (auto simp: is_digit_iff)
  next
    case False
    then have "c = CHR ''.''" using assms(1) that by auto
    then show ?thesis by (simp add: is_space_def lower_def)
  qed
  have "hd t \<in> set t" "last t \<in> set t" using assms(2) by simp_all
  then show "hd t \<noteq> CHR ''i''" "hd t \<noteq> CHR ''n''" "hd t \<noteq> CHR ''s''" using c by blast+
  have "\<not> is_space (hd t)" "\<not> is_space (last t)" using c assms(2) by simp_all
  then show "plain t" using assms(2) c by (auto simp: plain_def strip_fixed_iff)
  show "CHR '';'' \<notin> set t" using c by auto
  show "filter (\<lambda>c. c \<noteq> CHR ''_'') t = t" using c by (intro filter_True) blast
  show "map lower t = t" using c by (intro map_idI) blast
  show "take_sign t = (False, t)" using c assms(2) by (cases t) (auto simp: take_sign_def)
qed

lemma scale_decimal:
  assumes "set t \<subseteq> Collect is_digit \<union> {CHR ''.''}" "t \<noteq> []"
  shows "decimal_of_string t = rbind (parse_number False t) (\<lambda>d. Inr (Finite d))"
proof -
  note f = scale_char_facts [OF assms]
  have s: "strip t = t" using f(1) by (simp add: plain_def)
  obtain a u where t: "t = a # u" using assms(2) by (cases t) auto
  have "t \<noteq> ''inf''" "t \<noteq> ''infinity''" "\<not> is_nan_text t"
    using f(6-8) by (auto simp: t is_nan_text_def startswith_def)
  then show ?thesis by (simp add: decimal_of_string_def s f(3,4,5) Let_def)
qed

lemma drop_zeros_scale:
  "drop_zeros c e = (c', e') \<Longrightarrow> c \<noteq> 0 \<Longrightarrow> \<exists>j. c = c' * 10 ^ j \<and> e' = e + int j \<and> c' mod 10 \<noteq> 0"
proof (induction c e rule: drop_zeros.induct)
  case (1 c e)
  show ?case
  proof (cases "c mod 10 = 0")
    case True
    then have "drop_zeros (c div 10) (e + 1) = (c', e')" "c div 10 \<noteq> 0"
      using 1(2,3) by (auto simp: drop_zeros.simps [of c e])
    then obtain j where "c div 10 = c' * 10 ^ j" "e' = e + 1 + int j" "c' mod 10 \<noteq> 0" using 1 True by blast
    then show ?thesis using True by (intro exI [of _ "Suc j"]) (auto simp: algebra_simps elim!: dvdE)
  next
    case False
    then show ?thesis using 1(2,3) by (intro exI [of _ 0]) (simp add: drop_zeros.simps [of c e])
  qed
qed

lemma normalize_zero: "coef r = 0 \<Longrightarrow> \<not> sign r \<Longrightarrow> normal_scale (dec_normalize r)"
  by (simp add: dec_normalize_def normal_scale_def fits_scale_def mkdec_def ndig.simps [of 0])

lemma normalize_scale:
  assumes "fits_scale r"
  shows "normal_scale (dec_normalize r)"
proof (cases "coef r = 0")
  case True
  then show ?thesis using assms normalize_zero [of r] by (simp add: fits_scale_def)
next
  case False
  obtain c e where ce: "drop_zeros (coef r) (expo r) = (c, e)" by force
  then obtain j where j: "coef r = c * 10 ^ j" "e = expo r + int j" "c mod 10 \<noteq> 0" using drop_zeros_scale False by blast
  have r: "\<not> sign r" "expo r \<le> 0" "coef r \<le> 10 ^ nat (- expo r)" "ndig (coef r) \<le> 28" "-1000026 \<le> expo r"
    using assms by (simp_all add: fits_scale_def)
  have c0: "0 < c" using False j(1) by (cases c) auto
  have "10 ^ j \<le> coef r" using j(1) c0 by simp
  then have "(10::nat) ^ j \<le> 10 ^ nat (- expo r)" using r(3) by (rule le_trans)
  then have jk: "j \<le> nat (- expo r)" by simp
  have "c * 10 ^ j \<le> 10 ^ (nat (- expo r) - j) * 10 ^ j" using r(3) j(1) jk by (simp flip: power_add)
  then have "c \<le> 10 ^ (nat (- expo r) - j)" by simp
  moreover have e: "nat (- e) = nat (- expo r) - j" "e \<le> 0" using j(2) jk r(2) by linarith+
  ultimately have cle: "c \<le> 10 ^ nat (- e)" by simp
  have "c \<le> coef r" using j(1) by simp
  then have "ndig c \<le> 28" using ndig_mono [of c "coef r"] r(4) by simp
  moreover have "e < 0 \<or> c \<le> 1" using cle e by (cases "e = 0") auto
  ultimately show ?thesis using r(1,5) j cle e False ce
    by (auto simp: dec_normalize_def normal_scale_def fits_scale_def mkdec_def)
qed

lemma dec_fix_rounds:
  assumes "dec_fix ctx s c e = Inr r" "c \<noteq> 0" "e < em" "\<not> trap_inexact ctx"
    and em: "em = max (int (ndig c) + e - int (prec ctx)) (emin ctx - int (prec ctx) + 1)"
    and q: "q = nat (div_half_even (int c) (10 ^ nat (em - e)))"
  shows "r = (if prec ctx < ndig q then mkdec s (q div 10) (em + 1) else mkdec s q em)"
  using assms(1-4) unfolding dec_fix_def Let_def em [symmetric] q [symmetric] by (auto split: if_splits)

lemma fix_scale:
  assumes d: "\<not> sign d" "unit_interval d" and fx: "dec_fix DEFAULT_CTX (sign d) (coef d) (expo d) = Inr r"
  shows "coef r = 0 \<and> \<not> sign r \<or> fits_scale r"
proof (cases "coef d = 0")
  case True
  then show ?thesis using d fx by (auto simp: dec_fix_def mkdec_def Let_def)
next
  case False
  define c e where "c = coef d" and "e = expo d"
  define em where "em = max (int (ndig c) + e - 28) (- 1000026)"
  have c: "c \<noteq> 0" "e \<le> 0" "c \<le> 10 ^ nat (- e)" using False d(2) by (auto simp: unit_interval_def c_def e_def)
  have "ndig c \<le> Suc (nat (- e))"
    using c(3) ndig_le_iff [of "Suc (nat (- e))" c] by (simp add: order_le_less_trans [of c "10 ^ nat (- e)"])
  then have em0: "em \<le> 0" using c(2) by (simp add: em_def)
  show ?thesis
  proof (cases "e < em")
    case False
    then have "ndig c \<le> prec DEFAULT_CTX" "emin DEFAULT_CTX \<le> e + int (prec DEFAULT_CTX) - 1"
        "e + int (prec DEFAULT_CTX) - 1 \<le> emax DEFAULT_CTX"
      using c(2) by (auto simp: em_def DEFAULT_CTX_def)
    from dec_fix_fits [OF this, of False] have "r = mkdec False c e" using fx d(1) by (simp add: c_def e_def)
    moreover have "ndig c \<le> 28" "-1000026 \<le> e" using False by (auto simp: em_def)
    ultimately show ?thesis using c by (simp add: fits_scale_def mkdec_def)
  next
    case True
    define m q where "m = (10::int) ^ nat (em - e)" and "q = nat (div_half_even (int c) m)"
    have m: "0 < m" by (simp add: m_def)
    have "int c \<le> 10 ^ nat (- em) * m"
    proof -
      have "nat (- e) = nat (- em) + nat (em - e)" using True em0 by linarith
      then have "(10::int) ^ nat (- e) = 10 ^ nat (- em) * m" by (simp add: m_def power_add)
      then show ?thesis using c(3) by (metis of_nat_le_iff of_nat_numeral of_nat_power)
    qed
    then have "div_half_even (int c) m \<le> 10 ^ nat (- em)" using he.within [OF m, of 0 "int c"] by simp
    then have q1: "q \<le> 10 ^ nat (- em)" by (simp add: q_def nat_le_iff)
    have "int c \<le> 10 ^ 28 * m"
    proof -
      have "ndig c \<le> 28 + nat (em - e)" using True by (simp add: em_def)
      then have "c < 10 ^ (28 + nat (em - e))" using ndig_le_iff [of "28 + nat (em - e)" c] by simp
      then have "int c < 10 ^ (28 + nat (em - e))" by (metis of_nat_less_iff of_nat_numeral of_nat_power)
      then show ?thesis by (simp only: m_def power_add)
    qed
    then have "div_half_even (int c) m \<le> 10 ^ 28" using he.within [OF m, of 0 "int c" "10 ^ 28"] by simp
    then have q2: "q \<le> 10 ^ 28" by (simp add: q_def nat_le_iff)
    have etiny: "-1000026 \<le> em" by (simp add: em_def)
    have r: "r = (if 28 < ndig q then mkdec False (q div 10) (em + 1) else mkdec False q em)"
      using dec_fix_rounds [of DEFAULT_CTX False c e r em q] fx c(1) d(1) True
      by (simp add: c_def e_def em_def m_def q_def DEFAULT_CTX_def)
    show ?thesis
    proof (cases "28 < ndig q")
      case carry: True
      then have "\<not> q < 10 ^ 28" using ndig_le_iff [of 28 q] by simp
      then have q: "q = 10 ^ 28" using q2 by simp
      have "r = mkdec False (q div 10) (em + 1)" using carry r by simp
      moreover have "(10::nat) ^ 28 \<le> 10 ^ nat (- em)" using q q1 by simp
      then have "28 \<le> nat (- em)" by (simp only: power_increasing_iff)
      moreover have "ndig (10 ^ 27) = 28" using ndig_le_iff [of 28 "10 ^ 27"] ndig_le_iff [of 27 "10 ^ 27"] by simp
      moreover have "(10::nat) ^ 28 div 10 = 10 ^ 27" by simp
      moreover have "(10::nat) ^ 27 \<le> 10 ^ nat (- (em + 1))" using \<open>28 \<le> nat (- em)\<close> by (intro power_increasing) auto
      ultimately show ?thesis using etiny by (simp add: fits_scale_def mkdec_def q del: power_numeral)
    next
      case False
      then have "r = mkdec False q em" using r by simp
      then show ?thesis using False q1 em0 etiny by (simp add: fits_scale_def mkdec_def)
    qed
  qed
qed

lemma digit_span:
  assumes "\<forall>c \<in> set w. is_digit c" "rest = [] \<or> \<not> is_digit (hd rest)"
  shows "takeWhile is_digit (w @ rest) = w" "dropWhile is_digit (w @ rest) = rest"
  using assms by (cases rest; auto simp: takeWhile_append dropWhile_append)+

lemma format_scale:
  assumes "normal_scale d"
  shows "(expo d = 0 \<and> coef d \<le> 1 \<and> format_f d = show_nat (coef d)) \<or>
    (expo d < 0 \<and> (\<exists>f. format_f d = ''0.'' @ f \<and> (\<forall>c \<in> set f. is_digit c) \<and> read_nat f = coef d \<and> int (length f) = - expo d))"
proof (cases "expo d = 0")
  case True
  then show ?thesis using assms by (auto simp: normal_scale_def fits_scale_def format_f_def split: if_splits)
next
  case False
  define k where "k = nat (- expo d)"
  have n: "\<not> sign d" "expo d < 0" "coef d \<le> 10 ^ k" "coef d mod 10 \<noteq> 0"
    using assms False by (auto simp: normal_scale_def fits_scale_def k_def)
  have k: "0 < k" "expo d = - int k" using n(2) by (simp_all add: k_def)
  have "coef d \<noteq> 10 ^ k"
  proof
    assume "coef d = 10 ^ k"
    moreover obtain j where "k = Suc j" using k(1) by (cases k) auto
    ultimately show False using n(4) by simp
  qed
  then have len: "length (show_nat (coef d)) \<le> k" using n(3) k(1) by (simp add: length_show_nat ndig_le_iff)
  define f where "f = rjust k (CHR ''0'') (show_nat (coef d))"
  have "rjust (k + 1) (CHR ''0'') (show_nat (coef d)) = CHR ''0'' # f"
    using len by (simp add: f_def rjust_def Suc_diff_le)
  moreover have lf: "length f = k" using len by (simp add: f_def length_rjust)
  ultimately have "format_f d = ''0.'' @ f" using n(1) k by (simp add: format_f_def Let_def)
  moreover have "\<forall>c \<in> set f. is_digit c"
    using show_nat_digits [of "coef d"] is_digit_dig [of 0] by (auto simp: f_def rjust_def dig_def)
  moreover have "read_nat f = coef d" by (simp add: f_def)
  ultimately show ?thesis using k lf by auto
qed

text \<open>A scale in normal form is printed as itself.\<close>

lemma canonical_scale_normal:
  assumes "normal_scale d"
  shows "canonical_scale (format_f d) = Inr (format_f d)"
proof -
  have fits: "fits_scale d" using assms by (simp add: normal_scale_def)
  have d: "\<not> sign d" "ndig (coef d) \<le> 28" "-1000026 \<le> expo d" "unit_interval d" "expo d \<le> 0"
    using fits by (auto simp: fits_scale_def unit_interval_def)
  have dm: "dec_make False (coef d) (expo d) = Inr d"
    using d by (cases d) (simp add: dec_make_def MIN_ETINY_def MAX_EMAX_def mkdec_def)
  have fx: "dec_fix DEFAULT_CTX (sign d) (coef d) (expo d) = Inr (mkdec (sign d) (coef d) (expo d))"
    using d by (intro dec_fix_fits) (auto simp: DEFAULT_CTX_def)
  have "dec_normalize d = d"
    using assms d(1) drop_zeros.simps [of "coef d" "expo d"]
    by (cases d; cases "coef d = 0") (auto simp: normal_scale_def dec_normalize_def mkdec_def split: if_splits)
  then have nf: "format_f (dec_normalize (mkdec (sign d) (coef d) (expo d))) = format_f d"
    by (cases d) (simp add: mkdec_def)
  have "scale_re (format_f d) \<and> decimal_of_string (format_f d) = Inr (Finite d)"
  proof (cases "expo d = 0")
    case True
    then have t: "format_f d = show_nat (coef d)" using format_scale [OF assms] by auto
    have c: "set (show_nat (coef d)) \<subseteq> Collect is_digit \<union> {CHR ''.''}" using show_nat_digits by auto
    have tw: "takeWhile is_digit (show_nat (coef d)) = show_nat (coef d)" "dropWhile is_digit (show_nat (coef d)) = []"
      using digit_span [of "show_nat (coef d)" "[]"] show_nat_digits by simp_all
    show ?thesis using scale_decimal [OF c] dm True
      by (simp add: t tw scale_re_def Let_def parse_number_def parse_exponent_def)
  next
    case False
    then obtain f where f: "format_f d = ''0.'' @ f" "\<forall>c \<in> set f. is_digit c" "read_nat f = coef d"
      "int (length f) = - expo d" using format_scale [OF assms] by auto
    have z: "is_digit (CHR ''0'')" "\<not> is_digit (CHR ''.'')" by (simp_all add: is_digit_iff)
    have tf: "takeWhile is_digit f = f" "dropWhile is_digit f = []" using digit_span [of f "[]"] f(2) by simp_all
    have c: "set (''0.'' @ f) \<subseteq> Collect is_digit \<union> {CHR ''.''}" using f(2) z by auto
    have "read_nat (CHR ''0'' # f) = coef d"
      using f(3) read_nat_append [of "''0''" f] read_nat_zeros [of 1] by simp
    then show ?thesis using scale_decimal [OF c] dm f z tf
      by (auto simp: scale_re_def Let_def parse_number_def parse_exponent_def list_all_iff)
  qed
  then show ?thesis using d(4) fx nf by (simp add: canonical_scale_def)
qed

lemma canonical_scale_again:
  assumes "canonical_scale t = Inr s"
  shows "canonical_scale s = Inr s" "set s \<subseteq> Collect is_digit \<union> {CHR ''.''}" "s \<noteq> []"
proof -
  obtain d r where t: "scale_re t" "decimal_of_string t = Inr (Finite d)" "unit_interval d"
    "dec_fix DEFAULT_CTX (sign d) (coef d) (expo d) = Inr r" "s = format_f (dec_normalize r)"
    using assms by (auto simp: canonical_scale_def res_simps split: if_splits sum.splits decimal.splits)
  have "\<not> sign d" using t(2) scale_decimal [OF scale_chars(2,1) [OF t(1)]]
    by (auto simp: res_simps parse_number_def dec_make_def Let_def mkdec_def split: if_splits option.splits)
  from fix_scale [OF this t(3,4)] have n: "normal_scale (dec_normalize r)"
    using normalize_scale [of r] normalize_zero [of r] by blast
  then show "canonical_scale s = Inr s" by (simp add: t(5) canonical_scale_normal)
  then have "scale_re s" by (auto simp: canonical_scale_def split: if_splits)
  then show "set s \<subseteq> Collect is_digit \<union> {CHR ''.''}" "s \<noteq> []" by (auto dest: scale_chars)
qed

subsection \<open>Clauses\<close>

lemma digits_plain:
  assumes "\<forall>c \<in> set ds. is_digit c" "ds \<noteq> []"
  shows "plain ds" "plain (ds @ ''s'')"
proof -
  have "plain ds" using assms by (intro scale_char_facts) auto
  then show "plain ds" "plain (ds @ ''s'')" by (auto simp: plain_def strip_fixed_iff is_space_def)
qed

lemma count_digits:
  assumes "0 < n" "n \<le> MAX_TOKENS"
  shows "show_int n = show_nat (nat n)" "length (show_nat (nat n)) \<le> 16"
  using assms ndig_le_iff [of 16 "nat n"] by (auto simp: show_int_def length_show_nat MAX_TOKENS_def)

lemma duration_reads:
  assumes "0 < n" "n \<le> MAX_TOKENS"
  shows "duration_s (show_int n @ ''s'') = Inr n" "plain (show_int n @ ''s'')"
proof -
  have "\<not> is_digit (CHR ''s'')" by (simp add: is_digit_iff)
  then show "duration_s (show_int n @ ''s'') = Inr n" "plain (show_int n @ ''s'')"
    using assms count_digits [OF assms] digit_span [of "show_nat (nat n)" "''s''"] digits_plain [of "show_nat (nat n)"]
    by (auto simp: duration_s_def show_nat_digits unit_seconds_def Let_def)
qed

lemma positive_reads:
  assumes "0 < n" "n \<le> MAX_TOKENS"
  shows "positive_int (show_int n) = Inr n" "plain (show_int n)"
  using assms count_digits [OF assms] digits_plain [of "show_nat (nat n)"] show_nat_digits [of "nat n"]
  by (auto simp: positive_int_def Let_def list_all_iff)

lemma read_bounds:
  "duration_s t = Inr n \<Longrightarrow> 0 < n \<and> n \<le> MAX_TOKENS"
  "positive_int t = Inr n \<Longrightarrow> 0 < n \<and> n \<le> MAX_TOKENS"
  by (auto simp: duration_s_def positive_int_def Let_def split: if_splits option.splits)

lemma clause_name_plain: "name \<in> set CLAUSE_ORDER \<Longrightarrow> plain name"
  by (auto simp: CLAUSE_ORDER_def plain_def strip_fixed_iff is_space_def)

lemma clause_option_plain: "k \<in> set (clause_options name) \<Longrightarrow> plain k"
  by (auto simp: clause_options_def plain_def strip_fixed_iff is_space_def split: if_splits)

lemma option_text_facts:
  assumes "plain k" "plain t"
  shows "option_text (k, t) \<noteq> []" "strip (option_text (k, t)) = option_text (k, t)"
    "set (option_text (k, t)) \<inter> set '';,@'' = {}"
  using assms by (auto simp: option_text_def plain_def strip_fixed_iff)

lemma option_reads:
  assumes "k \<in> set (clause_options name)" "plain t" "map_of d k = None"
  shows "option_part name d (option_text (k, t)) = Inr (d @ [(k, t)])"
  using assms clause_option_plain [OF assms(1)]
  by (simp add: option_part_def option_text_def partition_at_found plain_def dset_fresh)

lemma options_read:
  assumes "distinct (map fst (d @ os))" "\<forall>(k, t) \<in> set os. k \<in> set (clause_options name) \<and> plain t"
  shows "rfold (option_part name) d (map option_text os) = Inr (d @ os)"
  using assms
proof (induction os arbitrary: d)
  case (Cons kv os)
  obtain k t where kv: "kv = (k, t)" by force
  have "map_of d k = None" using Cons.prems(1) kv by (auto simp: map_of_eq_None_iff)
  then have "option_part name d (option_text kv) = Inr (d @ [kv])" using Cons.prems(2) kv by (auto intro: option_reads)
  then show ?case using Cons.IH [of "d @ [kv]"] Cons.prems by simp
qed simp

lemma shaped_parts:
  assumes "shape_ok name v os s"
  defines "body \<equiv> join '','' (v # map option_text os)"
  shows "body \<noteq> []" "strip body = body" "set body \<inter> set '';@'' = {}"
    "map strip (split_on (CHR '','') body) = v # map option_text os"
proof -
  have t: "t \<noteq> [] \<and> strip t = t \<and> set t \<inter> set '';,@'' = {}" if mem: "t \<in> set (v # map option_text os)" for t
  proof (cases "t = v")
    case True
    then show ?thesis using assms(1) by (auto simp: shape_ok_def plain_def)
  next
    case False
    then obtain kx where "kx \<in> set os" "t = option_text kx" using mem by auto
    then obtain k x where kx: "(k, x) \<in> set os" "t = option_text (k, x)" by (metis surj_pair)
    then have "k \<in> set (clause_options name)" "plain x" using assms(1) by (auto simp: shape_ok_def)
    then have "plain k" "plain x" using clause_option_plain by blast+
    then show ?thesis using option_text_facts kx(2) by simp
  qed
  have ne: "v # map option_text os \<noteq> []" by simp
  show "body \<noteq> []" "strip body = body" unfolding body_def using t by (intro strip_join [OF ne]; blast)+
  have "(\<Union>t \<in> set (v # map option_text os). set t) \<inter> set '';,@'' = {}" using t by blast
  then show "set body \<inter> set '';@'' = {}" using set_join [of "'',''" "v # map option_text os"] unfolding body_def by auto
  have "split_on (CHR '','') body = v # map option_text os"
    unfolding body_def using t by (intro split_on_join [OF ne]) fastforce
  moreover have "map strip (v # map option_text os) = v # map option_text os" using t by (intro map_idI) blast
  ultimately show "map strip (split_on (CHR '','') body) = v # map option_text os" by simp
qed

lemma shaped_reads:
  assumes "shape_ok name v os s"
  shows "read_clause (shaped name v os s) = clause_of name s v os"
    "strip (shaped name v os s) = shaped name v os s" "CHR '';'' \<notin> set (shaped name v os s)" "shaped name v os s \<noteq> []"
proof -
  note p = shaped_parts [OF assms]
  define body where "body = join '','' (v # map option_text os)"
  note p = p [folded body_def]
  have n: "plain name" "name \<in> set CLAUSE_ORDER" using assms clause_name_plain by (auto simp: shape_ok_def)
  have v: "v \<noteq> ''''" using assms by (simp add: shape_ok_def plain_def)
  have s: "canonical_selector s = Inr s" "s = ''all'' \<or> name \<in> set TAKES_SELECTOR" using assms by (auto simp: shape_ok_def)
  note c = canonical_selector_plain [OF s(1)]
  have tx: "shaped name v os s = (name @ ''='' @ body) @ selector_suffix s" by (simp add: shaped_def body_def)
  have nb: "CHR ''@'' \<notin> set (name @ ''='' @ body)" "partition_at (CHR ''='') (name @ ''='' @ body) = (name, True, body)"
    using n(1) p(3) by (auto simp: plain_def partition_at_found)
  have pt: "partition_at (CHR ''@'') (shaped name v os s) =
      (name @ ''='' @ body, s \<noteq> ''all'', if s = ''all'' then [] else s)"
    using nb(1) partition_at_missing [OF nb(1)] partition_at_found [OF nb(1), of s] by (simp add: tx selector_suffix_def)
  have "rfold (option_part name) [] (map option_text os) = Inr os"
    using options_read [of "[]" os name] assms by (auto simp: shape_ok_def)
  moreover have "strip name = name" using n(1) by (simp add: plain_def)
  ultimately show "read_clause (shaped name v os s) = clause_of name s v os"
    using pt nb(2) p(4) n(2) s c v by (auto simp: read_clause_def Let_def)
  show "CHR '';'' \<notin> set (shaped name v os s)"
    using n(1) p(3) c(3) by (auto simp: tx selector_suffix_def plain_def)
  show "shaped name v os s \<noteq> []" using n(1) by (simp add: tx plain_def)
  show "strip (shaped name v os s) = shaped name v os s"
    using n(1) p(1,2) c(1,2) by (auto simp: tx selector_suffix_def plain_def strip_fixed_iff)
qed

lemma contract_error_value [simp]: "contract_error (Inr x) = Inr x"
  by (simp add: contract_error_def)

lemma contract_error_Inr [simp]: "contract_error r = Inr x \<longleftrightarrow> r = Inr x"
  by (cases r) (simp_all add: contract_error_def)

lemma stored_clause_ok: "stored_clause c = Inr d \<Longrightarrow> clause_ok d"
  by (cases c) (auto simp: stored_clause_def res_simps canonical_selector_again canonical_scale_again split: option.splits)

lemma canonical_all: "canonical_selector ''all'' = Inr ''all''"
  by (simp add: canonical_selector_def parse_selector_def strip_fixed_iff is_space_def)

lemma clause_of_ok:
  assumes "canonical_selector s = Inr s" "clause_of name s v os = Inr c"
  shows "clause_ok c"
proof -
  have d: "0 < KEEPALIVE_MAX_DEFAULT_S \<and> KEEPALIVE_MAX_DEFAULT_S \<le> MAX_TOKENS"
    "0 < COLD_RESUME_MIN_DEFAULT \<and> COLD_RESUME_MIN_DEFAULT \<le> MAX_TOKENS"
    by (simp_all add: KEEPALIVE_MAX_DEFAULT_S_def COLD_RESUME_MIN_DEFAULT_def MAX_TOKENS_def)
  note b = stored_clause_def require_int_def guard_def
  show ?thesis
  proof (cases c)
    case (KeepaliveClause s' i m)
    with assms(2) have "s' = s" "duration_s v = Inr i" "m = KEEPALIVE_MAX_DEFAULT_S \<or> (\<exists>t. duration_s t = Inr m)"
      by (auto simp: clause_of_def res_simps split: if_splits option.splits)
    moreover from this have "0 < i \<and> i \<le> MAX_TOKENS" "0 < m \<and> m \<le> MAX_TOKENS"
      using d(1) by (auto dest: read_bounds)
    ultimately show ?thesis using KeepaliveClause assms(1) by (simp add: b)
  next
    case (CompactClause w p)
    with assms(2) have "positive_int v = Inr w" "p = None \<or> (\<exists>t n. positive_int t = Inr n \<and> p = Some n)"
      by (auto simp: clause_of_def res_simps split: if_splits option.splits)
    moreover from this have "0 < w \<and> w \<le> MAX_TOKENS" by (auto dest: read_bounds)
    ultimately show ?thesis using CompactClause by (auto simp: b dest: read_bounds)
  next
    case (ColdClause a n)
    with assms(2) have "a \<in> set COLD_RESUME_ACTIONS" "n = COLD_RESUME_MIN_DEFAULT \<or> (\<exists>t. positive_int t = Inr n)"
      by (auto simp: clause_of_def res_simps split: if_splits option.splits)
    moreover from this have "0 < n \<and> n \<le> MAX_TOKENS" using d(2) by (auto dest: read_bounds)
    ultimately show ?thesis using ColdClause by (simp add: b)
  next
    case (EffortClause s' l sc)
    with assms(2) have "s' = s" "l \<in> set EFFORT_LEVELS" "\<exists>t. canonical_scale t = Inr sc"
      by (auto simp: clause_of_def res_simps split: if_splits option.splits)
    then show ?thesis using EffortClause assms(1) canonical_scale_again by (auto simp: b)
  qed (use assms in \<open>auto simp: clause_of_def res_simps b check_repair_def split: if_splits option.splits\<close>)
qed

lemma read_clause_ok: "read_clause t = Inr c \<Longrightarrow> clause_ok c"
  by (auto simp: read_clause_def Let_def res_simps split: prod.splits if_splits
    dest: clause_of_ok [OF canonical_all] clause_of_ok [OF canonical_selector_again])

lemma words_plain:
  "v \<in> set TTL_VALUES \<Longrightarrow> plain v" "v \<in> set COLD_RESUME_ACTIONS \<Longrightarrow> plain v"
  "v \<in> set EFFORT_LEVELS \<Longrightarrow> plain v" "v \<in> set BREAKPOINT_POLICIES \<Longrightarrow> plain v"
  "v \<in> set REPAIRS \<Longrightarrow> plain v"
  by (auto simp: TTL_VALUES_def COLD_RESUME_ACTIONS_def EFFORT_LEVELS_def BREAKPOINT_POLICIES_def REPAIRS_def
    plain_def strip_fixed_iff is_space_def)

lemma word_char_plain: "word_char c \<or> c = CHR ''_'' \<or> c = CHR ''-'' \<Longrightarrow> \<not> is_space c \<and> c \<notin> set '';,@=''"
proof (elim disjE)
  assume "word_char c"
  then consider "az c" | "is_digit c" by (auto simp: word_char_def)
  then show ?thesis
  proof cases
    case 1
    then have "97 \<le> (of_char c :: nat)" "(of_char c :: nat) \<le> 122" by (auto simp: az_def code_in_def)
    then have "\<not> is_space c" by (simp add: is_space_def Let_def)
    moreover have "c \<noteq> x" if "x \<in> set '';,@=''" for x
      using that \<open>97 \<le> (of_char c :: nat)\<close> by auto
    ultimately show ?thesis by blast
  qed (auto simp: is_digit_iff is_space_def)
qed (simp_all add: is_space_def)

lemma check_repair_plain:
  assumes "check_repair r = Inr x"
  shows "plain r"
proof (cases "r \<in> set REPAIRS")
  case True
  then show ?thesis by (rule words_plain)
next
  case False
  then have "block_repair_re r" using assms by (auto simp: check_repair_def split: if_splits)
  then have "take 6 r = ''block:''" "case drop 6 r of [] \<Rightarrow> False | c # cs \<Rightarrow> word_char c \<and>
      list_all (\<lambda>x. word_char x \<or> x = CHR ''_'' \<or> x = CHR ''-'') cs"
    by (auto simp: block_repair_re_def startswith_def eval_nat_numeral split: list.splits)
  moreover from this obtain c cs where "drop 6 r = c # cs" by (cases "drop 6 r") auto
  ultimately have r: "r = ''block:'' @ c # cs" and w: "word_char c"
      "list_all (\<lambda>x. word_char x \<or> x = CHR ''_'' \<or> x = CHR ''-'') cs"
    using append_take_drop_id [of 6 r] by simp_all
  have "\<forall>x \<in> set (c # cs). \<not> is_space x \<and> x \<notin> set '';,@=''"
    using w word_char_plain by (auto simp: list_all_iff)
  then show ?thesis by (auto simp: r plain_def strip_fixed_iff is_space_def)
qed

text \<open>Every well-formed clause is printed in the shape that the reader takes apart.\<close>

lemma clause_shape:
  assumes "clause_ok c"
  obtains name v os s where "clause_text c = shaped name v os s" "shape_ok name v os s" "clause_of name s v os = Inr c"
proof -
  note t = shaped_def option_text_def
  note ok = shape_ok_def CLAUSE_ORDER_def TAKES_SELECTOR_def clause_options_def canonical_all
  note b = stored_clause_def require_int_def res_simps clause_of_def
  show thesis
  proof (cases c)
    case (TtlClause s v)
    then show thesis using assms words_plain by (intro that [of "''ttl''" v "[]" s]) (auto simp: t ok b)
  next
    case (KeepaliveClause s i m)
    then have "0 < i" "i \<le> MAX_TOKENS" "0 < m" "m \<le> MAX_TOKENS" "canonical_selector s = Inr s"
      using assms by (auto simp: b)
    then show thesis using KeepaliveClause duration_reads [of i] duration_reads [of m]
      by (intro that [of "''keepalive''" "show_int i @ ''s''" "[(''max'', show_int m @ ''s'')]" s]) (auto simp: t ok b)
  next
    case (CompactClause w p)
    then have w: "0 < w" "w \<le> MAX_TOKENS" using assms by (auto simp: b)
    show thesis
    proof (cases p)
      case None
      then show thesis using CompactClause positive_reads [OF w]
        by (intro that [of "''compact-window''" "show_int w" "[]" "''all''"]) (auto simp: t ok b selector_suffix_def)
    next
      case (Some n)
      then have "0 < n" "n \<le> MAX_TOKENS" using assms CompactClause by (auto simp: b)
      then show thesis using CompactClause Some positive_reads [OF w] positive_reads [of n]
        by (intro that [of "''compact-window''" "show_int w" "[(''post'', show_int n)]" "''all''"])
          (auto simp: t ok b selector_suffix_def)
    qed
  next
    case (ColdClause a n)
    then have "a \<in> set COLD_RESUME_ACTIONS" "0 < n" "n \<le> MAX_TOKENS" using assms by (auto simp: b)
    then show thesis using ColdClause positive_reads [of n] words_plain
      by (intro that [of "''cold-resume''" a "[(''min'', show_int n)]" "''all''"]) (auto simp: t ok b selector_suffix_def)
  next
    case (ModelClause s m)
    then show thesis using assms check_value_plain
      by (intro that [of "''model''" m "[]" s]) (auto simp: t ok b)
  next
    case (EffortClause s l sc)
    then have e: "l \<in> set EFFORT_LEVELS" "canonical_scale sc = Inr sc" "canonical_selector s = Inr s"
      using assms by (auto simp: b)
    then have "plain sc" using canonical_scale_again(2,3) [of sc sc] scale_char_facts(1) by blast
    then show thesis using EffortClause e words_plain
      by (intro that [of "''effort''" l "[(''scale'', sc)]" s]) (auto simp: t ok b)
  next
    case FastClause
    then show thesis by (intro that [of "''fast''" "''off''" "[]" "''all''"])
      (auto simp: t ok b selector_suffix_def plain_def strip_fixed_iff is_space_def)
  next
    case GeoClause
    then show thesis by (intro that [of "''geo''" "''global''" "[]" "''all''"])
      (auto simp: t ok b selector_suffix_def plain_def strip_fixed_iff is_space_def)
  next
    case RegionalClause
    then show thesis by (intro that [of "''regional''" "''global''" "[]" "''all''"])
      (auto simp: t ok b selector_suffix_def plain_def strip_fixed_iff is_space_def)
  next
    case (BatchClause v)
    then show thesis using assms by (intro that [of "''batch''" "''eligible''" "[]" "''all''"])
      (auto simp: t ok b selector_suffix_def plain_def strip_fixed_iff is_space_def)
  next
    case (RepairClause r)
    then have "check_repair r = Inr r" using assms by (auto simp: b check_repair_def split: if_splits)
    then show thesis using RepairClause check_repair_plain
      by (intro that [of "''repair''" r "[]" "''all''"]) (auto simp: t ok b selector_suffix_def)
  next
    case (BreakpointsClause v)
    then show thesis using assms words_plain
      by (intro that [of "''breakpoints''" v "[]" "''all''"]) (auto simp: t ok b selector_suffix_def)
  qed
qed

lemma clause_reads:
  assumes "clause_ok c"
  shows "read_clause (clause_text c) = Inr c" "strip (clause_text c) = clause_text c"
    "CHR '';'' \<notin> set (clause_text c)" "clause_text c \<noteq> []"
  using clause_shape [OF assms] shaped_reads by metis+

lemma clause_text_inj: "clause_ok c \<Longrightarrow> clause_ok d \<Longrightarrow> clause_text c = clause_text d \<Longrightarrow> c = d"
  by (metis clause_reads(1) sum.inject(2))

lemma clause_key_text: "(\<lambda>(_, _, _, t). t) (clause_key c) = clause_text c"
  by (cases c) simp_all

subsection \<open>The builder is the set of its clauses\<close>

lemma opt_list_simps [simp]: "opt_list None = []" "opt_list (Some x) = [x]"
  by (simp_all add: opt_list_def)

lemma set_opt_list [simp]: "set (opt_list x) = set_option x"
  by (cases x) simp_all

lemma in_pairs: "c \<in> (\<lambda>(a, b). f a b) ` S \<longleftrightarrow> (\<exists>a b. (a, b) \<in> S \<and> c = f a b)"
  "c \<in> (\<lambda>(a, b, d). g a b d) ` T \<longleftrightarrow> (\<exists>a b d. (a, b, d) \<in> T \<and> c = g a b d)"
  by force+

lemma clauses_of_iff:
  "TtlClause s v \<in> clauses_of b \<longleftrightarrow> (s, v) \<in> set (b_ttl b)"
  "KeepaliveClause s i m \<in> clauses_of b \<longleftrightarrow> b_keepalive b = Some (s, i, m)"
  "CompactClause w p \<in> clauses_of b \<longleftrightarrow> b_compaction b = Some (w, p)"
  "ColdClause a n \<in> clauses_of b \<longleftrightarrow> b_cold b = Some (a, n)"
  "ModelClause s v \<in> clauses_of b \<longleftrightarrow> (s, v) \<in> set (b_model b)"
  "EffortClause s l sc \<in> clauses_of b \<longleftrightarrow> (s, l, sc) \<in> set (b_effort b)"
  "FastClause \<in> clauses_of b \<longleftrightarrow> b_fast b" "GeoClause \<in> clauses_of b \<longleftrightarrow> b_geo b"
  "RegionalClause \<in> clauses_of b \<longleftrightarrow> b_regional b"
  "BatchClause t \<in> clauses_of b \<longleftrightarrow> b_batch b = Some t"
  "RepairClause r \<in> clauses_of b \<longleftrightarrow> r \<in> set (b_repairs b)"
  "BreakpointsClause t \<in> clauses_of b \<longleftrightarrow> b_breakpoints b = Some t"
  by (simp_all add: clauses_of_def settings_def raw_policy_def in_pairs) (auto split: if_splits)

lemma keyed_spec:
  assumes "distinct (map fst d)"
  shows "keyed err d k v = (if \<forall>w. (k, w) \<in> set d \<longrightarrow> w = v then Inr (dset k v d) else Inl err)"
    "\<forall>w. (k, w) \<in> set d \<longrightarrow> w = v \<Longrightarrow> set (dset k v d) = insert (k, v) (set d)"
proof -
  have m: "map_of d k = Some w \<longleftrightarrow> (k, w) \<in> set d" for w using assms by simp
  show "keyed err d k v = (if \<forall>w. (k, w) \<in> set d \<longrightarrow> w = v then Inr (dset k v d) else Inl err)"
  proof (cases "map_of d k")
    case None
    then have "\<forall>w. (k, w) \<notin> set d" by (auto simp: map_of_eq_None_iff image_iff)
    with None show ?thesis by (simp add: keyed_def)
  next
    case (Some u)
    then have "\<forall>w. (k, w) \<in> set d \<longleftrightarrow> u = w" by (simp flip: m)
    with Some show ?thesis by (simp add: keyed_def)
  qed
  assume h: "\<forall>w. (k, w) \<in> set d \<longrightarrow> w = v"
  have d: "distinct (map fst (dset k v d))" using assms by simp
  have "(j, w) \<in> set (dset k v d) \<longleftrightarrow> map_of (dset k v d) j = Some w" for j w
    by (simp only: map_of_eq_Some_iff [OF d])
  also have "map_of (dset k v d) j = Some w \<longleftrightarrow> (if j = k then w = v else (j, w) \<in> set d)" for j w
    by (auto simp only: map_of_dset fun_upd_apply option.inject map_of_eq_Some_iff [OF assms] split: if_splits)
  finally have "(j, w) \<in> set (dset k v d) \<longleftrightarrow> (if j = k then w = v else (j, w) \<in> set d)" for j w .
  then have "(j, w) \<in> set (dset k v d) \<longleftrightarrow> (j, w) \<in> insert (k, v) (set d)" for j w using h by auto
  then show "set (dset k v d) = insert (k, v) (set d)" by auto
qed

lemma scalar_spec: "scalar err old v = (if \<forall>w. old = Some w \<longrightarrow> w = v then Inr (Some v) else Inl err)"
  by (auto simp: scalar_def split: option.split)

lemma bex_clauses:
  "(\<exists>d \<in> clauses_of b. P d) \<longleftrightarrow>
     (\<exists>s v. (s, v) \<in> set (b_ttl b) \<and> P (TtlClause s v)) \<or>
     (\<exists>s i m. b_keepalive b = Some (s, i, m) \<and> P (KeepaliveClause s i m)) \<or>
     (\<exists>w p. b_compaction b = Some (w, p) \<and> P (CompactClause w p)) \<or>
     (\<exists>a n. b_cold b = Some (a, n) \<and> P (ColdClause a n)) \<or>
     (\<exists>s v. (s, v) \<in> set (b_model b) \<and> P (ModelClause s v)) \<or>
     (\<exists>s l sc. (s, l, sc) \<in> set (b_effort b) \<and> P (EffortClause s l sc)) \<or>
     b_fast b \<and> P FastClause \<or> b_geo b \<and> P GeoClause \<or> b_regional b \<and> P RegionalClause \<or>
     (\<exists>t. b_batch b = Some t \<and> P (BatchClause t)) \<or> (\<exists>r. r \<in> set (b_repairs b) \<and> P (RepairClause r)) \<or>
     (\<exists>t. b_breakpoints b = Some t \<and> P (BreakpointsClause t))"
  (is "?l \<longleftrightarrow> ?r")
proof
  assume ?l
  then obtain d where "d \<in> clauses_of b" "P d" by blast
  then show ?r unfolding clauses_of_iff [symmetric] by (cases d) blast+
next
  assume ?r
  then show ?l unfolding clauses_of_iff [symmetric] by (elim disjE exE conjE) blast+
qed

lemma clauses_eqI:
  assumes "\<And>d. d \<in> clauses_of b' \<longleftrightarrow> d = c \<or> d \<in> clauses_of b"
  shows "clauses_of b' = insert c (clauses_of b)"
  using assms by auto

text \<open>Adding a clause fails exactly on a conflict, and otherwise inserts the clause into the set.\<close>

lemma add_clause_spec:
  assumes "builder_ok b"
  shows "if \<exists>d \<in> clauses_of b. slot d = slot c \<and> d \<noteq> c then add_clause err b c = Inl err
    else \<exists>b'. add_clause err b c = Inr b' \<and> builder_ok b' \<and> clauses_of b' = insert c (clauses_of b)"
proof -
  note k = keyed_spec(1)
  have ok: "distinct (map fst (b_ttl b))" "distinct (map fst (b_model b))" "distinct (map fst (b_effort b))"
    "distinct (b_repairs b)" using assms by (simp_all add: builder_ok_def)
  show ?thesis
  proof (cases c)
    case (TtlClause s v)
    show ?thesis
    proof (cases "\<forall>w. (s, w) \<in> set (b_ttl b) \<longrightarrow> w = v")
      case True
      have "clauses_of (b\<lparr>b_ttl := dset s v (b_ttl b)\<rparr>) = insert c (clauses_of b)"
        by (rule clauses_eqI, case_tac d) (auto simp: clauses_of_iff keyed_spec(2) [OF ok(1) True] TtlClause)
      then show ?thesis using True ok by (auto simp: TtlClause k bex_clauses builder_ok_def)
    qed (use ok in \<open>auto simp: TtlClause k bex_clauses\<close>)
  next
    case (ModelClause s v)
    show ?thesis
    proof (cases "\<forall>w. (s, w) \<in> set (b_model b) \<longrightarrow> w = v")
      case True
      have "clauses_of (b\<lparr>b_model := dset s v (b_model b)\<rparr>) = insert c (clauses_of b)"
        by (rule clauses_eqI, case_tac d) (auto simp: clauses_of_iff keyed_spec(2) [OF ok(2) True] ModelClause)
      then show ?thesis using True ok by (auto simp: ModelClause k bex_clauses builder_ok_def)
    qed (use ok in \<open>auto simp: ModelClause k bex_clauses\<close>)
  next
    case (EffortClause s l sc)
    show ?thesis
    proof (cases "\<forall>w. (s, w) \<in> set (b_effort b) \<longrightarrow> w = (l, sc)")
      case True
      have "clauses_of (b\<lparr>b_effort := dset s (l, sc) (b_effort b)\<rparr>) = insert c (clauses_of b)"
        by (rule clauses_eqI, case_tac d) (auto simp: clauses_of_iff keyed_spec(2) [OF ok(3) True] EffortClause)
      then show ?thesis using True ok by (auto simp: EffortClause k bex_clauses builder_ok_def)
    qed (use ok in \<open>auto simp: EffortClause k bex_clauses\<close>)
  next
    case (RepairClause r)
    have "clauses_of (b\<lparr>b_repairs := List.insert r (b_repairs b)\<rparr>) = insert c (clauses_of b)"
      by (rule clauses_eqI, case_tac d) (auto simp: clauses_of_iff RepairClause)
    then show ?thesis using ok by (auto simp: RepairClause bex_clauses builder_ok_def)
  next
    case FastClause
    have "clauses_of (b\<lparr>b_fast := True\<rparr>) = insert c (clauses_of b)"
      by (rule clauses_eqI, case_tac d) (auto simp: clauses_of_iff FastClause)
    then show ?thesis using ok by (auto simp: FastClause bex_clauses builder_ok_def)
  next
    case GeoClause
    have "clauses_of (b\<lparr>b_geo := True\<rparr>) = insert c (clauses_of b)"
      by (rule clauses_eqI, case_tac d) (auto simp: clauses_of_iff GeoClause)
    then show ?thesis using ok by (auto simp: GeoClause bex_clauses builder_ok_def)
  next
    case RegionalClause
    have "clauses_of (b\<lparr>b_regional := True\<rparr>) = insert c (clauses_of b)"
      by (rule clauses_eqI, case_tac d) (auto simp: clauses_of_iff RegionalClause)
    then show ?thesis using ok by (auto simp: RegionalClause bex_clauses builder_ok_def)
  next
    case (KeepaliveClause s i m)
    have "clauses_of (b\<lparr>b_keepalive := Some (s, i, m)\<rparr>) = insert c (clauses_of b)"
      if "\<forall>w. b_keepalive b = Some w \<longrightarrow> w = (s, i, m)"
      using that by (intro clauses_eqI, case_tac d) (auto simp: clauses_of_iff KeepaliveClause)
    then show ?thesis using ok by (auto simp: KeepaliveClause scalar_spec bex_clauses builder_ok_def)
  next
    case (CompactClause w p)
    have "clauses_of (b\<lparr>b_compaction := Some (w, p)\<rparr>) = insert c (clauses_of b)"
      if "\<forall>x. b_compaction b = Some x \<longrightarrow> x = (w, p)"
      using that by (intro clauses_eqI, case_tac d) (auto simp: clauses_of_iff CompactClause)
    then show ?thesis using ok by (auto simp: CompactClause scalar_spec bex_clauses builder_ok_def)
  next
    case (ColdClause a n)
    have "clauses_of (b\<lparr>b_cold := Some (a, n)\<rparr>) = insert c (clauses_of b)"
      if "\<forall>x. b_cold b = Some x \<longrightarrow> x = (a, n)"
      using that by (intro clauses_eqI, case_tac d) (auto simp: clauses_of_iff ColdClause)
    then show ?thesis using ok by (auto simp: ColdClause scalar_spec bex_clauses builder_ok_def)
  next
    case (BatchClause t)
    have "clauses_of (b\<lparr>b_batch := Some t\<rparr>) = insert c (clauses_of b)"
      if "\<forall>x. b_batch b = Some x \<longrightarrow> x = t"
      using that by (intro clauses_eqI, case_tac d) (auto simp: clauses_of_iff BatchClause)
    then show ?thesis using ok by (auto simp: BatchClause scalar_spec bex_clauses builder_ok_def)
  next
    case (BreakpointsClause t)
    have "clauses_of (b\<lparr>b_breakpoints := Some t\<rparr>) = insert c (clauses_of b)"
      if "\<forall>x. b_breakpoints b = Some x \<longrightarrow> x = t"
      using that by (intro clauses_eqI, case_tac d) (auto simp: clauses_of_iff BreakpointsClause)
    then show ?thesis using ok by (auto simp: BreakpointsClause scalar_spec bex_clauses builder_ok_def)
  qed
qed

lemma add_clauses_spec:
  assumes "builder_ok b" "consistent (clauses_of b)"
  shows "if consistent (clauses_of b \<union> set cs)
    then \<exists>b'. rfold (add_clause err) b cs = Inr b' \<and> builder_ok b' \<and> clauses_of b' = clauses_of b \<union> set cs
    else rfold (add_clause err) b cs = Inl err"
  using assms
proof (induction cs arbitrary: b)
  case (Cons c cs)
  note st = add_clause_spec [OF Cons.prems(1), of c err]
  show ?case
  proof (cases "\<exists>d \<in> clauses_of b. slot d = slot c \<and> d \<noteq> c")
    case True
    then have "\<not> consistent (clauses_of b \<union> set (c # cs))" by (auto simp: consistent_def inj_on_def)
    then show ?thesis using st True by simp
  next
    case False
    then obtain b' where b': "add_clause err b c = Inr b'" "builder_ok b'" "clauses_of b' = insert c (clauses_of b)"
      using st unfolding if_not_P [OF False] by blast
    have "consistent (clauses_of b')" using False Cons.prems(2) b'(3) by (auto simp: consistent_def inj_on_def)
    from Cons.IH [OF b'(2) this] show ?thesis
      using b' by (cases "consistent (insert c (clauses_of b \<union> set cs))") auto
  qed
qed simp

lemma empty_builder_facts: "builder_ok empty_builder" "clauses_of empty_builder = {}" "consistent {}"
  by (simp_all add: builder_ok_def empty_builder_def clauses_of_def settings_def raw_policy_def consistent_def)

lemma sort_set_eq: "distinct xs \<Longrightarrow> distinct ys \<Longrightarrow> set xs = set ys \<Longrightarrow> sort xs = sort ys"
  by (intro sorted_distinct_set_unique) simp_all

text \<open>The built policy depends on the set of clauses only.\<close>

lemma raw_policy_unique:
  assumes "builder_ok b" "builder_ok b'" "clauses_of b = clauses_of b'"
  shows "raw_policy b = raw_policy b'"
proof -
  have e: "c \<in> clauses_of b \<longleftrightarrow> c \<in> clauses_of b'" for c using assms(3) by simp
  have dt: "distinct xs" if "distinct (map fst xs)" for xs :: "(string \<times> 'z) list"
    using that by (simp add: distinct_map)
  have o: "x = y" if "\<And>v. x = Some v \<longleftrightarrow> y = Some v" for x y :: "'z option"
    using that by (metis not_None_eq)
  have ok: "distinct (b_ttl b)" "distinct (b_model b)" "distinct (b_effort b)" "distinct (b_repairs b)"
    "distinct (b_ttl b')" "distinct (b_model b')" "distinct (b_effort b')" "distinct (b_repairs b')"
    using assms(1,2) dt by (auto simp: builder_ok_def)
  have "(u, v) \<in> set (b_ttl b) \<longleftrightarrow> (u, v) \<in> set (b_ttl b')" "(u, v) \<in> set (b_model b) \<longleftrightarrow> (u, v) \<in> set (b_model b')"
      "(u, v, w) \<in> set (b_effort b) \<longleftrightarrow> (u, v, w) \<in> set (b_effort b')" "u \<in> set (b_repairs b) \<longleftrightarrow> u \<in> set (b_repairs b')"
    for u v w
    using e [of "TtlClause u v"] e [of "ModelClause u v"] e [of "EffortClause u v w"] e [of "RepairClause u"]
    by (simp_all add: clauses_of_iff)
  then have "set (b_ttl b) = set (b_ttl b')" "set (b_model b) = set (b_model b')" "set (b_effort b) = set (b_effort b')"
      "set (b_repairs b) = set (b_repairs b')" by auto
  moreover have "b_fast b = b_fast b'" "b_geo b = b_geo b'" "b_regional b = b_regional b'"
    using e [of FastClause] e [of GeoClause] e [of RegionalClause] by (simp_all add: clauses_of_iff)
  moreover have "b_keepalive b = b_keepalive b'"
    by (rule o) (use e [of "KeepaliveClause (fst v) (fst (snd v)) (snd (snd v))" for v] in \<open>simp add: clauses_of_iff\<close>)
  moreover have "b_compaction b = b_compaction b'"
    by (rule o) (use e [of "CompactClause (fst v) (snd v)" for v] in \<open>simp add: clauses_of_iff\<close>)
  moreover have "b_cold b = b_cold b'"
    by (rule o) (use e [of "ColdClause (fst v) (snd v)" for v] in \<open>simp add: clauses_of_iff\<close>)
  moreover have "b_batch b = b_batch b'"
    by (rule o) (use e [of "BatchClause v" for v] in \<open>simp add: clauses_of_iff\<close>)
  moreover have "b_breakpoints b = b_breakpoints b'"
    by (rule o) (use e [of "BreakpointsClause v" for v] in \<open>simp add: clauses_of_iff\<close>)
  ultimately show ?thesis using ok
    by (simp add: raw_policy_def sort_set_eq [of "b_ttl b" "b_ttl b'"] sort_set_eq [of "b_model b" "b_model b'"]
      sort_set_eq [of "b_effort b" "b_effort b'"] sort_set_eq [of "b_repairs b" "b_repairs b'"])
qed

subsection \<open>Printing a set of clauses\<close>

lemma to_spec_text: "rmap stored_clause (settings p) = Inr cs \<Longrightarrow> to_spec p = Inr (spec_text (set cs))"
  by (simp add: to_spec_def spec_text_def sorted_list_of_set_sort_remdups [symmetric])

lemma rmap_ok: "(\<And>c. c \<in> set cs \<Longrightarrow> f c = Inr c) \<Longrightarrow> rmap f cs = Inr cs"
  by (induction cs) simp_all

lemma rmap_stored_ok: "rmap stored_clause xs = Inr cs \<Longrightarrow> c \<in> set cs \<Longrightarrow> clause_ok c"
  by (induction xs arbitrary: cs) (auto simp: res_simps dest: stored_clause_ok)

lemma hd_in_join: "ts \<noteq> [] \<Longrightarrow> set (hd ts) \<subseteq> set (join sep ts)"
  by (cases ts; cases "tl ts") auto

lemma map_from_image: "set xs \<subseteq> f ` V \<Longrightarrow> \<exists>ys. set ys \<subseteq> V \<and> xs = map f ys"
proof (induction xs)
  case (Cons x xs)
  then obtain y ys where "y \<in> V" "x = f y" "set ys \<subseteq> V" "xs = map f ys" by auto
  then show ?case by (intro exI [of _ "y # ys"]) simp
qed simp

lemma spec_text_clauses:
  assumes "finite V" "\<And>c. c \<in> V \<Longrightarrow> clause_ok c"
  obtains cs where "set cs = V" "spec_text V = join '';'' (map clause_text cs)"
proof -
  have "set (sorted_list_of_set (clause_key ` V)) = clause_key ` V" using assms(1) by simp
  then obtain cs where cs: "set cs \<subseteq> V" "sorted_list_of_set (clause_key ` V) = map clause_key cs"
    using map_from_image by (metis order_refl)
  have inj: "inj_on clause_key V"
    by (rule inj_onI) (metis assms(2) clause_key_text clause_text_inj)
  have "clause_key ` set cs = clause_key ` V"
    using cs(2) assms(1) by (metis finite_imageI list.set_map set_sorted_list_of_set)
  then have "set cs = V" using cs(1) inj by (meson inj_on_image_eq_iff subset_refl)
  moreover have "map (\<lambda>(_, _, _, t). t) (sorted_list_of_set (clause_key ` V)) = map clause_text cs"
    by (simp add: cs(2) clause_key_text)
  then have "spec_text V = join '';'' (map clause_text cs)" by (simp only: spec_text_def)
  ultimately show thesis by (rule that)
qed

lemma rfold_parse_clause:
  "(\<And>c. c \<in> set cs \<Longrightarrow> clause_ok c) \<Longrightarrow>
   rfold parse_clause b (map clause_text cs) = rfold (add_clause UsageError) b cs"
  by (induction cs arbitrary: b) (auto simp: parse_clause_def clause_reads Let_def rbind_def split: sum.split)

lemma parse_spec_text:
  assumes "finite V" "\<And>c. c \<in> V \<Longrightarrow> clause_ok c" "length (spec_text V) \<le> MAX_SPEC_LEN"
  shows "if consistent V then \<exists>b. parse_policy (spec_text V) = build_policy b \<and> builder_ok b \<and> clauses_of b = V
    else parse_policy (spec_text V) = Inl UsageError"
proof -
  obtain cs where cs: "set cs = V" "spec_text V = join '';'' (map clause_text cs)"
    using spec_text_clauses [OF assms(1,2)] by blast
  have ok: "clause_ok c" if "c \<in> set cs" for c using that cs(1) assms(2) by simp
  note ad = add_clauses_spec [OF empty_builder_facts(1), of cs UsageError]
  show ?thesis
  proof (cases "cs = []")
    case True
    then have "spec_text V = ''''" "V = {}" using cs by simp_all
    then show ?thesis using empty_builder_facts
      by (auto simp: parse_policy_def OBSERVED_NAME_def parse_clause_def strip_def MAX_SPEC_LEN_def)
  next
    case False
    then have ne: "map clause_text cs \<noteq> []" by simp
    have st: "strip (spec_text V) = spec_text V"
      unfolding cs(2) using clause_reads(2,4) ok by (intro strip_join(1) [OF ne]) auto
    have sp: "split_on (CHR '';'') (spec_text V) = map clause_text cs"
      unfolding cs(2) using clause_reads(3) ok by (intro split_on_join [OF ne]) auto
    have "CHR ''='' \<in> set (clause_text c)" for c by (cases c) simp_all
    then have "CHR ''='' \<in> set (spec_text V)"
      using hd_in_join [OF ne, of "'';''"] False by (auto simp: cs(2) hd_map)
    then have "spec_text V \<noteq> OBSERVED_NAME" by (auto simp: OBSERVED_NAME_def)
    then have "parse_policy (spec_text V) = rbind (rfold (add_clause UsageError) empty_builder cs) build_policy"
      using assms(3) st sp rfold_parse_clause [OF ok] by (simp add: parse_policy_def Let_def)
    then show ?thesis using ad empty_builder_facts cs(1) by (cases "consistent V") auto
  qed
qed

subsection \<open>What a policy denotes\<close>

lemma build_policy_text:
  assumes "\<forall>c \<in> clauses_of b. clause_ok c"
  shows "build_policy b = Inr ((raw_policy b)\<lparr>pol_name :=
    (if spec_text (clauses_of b) = '''' then OBSERVED_NAME else spec_text (clauses_of b))\<rparr>)"
proof -
  have "rmap stored_clause (settings (raw_policy b)) = Inr (settings (raw_policy b))"
    using assms by (intro rmap_ok) (auto simp: clauses_of_def)
  then have "to_spec (raw_policy b) = Inr (spec_text (clauses_of b))"
    by (simp add: to_spec_text clauses_of_def)
  then show ?thesis by (simp add: build_policy_def)
qed

lemma settings_name [simp]: "settings (p\<lparr>pol_name := t\<rparr>) = settings p"
  by (simp add: settings_def)

lemma denotes_unique: "denotes p V \<Longrightarrow> denotes q V \<Longrightarrow> p = q"
  unfolding denotes_def by (metis build_policy_text raw_policy_unique sum.inject(2))

lemma denotes_facts:
  assumes "denotes p V"
  shows "set (settings p) = V" "finite V" "consistent V" "\<And>c. c \<in> V \<Longrightarrow> clause_ok c" "to_spec p = Inr (spec_text V)"
    "pol_name p = (if spec_text V = '''' then OBSERVED_NAME else spec_text V)"
proof -
  obtain b where b: "builder_ok b" "clauses_of b = V" "consistent V" "\<forall>c \<in> V. clause_ok c" "build_policy b = Inr p"
    using assms by (auto simp: denotes_def)
  have p: "p = (raw_policy b)\<lparr>pol_name := (if spec_text V = '''' then OBSERVED_NAME else spec_text V)\<rparr>"
    using build_policy_text [of b] b by simp
  show s: "set (settings p) = V" using b(2) by (simp add: p clauses_of_def)
  then show "finite V" by (metis List.finite_set)
  show "pol_name p = (if spec_text V = '''' then OBSERVED_NAME else spec_text V)" by (simp add: p)
  have "rmap stored_clause (settings p) = Inr (settings p)" using b(4) s by (intro rmap_ok) blast
  then show "to_spec p = Inr (spec_text V)" using to_spec_text s by blast
qed (use assms in \<open>auto simp: denotes_def\<close>)

lemma denotes_built:
  assumes "builder_ok b" "clauses_of b = V" "consistent V" "\<And>c. c \<in> V \<Longrightarrow> clause_ok c"
  shows "\<exists>p. build_policy b = Inr p \<and> denotes p V"
  using assms build_policy_text [of b] by (auto simp: denotes_def)

lemma parse_denotes:
  assumes "parse_policy s = Inr p"
  shows "\<exists>V. denotes p V"
proof -
  let ?I = "\<lambda>b. builder_ok b \<and> consistent (clauses_of b) \<and> (\<forall>c \<in> clauses_of b. clause_ok c)"
  have step: "rsat ?I (parse_clause b t)" if b: "?I b" for b t
  proof (rule rsatI)
    fix b' assume pc: "parse_clause b t = Inr b'"
    show "?I b'"
    proof (cases "strip t = ''''")
      case True
      then show ?thesis using pc b by (simp add: parse_clause_def)
    next
      case False
      then obtain c where c: "read_clause (strip t) = Inr c" "add_clause UsageError b c = Inr b'"
        using pc by (auto simp: parse_clause_def Let_def res_simps)
      have "builder_ok b' \<and> clauses_of b' = insert c (clauses_of b) \<and> \<not> (\<exists>d \<in> clauses_of b. slot d = slot c \<and> d \<noteq> c)"
        using add_clause_spec [of b c UsageError] b c(2) by (auto split: if_splits)
      then show ?thesis using b read_clause_ok [OF c(1)] by (auto simp: consistent_def inj_on_def)
    qed
  qed
  have "?I empty_builder" using empty_builder_facts by simp
  moreover from this have "rsat ?I (rfold parse_clause empty_builder ts)" for ts
    using step by (intro rsat_rfold) auto
  ultimately obtain b where "?I b" "build_policy b = Inr p"
    using assms by (force simp: parse_policy_def Let_def res_simps rsat_def split: if_splits sum.splits)
  then show ?thesis by (auto simp: denotes_def)
qed

lemma parse_denoted:
  assumes "finite V" "\<And>c. c \<in> V \<Longrightarrow> clause_ok c" "length (spec_text V) \<le> MAX_SPEC_LEN"
  shows "if consistent V then \<exists>p. parse_policy (spec_text V) = Inr p \<and> denotes p V
    else parse_policy (spec_text V) = Inl UsageError"
proof (cases "consistent V")
  case True
  then obtain b where b: "parse_policy (spec_text V) = build_policy b" "builder_ok b" "clauses_of b = V"
    using parse_spec_text [OF assms] by auto
  from denotes_built [OF b(2,3) True assms(2)] b(1) show ?thesis using True by simp
qed (use parse_spec_text [OF assms] in simp)

lemma set_combined: "set (combined_settings p) = set (settings p)"
  by (auto simp: combined_settings_def settings_def)

subsection \<open>Round trips and unions\<close>

text \<open>C2: A policy that was read is printed as a canonical text, is named by it, and is read back as the same policy,
  unless that text exceeds the length limit of a specification: then it is refused.\<close>

theorem parsed_policy_round_trip:
  assumes "parse_policy s = Inr p"
  shows "\<exists>t. to_spec p = Inr t \<and> pol_name p = (if t = '''' then ''observed'' else t) \<and>
    parse_policy t = (if length t \<le> MAX_SPEC_LEN then Inr p else Inl UsageError)"
proof -
  obtain V where V: "denotes p V" using parse_denotes [OF assms] by blast
  note f = denotes_facts [OF V]
  have "parse_policy (spec_text V) = Inr p" if "length (spec_text V) \<le> MAX_SPEC_LEN"
    using parse_denoted [OF f(2,4) that] f(3) denotes_unique V by auto
  moreover have "parse_policy (spec_text V) = Inl UsageError" if "\<not> length (spec_text V) \<le> MAX_SPEC_LEN"
    using that by (simp add: parse_policy_def)
  ultimately show ?thesis using f(5,6) by (auto simp: OBSERVED_NAME_def)
qed

text \<open>C4: Of any policy that can be printed, the printed text is canonical: within the length limit of a
  specification, when its stored settings do not conflict, the text is read as a policy with exactly those settings
  that prints the same text; when two of them conflict, or the text is longer than the limit, it is refused.\<close>

theorem printed_policy_reads:
  assumes "to_spec p = Inr t"
  shows "\<exists>cs. rmap stored_clause (settings p) = Inr cs \<and>
    (if inj_on slot (set cs) \<and> length t \<le> MAX_SPEC_LEN
     then \<exists>q. parse_policy t = Inr q \<and> to_spec q = Inr t \<and> set (settings q) = set cs
     else parse_policy t = Inl UsageError)"
proof -
  obtain cs where cs: "rmap stored_clause (settings p) = Inr cs" using assms by (auto simp: to_spec_def res_simps)
  have t: "t = spec_text (set cs)" using to_spec_text [OF cs] assms by simp
  have ok: "clause_ok c" if "c \<in> set cs" for c using rmap_stored_ok [OF cs] that .
  consider "\<not> length t \<le> MAX_SPEC_LEN" | "length t \<le> MAX_SPEC_LEN" "inj_on slot (set cs)"
    | "length t \<le> MAX_SPEC_LEN" "\<not> inj_on slot (set cs)" by blast
  then show ?thesis
  proof cases
    case 1
    then have "parse_policy t = Inl UsageError" by (simp add: parse_policy_def)
    with 1 cs show ?thesis by simp
  next
    case 2
    then obtain q where "parse_policy t = Inr q" "denotes q (set cs)"
      using parse_denoted [of "set cs"] ok by (auto simp: t consistent_def)
    then show ?thesis using cs 2 denotes_facts [of q "set cs"] t by auto
  next
    case 3
    then show ?thesis using cs parse_denoted [of "set cs"] ok by (auto simp: t consistent_def)
  qed
qed

lemma combine_denotes:
  assumes "rbind (to_spec x) parse_policy = Inr px" "rbind (to_spec y) parse_policy = Inr py" "denotes px X" "denotes py Y"
  shows "if consistent (X \<union> Y) then \<exists>c. combine_policies x y = Inr c \<and> denotes c (X \<union> Y)
    else combine_policies x y = Inl ContractViolation"
proof -
  note fx = denotes_facts [OF assms(3)] and fy = denotes_facts [OF assms(4)]
  define cs where "cs = combined_settings px @ combined_settings py"
  have cs: "set cs = X \<union> Y" using fx(1) fy(1) by (simp add: cs_def set_combined)
  have "rfold (\<lambda>bd p. rfold (add_clause e) bd (combined_settings p)) empty_builder [px, py] =
      rfold (add_clause e) empty_builder cs" for e
    by (simp add: cs_def rfold_append rbind_def split: sum.split)
  then have c: "combine_policies x y = rbind (rfold (add_clause ContractViolation) empty_builder cs) build_policy"
    using assms(1,2) by (simp only: combine_policies_def rbind_simps)
  note ad = add_clauses_spec [OF empty_builder_facts(1), of cs ContractViolation]
  show ?thesis
  proof (cases "consistent (X \<union> Y)")
    case True
    then obtain bd where "rfold (add_clause ContractViolation) empty_builder cs = Inr bd" "builder_ok bd"
        "clauses_of bd = X \<union> Y"
      using ad empty_builder_facts cs by auto
    with denotes_built [of bd "X \<union> Y"] True fx(4) fy(4) c show ?thesis by auto
  next
    case False
    then show ?thesis using ad empty_builder_facts cs c by simp
  qed
qed

lemma reads_denote: "rbind (to_spec x) parse_policy = Inr px \<Longrightarrow> \<exists>X. denotes px X"
  by (auto simp: res_simps dest: parse_denotes)

text \<open>C3: Combining two policies whose texts can be read is the union of their settings, in either order; when two
  settings of the union conflict it is refused.\<close>

theorem combine_is_union:
  assumes "rbind (to_spec a) parse_policy = Inr pa" "rbind (to_spec b) parse_policy = Inr pb"
  shows "if inj_on slot (set (settings pa) \<union> set (settings pb))
    then \<exists>c. combine_policies a b = Inr c \<and> combine_policies b a = Inr c \<and>
      set (settings c) = set (settings pa) \<union> set (settings pb)
    else combine_policies a b = Inl ContractViolation"
proof -
  obtain A B where ab: "denotes pa A" "denotes pb B" using assms by (meson reads_denote)
  have "A \<union> B = B \<union> A" by blast
  then show ?thesis
    using combine_denotes [OF assms ab] combine_denotes [OF assms(2,1) ab(2,1)] denotes_unique denotes_facts(1)
      denotes_facts(1) [OF ab(1)] denotes_facts(1) [OF ab(2)]
    by (cases "consistent (A \<union> B)") (auto simp: consistent_def)
qed

text \<open>A policy that denotes a set of clauses is read back as itself where its text is read at all.\<close>

lemma reads_itself:
  assumes "denotes p V" "rbind (to_spec p) parse_policy = Inr q"
  shows "q = p"
proof -
  note f = denotes_facts [OF assms(1)]
  have q: "parse_policy (spec_text V) = Inr q" using assms(2) f(5) by simp
  then have "length (spec_text V) \<le> MAX_SPEC_LEN" by (auto simp: parse_policy_def split: if_splits)
  from parse_denoted [OF f(2,4) this] f(3) q have "denotes q V" by auto
  then show ?thesis using assms(1) denotes_unique by blast
qed

lemma combine_splits:
  assumes "combine_policies x y = Inr z"
  obtains px py X Y where "rbind (to_spec x) parse_policy = Inr px" "rbind (to_spec y) parse_policy = Inr py"
    "denotes px X" "denotes py Y" "denotes z (X \<union> Y)"
proof -
  obtain px py where p: "rbind (to_spec x) parse_policy = Inr px" "rbind (to_spec y) parse_policy = Inr py"
    using assms by (cases "rbind (to_spec x) parse_policy"; cases "rbind (to_spec y) parse_policy")
      (simp_all add: combine_policies_def)
  then obtain X Y where d: "denotes px X" "denotes py Y" by (meson reads_denote)
  have "denotes z (X \<union> Y)" using combine_denotes [OF p d] assms by (auto split: if_splits)
  then show thesis using that p d by blast
qed

text \<open>Combining is associative where both ways of bracketing return.\<close>

theorem combine_associative:
  assumes "combine_policies a b = Inr ab" "combine_policies b c = Inr bc"
    "combine_policies ab c = Inr l" "combine_policies a bc = Inr r"
  shows "l = r"
proof -
  obtain pa pb A B where 1: "rbind (to_spec a) parse_policy = Inr pa" "rbind (to_spec b) parse_policy = Inr pb"
    "denotes pa A" "denotes pb B" "denotes ab (A \<union> B)" using assms(1) by (rule combine_splits)
  obtain pb' pc B' C where 2: "rbind (to_spec b) parse_policy = Inr pb'" "rbind (to_spec c) parse_policy = Inr pc"
    "denotes pb' B'" "denotes pc C" "denotes bc (B' \<union> C)" using assms(2) by (rule combine_splits)
  obtain pab pc' AB C' where 3: "rbind (to_spec ab) parse_policy = Inr pab" "rbind (to_spec c) parse_policy = Inr pc'"
    "denotes pab AB" "denotes pc' C'" "denotes l (AB \<union> C')" using assms(3) by (rule combine_splits)
  obtain pa' pbc A' BC where 4: "rbind (to_spec a) parse_policy = Inr pa'" "rbind (to_spec bc) parse_policy = Inr pbc"
    "denotes pa' A'" "denotes pbc BC" "denotes r (A' \<union> BC)" using assms(4) by (rule combine_splits)
  have one: "V = W" if "denotes p V" "denotes p W" for p V W
    using denotes_facts(1) [OF that(1)] denotes_facts(1) [OF that(2)] by simp
  have "B' = B" using 1(2,4) 2(1,3) one by simp
  moreover have "C' = C" using 2(2,4) 3(2,4) one by simp
  moreover have "A' = A" using 1(1,3) 4(1,3) one by simp
  moreover have "AB = A \<union> B" using reads_itself [OF 1(5) 3(1)] 3(3) 1(5) one by simp
  moreover have "BC = B' \<union> C" using reads_itself [OF 2(5) 4(2)] 4(4) 2(5) one by simp
  ultimately have "denotes r (AB \<union> C')" using 4(5) by (simp add: Un_assoc)
  then show ?thesis using 3(5) denotes_unique by blast
qed

lemma long_team: "canonical_selector (''team:'' @ replicate 16366 (CHR ''x'')) = Inr (''team:'' @ replicate 16366 (CHR ''x''))"
proof -
  let ?v = "replicate 16366 (CHR ''x'')"
  have "strip ?v = ?v" by (simp add: strip_fixed_iff is_space_def last_replicate hd_replicate)
  then have "check_term ''team'' ?v = Inr ()"
    by (simp add: check_term_def SELECTOR_KEYS_def check_value_def allowed_char_def list_all_iff)
  then have "terms_ok [(''team'', ?v)]" by (simp add: terms_ok_def)
  from parse_selector_text [OF this] show ?thesis
    by (simp add: canonical_selector_text selector_text_def term_text_def)
qed

lemma long_clause_ok: "clause_ok long_clause"
  by (simp add: long_clause_def stored_clause_def require_int_def MAX_TOKENS_def long_team [simplified])

lemma long_read: "read_clause long_spec = Inr long_clause"
proof -
  let ?s = "''team:'' @ replicate 16366 (CHR ''x'')"
  have f: "strip ?s = ?s" "?s \<noteq> []" using canonical_selector_plain [OF long_team] by simp_all
  have d: "duration_s ''1s'' = Inr 1" using duration_reads(1) [of 1] by (simp add: show_int_def show_nat.simps dig_def MAX_TOKENS_def)
  have p: "partition_at (CHR ''@'') (''keepalive=1s'' @ CHR ''@'' # ?s) = (''keepalive=1s'', True, ?s)"
    by (intro partition_at_found) simp
  have p2: "partition_at (CHR ''='') ''keepalive=1s'' = (''keepalive'', True, ''1s'')"
    using partition_at_found [of "CHR ''=''" "''keepalive''" "''1s''"] by simp
  have "long_spec = ''keepalive=1s'' @ CHR ''@'' # ?s" by (simp add: long_spec_def)
  moreover have "strip ''keepalive'' = ''keepalive''" "strip ''1s'' = ''1s''" by (simp_all add: strip_fixed_iff is_space_def)
  moreover have "split_on (CHR '','') ''1s'' = [''1s'']" by (simp add: split_on_one)
  ultimately show ?thesis using p p2 f d long_team
    by (simp only: read_clause_def prod.case)
      (simp add: CLAUSE_ORDER_def TAKES_SELECTOR_def clause_of_def KEEPALIVE_MAX_DEFAULT_S_def long_clause_def Let_def)
qed

lemma spec_text_one: "spec_text {c} = clause_text c"
  by (simp add: spec_text_def clause_key_text)

lemma long_spec_parts:
  shows "length long_spec = 16384" "strip long_spec = long_spec" "CHR '';'' \<notin> set long_spec" "long_spec \<noteq> OBSERVED_NAME"
proof -
  have "last long_spec = CHR ''x''" by (simp add: long_spec_def last_replicate)
  moreover have "hd long_spec = CHR ''k''" by (simp add: long_spec_def)
  ultimately show "strip long_spec = long_spec" by (simp add: strip_fixed_iff is_space_def)
  show "length long_spec = 16384" "CHR '';'' \<notin> set long_spec" "long_spec \<noteq> OBSERVED_NAME"
    by (simp_all add: long_spec_def OBSERVED_NAME_def)
qed

text \<open>C32: A specification within the length limit can be read as a policy whose canonical text is refused for its
  length, because the printer writes the defaults out.\<close>

theorem long_policy_not_read_back:
  "\<exists>p t. parse_policy long_spec = Inr p \<and> to_spec p = Inr t \<and> parse_policy t = Inl UsageError"
proof -
  note l = long_spec_parts
  have "rfold parse_clause empty_builder [long_spec] = rfold (add_clause UsageError) empty_builder [long_clause]"
    using l long_read by (simp add: parse_clause_def Let_def rbind_def long_spec_def split: sum.split)
  moreover obtain b where b: "rfold (add_clause UsageError) empty_builder [long_clause] = Inr b" "builder_ok b"
      "clauses_of b = {long_clause}"
    using add_clauses_spec [OF empty_builder_facts(1), of "[long_clause]" UsageError] empty_builder_facts
    by (auto simp: consistent_def)
  moreover obtain p where p: "build_policy b = Inr p" "denotes p {long_clause}"
    using denotes_built [OF b(2,3)] long_clause_ok by (auto simp: consistent_def)
  ultimately have "parse_policy long_spec = Inr p"
    using l by (simp add: parse_policy_def MAX_SPEC_LEN_def Let_def split_on_one)
  moreover have "to_spec p = Inr (clause_text long_clause)" using denotes_facts(5) [OF p(2)] by (simp add: spec_text_one)
  moreover have "length (clause_text long_clause) = 16394"
    by (simp add: long_clause_def selector_suffix_def show_int_def show_nat.simps dig_def)
  then have "parse_policy (clause_text long_clause) = Inl UsageError"
    by (simp only: parse_policy_def MAX_SPEC_LEN_def) simp
  ultimately show ?thesis by blast
qed

subsection \<open>Concrete policies\<close>

lemma wit_parsed: "returns (parse_policy ''fast=off;ttl=1h'')"
  by code_simp

theorem parsed_policy_round_trip_witness:
  "\<exists>p t. parse_policy ''fast=off;ttl=1h'' = Inr p \<and> to_spec p = Inr t \<and>
     parse_policy t = (if length t \<le> MAX_SPEC_LEN then Inr p else Inl UsageError)"
  using wit_parsed parsed_policy_round_trip [of "''fast=off;ttl=1h''"] unfolding returns_iff by blast

lemma wit_conflict_text: "to_spec wit_conflict = Inr ''ttl=1h;ttl=5m''"
  by code_simp

lemma wit_conflict_settings: "rmap stored_clause (settings wit_conflict) = Inr [TtlClause ''all'' ''5m'', TtlClause ''all'' ''1h'']"
  by code_simp

theorem printed_policy_reads_witness: "parse_policy ''ttl=1h;ttl=5m'' = Inl UsageError"
  using printed_policy_reads [OF wit_conflict_text] wit_conflict_settings by (simp add: MAX_SPEC_LEN_def)

lemma wit_reads:
  "case rbind (to_spec wit_ttl) parse_policy of Inr p \<Rightarrow> settings p = [TtlClause ''all'' ''1h''] | Inl _ \<Rightarrow> False"
  "case rbind (to_spec wit_fast) parse_policy of Inr p \<Rightarrow> settings p = [FastClause] | Inl _ \<Rightarrow> False"
  by code_simp+

theorem combine_is_union_witness:
  "\<exists>c. combine_policies wit_ttl wit_fast = Inr c \<and> combine_policies wit_fast wit_ttl = Inr c \<and>
     set (settings c) = {TtlClause ''all'' ''1h'', FastClause}"
proof -
  obtain p q where "rbind (to_spec wit_ttl) parse_policy = Inr p" "settings p = [TtlClause ''all'' ''1h'']"
    "rbind (to_spec wit_fast) parse_policy = Inr q" "settings q = [FastClause]"
    using wit_reads by (auto split: sum.splits)
  from combine_is_union [OF this(1,3)] this(2,4) show ?thesis by (simp add: insert_commute)
qed

end
