(* ===== verification/Spec2Isabelle.thy ===== *)
theory Spec2Isabelle
  imports Contract Shapley Allocation Residuals Realization Merge Rescope Transitions Pool_Rule Workload Policy_Grammar
begin

text \<open>
  Token Bill profiles what LLM agents cost. It reads transcripts, telemetry, provider bills and admin exports
  into canonical ledger records, merges what several sources say about one request, prices every request from
  rate cards, allocates the cost to teams, reconciles it with invoices, and proposes and verifies savings. The
  program is the Python package \<open>tokenbill/\<close>; its reading and printing surfaces (adapters, commands, outputs)
  surround a core of exact integer and decimal arithmetic, and that core is what this library models. A file
  name below is relative to \<open>src/tokenbill/\<close>.

  \<^bold>\<open>How the parts interact.\<close> An adapter produces records (\<open>core/records.py\<close>, theory \<open>Records\<close>) with normalised
  model ids (\<open>core/models.py\<close>, \<open>Models\<close>). \<open>store/merge.py\<close> (\<open>Merge\<close>) joins the contributions of several
  adapters to one request. \<open>rates/engine.py\<close> (\<open>Rate_Card\<close>, proved in \<open>Pricing\<close>) prices a request with the
  arithmetic of \<open>core/money.py\<close> (\<open>Money\<close>) and returns a labelled figure of \<open>core/labels.py\<close> (\<open>Labels\<close>); for a
  failed request it asks \<open>rates/billing_rules.py\<close> (\<open>Billing_Rules\<close>). Priced requests become cost rows, which
  \<open>finops/allocation.py\<close> (\<open>Allocation\<close>) attributes and splits with the largest-remainder rule (\<open>Apportion\<close>), and
  which \<open>recon/costmap.py\<close> and \<open>recon/residuals.py\<close> (\<open>Residuals\<close>) compare with invoice lines. Findings that
  overlap share their savings by \<open>core/shapley.py\<close> (\<open>Shapley\<close>), and \<open>plan/realization.py\<close> (\<open>Realization\<close>)
  projects the credits as ranged figures, with priors from \<open>core/catalog.py\<close>.

  \<^bold>\<open>Conventions.\<close> A function that may raise returns \<open>'a res\<close>, that is \<open>pyerr + 'a\<close>: \<open>Inl\<close> the class of the
  exception, \<open>Inr\<close> the value. Messages are not modelled. Python's unbounded \<open>int\<close> is \<open>int\<close>, \<open>Fraction\<close> is
  \<open>rat\<close>, a \<open>Decimal\<close> is sign, coefficient and exponent, a \<open>str\<close> is a list of 8-bit characters, a \<open>dict\<close> is an
  insertion-ordered association list with distinct keys (\<open>dset\<close>, \<open>dget\<close>, \<open>dsetdefault\<close>, \<open>group_by_key\<close>).
  \<open>__post_init__\<close> of a frozen dataclass is the \<open>mk_\<close> function of its record; the run-time type checks whose
  outcome the HOL types fix are the typing of the record, all other checks are written out.

  \<^bold>\<open>The theories.\<close>

  \<^item> \<open>Prelude\<close>: the error monad with \<open>rsat\<close> (every value satisfies) and \<open>returns\<close> (a value is returned), the
    dictionaries, decimal digits, the string operations, and the locale \<open>half_even\<close> of a rounded quotient.
  \<^item> \<open>Money\<close>: contexts and operations of the \<open>decimal\<close> module, \<open>token_nano\<close>, \<open>to_nano_with_remainder\<close>, the
    cent and string conversions. Lemmas: one half-even rounding per line, no digit lost by a conversion,
    printing and reading are inverse. \<open>half_even\<close> is interpreted on \<open>div_half_even\<close>.
  \<^item> \<open>Labels\<close>: \<open>mk_figure\<close>, \<open>add\<close>, \<open>sub\<close>, \<open>scale\<close>, \<open>combine_weakest\<close>. Lemmas: every combination of valid
    figures is a valid figure, its range encloses the operands' values, evidence never gets stronger.
  \<^item> \<open>Dates\<close> and \<open>Records\<close>: the calendar, every record of the ledger with its construction check, usage
    addition, the ordering of a lane, the natural keys the store deduplicates by. Lemmas: which keys determine
    their record, and one pair of records that share a key.
  \<^item> \<open>Models\<close>: the regular expressions of model ids as functions, and the loop that collapses dashes. \<open>Billing_Rules\<close>: the failure-mode table.
  \<^item> \<open>Rate_Card\<close>: layers, contract overlay, candidate rows, resolution, price lines, figures, totals, unit
    rates and the two memo tables (\<open>card_state\<close>). \<open>Pricing\<close>: integer pricing equals the decimal reference, a
    figure is the sum of its lines, totals conserve amounts and calls (locale \<open>pricer\<close>), memoisation cannot
    change an answer (locale \<open>bounded_memo\<close>, rule induction over the states that queries reach), unit rates
    reprice exactly.
  \<^item> \<open>Rate_Schema\<close>: rate files (\<open>rates/schema.py\<close>) from the decoded JSON. A layer that loads is unambiguous
    (\<open>loaded_layer_unambiguous\<close>), a card built from loaded layers prices consistently, and command-line price
    overrides that parse always load. \<open>Contract\<close>: contract overlays (\<open>rates/contract.py\<close>); a card under a loaded
    contract prices consistently, managed model pricing survives the import, and contracts are read back except
    for rates below \<open>1E-6\<close>.
  \<^item> \<open>Apportion\<close>: both largest-remainder splits as interpretations of the locale \<open>proportional_split\<close>: the parts
    add up to the whole and each is within one unit of its exact share.
  \<^item> \<open>Shapley\<close>: exact and Monte Carlo credits add up to the rounded grand value; the enumeration is the textbook
    Shapley value \<open>shapley_value\<close>.
  \<^item> \<open>Allocation\<close>: parsed documents contain well-formed rules only, the first matching rule wins, the split of a
    row conserves every column, split markers are read back, nested quantifiers are refused.
  \<^item> \<open>Workload\<close>: the workload classifier (\<open>finops/workload.py\<close>). The integer cadence test is the statistical one, and
    choosing the most confident signal is a cascade in the order of confidence and automation rank.
  \<^item> \<open>Policy_Grammar\<close>: the what-if policies of \<open>core/policy.py\<close>. A policy is, up to order and repetition, a set of
    clauses without conflicts (\<open>denotes\<close>): reading and printing are inverse, combining is the union, and the printer
    can exceed the length the reader accepts.
  \<^item> \<open>Residuals\<close>: claims and unexplained rest add up to the gap (\<open>classify_conserves\<close>).
  \<^item> \<open>Realization\<close>: projections are valid figures for every prior and credit, and their range is the least and the
    greatest of the projected amounts.
  \<^item> \<open>Merge\<close>: the union-find returns (a \<open>partial_function\<close>, so a walk without an end would be \<open>None\<close>), its
    groups are the components of sharing a key, the merged result does not depend on the order of arrival
    (locale \<open>version_choice\<close>), and merging well-formed contributions raises nothing.

  \<^item> \<open>Kanon\<close>: publication of an aggregate for the organisation partitions its raw rows, publishes no group below
    \<open>k\<close> people alone, withholds nothing once one row reaches \<open>k\<close>, and never fails on addable rows (locale
    \<open>cell_invariant\<close>, interpreted on the totals of the cells and on their ranges). \<open>Rescope\<close>: the re-scoping of
    findings publishes only what is exempt or has \<open>k\<close> people and names none, and keeps the length limits of texts
    (locale \<open>merge_closed\<close>: what a merge of findings keeps, re-scoping keeps).

  \<^item> \<open>Cache_Rules\<close>, \<open>Lanes\<close>, \<open>Transitions\<close>: the cache-rule table with its memo, the assembly of lanes (complete and free of
    duplicates per lane key; nothing lost when no two shells share a key), and the classification of cache misses: the single pass of the code equals the documented
    definition over a rate card (\<open>classify_is_definition\<close>), and causes follow the precedence
    (\<open>transitions_explained\<close>). Their memo tables are interpretations of the locale \<open>memo_table\<close>, which
    \<open>bounded_memo\<close> extends.

  \<^item> \<open>Pool_Cells\<close>, \<open>Pool_Rule\<close>: GitHub Copilot's pooled credits (\<open>core/pool.py\<close>). The cell table joins cost lines and
    token aggregates and conserves both, under either token convention; discounts are classified without loss; a realised saving is the invoice
    difference (\<open>realize_is_invoice_delta\<close>) and splits into invoice and headroom; the forecast is an ordered range around the
    observed days; the shared-pool formula stays within the consumption.

  \<^bold>\<open>Termination.\<close> No definition has fuel. Loops over digits, exponents and patterns recurse on a measure that the
    \<open>termination\<close> proofs name; \<open>uf_find\<close> is total on union-find states because parents never exceed their
    children (\<open>uf_find_root\<close>).

  \<^bold>\<open>Parameters.\<close> The regular-expression engine of allocation rules and the SKU matcher (\<open>search\<close>, \<open>re_ok\<close>,
  \<open>fullmatch\<close>), SHA-256 (\<open>digest\<close>), the canonical JSON text of merged values (\<open>codec\<close>), the packaged rule and
  SKU tables, the promotion ids and rates of \<open>core.facts\<close> a rate file may fall back to, the counting queries of the stores and the ellipsis character, and the seeded shuffles of the Monte Carlo credits.

  \<^bold>\<open>Not modelled.\<close> The reflective JSON codec of the records; adapters, the SQLite store, commands, outputs, HTML,
  synthetic data and collection scripts, which are input and output around the core; packaged data files. The
  manifest lists every part of the package with its status.
\<close>

end
